(* ===== verification/Prelude.thy ===== *)
theory Prelude
  imports Main "HOL-Library.Word" "HOL-Library.Monad_Syntax"
begin

text \<open>
  Shared vocabulary of the development. The kernel of the repository is C for a 32-bit
  little-endian MIPS, so a machine word is \<open>u32\<close>, a byte is \<open>u8\<close>, and the memory that
  holds the objects whose address the code takes is a function from word addresses to
  words. Every field of these objects is one word, and a struct is a base address together
  with the byte offsets of its fields.
\<close>

section \<open>Machine types\<close>

type_synonym u8 = "8 word"
type_synonym u32 = "32 word"

text \<open>Word memory: the word stored at an (aligned) byte address.\<close>

type_synonym mem = "u32 \<Rightarrow> u32"

abbreviation NULL :: u32 where
  "NULL \<equiv> 0"

named_theorems layout \<open>offsets of the fields of the C structs\<close>
named_theorems cells \<open>when two cells of memory are the same\<close>

section \<open>Signed 32-bit integers\<close>

text \<open>
  An \<open>int\<close> of the source is a \<open>u32\<close> read as two's complement. C's \<open>/\<close> and \<open>%\<close> truncate
  towards zero.
\<close>

definition sless :: "u32 \<Rightarrow> u32 \<Rightarrow> bool" where
  "sless a b \<longleftrightarrow> sint a < sint b"

definition sleq :: "u32 \<Rightarrow> u32 \<Rightarrow> bool" where
  "sleq a b \<longleftrightarrow> sint a \<le> sint b"

section \<open>Addresses as offsets\<close>

lemma word_of_nat_inj32:
  "x < 2 ^ 32 \<Longrightarrow> y < 2 ^ 32 \<Longrightarrow> (word_of_nat x :: u32) = word_of_nat y \<longleftrightarrow> x = y"
  by (simp add: word_of_nat_eq_iff take_bit_nat_eq_self)

lemma unat_word_diff:
  assumes "x < 2 ^ 32" and "y < 2 ^ 32"
  shows "unat (word_of_nat x - word_of_nat y :: u32) = (if y \<le> x then x - y else x + 2 ^ 32 - y)"
proof -
  have u: "unat (word_of_nat x :: u32) = x" "unat (word_of_nat y :: u32) = y"
    using assms by (simp_all add: unat_of_nat take_bit_nat_eq_self)
  show ?thesis
    using u assms by (simp only: unat_sub_if_size u word_size) simp
qed

text \<open>Small numbers as words.\<close>

lemma unat_word_small: "k < 2 ^ 32 \<Longrightarrow> unat (word_of_nat k :: u32) = k"
  by (simp add: unat_of_nat take_bit_nat_eq_self)

lemma word_div_nat: "k < 2 ^ 32 \<Longrightarrow> (word_of_nat k :: u32) div 8 = word_of_nat (k div 8)"
  by (simp add: word_unat_eq_iff unat_div unat_word_small)

lemma word_mod_nat: "k < 2 ^ 32 \<Longrightarrow> unat ((word_of_nat k :: u32) mod 8) = k mod 8"
  by (simp add: unat_mod_distrib unat_word_small)

lemma sint_word_small: "k < 2 ^ 31 \<Longrightarrow> sint (word_of_nat k :: u32) = int k"
  by (simp add: sint_uint uint_nat unat_word_small signed_take_bit_eq_take_bit_shift take_bit_int_eq_self)

lemma sint_range: "- (2 ^ 31) \<le> sint (v :: u32)" "sint (v :: u32) < 2 ^ 31"
  using sint_ge[of v] sint_lt[of v] by simp_all

lemma sint_nonneg: "0 \<le> sint (v :: u32) \<Longrightarrow> int (unat v) = sint v"
  using sint_range[of v] uint_sint[of v] by (simp add: take_bit_int_eq_self)

lemma sint_neg: "sint (v :: u32) < 0 \<Longrightarrow> int (unat (- v)) = - sint v"
proof -
  assume "sint v < 0"
  moreover have "uint (word_of_int (- sint v) :: u32) = take_bit 32 (- sint v)"
    by (subst uint_word_of_int_eq) simp
  then have "uint (- v) = take_bit 32 (- sint v)" by simp
  ultimately show ?thesis using sint_range[of v] by (simp add: take_bit_int_eq_self)
qed

text \<open>An index into an array of records together with an offset into a record.\<close>

lemma record_split:
  fixes a b i j n :: nat
  assumes "n * i + a = n * j + b" and "a < n" and "b < n"
  shows "i = j \<and> a = b"
proof -
  have "(n * i + a) div n = (n * j + b) div n" and "(n * i + a) mod n = (n * j + b) mod n"
    using assms(1) by simp_all
  with assms(2,3) show ?thesis by simp
qed

section \<open>Ends of a list, with a default\<close>

text \<open>
  The first and the last element of a list, or a default for the empty list: the pointers
  that a queue and a list segment keep to their ends.
\<close>

fun hdd :: "'a \<Rightarrow> 'a list \<Rightarrow> 'a" where
  "hdd d [] = d"
| "hdd d (x # xs) = x"

fun lastd :: "'a \<Rightarrow> 'a list \<Rightarrow> 'a" where
  "lastd d [] = d"
| "lastd d (x # xs) = lastd x xs"

lemma hdd_append: "hdd d (xs @ ys) = hdd (hdd d ys) xs"
  by (cases xs) simp_all

lemma lastd_append [simp]: "lastd d (xs @ ys) = lastd (lastd d xs) ys"
  by (induction xs arbitrary: d) simp_all

lemma hdd_mem: "hdd d xs \<in> insert d (set xs)"
  by (cases xs) simp_all

lemma lastd_mem: "lastd d xs \<in> insert d (set xs)"
  by (induction xs arbitrary: d) auto

lemma hdd_default: "d \<notin> set xs \<Longrightarrow> hdd d xs = d \<longleftrightarrow> xs = []"
  by (cases xs) auto

lemma lastd_nonempty: "xs \<noteq> [] \<Longrightarrow> lastd d xs = last xs"
  by (induction xs arbitrary: d) auto

section \<open>Splitting a list at an element\<close>

lemma in_set_cases:
  assumes "x \<in> set xs"
  obtains (single) "xs = [x]"
    | (head) y ys where "xs = x # y # ys"
    | (tail) ys y where "xs = ys @ [y, x]"
    | (middle) ys y z zs where "xs = ys @ [y, x, z] @ zs"
proof -
  from assms obtain as bs where xs: "xs = as @ x # bs"
    by (auto simp: in_set_conv_decomp)
  show thesis
  proof (cases as rule: rev_cases)
    case Nil
    with xs show thesis by (cases bs) (auto intro: single head)
  next
    case (snoc ys y)
    with xs show thesis by (cases bs) (auto intro: tail middle)
  qed
qed

section \<open>Counting loops\<close>

text \<open>A \<open>for\<close> loop whose body can fail, over the values of its counter.\<close>

fun for_each :: "('i \<Rightarrow> 's \<Rightarrow> 's option) \<Rightarrow> 'i list \<Rightarrow> 's \<Rightarrow> 's option" where
  "for_each body [] s = Some s"
| "for_each body (i # is) s = do { s \<leftarrow> body i s; for_each body is s }"

lemma for_each_append: "for_each f (xs @ ys) s = do { s \<leftarrow> for_each f xs s; for_each f ys s }"
  by (induction xs arbitrary: s) (auto split: bind_splits)

lemma for_each_map: "for_each f (map g xs) s = for_each (\<lambda>i. f (g i)) xs s"
  by (induction xs arbitrary: s) (auto split: bind_splits)

lemma for_each_cong:
  "(\<And>i s. i \<in> set xs \<Longrightarrow> f i s = g i s) \<Longrightarrow> for_each f xs s = for_each g xs s"
  by (induction xs arbitrary: s) (auto split: bind_splits)

text \<open>The rule of the loop invariant.\<close>

lemma for_each_upt:
  assumes "a \<le> b" and "P a s"
    and "\<And>k s. a \<le> k \<Longrightarrow> k < b \<Longrightarrow> P k s \<Longrightarrow> \<exists>s'. body k s = Some s' \<and> P (Suc k) s'"
  shows "\<exists>s'. for_each body [a..<b] s = Some s' \<and> P b s'"
  using assms
proof (induction b)
  case (Suc b)
  show ?case
  proof (cases "a = Suc b")
    case False
    then have "a \<le> b" using Suc(2) by simp
    moreover from this obtain s1 where "for_each body [a..<b] s = Some s1" "P b s1"
      using Suc by auto
    moreover from this obtain s2 where "body b s1 = Some s2" "P (Suc b) s2"
      using Suc(4)[of b s1] \<open>a \<le> b\<close> by auto
    ultimately show ?thesis by (simp add: for_each_append)
  qed (use Suc in simp)
qed simp

text \<open>Two nested loops over the rows and the columns of an array of lines of \<open>w\<close> elements are
  one loop over the elements of the array.\<close>

lemma for_each_rows:
  assumes "0 < (w :: nat)"
  shows "for_each (\<lambda>i. for_each (\<lambda>j. f i j) [0..<w]) [a..<b] s =
    for_each (\<lambda>k. f (k div w) (k mod w)) [a * w..<b * w] s"
proof (induction b arbitrary: s)
  case (Suc b)
  show ?case
  proof (cases "a \<le> b")
    case True
    then have sp: "[a * w..<Suc b * w] = [a * w..<b * w] @ map (\<lambda>j. j + b * w) [0..<w]"
      using upt_add_eq_append[of "a * w" "b * w" w] by (simp add: add.commute map_add_upt)
    have row: "for_each (\<lambda>j. f (b + j div w) (j mod w)) [0..<w] s = for_each (f b) [0..<w] s" for s
      by (rule for_each_cong) simp
    show ?thesis unfolding sp using True Suc assms row
      by (auto simp: for_each_append for_each_map split: bind_splits)
  next
    case False
    then have "Suc b * w \<le> a * w" by (intro mult_le_mono1) simp
    then show ?thesis using False by (simp only: upt_conv_Nil for_each.simps not_le Suc_leI)
  qed
qed simp

end
