(* ===== verification/Queue.thy ===== *)
theory Queue
  imports Prelude
begin

text \<open>
  \<^verbatim>\<open>kernel/sched/queue.c\<close>: intrusive doubly linked queues. A \<open>queue_t\<close> is two words
  (head, tail); an item is linked through the fields \<open>prev\<close> and \<open>next\<close> that the
  source reaches through the cast \<open>item_t = pcb_t\<close>, whatever the item really is.
\<close>

section \<open>Layout\<close>

text \<open>
  \<open>queue_t\<close> of \<^verbatim>\<open>include/os/queue.h\<close>, and the two link fields of
  \<open>pcb_t\<close> (\<^verbatim>\<open>include/os/sched.h\<close>), which follow two register contexts of 156 bytes and
  two stack tops.
\<close>

definition queue_head :: u32 where
  queue_head_def [layout]: "queue_head = 0"

definition queue_tail :: u32 where
  queue_tail_def [layout]: "queue_tail = 4"

definition pcb_prev :: u32 where
  pcb_prev_def [layout]: "pcb_prev = 320"

definition pcb_next :: u32 where
  pcb_next_def [layout]: "pcb_next = 324"

lemma queue_offsets [simp]:
  "queue_head \<noteq> queue_tail" "queue_tail \<noteq> queue_head" "pcb_prev \<noteq> pcb_next" "pcb_next \<noteq> pcb_prev"
  by (simp_all add: layout)

section \<open>Operations\<close>

definition queue_init :: "mem \<Rightarrow> u32 \<Rightarrow> mem" where
  "queue_init m q = m(q + queue_tail := NULL, q + queue_head := NULL)"

definition queue_is_empty :: "mem \<Rightarrow> u32 \<Rightarrow> bool" where
  "queue_is_empty m q \<longleftrightarrow> m (q + queue_head) = NULL"

definition queue_push :: "mem \<Rightarrow> u32 \<Rightarrow> u32 \<Rightarrow> mem" where
  "queue_push m q item =
    (if m (q + queue_head) = NULL then
       let m = m(q + queue_head := item);
           m = m(q + queue_tail := item);
           m = m(item + pcb_next := NULL)
       in m(item + pcb_prev := NULL)
     else
       let m = m(m (q + queue_tail) + pcb_next := item);
           m = m(item + pcb_next := NULL);
           m = m(item + pcb_prev := m (q + queue_tail))
       in m(q + queue_tail := item))"

definition queue_dequeue :: "mem \<Rightarrow> u32 \<Rightarrow> u32 \<times> mem" where
  "queue_dequeue m q =
    (let temp = m (q + queue_head) in
     if temp = NULL then (NULL, m)
     else
       let m = (if m (temp + pcb_next) = NULL then
                  m(q + queue_tail := NULL, q + queue_head := NULL)
                else
                  let m = m(q + queue_head := m (m (q + queue_head) + pcb_next))
                  in m(m (q + queue_head) + pcb_prev := NULL));
           m = m(temp + pcb_prev := NULL);
           m = m(temp + pcb_next := NULL)
       in (temp, m))"

text \<open>
  \<open>queue_remove\<close> takes the address of the global array \<open>pcb\<close> too: the last branch of the
  source goes through \<open>pcb->next\<close>, which is \<open>pcb[0].next\<close>, and not through the item.
\<close>

definition queue_remove :: "u32 \<Rightarrow> mem \<Rightarrow> u32 \<Rightarrow> u32 \<Rightarrow> u32 \<times> mem" where
  "queue_remove pcb m q item =
    (let nxt = m (item + pcb_next);
         m = (if item = m (q + queue_head) \<and> item = m (q + queue_tail) then
                let m = m(q + queue_head := NULL)
                in m(q + queue_tail := NULL)
              else if item = m (q + queue_head) then
                let m = m(q + queue_head := m (item + pcb_next))
                in m(m (q + queue_head) + pcb_prev := NULL)
              else if item = m (q + queue_tail) then
                let m = m(q + queue_tail := m (item + pcb_prev))
                in m(m (q + queue_tail) + pcb_next := NULL)
              else
                let m = m(m (item + pcb_prev) + pcb_next := m (item + pcb_next))
                in m(m (pcb + pcb_next) + pcb_prev := m (item + pcb_prev)));
         m = m(item + pcb_prev := NULL);
         m = m(item + pcb_next := NULL)
     in (nxt, m))"

text \<open>The loop of \<open>queue_has\<close> follows \<open>next\<close> until the tail: on a corrupted queue it may
  not end, which is the result \<open>None\<close>.\<close>

partial_function (option) queue_has_loop :: "mem \<Rightarrow> u32 \<Rightarrow> u32 \<Rightarrow> u32 \<Rightarrow> bool option" where
  "queue_has_loop m q item iterator =
    (if iterator \<noteq> m (q + queue_tail) then
       if iterator = NULL then Some False
       else if iterator = item then Some True
       else queue_has_loop m q item (m (iterator + pcb_next))
     else Some (iterator = item))"

definition queue_has :: "mem \<Rightarrow> u32 \<Rightarrow> u32 \<Rightarrow> bool option" where
  "queue_has m q item = queue_has_loop m q item (m (q + queue_head))"

section \<open>What a queue holds\<close>

text \<open>
  \<open>links m p xs n\<close>: the items \<open>xs\<close> are a segment chained in both directions, entered
  from \<open>p\<close> and left to \<open>n\<close>. \<open>fwd m xs\<close> is the forward half alone, which is all
  that \<open>queue_dequeue\<close> and \<open>queue_has\<close> follow.
\<close>

fun links :: "mem \<Rightarrow> u32 \<Rightarrow> u32 list \<Rightarrow> u32 \<Rightarrow> bool" where
  "links m p [] n \<longleftrightarrow> True"
| "links m p (x # xs) n \<longleftrightarrow>
     x \<noteq> NULL \<and> m (x + pcb_prev) = p \<and> m (x + pcb_next) = hdd n xs \<and> links m x xs n"

fun fwd :: "mem \<Rightarrow> u32 list \<Rightarrow> u32 \<Rightarrow> bool" where
  "fwd m [] n \<longleftrightarrow> True"
| "fwd m (x # xs) n \<longleftrightarrow> x \<noteq> NULL \<and> m (x + pcb_next) = hdd n xs \<and> fwd m xs n"

definition queue_rep :: "mem \<Rightarrow> u32 \<Rightarrow> u32 list \<Rightarrow> bool" where
  "queue_rep m q xs \<longleftrightarrow>
     distinct xs \<and> links m NULL xs NULL \<and>
     m (q + queue_head) = hdd NULL xs \<and> m (q + queue_tail) = lastd NULL xs"

definition queue_fwd :: "mem \<Rightarrow> u32 \<Rightarrow> u32 list \<Rightarrow> bool" where
  "queue_fwd m q xs \<longleftrightarrow>
     distinct xs \<and> fwd m xs NULL \<and>
     m (q + queue_head) = hdd NULL xs \<and> m (q + queue_tail) = lastd NULL xs"

text \<open>
  The cells of a queue that holds \<open>xs\<close>, and the condition under which no two cells that
  an operation on it touches overlap.
\<close>

definition queue_cells :: "u32 \<Rightarrow> u32 set \<Rightarrow> u32 set" where
  "queue_cells q X =
     {q + queue_head, q + queue_tail} \<union> (\<lambda>x. x + pcb_prev) ` X \<union> (\<lambda>x. x + pcb_next) ` X"

definition queue_sep :: "u32 \<Rightarrow> u32 set \<Rightarrow> bool" where
  "queue_sep q X \<longleftrightarrow>
     (\<forall>x \<in> X. \<forall>y \<in> X. x + pcb_prev \<noteq> y + pcb_next) \<and>
     (\<forall>x \<in> X. x + pcb_prev \<noteq> q + queue_head \<and> x + pcb_prev \<noteq> q + queue_tail \<and>
               x + pcb_next \<noteq> q + queue_head \<and> x + pcb_next \<noteq> q + queue_tail)"

section \<open>Segments\<close>

lemma links_append:
  "links m p (xs @ ys) n \<longleftrightarrow> links m p xs (hdd n ys) \<and> links m (lastd p xs) ys n"
  by (induction xs arbitrary: p) (auto simp: hdd_append)

lemma fwd_append:
  "fwd m (xs @ ys) n \<longleftrightarrow> fwd m xs (hdd n ys) \<and> fwd m ys n"
  by (induction xs) (auto simp: hdd_append)

lemma links_NULL: "links m p xs n \<Longrightarrow> NULL \<notin> set xs"
  by (induction xs arbitrary: p) auto

lemma fwd_NULL: "fwd m xs n \<Longrightarrow> NULL \<notin> set xs"
  by (induction xs) auto

lemma links_fwd: "links m p xs n \<Longrightarrow> fwd m xs n"
  by (induction xs arbitrary: p) auto

lemma queue_rep_fwd: "queue_rep m q xs \<Longrightarrow> queue_fwd m q xs"
  by (auto simp: queue_rep_def queue_fwd_def dest: links_fwd)

text \<open>Writing a cell that is no link of the segment keeps it.\<close>

lemma links_upd [simp]:
  "\<forall>x \<in> set xs. a \<noteq> x + pcb_prev \<and> a \<noteq> x + pcb_next \<Longrightarrow>
   links (m(a := v)) p xs n = links m p xs n"
  by (induction xs arbitrary: p) auto

lemma fwd_upd [simp]:
  "\<forall>x \<in> set xs. a \<noteq> x + pcb_next \<Longrightarrow> fwd (m(a := v)) xs n = fwd m xs n"
  by (induction xs) auto

lemma links_upd_prev [simp]:
  "x \<notin> set xs \<Longrightarrow> \<forall>y \<in> set xs. x + pcb_prev \<noteq> y + pcb_next \<Longrightarrow>
   links (m(x + pcb_prev := v)) p xs n = links m p xs n"
  by (rule links_upd) auto

lemma links_upd_next [simp]:
  "x \<notin> set xs \<Longrightarrow> \<forall>y \<in> set xs. x + pcb_next \<noteq> y + pcb_prev \<Longrightarrow>
   links (m(x + pcb_next := v)) p xs n = links m p xs n"
  by (rule links_upd) auto

lemma fwd_upd_next [simp]:
  "x \<notin> set xs \<Longrightarrow> fwd (m(x + pcb_next := v)) xs n = fwd m xs n"
  by (rule fwd_upd) auto

lemma links_cong:
  "(\<And>x. x \<in> set xs \<Longrightarrow> m' (x + pcb_prev) = m (x + pcb_prev) \<and> m' (x + pcb_next) = m (x + pcb_next)) \<Longrightarrow>
   links m' p xs n = links m p xs n"
  by (induction xs arbitrary: p) auto

lemma queue_rep_cong:
  assumes "\<And>a. a \<in> queue_cells q (set xs) \<Longrightarrow> m' a = m a"
  shows "queue_rep m' q xs = queue_rep m q xs"
proof -
  have "links m' NULL xs NULL = links m NULL xs NULL"
    by (rule links_cong) (simp add: assms queue_cells_def)
  then show ?thesis
    by (simp add: queue_rep_def assms queue_cells_def)
qed


text \<open>The separation condition with every disequality in both orientations, for the simplifier.\<close>

lemma queue_sep_iff:
  "queue_sep q X \<longleftrightarrow>
     (\<forall>x \<in> X. \<forall>y \<in> X. x + pcb_prev \<noteq> y + pcb_next) \<and>
     (\<forall>x \<in> X. \<forall>y \<in> X. y + pcb_next \<noteq> x + pcb_prev) \<and>
     (\<forall>x \<in> X. x + pcb_prev \<noteq> q + queue_head) \<and> (\<forall>x \<in> X. q + queue_head \<noteq> x + pcb_prev) \<and>
     (\<forall>x \<in> X. x + pcb_prev \<noteq> q + queue_tail) \<and> (\<forall>x \<in> X. q + queue_tail \<noteq> x + pcb_prev) \<and>
     (\<forall>x \<in> X. x + pcb_next \<noteq> q + queue_head) \<and> (\<forall>x \<in> X. q + queue_head \<noteq> x + pcb_next) \<and>
     (\<forall>x \<in> X. x + pcb_next \<noteq> q + queue_tail) \<and> (\<forall>x \<in> X. q + queue_tail \<noteq> x + pcb_next)"
  unfolding queue_sep_def by (safe; metis)

lemma queue_sep_subset: "queue_sep q Y \<Longrightarrow> X \<subseteq> Y \<Longrightarrow> queue_sep q X"
  by (auto simp: queue_sep_def)

text \<open>Redirecting the ends of a segment.\<close>

lemma links_set_next:
  assumes "links m p (xs @ [x]) n" and "distinct (xs @ [x])" and "queue_sep q (set (xs @ [x]))"
  shows "links (m(x + pcb_next := v)) p (xs @ [x]) v"
  using assms by (auto simp: links_append queue_sep_iff)

lemma links_set_prev:
  assumes "links m p (x # xs) n" and "distinct (x # xs)" and "queue_sep q (set (x # xs))"
  shows "links (m(x + pcb_prev := v)) v (x # xs) n"
  using assms by (auto simp: queue_sep_iff)

section \<open>Refinement: each operation against lists\<close>

lemma queue_init_rep: "queue_rep (queue_init m q) q []"
  by (simp add: queue_rep_def queue_init_def)

lemma queue_is_empty_rep: "queue_rep m q xs \<Longrightarrow> queue_is_empty m q \<longleftrightarrow> xs = []"
  by (auto simp: queue_rep_def queue_is_empty_def hdd_default dest: links_NULL)

lemma queue_push_rep:
  assumes rep: "queue_rep m q xs" and sep: "queue_sep q (insert x (set xs))"
    and x: "x \<notin> set xs" "x \<noteq> NULL"
  shows "queue_rep (queue_push m q x) q (xs @ [x])"
proof (cases xs rule: rev_cases)
  case Nil
  with rep sep x show ?thesis
    by (simp add: queue_rep_def queue_push_def queue_sep_iff)
next
  case (snoc ys y)
  have "m (q + queue_head) \<noteq> NULL"
    using rep snoc hdd_mem[of y ys] by (auto simp: queue_rep_def hdd_append dest: links_NULL)
  with rep sep x snoc show ?thesis
    by (auto simp: queue_rep_def queue_push_def Let_def queue_sep_iff links_append hdd_append)
qed

lemma queue_dequeue_rep:
  assumes rep: "queue_rep m q (x # xs)" and sep: "queue_sep q (set (x # xs))"
  shows "fst (queue_dequeue m q) = x \<and> queue_rep (snd (queue_dequeue m q)) q xs"
  using rep sep
  by (cases xs) (auto simp: queue_rep_def queue_dequeue_def Let_def queue_sep_iff)

lemma queue_dequeue_empty: "queue_rep m q [] \<Longrightarrow> queue_dequeue m q = (NULL, m)"
  by (simp add: queue_rep_def queue_dequeue_def)

text \<open>
  Taking an item out works at either end and on a queue of one item, and hands back the
  item that followed.
\<close>

lemma queue_remove_end_rep:
  assumes rep: "queue_rep m q xs" and sep: "queue_sep q (set xs)"
    and x: "x \<in> set xs" "x = hdd NULL xs \<or> x = lastd NULL xs"
  shows "queue_rep (snd (queue_remove pcb m q x)) q (remove1 x xs)"
  using x(1)
proof (cases rule: in_set_cases)
  case single
  with rep sep show ?thesis
    by (simp add: queue_rep_def queue_remove_def Let_def queue_sep_iff)
next
  case (head y ys)
  then have "lastd y ys \<noteq> x"
    using rep lastd_mem[of y ys] by (auto simp: queue_rep_def)
  with head rep sep show ?thesis
    by (auto simp: queue_rep_def queue_remove_def Let_def queue_sep_iff)
next
  case (tail ys y)
  then have "hdd y ys \<noteq> x" and "remove1 x xs = ys @ [y]"
    using rep hdd_mem[of y ys] by (auto simp: queue_rep_def remove1_append)
  with tail rep sep show ?thesis
    by (auto simp: queue_rep_def queue_remove_def Let_def queue_sep_iff links_append hdd_append)
next
  case (middle ys y z zs)
  with rep x(2) have False
    using hdd_mem[of y ys] lastd_mem[of z zs] by (auto simp: queue_rep_def hdd_append)
  then show ?thesis ..
qed

lemma queue_remove_next: "fst (queue_remove pcb m q x) = m (x + pcb_next)"
  by (simp add: queue_remove_def Let_def)

text \<open>
  In the middle of a queue the forward chain is repaired. The back link that the source
  rewrites is the one of \<open>pcb[0].next\<close>, so the successor of the removed item keeps
  pointing back at it.
\<close>

lemma queue_remove_middle_fwd:
  assumes rep: "queue_rep m q xs" and xs: "xs = ys @ [y, x, z] @ zs"
    and w: "w = (m(y + pcb_next := z)) (pcb + pcb_next)"
    and sep: "queue_sep q (insert w (set xs))"
  shows "queue_fwd (snd (queue_remove pcb m q x)) q (remove1 x xs)"
    and "w \<noteq> z \<Longrightarrow> snd (queue_remove pcb m q x) (z + pcb_prev) = x"
    and "w \<noteq> x \<Longrightarrow> snd (queue_remove pcb m q x) (w + pcb_prev) = y"
proof -
  let ?m = "m(y + pcb_next := z, w + pcb_prev := y, x + pcb_prev := NULL, x + pcb_next := NULL)"
  have d: "distinct (ys @ [y, x, z] @ zs)" and l: "links m NULL xs NULL"
    and h: "m (q + queue_head) = hdd y ys" and t: "m (q + queue_tail) = lastd z zs"
    using rep xs by (simp_all add: queue_rep_def hdd_append)
  have ne: "x \<noteq> hdd y ys" "x \<noteq> lastd z zs" and rem: "remove1 x xs = ys @ [y, z] @ zs"
    using d xs hdd_mem[of y ys] lastd_mem[of z zs] by (auto simp: remove1_append)
  have xy: "m (x + pcb_prev) = y" and xz: "m (x + pcb_next) = z" and zx: "m (z + pcb_prev) = x"
    using l xs by (simp_all add: links_append)
  have yw: "y + pcb_next \<noteq> x + pcb_prev" "y + pcb_next \<noteq> w + pcb_prev"
    "z + pcb_prev \<noteq> y + pcb_next" "w + pcb_prev \<noteq> x + pcb_next"
    using sep xs by (auto simp: queue_sep_iff)
  have eq: "snd (queue_remove pcb m q x) = ?m"
    unfolding queue_remove_def Let_def
    using h t ne xy xz yw w by simp
  show "queue_fwd (snd (queue_remove pcb m q x)) q (remove1 x xs)"
    unfolding eq rem using links_fwd[OF l] xs d h t sep
    by (auto simp: queue_fwd_def fwd_append hdd_append queue_sep_iff)
  show "w \<noteq> z \<Longrightarrow> snd (queue_remove pcb m q x) (z + pcb_prev) = x"
    unfolding eq using zx d yw sep xs by (auto simp: queue_sep_iff)
  show "w \<noteq> x \<Longrightarrow> snd (queue_remove pcb m q x) (w + pcb_prev) = y"
    unfolding eq using yw by auto
qed

section \<open>Membership\<close>

lemma queue_has_loop_fwd:
  assumes "fwd m (x # xs) NULL" and "distinct (x # xs)" and "m (q + queue_tail) = lastd x xs"
  shows "queue_has_loop m q item x = Some (item \<in> set (x # xs))"
  using assms
proof (induction xs arbitrary: x)
  case Nil
  then show ?case by (auto simp: queue_has_loop.simps)
next
  case (Cons y ys)
  then have "x \<noteq> m (q + queue_tail)"
    using lastd_mem[of y ys] by auto
  with Cons show ?case
    by (subst queue_has_loop.simps) auto
qed

lemma queue_has_fwd:
  assumes "queue_fwd m q xs" and "item \<noteq> NULL"
  shows "queue_has m q item = Some (item \<in> set xs)"
proof (cases xs)
  case Nil
  with assms show ?thesis
    by (simp add: queue_fwd_def queue_has_def queue_has_loop.simps)
next
  case (Cons y ys)
  with assms(1) show ?thesis
    using queue_has_loop_fwd[of m y ys q item] by (auto simp: queue_has_def queue_fwd_def)
qed

section \<open>Frame: what an operation leaves alone\<close>

lemma queue_push_frame:
  assumes "queue_rep m q xs" and "a \<notin> queue_cells q (insert x (set xs))"
  shows "queue_push m q x a = m a"
proof (cases xs rule: rev_cases)
  case Nil
  with assms show ?thesis
    by (simp add: queue_push_def queue_rep_def queue_cells_def)
next
  case (snoc ys y)
  have "m (q + queue_head) \<noteq> NULL"
    using assms(1) snoc hdd_mem[of y ys] by (auto simp: queue_rep_def hdd_append dest: links_NULL)
  with assms snoc show ?thesis
    by (simp add: queue_push_def queue_rep_def queue_cells_def Let_def)
qed

lemma queue_dequeue_frame:
  assumes "queue_rep m q xs" and "a \<notin> queue_cells q (set xs)"
  shows "snd (queue_dequeue m q) a = m a"
proof (cases xs)
  case Nil
  with assms show ?thesis by (simp add: queue_dequeue_empty)
next
  case (Cons x ys)
  with assms show ?thesis
    by (cases ys) (auto simp: queue_dequeue_def queue_rep_def queue_cells_def Let_def)
qed

lemma queue_remove_end_frame:
  assumes rep: "queue_rep m q xs" and x: "x \<in> set xs" "x = hdd NULL xs \<or> x = lastd NULL xs"
    and sep: "queue_sep q (set xs)" and a: "a \<notin> queue_cells q (set xs)"
  shows "snd (queue_remove pcb m q x) a = m a"
  using x(1)
proof (cases rule: in_set_cases)
  case single
  with rep a show ?thesis
    by (simp add: queue_rep_def queue_remove_def Let_def queue_cells_def)
next
  case (head y ys)
  then have "lastd y ys \<noteq> x"
    using rep lastd_mem[of y ys] by (auto simp: queue_rep_def)
  with head rep a show ?thesis
    by (simp add: queue_rep_def queue_remove_def Let_def queue_cells_def)
next
  case (tail ys y)
  then have "hdd y ys \<noteq> x"
    using rep hdd_mem[of y ys] by (auto simp: queue_rep_def)
  with tail rep a show ?thesis
    by (simp add: queue_rep_def queue_remove_def Let_def queue_cells_def links_append hdd_append)
next
  case (middle ys y z zs)
  with rep x(2) have False
    using hdd_mem[of y ys] lastd_mem[of z zs] by (auto simp: queue_rep_def hdd_append)
  then show ?thesis ..
qed

section \<open>The interface of a queue\<close>

text \<open>
  What the clients of \<^verbatim>\<open>queue.c\<close> rely on, for any representation of queues in a
  memory: a queue holds a list, initialising empties it, pushing appends, dequeueing takes
  the first item. \<open>take_out\<close> is a run of \<open>n\<close> dequeues.
\<close>

fun take_out :: "('m \<Rightarrow> 'q \<Rightarrow> 'a \<times> 'm) \<Rightarrow> nat \<Rightarrow> 'm \<Rightarrow> 'q \<Rightarrow> 'a list \<times> 'm" where
  "take_out deq 0 m q = ([], m)"
| "take_out deq (Suc n) m q =
     (let (x, m1) = deq m q; (xs, m2) = take_out deq n m1 q in (x # xs, m2))"

locale fifo_queue =
  fixes rep :: "'m \<Rightarrow> 'q \<Rightarrow> 'a list \<Rightarrow> bool"
    and sep :: "'q \<Rightarrow> 'a set \<Rightarrow> bool"
    and init :: "'m \<Rightarrow> 'q \<Rightarrow> 'm"
    and push :: "'m \<Rightarrow> 'q \<Rightarrow> 'a \<Rightarrow> 'm"
    and dequeue :: "'m \<Rightarrow> 'q \<Rightarrow> 'a \<times> 'm"
    and null :: 'a
  assumes init_empty: "rep (init m q) q []"
    and push_last: "rep m q xs \<Longrightarrow> sep q (insert x (set xs)) \<Longrightarrow> x \<notin> set xs \<Longrightarrow> x \<noteq> null \<Longrightarrow>
      rep (push m q x) q (xs @ [x])"
    and dequeue_first: "rep m q (x # xs) \<Longrightarrow> sep q (set (x # xs)) \<Longrightarrow>
      fst (dequeue m q) = x \<and> rep (snd (dequeue m q)) q xs"
    and dequeue_none: "rep m q [] \<Longrightarrow> dequeue m q = (null, m)"
    and sep_mono: "sep q Y \<Longrightarrow> X \<subseteq> Y \<Longrightarrow> sep q X"
begin

lemma push_all:
  "rep m q ys \<Longrightarrow> sep q (set (ys @ xs)) \<Longrightarrow> distinct (ys @ xs) \<Longrightarrow> null \<notin> set xs \<Longrightarrow>
   rep (fold (\<lambda>x m. push m q x) xs m) q (ys @ xs)"
proof (induction xs arbitrary: m ys)
  case Nil
  then show ?case by simp
next
  case (Cons x xs)
  have "sep q (insert x (set ys))"
    using Cons.prems(2) by (rule sep_mono) auto
  with Cons.prems have "rep (push m q x) q (ys @ [x])"
    by (intro push_last) auto
  then show ?case
    using Cons.IH[of "push m q x" "ys @ [x]"] Cons.prems by simp
qed

lemma take_out_all:
  "rep m q (xs @ ys) \<Longrightarrow> sep q (set (xs @ ys)) \<Longrightarrow>
   fst (take_out dequeue (length xs) m q) = xs \<and> rep (snd (take_out dequeue (length xs) m q)) q ys"
proof (induction xs arbitrary: m)
  case Nil
  then show ?case by simp
next
  case (Cons x xs)
  have "fst (dequeue m q) = x \<and> rep (snd (dequeue m q)) q (xs @ ys)"
    using Cons.prems by (intro dequeue_first) simp_all
  moreover have "sep q (set (xs @ ys))"
    using Cons.prems(2) by (rule sep_mono) auto
  ultimately show ?case
    using Cons.IH[of "snd (dequeue m q)"] by (auto simp: case_prod_beta Let_def)
qed

theorem first_in_first_out:
  assumes "sep q (set xs)" and "distinct xs" and "null \<notin> set xs"
  shows "fst (take_out dequeue (length xs) (fold (\<lambda>x m. push m q x) xs (init m q)) q) = xs"
  using push_all[OF init_empty, of q xs m] assms take_out_all[of _ q xs "[]"] by simp

end

interpretation kq: fifo_queue queue_rep queue_sep queue_init queue_push queue_dequeue NULL
  by unfold_locales
     (auto intro: queue_init_rep queue_push_rep queue_sep_subset
           dest: queue_dequeue_rep queue_dequeue_empty)

section \<open>Properties\<close>

text \<open>
  A queue is first in, first out: distinct items pushed on a fresh queue come back from
  \<open>queue_dequeue\<close> in the order of the pushes.
\<close>

theorem queue_is_fifo:
  assumes "queue_sep q (set xs)" and "distinct xs" and "NULL \<notin> set xs"
  shows "fst (take_out queue_dequeue (length xs) (fold (\<lambda>x m. queue_push m q x) xs (queue_init m q)) q) = xs"
  using assms by (rule kq.first_in_first_out)

lemma sample_sep: "queue_sep 0x100 {0x1000, 0x2000, 0x3000, 0x4000}"
  by (simp add: queue_sep_def layout)

theorem queue_is_fifo_witness:
  "fst (take_out queue_dequeue 3
     (fold (\<lambda>x m. queue_push m 0x100 x) [0x1000, 0x2000, 0x3000] (queue_init (\<lambda>_. 7) 0x100)) 0x100) =
   [0x1000, 0x2000, 0x3000]"
  using queue_is_fifo[of "0x100" "[0x1000, 0x2000, 0x3000]" "\<lambda>_. 7"] queue_sep_subset[OF sample_sep]
  by (simp add: numeral_3_eq_3)

text \<open>
  C11: One operation at a time, against lists: \<open>queue_push\<close> appends an item that is not
  in the queue, \<open>queue_dequeue\<close> hands out the first item and leaves the rest (or \<open>NULL\<close>,
  with the memory as it was, for an empty queue), \<open>queue_is_empty\<close> tells whether the list is
  empty, and neither writes outside the queue's own cells and the links of its items.
\<close>

theorem queue_refines_list:
  assumes "queue_rep m q xs" and "queue_sep q (insert x (set xs))" and "x \<notin> set xs" and "x \<noteq> NULL"
  shows "queue_is_empty m q = (xs = []) \<and>
    queue_rep (queue_push m q x) q (xs @ [x]) \<and>
    (case xs of [] \<Rightarrow> queue_dequeue m q = (NULL, m)
     | y # ys \<Rightarrow> fst (queue_dequeue m q) = y \<and> queue_rep (snd (queue_dequeue m q)) q ys) \<and>
    (\<forall>a. a \<notin> queue_cells q (insert x (set xs)) \<longrightarrow>
       queue_push m q x a = m a \<and> snd (queue_dequeue m q) a = m a)"
proof -
  have "queue_sep q (set xs)" using assms(2) by (rule queue_sep_subset) auto
  moreover have "a \<notin> queue_cells q (set xs)" if "a \<notin> queue_cells q (insert x (set xs))" for a
    using that by (auto simp: queue_cells_def)
  ultimately show ?thesis
    using assms queue_is_empty_rep queue_push_rep queue_push_frame queue_dequeue_frame
    by (auto simp: queue_dequeue_empty dest: queue_dequeue_rep split: list.split)
qed

lemma sample_queue:
  "queue_rep (fold (\<lambda>x m. queue_push m 0x100 x) [0x1000, 0x2000, 0x3000] (queue_init (\<lambda>_. 7) 0x100)) 0x100
     [0x1000, 0x2000, 0x3000]"
  using kq.push_all[OF queue_init_rep, of "0x100" "[0x1000, 0x2000, 0x3000]" "\<lambda>_. 7"] queue_sep_subset[OF sample_sep]
  by simp

theorem queue_refines_list_witness:
  "\<exists>m. queue_rep (queue_push m 0x100 0x4000) 0x100 [0x1000, 0x2000, 0x3000, 0x4000]"
proof -
  have "insert 0x4000 (set [0x1000, 0x2000, 0x3000]) = {0x1000, 0x2000, 0x3000, 0x4000 :: u32}" by auto
  then show ?thesis
    using queue_refines_list[OF sample_queue, of "0x4000"] sample_sep by auto
qed

text \<open>
  \<open>queue_remove\<close> at either end of a queue, and on a queue of one item, takes the item out
  and keeps the queue well formed; it returns the item that followed.
\<close>

theorem queue_remove_at_ends:
  assumes "queue_rep m q xs" and "queue_sep q (set xs)" and "x \<in> set xs"
    and "x = hd xs \<or> x = last xs"
  shows "queue_rep (snd (queue_remove pcb m q x)) q (remove1 x xs) \<and>
    fst (queue_remove pcb m q x) = m (x + pcb_next)"
proof -
  have "x = hdd NULL xs \<or> x = lastd NULL xs"
    using assms(3,4) by (cases xs) (auto simp: lastd_nonempty)
  then show ?thesis
    using queue_remove_end_rep[OF assms(1,2,3)] queue_remove_next by simp
qed

theorem queue_remove_at_ends_witness:
  "\<exists>m m'. queue_rep m 0x100 [0x1000, 0x2000, 0x3000] \<and>
    snd (queue_remove 0x9000 m 0x100 0x3000) = m' \<and> queue_rep m' 0x100 [0x1000, 0x2000]"
  using queue_remove_at_ends[OF sample_queue, of "0x3000" "0x9000"] queue_sep_subset[OF sample_sep] sample_queue
  by auto

text \<open>
  In the middle of a queue, \<open>queue_remove\<close> unlinks the item forwards, but the back link
  it rewrites is that of \<open>pcb[0].next\<close>: unless that happens to be the successor, the
  successor goes on pointing back at the item that was removed.
\<close>

theorem queue_remove_in_middle:
  assumes "queue_rep m q xs" and "xs = ys @ [y, x, z] @ zs"
    and "w = m (pcb + pcb_next)" and "pcb \<noteq> y" and "w \<noteq> z"
    and "queue_sep q (insert w (set xs))"
  shows "queue_fwd (snd (queue_remove pcb m q x)) q (remove1 x xs) \<and>
    snd (queue_remove pcb m q x) (z + pcb_prev) = x \<and> \<not> queue_rep (snd (queue_remove pcb m q x)) q (remove1 x xs)"
proof -
  have w: "w = (m(y + pcb_next := z)) (pcb + pcb_next)"
    using assms(3,4) by simp
  note mid = queue_remove_middle_fwd[OF assms(1,2) w assms(6)]
  have "distinct xs" using assms(1) by (simp add: queue_rep_def)
  then have rem: "remove1 x xs = (ys @ [y]) @ z # zs" "y \<noteq> x"
    using assms(2) by (auto simp: remove1_append)
  have "\<not> queue_rep m' q ((ys @ [y]) @ z # zs)" if "m' (z + pcb_prev) = x" for m'
    using that rem(2) by (auto simp: queue_rep_def links_append)
  then show ?thesis
    using mid(1) mid(2)[OF assms(5)] rem(1) by simp
qed

theorem queue_remove_in_middle_witness:
  "\<exists>m. queue_rep m 0x100 [0x1000, 0x2000, 0x3000] \<and>
     \<not> queue_rep (snd (queue_remove 0x9000 m 0x100 0x2000)) 0x100 [0x1000, 0x3000]"
proof -
  define m where "m = fold (\<lambda>x m. queue_push m 0x100 x) [0x1000, 0x2000, 0x3000] (queue_init (\<lambda>_. 7) 0x100)"
  have m: "queue_rep m 0x100 [0x1000, 0x2000, 0x3000]" using sample_queue by (simp add: m_def)
  have w: "m (0x9000 + pcb_next) = 7"
    by (simp add: m_def queue_init_def queue_push_def layout Let_def)
  have "queue_sep 0x100 (insert 7 (set [0x1000, 0x2000, 0x3000]))"
    by (simp add: queue_sep_def layout)
  then show ?thesis
    using queue_remove_in_middle[OF m, of "[]" "0x1000" "0x2000" "0x3000" "[]" 7 "0x9000"] m w by auto
qed

text \<open>
  \<open>queue_has\<close> returns, on every queue whose forward chain is sound (also after a removal
  in the middle), and tells whether the item is in it.
\<close>

theorem queue_has_decides:
  assumes "queue_fwd m q xs" and "item \<noteq> NULL"
  shows "queue_has m q item = Some (item \<in> set xs)"
  using assms by (rule queue_has_fwd)

theorem queue_has_decides_witness:
  "\<exists>m. queue_has m 0x100 0x3000 = Some True \<and> queue_has m 0x100 0x4000 = Some False"
  using queue_has_decides[OF queue_rep_fwd[OF sample_queue], of "0x3000"]
    queue_has_decides[OF queue_rep_fwd[OF sample_queue], of "0x4000"] by auto

end
