(* ===== verification/Kernel.thy ===== *)
theory Kernel
  imports Queue
begin

text \<open>
  The state of the kernel: the process control blocks of \<^verbatim>\<open>include/os/sched.h\<close> laid out in
  memory, the globals of \<^verbatim>\<open>kernel/sched/sched.c\<close>, the clock, the screen cursor and the
  processor registers, and the queues that the kernel keeps, as one family.
\<close>

unbundle bit_operations_syntax

section \<open>Layout of a process control block\<close>

text \<open>
  The words of a \<open>pcb_t\<close>: two register contexts of 39 words each (32 general registers,
  then status, hi, lo, badvaddr, cause, epc, entryhi), then the scalar fields; the queues
  \<open>holding\<close> and \<open>waiting\<close> are two words each.
\<close>

datatype pcb_field =
    KERNEL_CONTEXT nat | USER_CONTEXT nat | KERNEL_STACK_TOP | USER_STACK_TOP
  | PREV | NEXT | PID | TASK_TYPE | STATUS | CURSOR_X | CURSOR_Y | SLEEP_END | CHAN
  | HOLDING_HEAD | HOLDING_TAIL | WAITING_HEAD | WAITING_TAIL | NAME

fun field_off :: "pcb_field \<Rightarrow> nat" where
  "field_off (KERNEL_CONTEXT i) = 4 * i"
| "field_off (USER_CONTEXT i) = 156 + 4 * i"
| "field_off KERNEL_STACK_TOP = 312"
| "field_off USER_STACK_TOP = 316"
| "field_off PREV = 320"
| "field_off NEXT = 324"
| "field_off PID = 328"
| "field_off TASK_TYPE = 332"
| "field_off STATUS = 336"
| "field_off CURSOR_X = 340"
| "field_off CURSOR_Y = 344"
| "field_off SLEEP_END = 348"
| "field_off CHAN = 352"
| "field_off HOLDING_HEAD = 356"
| "field_off HOLDING_TAIL = 360"
| "field_off WAITING_HEAD = 364"
| "field_off WAITING_TAIL = 368"
| "field_off NAME = 372"

definition sizeof_pcb :: nat where
  "sizeof_pcb = 376"

definition NUM_MAX_TASK :: nat where
  "NUM_MAX_TASK = 32"

fun field_ok :: "pcb_field \<Rightarrow> bool" where
  "field_ok (KERNEL_CONTEXT i) \<longleftrightarrow> i < 39"
| "field_ok (USER_CONTEXT i) \<longleftrightarrow> i < 39"
| "field_ok _ \<longleftrightarrow> True"

definition cell :: "u32 \<Rightarrow> pcb_field \<Rightarrow> u32" where
  "cell p f = p + word_of_nat (field_off f)"

text \<open>\<open>&pcb[i]\<close> for the array at address \<open>b\<close>, and the set of these addresses.\<close>

definition pcb_at :: "u32 \<Rightarrow> nat \<Rightarrow> u32" where
  "pcb_at b i = b + word_of_nat (sizeof_pcb * i)"

definition pcbs :: "u32 \<Rightarrow> u32 set" where
  "pcbs b = pcb_at b ` {..<NUM_MAX_TASK}"

text \<open>The registers that a context keeps after the 32 general ones.\<close>

definition CTX_STATUS :: nat where "CTX_STATUS = 32"
definition CTX_HI :: nat where "CTX_HI = 33"
definition CTX_LO :: nat where "CTX_LO = 34"
definition CTX_EPC :: nat where "CTX_EPC = 37"
definition CTX_ENTRYHI :: nat where "CTX_ENTRYHI = 38"

lemma field_off_bound: "field_ok f \<Longrightarrow> field_off f < sizeof_pcb"
  by (cases f) (auto simp: sizeof_pcb_def)

lemma field_off_inj: "field_ok f \<Longrightarrow> field_ok g \<Longrightarrow> field_off f = field_off g \<longleftrightarrow> f = g"
  by (cases f; cases g) auto

lemma pcb_cell_nat:
  "cell (pcb_at b i) f = b + word_of_nat (sizeof_pcb * i + field_off f)"
  by (simp add: cell_def pcb_at_def)

text \<open>Two cells of the array are the same only if they are the same field of the same block.\<close>

lemma cell_inj_idx:
  assumes "i < NUM_MAX_TASK" "j < NUM_MAX_TASK" "field_ok f" "field_ok g"
  shows "cell (pcb_at b i) f = cell (pcb_at b j) g \<longleftrightarrow> i = j \<and> f = g"
proof
  let ?x = "sizeof_pcb * i + field_off f" and ?y = "sizeof_pcb * j + field_off g"
  assume "cell (pcb_at b i) f = cell (pcb_at b j) g"
  then have eq: "(word_of_nat ?x :: u32) = word_of_nat ?y"
    by (simp add: pcb_cell_nat)
  have bf: "field_off f < sizeof_pcb" and bg: "field_off g < sizeof_pcb"
    using assms by (auto intro: field_off_bound)
  have "?x < 2 ^ 32" "?y < 2 ^ 32"
    using assms(1,2) bf bg by (simp_all add: sizeof_pcb_def NUM_MAX_TASK_def)
  then have "?x = ?y"
    using eq word_of_nat_inj32 by blast
  then have "i = j \<and> field_off f = field_off g"
    using bf bg by (intro record_split)
  then show "i = j \<and> f = g"
    using assms(3,4) by (simp add: field_off_inj)
qed simp


lemma pcb_at_inj: "i < NUM_MAX_TASK \<Longrightarrow> j < NUM_MAX_TASK \<Longrightarrow> pcb_at b i = pcb_at b j \<longleftrightarrow> i = j"
  using cell_inj_idx[of i j NAME NAME b] by (auto simp: cell_def)

lemma cell_inj [cells]:
  "p \<in> pcbs b \<Longrightarrow> q \<in> pcbs b \<Longrightarrow> field_ok f \<Longrightarrow> field_ok g \<Longrightarrow>
   cell p f = cell q g \<longleftrightarrow> p = q \<and> f = g"
  by (auto simp: pcbs_def cell_inj_idx)

lemma cell_link [cells]: "p + pcb_prev = cell p PREV" "p + pcb_next = cell p NEXT"
  by (simp_all add: cell_def layout)

text \<open>\<open>&p->holding\<close> and \<open>&p->waiting\<close>, the queues inside a block.\<close>

definition holding :: "u32 \<Rightarrow> u32" where
  "holding p = cell p HOLDING_HEAD"

definition waiting :: "u32 \<Rightarrow> u32" where
  "waiting p = cell p WAITING_HEAD"

lemma queue_in_pcb [cells]:
  "holding p + queue_head = cell p HOLDING_HEAD" "holding p + queue_tail = cell p HOLDING_TAIL"
  "waiting p + queue_head = cell p WAITING_HEAD" "waiting p + queue_tail = cell p WAITING_TAIL"
  by (simp_all add: holding_def waiting_def cell_def layout)

section \<open>Enumerations\<close>

definition TASK_EMBRYO :: u32 where "TASK_EMBRYO = 0"
definition TASK_SLEEPING :: u32 where "TASK_SLEEPING = 1"
definition TASK_BLOCKED :: u32 where "TASK_BLOCKED = 2"
definition TASK_RUNNING :: u32 where "TASK_RUNNING = 3"
definition TASK_READY :: u32 where "TASK_READY = 4"
definition TASK_EXITED :: u32 where "TASK_EXITED = 5"

lemmas task_status_defs =
  TASK_EMBRYO_def TASK_SLEEPING_def TASK_BLOCKED_def TASK_RUNNING_def TASK_READY_def TASK_EXITED_def

lemma task_status_distinct [simp]:
  "distinct [TASK_EMBRYO, TASK_SLEEPING, TASK_BLOCKED, TASK_RUNNING, TASK_READY, TASK_EXITED]"
  by (simp add: task_status_defs)

section \<open>State\<close>

text \<open>
  The globals. \<open>kmem\<close> is the memory; \<open>pcb\<close>, \<open>ready_queue\<close>, \<open>recv_block_queue\<close> and
  \<open>embryo_start\<close> are addresses fixed at link time. The registers of the processor follow
  (\<open>gpr\<close> the 32 general registers); \<open>klog\<close> records what \<open>printk\<close> was given, latest
  first.
\<close>

record kstate =
  kmem :: mem
  pcb :: u32
  ready_queue :: u32
  recv_block_queue :: u32
  embryo_start :: u32
  current_running :: u32
  process_id :: u32
  time_elapsed :: u32
  screen_cursor_x :: u32
  screen_cursor_y :: u32
  gpr :: "nat \<Rightarrow> u32"
  reg_hi :: u32
  reg_lo :: u32
  cp0_status :: u32
  cp0_cause :: u32
  cp0_epc :: u32
  cp0_entryhi :: u32
  cp0_badvaddr :: u32
  cp0_count :: u32
  cp0_compare :: u32
  klog :: "string list"

abbreviation get :: "kstate \<Rightarrow> u32 \<Rightarrow> pcb_field \<Rightarrow> u32" where
  "get s p f \<equiv> kmem s (cell p f)"

definition put :: "u32 \<Rightarrow> pcb_field \<Rightarrow> u32 \<Rightarrow> kstate \<Rightarrow> kstate" where
  "put p f v s = s\<lparr>kmem := (kmem s)(cell p f := v)\<rparr>"

definition printk :: "string \<Rightarrow> kstate \<Rightarrow> kstate" where
  "printk msg s = s\<lparr>klog := msg # klog s\<rparr>"

section \<open>The family of the kernel's queues\<close>

text \<open>
  A family gives for the address of each queue the blocks it holds. \<open>queue_addrs_ok\<close> is
  the part that never changes: the cells of two queues do not overlap, and a queue inside a
  block is its field \<open>waiting\<close> (a \<open>holding\<close> queue links locks, not blocks, and is in no
  family). \<open>queues_ok\<close> adds that each queue is well formed
  and that no block is in two of them.
\<close>

type_synonym queues = "u32 \<rightharpoonup> u32 list"

definition plain_field :: "pcb_field \<Rightarrow> bool" where
  "plain_field f \<longleftrightarrow> field_ok f \<and> f \<notin> {WAITING_HEAD, WAITING_TAIL}"

definition queue_addrs_ok :: "u32 \<Rightarrow> u32 set \<Rightarrow> bool" where
  "queue_addrs_ok b D \<longleftrightarrow>
     NULL \<notin> pcbs b \<and>
     (\<forall>q \<in> D. \<forall>r \<in> D. q + queue_head \<noteq> r + queue_tail) \<and>
     (\<forall>q \<in> D. \<forall>p \<in> pcbs b. \<forall>f. plain_field f \<longrightarrow>
        cell p f \<noteq> q + queue_head \<and> cell p f \<noteq> q + queue_tail)"

definition queues_ok :: "u32 \<Rightarrow> mem \<Rightarrow> queues \<Rightarrow> bool" where
  "queues_ok b m Q \<longleftrightarrow>
     queue_addrs_ok b (dom Q) \<and>
     (\<forall>q xs. Q q = Some xs \<longrightarrow> queue_rep m q xs \<and> set xs \<subseteq> pcbs b) \<and>
     (\<forall>q r xs ys. Q q = Some xs \<longrightarrow> Q r = Some ys \<longrightarrow> q \<noteq> r \<longrightarrow> set xs \<inter> set ys = {})"

text \<open>The invariant of the kernel's queues: the ready queue and every block's \<open>waiting\<close> queue
  are members of the family.\<close>

definition kernel_ok :: "kstate \<Rightarrow> queues \<Rightarrow> bool" where
  "kernel_ok s Q \<longleftrightarrow>
     queues_ok (pcb s) (kmem s) Q \<and> ready_queue s \<in> dom Q \<and>
     ready_queue s \<notin> waiting ` pcbs (pcb s) \<and> waiting ` pcbs (pcb s) \<subseteq> dom Q"

definition queued :: "queues \<Rightarrow> u32 set" where
  "queued Q = (\<Union>xs \<in> ran Q. set xs)"


lemma queuedI: "Q q = Some xs \<Longrightarrow> x \<in> set xs \<Longrightarrow> x \<in> queued Q"
  by (auto simp: queued_def ran_def)

lemma queued_upd:
  "Q q = Some xs \<Longrightarrow> queued (Q(q \<mapsto> ys)) \<subseteq> queued Q \<union> set ys"
  by (auto simp: queued_def ran_def split: if_splits)

lemma plain_fields [simp]:
  "plain_field KERNEL_STACK_TOP" "plain_field USER_STACK_TOP" "plain_field PREV" "plain_field NEXT"
  "plain_field PID" "plain_field TASK_TYPE" "plain_field STATUS" "plain_field CURSOR_X"
  "plain_field CURSOR_Y" "plain_field SLEEP_END" "plain_field CHAN" "plain_field NAME"
  "plain_field HOLDING_HEAD" "plain_field HOLDING_TAIL"
  "i < 39 \<Longrightarrow> plain_field (KERNEL_CONTEXT i)" "i < 39 \<Longrightarrow> plain_field (USER_CONTEXT i)"
  by (simp_all add: plain_field_def)

lemma plain_field_ok: "plain_field f \<Longrightarrow> field_ok f"
  by (simp add: plain_field_def)

lemma queues_okD:
  assumes "queues_ok b m Q" and "Q q = Some xs"
  shows "queue_rep m q xs" and "set xs \<subseteq> pcbs b" and "NULL \<notin> pcbs b"
  using assms by (auto simp: queues_ok_def queue_addrs_ok_def)

lemma addrs_sep:
  assumes "queue_addrs_ok b D" and "q \<in> D" and "X \<subseteq> pcbs b"
  shows "queue_sep q X"
proof -
  have "cell x PREV \<noteq> cell y NEXT" if "x \<in> X" "y \<in> X" for x y
    using that assms(3) cell_inj[of x b y PREV NEXT] by auto
  moreover have "cell x f \<noteq> q + queue_head \<and> cell x f \<noteq> q + queue_tail"
    if "x \<in> X" "plain_field f" for x f
    using that assms by (auto simp: queue_addrs_ok_def)
  ultimately show ?thesis
    by (auto simp: queue_sep_def cell_link)
qed

text \<open>The cells that an operation on one queue may write are no cells of another queue.\<close>

lemma addrs_disjoint:
  assumes "queue_addrs_ok b D" and "q \<in> D" "r \<in> D" "q \<noteq> r"
    and "X \<subseteq> pcbs b" "Y \<subseteq> pcbs b" "X \<inter> Y = {}"
  shows "queue_cells q X \<inter> queue_cells r Y = {}"
proof -
  have "queue_sep q (X \<union> Y)" "queue_sep r (X \<union> Y)"
    using assms by (auto intro: addrs_sep)
  moreover have "q + queue_head \<noteq> r + queue_tail" "r + queue_head \<noteq> q + queue_tail"
    using assms by (auto simp: queue_addrs_ok_def)
  ultimately show ?thesis
    using assms(4,7) by (auto simp: queue_cells_def queue_sep_iff)
qed

text \<open>A plain field of a block is no cell of a queue, unless it is a link of that block.\<close>

lemma addrs_plain:
  assumes "queue_addrs_ok b D" and "q \<in> D" and "X \<subseteq> pcbs b" and "p \<in> pcbs b"
    and "plain_field f" and "f \<noteq> PREV" "f \<noteq> NEXT"
  shows "cell p f \<notin> queue_cells q X"
proof -
  have "cell p f \<noteq> cell x PREV \<and> cell p f \<noteq> cell x NEXT" if "x \<in> X" for x
    using that assms cell_inj[of p b x f PREV] cell_inj[of p b x f NEXT]
    by (auto dest: plain_field_ok)
  with assms show ?thesis
    by (auto simp: queue_cells_def cell_link queue_addrs_ok_def)
qed

text \<open>
  One rule for every operation on one queue: the memory after it agrees with the memory
  before outside the cells of that queue, and the queue holds what it should.
\<close>

lemma queues_ok_step:
  assumes ok: "queues_ok b m Q" and q: "Q q = Some xs"
    and frame: "\<And>a. a \<notin> queue_cells q X \<Longrightarrow> m' a = m a"
    and rep: "queue_rep m' q ys"
    and X: "X \<subseteq> pcbs b" "set ys \<subseteq> X"
    and fresh: "\<And>r zs. r \<noteq> q \<Longrightarrow> Q r = Some zs \<Longrightarrow> set zs \<inter> X = {}"
  shows "queues_ok b m' (Q(q \<mapsto> ys))"
proof -
  have addrs: "queue_addrs_ok b (dom Q)"
    using ok by (simp add: queues_ok_def)
  have other: "queue_rep m' r zs" if "r \<noteq> q" "Q r = Some zs" for r zs
  proof -
    have "queue_cells q X \<inter> queue_cells r (set zs) = {}"
      using that q X fresh[OF that] queues_okD(2)[OF ok that(2)]
      by (intro addrs_disjoint[OF addrs]) auto
    then have "queue_rep m' r zs = queue_rep m r zs"
      by (intro queue_rep_cong frame) auto
    then show ?thesis using queues_okD(1)[OF ok that(2)] by simp
  qed
  have dom: "dom (Q(q \<mapsto> ys)) = dom Q"
    using q by auto
  show ?thesis
    unfolding queues_ok_def dom
    using addrs other rep X fresh queues_okD(2)[OF ok] ok
    by (auto simp: queues_ok_def) blast+
qed

lemma queues_push:
  assumes "queues_ok b m Q" and "Q q = Some xs" and "x \<in> pcbs b" and "x \<notin> queued Q"
  shows "queues_ok b (queue_push m q x) (Q(q \<mapsto> xs @ [x]))"
proof (rule queues_ok_step[OF assms(1,2)])
  have X: "insert x (set xs) \<subseteq> pcbs b" and x: "x \<notin> set xs" "x \<noteq> NULL"
    using assms queues_okD(2,3)[OF assms(1,2)] queuedI[of Q q xs x] by auto
  have "queue_sep q (insert x (set xs))"
    using assms X by (intro addrs_sep[of b "dom Q"]) (auto simp: queues_ok_def)
  then show "queue_rep (queue_push m q x) q (xs @ [x])"
    using x queues_okD(1)[OF assms(1,2)] by (intro queue_push_rep)
  show "insert x (set xs) \<subseteq> pcbs b" by (rule X)
  show "set zs \<inter> insert x (set xs) = {}" if "r \<noteq> q" "Q r = Some zs" for r zs
    using that assms queuedI[of Q r zs x] by (auto simp: queues_ok_def)
qed (use queue_push_frame[OF queues_okD(1)[OF assms(1,2)]] in auto)

lemma queues_push_fresh:
  "queues_ok b m Q \<Longrightarrow> Q q = Some xs \<Longrightarrow> x \<in> pcbs b \<Longrightarrow> (\<And>r ys. Q r = Some ys \<Longrightarrow> x \<notin> set ys) \<Longrightarrow>
   queues_ok b (queue_push m q x) (Q(q \<mapsto> xs @ [x]))"
  by (rule queues_push) (auto simp: queued_def ran_def)

lemma queues_distinct: "queues_ok b m Q \<Longrightarrow> Q q = Some xs \<Longrightarrow> distinct xs"
  by (auto simp: queue_rep_def dest: queues_okD(1))

lemma queues_disjoint:
  "queues_ok b m Q \<Longrightarrow> Q q = Some xs \<Longrightarrow> Q r = Some ys \<Longrightarrow> x \<in> set xs \<Longrightarrow> x \<in> set ys \<Longrightarrow> q = r"
  unfolding queues_ok_def by blast

lemma queues_dequeue:
  assumes "queues_ok b m Q" and "Q q = Some (x # xs)"
  shows "fst (queue_dequeue m q) = x" and "queues_ok b (snd (queue_dequeue m q)) (Q(q \<mapsto> xs))"
proof -
  have rep: "queue_rep m q (x # xs)" and X: "set (x # xs) \<subseteq> pcbs b"
    using queues_okD[OF assms] by auto
  have "queue_sep q (set (x # xs))"
    using assms X by (intro addrs_sep[of b "dom Q"]) (auto simp: queues_ok_def)
  then have deq: "fst (queue_dequeue m q) = x \<and> queue_rep (snd (queue_dequeue m q)) q xs"
    using rep by (intro queue_dequeue_rep)
  then show "fst (queue_dequeue m q) = x" by simp
  show "queues_ok b (snd (queue_dequeue m q)) (Q(q \<mapsto> xs))"
  proof (rule queues_ok_step[OF assms])
    show "queue_rep (snd (queue_dequeue m q)) q xs" using deq by simp
    show "set (x # xs) \<subseteq> pcbs b" by (rule X)
    show "set zs \<inter> set (x # xs) = {}" if "r \<noteq> q" "Q r = Some zs" for r zs
      using assms that unfolding queues_ok_def by blast
  qed (use queue_dequeue_frame[OF rep] in auto)
qed

lemma queues_put:
  assumes "p \<in> pcbs b" and "plain_field f" and "f \<noteq> PREV" "f \<noteq> NEXT"
  shows "queues_ok b (m(cell p f := v)) Q = queues_ok b m Q"
proof -
  have "queue_rep (m(cell p f := v)) q xs = queue_rep m q xs"
    if "queue_addrs_ok b (dom Q)" "Q q = Some xs" "set xs \<subseteq> pcbs b" for q xs
  proof (rule queue_rep_cong)
    fix a assume "a \<in> queue_cells q (set xs)"
    then show "(m(cell p f := v)) a = m a"
      using addrs_plain[of b "dom Q" q "set xs" p f] that assms by auto
  qed
  then show ?thesis
    unfolding queues_ok_def by blast
qed


section \<open>Frame of the family\<close>

text \<open>Every cell that an operation on one of the queues may write.\<close>

definition family_cells :: "u32 \<Rightarrow> u32 set \<Rightarrow> u32 set" where
  "family_cells b D = (\<Union>q \<in> D. queue_cells q (pcbs b))"

lemma queue_cells_mono: "X \<subseteq> Y \<Longrightarrow> queue_cells q X \<subseteq> queue_cells q Y"
  by (auto simp: queue_cells_def)

lemma family_push_frame:
  assumes "queues_ok b m Q" and "Q q = Some xs" and "x \<in> pcbs b" and "a \<notin> family_cells b (dom Q)"
  shows "queue_push m q x a = m a"
proof (rule queue_push_frame)
  show "queue_rep m q xs" using assms by (auto dest: queues_okD)
  have "insert x (set xs) \<subseteq> pcbs b" using assms by (auto dest: queues_okD)
  then show "a \<notin> queue_cells q (insert x (set xs))"
    using assms(2,4) queue_cells_mono[of "insert x (set xs)" "pcbs b" q]
    by (auto simp: family_cells_def)
qed

lemma family_dequeue_frame:
  assumes "queues_ok b m Q" and "Q q = Some xs" and "a \<notin> family_cells b (dom Q)"
  shows "snd (queue_dequeue m q) a = m a"
proof (rule queue_dequeue_frame)
  show "queue_rep m q xs" using assms by (auto dest: queues_okD)
  have "set xs \<subseteq> pcbs b" using assms by (auto dest: queues_okD)
  then show "a \<notin> queue_cells q (set xs)"
    using assms(2,3) queue_cells_mono[of "set xs" "pcbs b" q] by (auto simp: family_cells_def)
qed

lemma queues_remove_end:
  assumes ok: "queues_ok b m Q" and q: "Q q = Some xs" and x: "x \<in> set xs" "x = hd xs \<or> x = last xs"
  shows "queues_ok b (snd (queue_remove b0 m q x)) (Q(q \<mapsto> remove1 x xs))"
    and "a \<notin> family_cells b (dom Q) \<Longrightarrow> snd (queue_remove b0 m q x) a = m a"
proof -
  have rep: "queue_rep m q xs" and X: "set xs \<subseteq> pcbs b" using queues_okD[OF ok q] by auto
  have sep: "queue_sep q (set xs)"
    using ok q X by (intro addrs_sep[of b "dom Q"]) (auto simp: queues_ok_def)
  have e: "x = hdd NULL xs \<or> x = lastd NULL xs"
    using x by (cases xs) (auto simp: lastd_nonempty)
  show "queues_ok b (snd (queue_remove b0 m q x)) (Q(q \<mapsto> remove1 x xs))"
  proof (rule queues_ok_step[OF ok q])
    show "queue_rep (snd (queue_remove b0 m q x)) q (remove1 x xs)"
      by (rule queue_remove_end_rep[OF rep sep x(1) e])
    show "set zs \<inter> set xs = {}" if "r \<noteq> q" "Q r = Some zs" for r zs
      using ok q that unfolding queues_ok_def by blast
  qed (use queue_remove_end_frame[OF rep x(1) e sep] X set_remove1_subset[of x xs] in auto)
  show "a \<notin> family_cells b (dom Q) \<Longrightarrow> snd (queue_remove b0 m q x) a = m a"
    using queue_remove_end_frame[OF rep x(1) e sep] q queue_cells_mono[OF X, of q]
    by (auto simp: family_cells_def)
qed

lemma family_plain:
  assumes "queues_ok b m Q" and "p \<in> pcbs b" and "plain_field f" and "f \<noteq> PREV" "f \<noteq> NEXT"
  shows "cell p f \<notin> family_cells b (dom Q)"
  using assms addrs_plain[of b "dom Q" _ "pcbs b" p f]
  by (auto simp: family_cells_def queues_ok_def)

lemma put_simps [simp]:
  "kmem (put p f v s) = (kmem s)(cell p f := v)"
  "pcb (put p f v s) = pcb s" "ready_queue (put p f v s) = ready_queue s"
  "current_running (put p f v s) = current_running s" "time_elapsed (put p f v s) = time_elapsed s"
  "process_id (put p f v s) = process_id s" "embryo_start (put p f v s) = embryo_start s"
  "screen_cursor_x (put p f v s) = screen_cursor_x s"
  "screen_cursor_y (put p f v s) = screen_cursor_y s"
  "gpr (put p f v s) = gpr s" "reg_hi (put p f v s) = reg_hi s" "reg_lo (put p f v s) = reg_lo s"
  "cp0_status (put p f v s) = cp0_status s" "cp0_epc (put p f v s) = cp0_epc s"
  "klog (put p f v s) = klog s" "cp0_count (put p f v s) = cp0_count s"
  by (simp_all add: put_def)

section \<open>Addresses outside the array\<close>

text \<open>
  The other objects of the kernel lie outside the array of control blocks; queues whose
  cells do not overlap then form a family together with the \<open>waiting\<close> queues.
\<close>

definition outside :: "u32 \<Rightarrow> u32 \<Rightarrow> bool" where
  "outside b a \<longleftrightarrow> sizeof_pcb * NUM_MAX_TASK \<le> unat (a - b)"

lemma outside_cell:
  assumes "outside b a" and "p \<in> pcbs b" and "field_ok f"
  shows "cell p f \<noteq> a"
proof
  obtain i where i: "p = pcb_at b i" "i < NUM_MAX_TASK" using assms(2) by (auto simp: pcbs_def)
  define n where "n = sizeof_pcb * i + field_off f"
  have n: "n < sizeof_pcb * NUM_MAX_TASK"
    using i(2) field_off_bound[OF assms(3)] by (simp add: n_def sizeof_pcb_def NUM_MAX_TASK_def)
  assume "cell p f = a"
  then have "a - b = word_of_nat n" unfolding i pcb_cell_nat n_def by auto
  then have "unat (a - b) = n"
    using n by (simp add: unat_of_nat take_bit_nat_eq_self sizeof_pcb_def NUM_MAX_TASK_def)
  with n assms(1) show False by (simp add: outside_def)
qed

lemma outside_base: "outside b a \<Longrightarrow> a \<notin> pcbs b"
  using outside_cell[of b a _ "KERNEL_CONTEXT 0"] by (auto simp: cell_def)

lemma addrs_array:
  assumes "outside b NULL"
    and R: "\<forall>r \<in> R. outside b (r + queue_head) \<and> outside b (r + queue_tail)"
    and sep: "\<forall>q \<in> R. \<forall>r \<in> R. q + queue_head \<noteq> r + queue_tail"
  shows "queue_addrs_ok b (R \<union> waiting ` pcbs b)"
proof -
  have in_R: "cell p f \<noteq> r + queue_head \<and> cell p f \<noteq> r + queue_tail"
    if "r \<in> R" "p \<in> pcbs b" "field_ok f" for r p f
    using that R outside_cell by blast
  have "cell p f \<noteq> waiting x + queue_head \<and> cell p f \<noteq> waiting x + queue_tail"
    if "x \<in> pcbs b" "p \<in> pcbs b" "plain_field f" for x p f
    using that cell_inj[of p b x f WAITING_HEAD] cell_inj[of p b x f WAITING_TAIL]
    by (auto simp: queue_in_pcb plain_field_def)
  moreover have "waiting x + queue_head \<noteq> waiting y + queue_tail" if "x \<in> pcbs b" "y \<in> pcbs b" for x y
    using that cell_inj[of x b y WAITING_HEAD WAITING_TAIL] by (auto simp: queue_in_pcb)
  moreover have "q + queue_head \<noteq> waiting x + queue_tail \<and> waiting x + queue_head \<noteq> q + queue_tail"
    if "q \<in> R" "x \<in> pcbs b" for q x
    using in_R[OF that, of WAITING_TAIL] in_R[OF that, of WAITING_HEAD] by (auto simp: queue_in_pcb)
  ultimately show ?thesis
    using assms(1) sep in_R outside_base
    by (auto simp: queue_addrs_ok_def dest: plain_field_ok)
qed

lemma outside_family:
  assumes "outside b a" and "\<forall>r \<in> R. a \<noteq> r + queue_head \<and> a \<noteq> r + queue_tail"
  shows "a \<notin> family_cells b (R \<union> waiting ` pcbs b)"
proof
  assume "a \<in> family_cells b (R \<union> waiting ` pcbs b)"
  then obtain q where q: "q \<in> R \<union> waiting ` pcbs b" "a \<in> queue_cells q (pcbs b)"
    by (auto simp: family_cells_def)
  have "\<exists>p \<in> pcbs b. \<exists>f. field_ok f \<and> cell p f = a"
  proof (cases "a = q + queue_head \<or> a = q + queue_tail")
    case True
    then have "q \<notin> R" using assms(2) by auto
    then obtain x where x: "x \<in> pcbs b" "q = waiting x" using q(1) by auto
    then have "a = cell x WAITING_HEAD \<or> a = cell x WAITING_TAIL"
      using True by (simp add: queue_in_pcb)
    with x(1) show ?thesis by (metis field_ok.simps(16,17))
  next
    case False
    then obtain x where "x \<in> pcbs b" "a = cell x PREV \<or> a = cell x NEXT"
      using q(2) by (auto simp: queue_cells_def cell_link)
    then show ?thesis by (metis field_ok.simps(5,6))
  qed
  then show False using outside_cell[OF assms(1)] by blast
qed

lemma queues_ok_outside:
  assumes "a \<notin> family_cells b (dom Q)"
  shows "queues_ok b (m(a := v)) Q = queues_ok b m Q"
proof -
  have "queue_rep (m(a := v)) q xs = queue_rep m q xs"
    if "Q q = Some xs" "set xs \<subseteq> pcbs b" for q xs
    using that assms queue_cells_mono[OF that(2), of q]
    by (intro queue_rep_cong) (auto simp: family_cells_def)
  then show ?thesis unfolding queues_ok_def by blast
qed

text \<open>All queues empty.\<close>

definition empty_queues :: "u32 set \<Rightarrow> queues" where
  "empty_queues D = (\<lambda>q. if q \<in> D then Some [] else None)"

lemma empty_queues_ok:
  assumes "queue_addrs_ok b D" and "\<forall>q \<in> D. m (q + queue_head) = NULL \<and> m (q + queue_tail) = NULL"
  shows "queues_ok b m (empty_queues D)"
proof -
  have "dom (empty_queues D) = D" by (auto simp: empty_queues_def split: if_splits)
  with assms show ?thesis
    by (auto simp: queues_ok_def empty_queues_def queue_rep_def split: if_splits)
qed
section \<open>The interface of the queue family\<close>

text \<open>
  What the scheduler relies on: items enter and leave queues one at a time, an item that
  has just left a queue is in none, and the other queues are left alone.
\<close>

locale queue_family =
  fixes ok :: "'m \<Rightarrow> ('q \<rightharpoonup> 'a list) \<Rightarrow> bool"
    and item :: "'a \<Rightarrow> bool"
    and push :: "'m \<Rightarrow> 'q \<Rightarrow> 'a \<Rightarrow> 'm"
    and dequeue :: "'m \<Rightarrow> 'q \<Rightarrow> 'a \<times> 'm"
  assumes push_ok: "ok m Q \<Longrightarrow> Q q = Some xs \<Longrightarrow> item x \<Longrightarrow>
      (\<And>r ys. Q r = Some ys \<Longrightarrow> x \<notin> set ys) \<Longrightarrow> ok (push m q x) (Q(q \<mapsto> xs @ [x]))"
    and dequeue_ok: "ok m Q \<Longrightarrow> Q q = Some (x # xs) \<Longrightarrow>
      fst (dequeue m q) = x \<and> ok (snd (dequeue m q)) (Q(q \<mapsto> xs))"
    and items: "ok m Q \<Longrightarrow> Q q = Some xs \<Longrightarrow> x \<in> set xs \<Longrightarrow> item x"
    and distinct: "ok m Q \<Longrightarrow> Q q = Some xs \<Longrightarrow> distinct xs"
    and disjoint: "ok m Q \<Longrightarrow> Q q = Some xs \<Longrightarrow> Q r = Some ys \<Longrightarrow> x \<in> set xs \<Longrightarrow> x \<in> set ys \<Longrightarrow> q = r"
begin

lemma dequeued_fresh:
  assumes "ok m Q" and "Q q = Some (x # xs)" and "(Q(q \<mapsto> xs)) r = Some ys"
  shows "x \<notin> set ys"
proof (cases "r = q")
  case True
  with assms distinct[OF assms(1,2)] show ?thesis by auto
next
  case False
  with assms disjoint[OF assms(1,2), of r ys x] show ?thesis by auto
qed

text \<open>The first item of one queue becomes the last of another.\<close>

lemma move:
  assumes "ok m Q" and "Q q = Some (x # xs)" and "Q r = Some ys" and "q \<noteq> r"
    and between: "ok (snd (dequeue m q)) (Q(q \<mapsto> xs)) \<Longrightarrow> ok m1 (Q(q \<mapsto> xs))"
  shows "fst (dequeue m q) = x \<and> ok (push m1 r x) (Q(q \<mapsto> xs, r \<mapsto> ys @ [x]))"
proof -
  have "fst (dequeue m q) = x \<and> ok m1 (Q(q \<mapsto> xs))"
    using dequeue_ok[OF assms(1,2)] between by blast
  moreover have "item x"
    using items[OF assms(1,2)] by simp
  ultimately show ?thesis
    using push_ok[of m1 "Q(q \<mapsto> xs)" r ys x] dequeued_fresh[OF assms(1,2)] assms(3,4) by auto
qed

text \<open>The first item of a queue becomes its last.\<close>

lemma rotate:
  assumes "ok m Q" and "Q q = Some (x # xs)"
    and between: "ok (snd (dequeue m q)) (Q(q \<mapsto> xs)) \<Longrightarrow> ok m1 (Q(q \<mapsto> xs))"
  shows "fst (dequeue m q) = x \<and> ok (push m1 q x) (Q(q \<mapsto> xs @ [x]))"
proof -
  have "fst (dequeue m q) = x \<and> ok m1 (Q(q \<mapsto> xs))"
    using dequeue_ok[OF assms(1,2)] between by blast
  moreover have "item x"
    using items[OF assms(1,2)] by simp
  ultimately show ?thesis
    using push_ok[of m1 "Q(q \<mapsto> xs)" q xs x] dequeued_fresh[OF assms(1,2)] by auto
qed

end

interpretation kqs: queue_family "queues_ok b" "\<lambda>p. p \<in> pcbs b" queue_push queue_dequeue
  for b
  by unfold_locales
     (auto intro: queues_push_fresh queues_dequeue dest: queues_okD(2) queues_distinct queues_disjoint)

end
