(* ===== verification/Sched.thy ===== *)
theory Sched
  imports Kernel
begin

text \<open>
  \<^verbatim>\<open>kernel/sched/sched.c\<close>, with the clock of \<^verbatim>\<open>kernel/sched/time.c\<close> and
  \<open>set_timer\<close> of \<^verbatim>\<open>kernel/irq/irq.c\<close>, the context macros of
  \<^verbatim>\<open>arch/mips/kernel/entry.S\<close>, and \<open>do_mutex_lock_release\<close> of
  \<^verbatim>\<open>kernel/locking/lock.c\<close>, which the scheduler calls for a process that has gone.
  A loop of the source that may run for ever is a value of type \<open>option\<close>: \<open>None\<close> is a
  run that never returns.
\<close>

section \<open>Clock\<close>

definition get_ticks :: "kstate \<Rightarrow> u32" where
  "get_ticks s = time_elapsed s"

definition get_timer :: "kstate \<Rightarrow> u32" where
  "get_timer s = time_elapsed s div 1000000"

definition set_timer :: "kstate \<Rightarrow> kstate" where
  "set_timer s = s\<lparr>time_elapsed := time_elapsed s + cp0_count s * 2 div 300\<rparr>"

definition rst_clk :: "kstate \<Rightarrow> kstate" where
  "rst_clk s = s\<lparr>cp0_compare := 0x10000, cp0_count := 0\<rparr>"

section \<open>Waking processes\<close>

text \<open>The body that \<open>do_unblock_one\<close> and the loop of \<open>do_unblock_all\<close> share.\<close>

definition unblock_first :: "u32 \<Rightarrow> kstate \<Rightarrow> kstate" where
  "unblock_first queue s =
    (let (q, m) = queue_dequeue (kmem s) queue;
         s = s\<lparr>kmem := m\<rparr>;
         s = put q STATUS TASK_READY s;
         s = put q CHAN NULL s
     in s\<lparr>kmem := queue_push (kmem s) (ready_queue s) q\<rparr>)"

definition do_unblock_one :: "u32 \<Rightarrow> kstate \<Rightarrow> kstate" where
  "do_unblock_one queue s =
    (if \<not> queue_is_empty (kmem s) queue then unblock_first queue s else s)"

partial_function (option) do_unblock_all :: "u32 \<Rightarrow> kstate \<Rightarrow> kstate option" where
  "do_unblock_all queue s =
    (if \<not> queue_is_empty (kmem s) queue then do_unblock_all queue (unblock_first queue s)
     else Some s)"

section \<open>Releasing a mutex\<close>

text \<open>
  \<open>mutex_lock_t\<close> of \<^verbatim>\<open>include/os/lock.h\<close>: a status word, the queue of the processes
  blocked on it, and two link fields of its own.
\<close>

definition lock_status :: u32 where
  lock_status_def [layout]: "lock_status = 0"

definition lock_block_queue :: u32 where
  lock_block_queue_def [layout]: "lock_block_queue = 4"

definition lock_prev :: u32 where
  lock_prev_def [layout]: "lock_prev = 12"

definition lock_next :: u32 where
  lock_next_def [layout]: "lock_next = 16"

definition sizeof_mutex_lock :: u32 where
  sizeof_mutex_lock_def [layout]: "sizeof_mutex_lock = 20"

definition UNLOCKED :: u32 where "UNLOCKED = 0"
definition LOCKED :: u32 where "LOCKED = 1"

definition do_mutex_lock_release :: "u32 \<Rightarrow> kstate \<Rightarrow> kstate option" where
  "do_mutex_lock_release lock s = do {
     has \<leftarrow> queue_has (kmem s) (holding (current_running s)) lock;
     let s = (if has then
                s\<lparr>kmem := snd (queue_remove (pcb s) (kmem s) (holding (current_running s)) lock)\<rparr>
              else s);
     let s = s\<lparr>kmem := (kmem s)(lock + lock_status := UNLOCKED)\<rparr>;
     do_unblock_all (lock + lock_block_queue) s
   }"

section \<open>The scheduler\<close>

definition check_sleeping :: "kstate \<Rightarrow> kstate" where
  "check_sleeping s =
    (if get s (current_running s) STATUS = TASK_SLEEPING \<and>
        get s (current_running s) SLEEP_END \<le> get_timer s
     then put (current_running s) STATUS TASK_READY s else s)"

text \<open>The loop that releases every lock an exited process still holds.\<close>

partial_function (option) release_holding :: "kstate \<Rightarrow> kstate option" where
  "release_holding s =
    (if \<not> queue_is_empty (kmem s) (holding (current_running s)) then
       let lk = fst (queue_dequeue (kmem s) (holding (current_running s)));
           s = s\<lparr>kmem := snd (queue_dequeue (kmem s) (holding (current_running s)))\<rparr>
       in do_mutex_lock_release lk s \<bind> release_holding
     else Some s)"

definition sched_exited :: "kstate \<Rightarrow> kstate option" where
  "sched_exited s = do_unblock_all (waiting (current_running s)) s \<bind> release_holding"

text \<open>The first \<open>switch\<close>: where the process that gives up the processor goes.\<close>

definition sched_leave :: "u32 \<Rightarrow> u32 \<Rightarrow> kstate \<Rightarrow> kstate option" where
  "sched_leave arg1 status s =
    (let cur = current_running s in
     if status = TASK_BLOCKED then
       let s = put cur STATUS TASK_BLOCKED s;
           s = put cur CHAN arg1 s
       in Some (s\<lparr>kmem := queue_push (kmem s) arg1 cur\<rparr>)
     else if status = TASK_SLEEPING then
       let s = put cur STATUS TASK_SLEEPING s;
           s = put cur SLEEP_END (get_timer s + arg1) s
       in Some (s\<lparr>kmem := queue_push (kmem s) (ready_queue s) cur\<rparr>)
     else if status = TASK_READY then
       let s = put cur STATUS TASK_READY s
       in Some (s\<lparr>kmem := queue_push (kmem s) (ready_queue s) cur\<rparr>)
     else if status = TASK_EXITED then
       sched_exited (put cur STATUS TASK_EXITED s)
     else
       let s = put cur STATUS TASK_READY s
       in Some (s\<lparr>kmem := queue_push (kmem s) (ready_queue s) cur\<rparr>))"

text \<open>The second \<open>switch\<close>, on the process just taken from the ready queue.\<close>

definition sched_consider :: "kstate \<Rightarrow> kstate option" where
  "sched_consider s =
    (let cur = current_running s; status = get s cur STATUS in
     if status = TASK_SLEEPING then Some (s\<lparr>kmem := queue_push (kmem s) (ready_queue s) cur\<rparr>)
     else if status = TASK_EMBRYO then Some (put cur STATUS TASK_READY s)
     else if status = TASK_EXITED then sched_exited s
     else if status = TASK_READY then Some s
     else Some (printk (''error: scheduler'' @ [CHR 0x0A]) s))"

definition sched_take :: "kstate \<Rightarrow> kstate" where
  "sched_take s =
    (let (p, m) = queue_dequeue (kmem s) (ready_queue s)
     in check_sleeping (s\<lparr>kmem := m, current_running := p\<rparr>))"

partial_function (option) sched_loop :: "kstate \<Rightarrow> kstate option" where
  "sched_loop s =
    sched_consider (sched_take s) \<bind>
      (\<lambda>s. if get s (current_running s) STATUS \<noteq> TASK_READY then sched_loop s else Some s)"

definition sched_enter :: "kstate \<Rightarrow> kstate" where
  "sched_enter s =
    (let s = s\<lparr>screen_cursor_x := get s (current_running s) CURSOR_X,
               screen_cursor_y := get s (current_running s) CURSOR_Y\<rparr>;
         s = put (current_running s) STATUS TASK_RUNNING s;
         s = set_timer s
     in rst_clk s)"

definition scheduler :: "u32 \<Rightarrow> u32 \<Rightarrow> kstate \<Rightarrow> kstate option" where
  "scheduler arg1 status s = do {
     s \<leftarrow> sched_leave arg1 status s;
     let s = put (current_running s) CURSOR_X (screen_cursor_x s) s;
     let s = put (current_running s) CURSOR_Y (screen_cursor_y s) s;
     s \<leftarrow> sched_loop s;
     Some (sched_enter s)
   }"

section \<open>Context switch\<close>

text \<open>
  \<open>SAVE_CONTEXT\<close> and \<open>RESTORE_CONTEXT\<close> of \<^verbatim>\<open>entry.S\<close>: registers 1 to 25 and 28
  to 31, then status, hi, lo and epc; \<open>k0\<close> and \<open>k1\<close> (26 and 27) are scratch.
\<close>

definition saved_regs :: "nat list" where
  "saved_regs = [1..<26] @ [28..<32]"

definition save_context :: "(nat \<Rightarrow> pcb_field) \<Rightarrow> kstate \<Rightarrow> kstate" where
  "save_context ctx s =
    (let cur = current_running s;
         s = fold (\<lambda>i. put cur (ctx i) (gpr s i)) saved_regs s;
         s = put cur (ctx CTX_STATUS) (cp0_status s) s;
         s = put cur (ctx CTX_HI) (reg_hi s) s;
         s = put cur (ctx CTX_LO) (reg_lo s) s;
         s = put cur (ctx CTX_EPC) (cp0_epc s) s
     in s\<lparr>gpr := (gpr s)(26 := cur, 27 := cp0_epc s)\<rparr>)"

definition restore_context :: "(nat \<Rightarrow> pcb_field) \<Rightarrow> kstate \<Rightarrow> kstate" where
  "restore_context ctx s =
    (let cur = current_running s;
         epc = get s cur (ctx CTX_EPC)
     in s\<lparr>gpr := (\<lambda>i. if i \<in> set saved_regs then get s cur (ctx i) else gpr s i)(26 := cur, 27 := epc),
          cp0_status := get s cur (ctx CTX_STATUS),
          reg_hi := get s cur (ctx CTX_HI),
          reg_lo := get s cur (ctx CTX_LO),
          cp0_epc := epc\<rparr>)"

definition switch_sched :: "u32 \<Rightarrow> u32 \<Rightarrow> kstate \<Rightarrow> kstate option" where
  "switch_sched arg1 status s = do {
     s \<leftarrow> scheduler arg1 status (save_context KERNEL_CONTEXT s);
     Some (restore_context KERNEL_CONTEXT s)
   }"

definition do_scheduler :: "kstate \<Rightarrow> kstate option" where
  "do_scheduler s = switch_sched (gpr s 4) 3 s"

definition do_block :: "u32 \<Rightarrow> kstate \<Rightarrow> kstate option" where
  "do_block queue s = switch_sched queue 2 s"

definition do_sleep :: "u32 \<Rightarrow> kstate \<Rightarrow> kstate option" where
  "do_sleep sleep_time s = switch_sched sleep_time 1 s"

definition do_exit :: "kstate \<Rightarrow> kstate option" where
  "do_exit s = switch_sched (gpr s 4) 5 s"

definition disable_interrupt :: "kstate \<Rightarrow> kstate" where
  "disable_interrupt s = s\<lparr>cp0_status := cp0_status s AND 0xfffffffe\<rparr>"

definition enable_interrupt :: "kstate \<Rightarrow> kstate" where
  "enable_interrupt s = s\<lparr>cp0_status := cp0_status s OR 0x01\<rparr>"

section \<open>Waking processes: what it does to the queues\<close>

definition wake_cells :: "u32 set \<Rightarrow> u32 set" where
  "wake_cells X = (\<lambda>x. cell x STATUS) ` X \<union> (\<lambda>x. cell x CHAN) ` X"

lemma wake_cells_iff:
  assumes "x \<in> pcbs b" and "X \<subseteq> pcbs b" and "field_ok f"
  shows "cell x f \<in> wake_cells X \<longleftrightarrow> x \<in> X \<and> f \<in> {STATUS, CHAN}"
proof -
  have "cell x f = cell y STATUS \<longleftrightarrow> x = y \<and> f = STATUS"
    and "cell x f = cell y CHAN \<longleftrightarrow> x = y \<and> f = CHAN" if "y \<in> X" for y
    using that assms by (auto simp: cell_inj[of x b y])
  then show ?thesis unfolding wake_cells_def by blast
qed

lemma outside_wake: "outside b a \<Longrightarrow> X \<subseteq> pcbs b \<Longrightarrow> a \<notin> wake_cells X"
  using outside_cell[of b a _ STATUS] outside_cell[of b a _ CHAN] by (auto simp: wake_cells_def)

text \<open>
  \<open>woke b D X m m'\<close>: from \<open>m\<close> to \<open>m'\<close> the processes \<open>X\<close> were woken, and apart from
  that only cells of the queues \<open>D\<close> were written.
\<close>

definition woke :: "u32 \<Rightarrow> u32 set \<Rightarrow> u32 set \<Rightarrow> mem \<Rightarrow> mem \<Rightarrow> bool" where
  "woke b D X m m' \<longleftrightarrow>
     (\<forall>x \<in> X. m' (cell x STATUS) = TASK_READY \<and> m' (cell x CHAN) = NULL) \<and>
     (\<forall>a. a \<notin> family_cells b D \<longrightarrow> a \<notin> wake_cells X \<longrightarrow> m' a = m a)"

lemma woke_refl: "woke b D {} m m"
  by (simp add: woke_def)

lemma woke_frame:
  "woke b D X m m' \<Longrightarrow> a \<notin> family_cells b D \<Longrightarrow> a \<notin> wake_cells X \<Longrightarrow> m' a = m a"
  by (simp add: woke_def)

lemma woke_get:
  assumes "woke b (dom Q) X m m'" and "queues_ok b n Q" and "p \<in> pcbs b" and "X \<subseteq> pcbs b"
    and "p \<notin> X \<or> f \<notin> {STATUS, CHAN}" and "plain_field f" "f \<noteq> PREV" "f \<noteq> NEXT"
  shows "m' (cell p f) = m (cell p f)"
  using assms by (intro woke_frame[OF assms(1)] family_plain[OF assms(2)])
    (auto simp: wake_cells_iff plain_field_ok)

lemma woke_trans:
  assumes "woke b (dom Q) X m m1" and "woke b (dom Q) Y m1 m2"
    and "queues_ok b n Q" and "X \<subseteq> pcbs b" "Y \<subseteq> pcbs b"
  shows "woke b (dom Q) (X \<union> Y) m m2"
proof -
  have "m2 (cell x STATUS) = TASK_READY \<and> m2 (cell x CHAN) = NULL" if "x \<in> X \<union> Y" for x
  proof (cases "x \<in> Y")
    case True
    with assms(2) show ?thesis by (simp add: woke_def)
  next
    case False
    with that assms have "x \<in> X" "x \<in> pcbs b" by auto
    with False show ?thesis
      using woke_get[OF assms(2,3), of x] assms(1,5) by (simp add: woke_def)
  qed
  moreover have "wake_cells (X \<union> Y) = wake_cells X \<union> wake_cells Y"
    by (auto simp: wake_cells_def)
  ultimately show ?thesis
    using assms(1,2) by (auto simp: woke_def)
qed

lemma kmem_upd:
  "ready_queue (s\<lparr>kmem := m\<rparr>) = ready_queue s" "kmem (s\<lparr>kmem := m\<rparr>) = m"
  "s\<lparr>kmem := m, kmem := m'\<rparr> = s\<lparr>kmem := m'\<rparr>"
  by simp_all

lemma unblock_first_family:
  assumes ok: "queues_ok b (kmem s) Q" and q: "Q q = Some (x # xs)"
    and r: "Q (ready_queue s) = Some ys" "q \<noteq> ready_queue s"
  obtains m' where "unblock_first q s = s\<lparr>kmem := m'\<rparr>"
    and "queues_ok b m' (Q(q \<mapsto> xs, ready_queue s \<mapsto> ys @ [x]))"
    and "woke b (dom Q) {x} (kmem s) m'"
proof -
  let ?d = "snd (queue_dequeue (kmem s) q)"
  let ?m = "?d(cell x STATUS := TASK_READY, cell x CHAN := NULL)"
  let ?m' = "queue_push ?m (ready_queue s) x"
  have x: "x \<in> pcbs b"
    using kqs.items[OF ok q] by simp
  have deq: "fst (queue_dequeue (kmem s) q) = x" and okd: "queues_ok b ?d (Q(q \<mapsto> xs))"
    using queues_dequeue[OF ok q] by auto
  have okm: "queues_ok b ?m (Q(q \<mapsto> xs))"
    using okd x by (simp add: queues_put)
  have "queues_ok b ?m' (Q(q \<mapsto> xs, ready_queue s \<mapsto> ys @ [x]))"
    using kqs.move[OF ok q r] okm by blast
  moreover have "unblock_first q s = s\<lparr>kmem := ?m'\<rparr>"
    using deq by (simp add: unblock_first_def case_prod_beta put_def)
  moreover have "?m' a = ?m a" if "a \<notin> family_cells b (dom Q)" for a
    using family_push_frame[OF okm _ x, of "ready_queue s" ys a] that r q by (auto simp: insert_absorb domI)
  moreover have "cell x STATUS \<noteq> cell x CHAN"
    using cell_inj[OF x x, of STATUS CHAN] by simp
  ultimately show thesis
    using that[of ?m'] family_plain[OF ok x, of STATUS] family_plain[OF ok x, of CHAN]
      family_dequeue_frame[OF ok q]
    by (simp add: woke_def wake_cells_def)
qed

text \<open>The whole queue, in its order, behind what is already ready.\<close>

lemma do_unblock_all_family:
  assumes "queues_ok b (kmem s) Q" and "Q q = Some xs"
    and "Q (ready_queue s) = Some ys" "q \<noteq> ready_queue s"
  shows "\<exists>m' Q'. do_unblock_all q s = Some (s\<lparr>kmem := m'\<rparr>) \<and> queues_ok b m' Q' \<and>
    Q' = Q(q \<mapsto> [], ready_queue s \<mapsto> ys @ xs) \<and> woke b (dom Q) (set xs) (kmem s) m'"
  using assms
proof (induction xs arbitrary: s Q ys)
  case Nil
  then have "queue_is_empty (kmem s) q"
    by (simp add: queue_is_empty_rep[OF queues_okD(1)])
  then have "do_unblock_all q s = Some (s\<lparr>kmem := kmem s\<rparr>)"
    by (simp add: do_unblock_all.simps)
  moreover have "Q = Q(q \<mapsto> [], ready_queue s \<mapsto> ys @ [])"
    using Nil.prems by auto
  ultimately show ?case
    using Nil.prems(1) woke_refl unfolding list.set by blast
next
  case (Cons x xs)
  define Q' where "Q' = Q(q \<mapsto> xs, ready_queue s \<mapsto> ys @ [x])"
  have Q': "Q' q = Some xs" "Q' (ready_queue s) = Some (ys @ [x])" "dom Q' = dom Q"
    and upd: "Q'(q \<mapsto> [], ready_queue s \<mapsto> (ys @ [x]) @ xs) = Q(q \<mapsto> [], ready_queue s \<mapsto> ys @ x # xs)"
    using Cons.prems unfolding Q'_def by auto
  obtain m where m: "unblock_first q s = s\<lparr>kmem := m\<rparr>" "queues_ok b m Q'"
    and w: "woke b (dom Q) {x} (kmem s) m"
    unfolding Q'_def by (rule unblock_first_family[OF Cons.prems]) blast
  have "\<not> queue_is_empty (kmem s) q"
    using Cons.prems by (simp add: queue_is_empty_rep[OF queues_okD(1)])
  then have run: "do_unblock_all q s = do_unblock_all q (s\<lparr>kmem := m\<rparr>)"
    using m(1) by (subst do_unblock_all.simps) simp
  let ?t = "s\<lparr>kmem := m\<rparr>"
  have "\<exists>m' Q''. do_unblock_all q ?t = Some (?t\<lparr>kmem := m'\<rparr>) \<and> queues_ok b m' Q'' \<and>
    Q'' = Q'(q \<mapsto> [], ready_queue ?t \<mapsto> (ys @ [x]) @ xs) \<and> woke b (dom Q') (set xs) (kmem ?t) m'"
    by (rule Cons.IH) (simp_all add: m(2) Q'(1,2) Cons.prems(4))
  then obtain m' Q'' where m': "do_unblock_all q ?t = Some (s\<lparr>kmem := m'\<rparr>)" "queues_ok b m' Q''"
    "Q'' = Q(q \<mapsto> [], ready_queue s \<mapsto> ys @ x # xs)" and w': "woke b (dom Q) (set xs) m m'"
    unfolding kmem_upd Q'(3) upd by blast
  have "woke b (dom Q) (set (x # xs)) (kmem s) m'"
    using woke_trans[OF w w' Cons.prems(1)] queues_okD(2)[OF Cons.prems(1,2)] by simp
  then show ?case
    using m' unfolding run by blast
qed

section \<open>The search for a runnable process\<close>

text \<open>
  A process taken from the ready queue is put back while it sleeps; it is dropped, and those
  who wait for it are woken, when it was killed; otherwise it runs.
\<close>

definition asleep :: "kstate \<Rightarrow> u32 \<Rightarrow> bool" where
  "asleep s p \<longleftrightarrow> get s p STATUS = TASK_SLEEPING \<and> get_timer s < get s p SLEEP_END"

definition runnable :: "kstate \<Rightarrow> u32 \<Rightarrow> bool" where
  "runnable s p \<longleftrightarrow> get s p STATUS \<in> {TASK_EMBRYO, TASK_READY} \<or>
     get s p STATUS = TASK_SLEEPING \<and> get s p SLEEP_END \<le> get_timer s"

definition gone :: "kstate \<Rightarrow> u32 \<Rightarrow> bool" where
  "gone s p \<longleftrightarrow> get s p STATUS = TASK_EXITED \<and> get s p HOLDING_HEAD = NULL"

lemma sched_take_eq:
  assumes "queues_ok b (kmem s) Q" and "Q (ready_queue s) = Some (x # xs)"
  shows "sched_take s =
    check_sleeping (s\<lparr>kmem := snd (queue_dequeue (kmem s) (ready_queue s)), current_running := x\<rparr>)"
  using queues_dequeue[OF assms] by (simp add: sched_take_def case_prod_beta)

lemma dequeue_get:
  assumes "queues_ok b (kmem s) Q" and "Q q = Some xs" and "p \<in> pcbs b" and "plain_field f" "f \<noteq> PREV" "f \<noteq> NEXT"
  shows "snd (queue_dequeue (kmem s) q) (cell p f) = get s p f"
  using assms by (intro family_dequeue_frame[OF assms(1,2)] family_plain)

lemma sched_step_asleep:
  assumes ok: "queues_ok b (kmem s) Q" and q: "Q (ready_queue s) = Some (x # xs)" and "asleep s x"
  obtains m' where "sched_consider (sched_take s) = Some (s\<lparr>kmem := m', current_running := x\<rparr>)"
    and "queues_ok b m' (Q(ready_queue s \<mapsto> xs @ [x]))"
    and "\<And>a. a \<notin> family_cells b (dom Q) \<Longrightarrow> m' a = kmem s a"
proof -
  let ?d = "snd (queue_dequeue (kmem s) (ready_queue s))"
  let ?m = "queue_push ?d (ready_queue s) x"
  have x: "x \<in> pcbs b" using kqs.items[OF ok q] by simp
  have okd: "queues_ok b ?d (Q(ready_queue s \<mapsto> xs))" using queues_dequeue[OF ok q] by auto
  have "queues_ok b ?m (Q(ready_queue s \<mapsto> xs @ [x]))"
    using kqs.rotate[OF ok q] by blast
  moreover have "?m a = kmem s a" if "a \<notin> family_cells b (dom Q)" for a
    using family_push_frame[OF okd _ x, of "ready_queue s" xs a] family_dequeue_frame[OF ok q, of a] that q
    by (auto simp: insert_absorb domI)
  moreover have "sched_consider (sched_take s) = Some (s\<lparr>kmem := ?m, current_running := x\<rparr>)"
    using assms(3) x ok q
    by (auto simp: sched_take_eq[OF ok q] check_sleeping_def sched_consider_def asleep_def Let_def
        dequeue_get[OF ok q] get_timer_def)
  ultimately show thesis by (intro that)
qed

lemma sched_step_runnable:
  assumes ok: "queues_ok b (kmem s) Q" and q: "Q (ready_queue s) = Some (x # xs)" and "runnable s x"
  obtains m' where "sched_consider (sched_take s) = Some (s\<lparr>kmem := m', current_running := x\<rparr>)"
    and "queues_ok b m' (Q(ready_queue s \<mapsto> xs))" and "m' (cell x STATUS) = TASK_READY"
    and "\<And>a. a \<notin> family_cells b (dom Q) \<Longrightarrow> a \<noteq> cell x STATUS \<Longrightarrow> m' a = kmem s a"
proof -
  let ?d = "snd (queue_dequeue (kmem s) (ready_queue s))"
  let ?m = "?d(cell x STATUS := TASK_READY)"
  have x: "x \<in> pcbs b" using kqs.items[OF ok q] by simp
  have "queues_ok b ?m (Q(ready_queue s \<mapsto> xs))"
    using queues_dequeue[OF ok q] x by (simp add: queues_put)
  moreover have "sched_consider (sched_take s) = Some (s\<lparr>kmem := ?m, current_running := x\<rparr>)"
    using assms(3) x ok q
    by (auto simp: sched_take_eq[OF ok q] check_sleeping_def sched_consider_def runnable_def Let_def
        dequeue_get[OF ok q] get_timer_def put_def task_status_defs fun_upd_idem)
  ultimately show thesis
    using family_dequeue_frame[OF ok q] by (intro that[of ?m]) auto
qed

lemma sched_step_gone:
  assumes ok: "queues_ok b (kmem s) Q" and q: "Q (ready_queue s) = Some (x # xs)" and "gone s x"
    and w: "Q (waiting x) = Some ws" "waiting x \<noteq> ready_queue s"
  obtains m' where "sched_consider (sched_take s) = Some (s\<lparr>kmem := m', current_running := x\<rparr>)"
    and "queues_ok b m' (Q(waiting x \<mapsto> [], ready_queue s \<mapsto> xs @ ws))"
    and "woke b (dom Q) (set ws) (kmem s) m'"
proof -
  let ?d = "snd (queue_dequeue (kmem s) (ready_queue s))"
  let ?s = "s\<lparr>kmem := ?d, current_running := x\<rparr>"
  define Q' where "Q' = Q(ready_queue s \<mapsto> xs)"
  have Q': "Q' (waiting x) = Some ws" "Q' (ready_queue ?s) = Some xs" "dom Q' = dom Q"
    and upd: "Q'(waiting x \<mapsto> [], ready_queue ?s \<mapsto> xs @ ws) = Q(waiting x \<mapsto> [], ready_queue s \<mapsto> xs @ ws)"
    using q w by (auto simp: Q'_def)
  have x: "x \<in> pcbs b" and ws: "set ws \<subseteq> pcbs b"
    using kqs.items[OF ok q] queues_okD[OF ok w(1)] by simp_all
  have okd: "queues_ok b (kmem ?s) Q'" using queues_dequeue[OF ok q] by (simp add: Q'_def)
  have ne: "waiting x \<noteq> ready_queue ?s" and ks: "kmem ?s = ?d" using w(2) by simp_all
  obtain m' where m': "do_unblock_all (waiting x) ?s = Some (?s\<lparr>kmem := m'\<rparr>)"
    "queues_ok b m' (Q(waiting x \<mapsto> [], ready_queue s \<mapsto> xs @ ws))" and wk: "woke b (dom Q) (set ws) ?d m'"
    using do_unblock_all_family[OF okd Q'(1,2) ne] unfolding Q'(3) upd ks by blast
  have "m' (cell x HOLDING_HEAD) = NULL"
    using woke_get[OF wk ok x ws, of HOLDING_HEAD] dequeue_get[OF ok q x, of HOLDING_HEAD] assms(3)
    by (simp add: gone_def)
  then have rel: "release_holding (?s\<lparr>kmem := m'\<rparr>) = Some (?s\<lparr>kmem := m'\<rparr>)"
    by (simp add: release_holding.simps queue_is_empty_def queue_in_pcb)
  have st: "get ?s x STATUS = TASK_EXITED"
    using assms(3) dequeue_get[OF ok q x, of STATUS] by (simp add: gone_def)
  then have "check_sleeping ?s = ?s"
    by (simp add: check_sleeping_def task_status_defs)
  then have "sched_consider (sched_take s) = Some (s\<lparr>kmem := m', current_running := x\<rparr>)"
    using st m'(1) rel
    by (simp add: sched_take_eq[OF ok q] sched_consider_def task_status_defs sched_exited_def)
  moreover have "woke b (dom Q) (set ws) (kmem s) m'"
    using wk family_dequeue_frame[OF ok q] by (simp add: woke_def)
  ultimately show thesis
    using m'(2) by (intro that)
qed

text \<open>What the processes passed over leave at the end of the ready queue, and whom they wake.\<close>

definition requeued :: "kstate \<Rightarrow> (u32 \<Rightarrow> u32 list) \<Rightarrow> u32 list \<Rightarrow> u32 list" where
  "requeued s W pre = concat (map (\<lambda>x. if asleep s x then [x] else W x) pre)"

definition woken :: "kstate \<Rightarrow> (u32 \<Rightarrow> u32 list) \<Rightarrow> u32 list \<Rightarrow> u32 set" where
  "woken s W pre = (\<Union>x \<in> {x \<in> set pre. \<not> asleep s x}. set (W x))"

text \<open>A process that cannot run: it sleeps, or it was killed and holds no lock.\<close>

definition idle :: "kstate \<Rightarrow> queues \<Rightarrow> (u32 \<Rightarrow> u32 list) \<Rightarrow> u32 \<Rightarrow> bool" where
  "idle s Q W x \<longleftrightarrow>
     asleep s x \<or> gone s x \<and> Q (waiting x) = Some (W x) \<and> waiting x \<noteq> ready_queue s"

lemma requeued_Cons: "requeued s W (x # pre) = requeued s W [x] @ requeued s W pre"
  by (simp add: requeued_def)

lemma woken_Cons: "woken s W (x # pre) = woken s W [x] \<union> woken s W pre"
  by (auto simp: woken_def)

lemma passed_cong:
  assumes "\<And>x. x \<in> set pre \<Longrightarrow> asleep s x = asleep t x"
  shows "requeued s W pre = requeued t W pre" and "woken s W pre = woken t W pre"
  using assms by (auto simp: requeued_def woken_def intro!: arg_cong[where f = concat])

lemma woken_pcbs:
  assumes "queues_ok b (kmem s) Q" and "\<forall>x \<in> set pre. idle s Q W x"
  shows "woken s W pre \<subseteq> pcbs b"
  using assms queues_okD(2)[OF assms(1)] by (fastforce simp: woken_def idle_def)

lemma waiting_inj: "x \<in> pcbs b \<Longrightarrow> y \<in> pcbs b \<Longrightarrow> waiting x = waiting y \<longleftrightarrow> x = y"
  using cell_inj[of x b y WAITING_HEAD WAITING_HEAD] by (simp add: waiting_def)

text \<open>One turn of the loop on a process that cannot run.\<close>

lemma sched_step_idle:
  assumes ok: "queues_ok b (kmem s) Q" and q: "Q (ready_queue s) = Some (x # xs)" and i: "idle s Q W x"
  obtains m' Q' where "sched_consider (sched_take s) = Some (s\<lparr>kmem := m', current_running := x\<rparr>)"
    and "queues_ok b m' Q'" and "dom Q' = dom Q"
    and "Q' (ready_queue s) = Some (xs @ requeued s W [x])"
    and "\<And>r. r \<noteq> ready_queue s \<Longrightarrow> asleep s x \<or> r \<noteq> waiting x \<Longrightarrow> Q' r = Q r"
    and "\<not> asleep s x \<Longrightarrow> Q' (waiting x) = Some []"
    and "woke b (dom Q) (woken s W [x]) (kmem s) m'" and "woken s W [x] \<inter> set (x # xs) = {}"
proof (cases "asleep s x")
  case True
  then have r: "requeued s W [x] = [x]" "woken s W [x] = {}"
    by (simp_all add: requeued_def woken_def)
  obtain m' where m': "sched_consider (sched_take s) = Some (s\<lparr>kmem := m', current_running := x\<rparr>)"
    "queues_ok b m' (Q(ready_queue s \<mapsto> xs @ [x]))"
    "\<And>a. a \<notin> family_cells b (dom Q) \<Longrightarrow> m' a = kmem s a"
    by (rule sched_step_asleep[OF ok q True]) blast
  have "dom (Q(ready_queue s \<mapsto> xs @ [x])) = dom Q"
    using q by auto
  then show thesis
    using m' by (intro that[OF m'(1,2)]) (auto simp: r woke_def True)
next
  case False
  then have r: "requeued s W [x] = W x" "woken s W [x] = set (W x)"
    and g: "gone s x" "Q (waiting x) = Some (W x)" "waiting x \<noteq> ready_queue s"
    using i by (auto simp: requeued_def woken_def idle_def)
  obtain m' where m': "sched_consider (sched_take s) = Some (s\<lparr>kmem := m', current_running := x\<rparr>)"
    "queues_ok b m' (Q(waiting x \<mapsto> [], ready_queue s \<mapsto> xs @ W x))"
    "woke b (dom Q) (set (W x)) (kmem s) m'"
    by (rule sched_step_gone[OF ok q g]) blast
  have "set (W x) \<inter> set (x # xs) = {}"
    using queues_disjoint[OF ok g(2) q] g(3) by blast
  moreover have "dom (Q(waiting x \<mapsto> [], ready_queue s \<mapsto> xs @ W x)) = dom Q"
    using q g by auto
  ultimately show thesis
    using m' g(3) False by (intro that[OF m'(1,2)]) (auto simp: r)
qed

text \<open>A process further back in the queue looks the same afterwards.\<close>

lemma idle_step_unchanged:
  fixes x :: u32
  assumes ok: "queues_ok b (kmem s) Q" and q: "Q (ready_queue s) = Some xs" and y: "y \<in> set xs"
    and wk: "woke b (dom Q) X (kmem s) m'" and X: "X \<subseteq> pcbs b" "X \<inter> set xs = {}"
  defines "t \<equiv> s\<lparr>kmem := m', current_running := x\<rparr>"
  shows "asleep t y = asleep s y" and "gone t y = gone s y" and "runnable t y = runnable s y"
    and "get t y STATUS = get s y STATUS"
proof -
  have yp: "y \<in> pcbs b" using queues_okD[OF ok q] y by auto
  have "y \<notin> X" using X(2) y by blast
  then have "get t y f = get s y f" if "f \<in> {STATUS, SLEEP_END, HOLDING_HEAD}" for f
    using woke_get[OF wk ok yp X(1), of f] that by (auto simp: t_def)
  moreover have "get_timer t = get_timer s"
    by (simp add: t_def get_timer_def)
  ultimately show "asleep t y = asleep s y" "gone t y = gone s y" "runnable t y = runnable s y"
    "get t y STATUS = get s y STATUS"
    by (simp_all add: asleep_def gone_def runnable_def)
qed

lemma sched_loop_step:
  assumes "sched_consider (sched_take s) = Some t"
  shows "sched_loop s = (if get t (current_running t) STATUS \<noteq> TASK_READY then sched_loop t else Some t)"
  by (subst sched_loop.simps) (simp add: assms)

text \<open>The loop passes over any number of processes that cannot run.\<close>

lemma sched_loop_skip:
  assumes "queues_ok b (kmem s) Q" and "Q (ready_queue s) = Some (pre @ rest)"
    and "\<forall>x \<in> set pre. idle s Q W x"
  shows "\<exists>m' c Q'. sched_loop s = sched_loop (s\<lparr>kmem := m', current_running := c\<rparr>) \<and>
    queues_ok b m' Q' \<and> dom Q' = dom Q \<and> Q' (ready_queue s) = Some (rest @ requeued s W pre) \<and>
    woke b (dom Q) (woken s W pre) (kmem s) m' \<and> woken s W pre \<inter> set rest = {} \<and>
    (\<forall>r. r \<noteq> ready_queue s \<longrightarrow> r \<notin> waiting ` {x \<in> set pre. \<not> asleep s x} \<longrightarrow> Q' r = Q r) \<and>
    (\<forall>x \<in> set pre. \<not> asleep s x \<longrightarrow> Q' (waiting x) = Some [])"
  using assms
proof (induction pre arbitrary: s Q rest)
  case Nil
  then show ?case
    by (intro exI[of _ "kmem s"] exI[of _ "current_running s"] exI[of _ Q])
       (simp add: requeued_def woken_def woke_refl)
next
  case (Cons x pre)
  note ok = Cons.prems(1)
  have q: "Q (ready_queue s) = Some (x # (pre @ rest))" and i: "idle s Q W x"
    using Cons.prems(2,3) by simp_all
  obtain m Q1 where
    step: "sched_consider (sched_take s) = Some (s\<lparr>kmem := m, current_running := x\<rparr>)"
    and ok1: "queues_ok b m Q1" "dom Q1 = dom Q"
    and q1: "Q1 (ready_queue s) = Some ((pre @ rest) @ requeued s W [x])"
    and other: "\<And>r. r \<noteq> ready_queue s \<Longrightarrow> asleep s x \<or> r \<noteq> waiting x \<Longrightarrow> Q1 r = Q r"
    and wx: "\<not> asleep s x \<Longrightarrow> Q1 (waiting x) = Some []"
    and wk: "woke b (dom Q) (woken s W [x]) (kmem s) m"
    and disj: "woken s W [x] \<inter> set (x # (pre @ rest)) = {}"
    by (rule sched_step_idle[OF ok q i]) blast
  define t where "t = s\<lparr>kmem := m, current_running := x\<rparr>"
  have X: "woken s W [x] \<subseteq> pcbs b" "woken s W pre \<subseteq> pcbs b"
    using woken_pcbs[OF ok] Cons.prems(3) by simp_all
  have same: "asleep t y = asleep s y" "gone t y = gone s y" "get t y STATUS = get s y STATUS"
    if "y \<in> set (x # (pre @ rest))" for y
    using idle_step_unchanged[OF ok q that wk X(1) disj, of x] by (simp_all add: t_def)
  have ne: "waiting y \<noteq> waiting x" if "y \<in> set pre" for y
    using that queues_okD(2)[OF ok q] queues_distinct[OF ok q] waiting_inj[of y b x] by auto
  then have "idle t Q1 W y" if "y \<in> set pre" for y
    using that Cons.prems(3) same[of y] other[of "waiting y"] by (auto simp: idle_def t_def)
  moreover have p: "requeued t W pre = requeued s W pre" "woken t W pre = woken s W pre"
    using same by (auto intro!: passed_cong)
  ultimately obtain m' c Q' where IH: "sched_loop t = sched_loop (s\<lparr>kmem := m', current_running := c\<rparr>)"
    "queues_ok b m' Q'" "dom Q' = dom Q" "Q' (ready_queue s) = Some (rest @ requeued s W (x # pre))"
    "woke b (dom Q) (woken s W pre) m m'" "woken s W pre \<inter> set (rest @ requeued s W [x]) = {}"
    and oth': "\<forall>r. r \<noteq> ready_queue s \<longrightarrow> r \<notin> waiting ` {x \<in> set pre. \<not> asleep t x} \<longrightarrow> Q' r = Q1 r"
    and wp: "\<forall>y \<in> set pre. \<not> asleep t y \<longrightarrow> Q' (waiting y) = Some []"
    using Cons.IH[of t Q1 "rest @ requeued s W [x]"] ok1 q1
    by (auto simp: t_def requeued_Cons[of s W x pre])
  have "get s x STATUS \<noteq> TASK_READY"
    using i by (auto simp: idle_def asleep_def gone_def task_status_defs)
  then have "sched_loop s = sched_loop t"
    using sched_loop_step[OF step] same(3)[of x] by (simp add: t_def)
  moreover have "woke b (dom Q) (woken s W (x # pre)) (kmem s) m'"
    unfolding woken_Cons[of s W x pre] by (rule woke_trans[OF wk IH(5) ok X])
  moreover have "Q' r = Q r" if "r \<noteq> ready_queue s" "r \<notin> waiting ` {y \<in> set (x # pre). \<not> asleep s y}" for r
  proof -
    have "r \<notin> waiting ` {y \<in> set pre. \<not> asleep t y}" using that(2) same(1) by auto
    moreover have "asleep s x \<or> r \<noteq> waiting x" using that(2) by auto
    ultimately show ?thesis using that(1) oth' other[of r] by simp
  qed
  moreover have "Q' (waiting y) = Some []" if "y \<in> set (x # pre)" "\<not> asleep s y" for y
  proof (cases "y = x")
    case True
    have "waiting x \<notin> waiting ` set pre" using ne by (metis imageE)
    with True that wx oth' i show ?thesis by (auto simp: idle_def)
  next
    case False
    with that wp same(1)[of y] show ?thesis by auto
  qed
  ultimately show ?case
    using IH disj by (intro exI[of _ m'] exI[of _ c] exI[of _ Q']) (auto simp: woken_Cons[of s W x pre])
qed

text \<open>The first process that can run is taken; those before it are behind the others.\<close>

lemma sched_loop_picks:
  assumes ok: "queues_ok b (kmem s) Q" and q: "Q (ready_queue s) = Some (pre @ p # rest)"
    and "\<forall>x \<in> set pre. idle s Q W x" and "runnable s p"
  obtains m' Q' m1 where "sched_loop s = Some (s\<lparr>kmem := m', current_running := p\<rparr>)"
    and "queues_ok b m' Q'" and "dom Q' = dom Q" and "p \<notin> queued Q'"
    and "Q' (ready_queue s) = Some (rest @ requeued s W pre)"
    and "\<And>r. r \<noteq> ready_queue s \<Longrightarrow> r \<notin> waiting ` {x \<in> set pre. \<not> asleep s x} \<Longrightarrow> Q' r = Q r"
    and "\<And>x. x \<in> set pre \<Longrightarrow> \<not> asleep s x \<Longrightarrow> Q' (waiting x) = Some []"
    and "woke b (dom Q) (woken s W pre) (kmem s) m1"
    and "\<And>a. a \<notin> family_cells b (dom Q) \<Longrightarrow> a \<noteq> cell p STATUS \<Longrightarrow> m' a = m1 a"
proof -
  obtain m1 c Q1 where skip: "sched_loop s = sched_loop (s\<lparr>kmem := m1, current_running := c\<rparr>)"
    and ok1: "queues_ok b m1 Q1" and d1: "dom Q1 = dom Q"
    and q1: "Q1 (ready_queue s) = Some ((p # rest) @ requeued s W pre)"
    and wk: "woke b (dom Q) (woken s W pre) (kmem s) m1" and disj: "woken s W pre \<inter> set (p # rest) = {}"
    and oth: "\<forall>r. r \<noteq> ready_queue s \<longrightarrow> r \<notin> waiting ` {x \<in> set pre. \<not> asleep s x} \<longrightarrow> Q1 r = Q r"
    and wp: "\<forall>x \<in> set pre. \<not> asleep s x \<longrightarrow> Q1 (waiting x) = Some []"
    using sched_loop_skip[OF ok q assms(3)] by blast
  let ?t = "s\<lparr>kmem := m1, current_running := c\<rparr>"
  have p: "p \<in> pcbs b" using queues_okD(2)[OF ok q] by simp
  have "get ?t p f = get s p f" if "f \<in> {STATUS, SLEEP_END}" for f
    using woke_get[OF wk ok p woken_pcbs[OF ok assms(3)], of f] that disj by auto
  then have run: "runnable ?t p"
    using assms(4) by (simp add: runnable_def get_timer_def)
  have okt: "queues_ok b (kmem ?t) Q1" "Q1 (ready_queue ?t) = Some (p # (rest @ requeued s W pre))"
    using ok1 q1 by simp_all
  define Q' where "Q' = Q1(ready_queue ?t \<mapsto> rest @ requeued s W pre)"
  obtain m' where m': "sched_consider (sched_take ?t) = Some (?t\<lparr>kmem := m', current_running := p\<rparr>)"
    "queues_ok b m' Q'" "m' (cell p STATUS) = TASK_READY"
    "\<And>a. a \<notin> family_cells b (dom Q1) \<Longrightarrow> a \<noteq> cell p STATUS \<Longrightarrow> m' a = kmem ?t a"
    unfolding Q'_def by (rule sched_step_runnable[OF okt run]) blast
  have Q': "dom Q' = dom Q" "Q' (ready_queue s) = Some (rest @ requeued s W pre)"
    "\<And>r. r \<noteq> ready_queue s \<Longrightarrow> Q' r = Q1 r"
    using q1 d1 by (auto simp: Q'_def)
  have "p \<notin> set ys" if "Q' r = Some ys" for r ys
    using kqs.dequeued_fresh[OF okt] that unfolding Q'_def by blast
  then have "p \<notin> queued Q'"
    by (auto simp: queued_def ran_def)
  moreover have "waiting x \<noteq> ready_queue s" if "x \<in> set pre" "\<not> asleep s x" for x
    using that assms(3) by (auto simp: idle_def)
  ultimately show thesis
    using m' skip sched_loop_step[OF m'(1)] d1 Q' oth wp
    by (intro that[OF _ m'(2) _ _ _ _ _ wk]) auto
qed

end
