(* ===== verification/Sched_Inv.thy ===== *)
theory Sched_Inv
  imports Sched
begin

text \<open>
  The scheduler of \<^verbatim>\<open>kernel/sched/sched.c\<close> as a whole: which process it enters, the invariant
  of the queues and the process states that every switch keeps, when it returns, and that a
  process that is switched out and in again finds its registers as it left them.
\<close>

section \<open>The scheduler as a whole\<close>

text \<open>The fields of a block that the scheduler leaves alone.\<close>

definition kept_field :: "pcb_field \<Rightarrow> bool" where
  "kept_field f \<longleftrightarrow> plain_field f \<and> f \<notin> {PREV, NEXT, STATUS, CHAN, CURSOR_X, CURSOR_Y, SLEEP_END}"

lemma sched_enter_simps [simp]:
  "current_running (sched_enter s) = current_running s" "ready_queue (sched_enter s) = ready_queue s"
  "pcb (sched_enter s) = pcb s"
  "kmem (sched_enter s) = (kmem s)(cell (current_running s) STATUS := TASK_RUNNING)"
  "screen_cursor_x (sched_enter s) = get s (current_running s) CURSOR_X"
  "screen_cursor_y (sched_enter s) = get s (current_running s) CURSOR_Y"
  "time_elapsed (sched_enter s) = time_elapsed s + cp0_count s * 2 div 300"
  "cp0_count (sched_enter s) = 0" "cp0_compare (sched_enter s) = 0x10000"
  "gpr (sched_enter s) = gpr s"
  by (simp_all add: sched_enter_def Let_def set_timer_def rst_clk_def)

lemma sched_cong:
  assumes "kmem t = (kmem s)(cell c CURSOR_X := v, cell c CURSOR_Y := w)"
    and "time_elapsed t = time_elapsed s" and "ready_queue t = ready_queue s"
    and "c \<in> pcbs b" and "x \<in> pcbs b"
  shows "asleep t x = asleep s x" "gone t x = gone s x" "runnable t x = runnable s x"
    "idle t Q W x = idle s Q W x"
proof -
  have "get t x f = get s x f" if "f \<in> {STATUS, SLEEP_END, HOLDING_HEAD}" for f
    using that cell_inj[OF assms(5,4), of f CURSOR_X] cell_inj[OF assms(5,4), of f CURSOR_Y]
    by (auto simp: assms(1))
  then show "asleep t x = asleep s x" "gone t x = gone s x" "runnable t x = runnable s x"
    "idle t Q W x = idle s Q W x"
    by (simp_all add: asleep_def gone_def runnable_def idle_def get_timer_def assms(2,3))
qed

text \<open>
  Once the leaving process \<open>c\<close> is dealt with, the scheduler saves its cursor, passes over
  the processes that cannot run and enters the first that can.
\<close>

lemma scheduler_picks:
  assumes leave: "sched_leave arg1 status s = Some s1"
    and ok: "queues_ok b (kmem s1) Q" and c: "current_running s1 = c" "c \<in> pcbs b"
    and q: "Q (ready_queue s1) = Some (pre @ p # rest)"
    and pre: "\<forall>x \<in> set pre. idle s1 Q W x" and run: "runnable s1 p"
  shows "\<exists>s' Q'. scheduler arg1 status s = Some s' \<and> pcb s' = pcb s1 \<and> ready_queue s' = ready_queue s1 \<and>
    queues_ok b (kmem s') Q' \<and> dom Q' = dom Q \<and> Q' (ready_queue s') = Some (rest @ requeued s1 W pre) \<and>
    (\<forall>r. r \<noteq> ready_queue s1 \<longrightarrow> r \<notin> waiting ` {x \<in> set pre. \<not> asleep s1 x} \<longrightarrow> Q' r = Q r) \<and>
    (\<forall>x \<in> set pre. \<not> asleep s1 x \<longrightarrow> Q' (waiting x) = Some []) \<and> p \<notin> queued Q' \<and>
    current_running s' = p \<and>
    (\<forall>x \<in> pcbs b. get s' x STATUS = (if x = p then TASK_RUNNING
       else if x \<in> woken s1 W pre then TASK_READY else get s1 x STATUS) \<and>
       (x \<notin> woken s1 W pre \<longrightarrow> get s' x CHAN = get s1 x CHAN)) \<and>
    get s' c CURSOR_X = screen_cursor_x s1 \<and> get s' c CURSOR_Y = screen_cursor_y s1 \<and>
    screen_cursor_x s' = (if p = c then screen_cursor_x s1 else get s1 p CURSOR_X) \<and>
    screen_cursor_y s' = (if p = c then screen_cursor_y s1 else get s1 p CURSOR_Y) \<and>
    time_elapsed s' = time_elapsed s1 + cp0_count s1 * 2 div 300 \<and> cp0_count s' = 0 \<and>
    gpr s' = gpr s1 \<and>
    (\<forall>x \<in> pcbs b. \<forall>f. kept_field f \<longrightarrow> get s' x f = get s1 x f) \<and>
    (\<forall>a. outside b a \<longrightarrow> a \<notin> family_cells b (dom Q) \<longrightarrow> kmem s' a = kmem s1 a)"
proof -
  define s2 where "s2 = put c CURSOR_Y (screen_cursor_y s1) (put c CURSOR_X (screen_cursor_x s1) s1)"
  have k2: "kmem s2 = (kmem s1)(cell c CURSOR_X := screen_cursor_x s1, cell c CURSOR_Y := screen_cursor_y s1)"
    and r2: "time_elapsed s2 = time_elapsed s1" "ready_queue s2 = ready_queue s1"
    by (simp_all add: s2_def)
  have ps: "set (pre @ p # rest) \<subseteq> pcbs b" using queues_okD(2)[OF ok q] .
  then have p: "p \<in> pcbs b" by simp
  have ok2: "queues_ok b (kmem s2) Q" unfolding k2 using ok c by (simp add: queues_put)
  have q2: "Q (ready_queue s2) = Some (pre @ p # rest)" using q r2 by simp
  note same = sched_cong[OF k2 r2 c(2)]
  have pre2: "\<forall>x \<in> set pre. idle s2 Q W x" using pre same(4) ps by auto
  have run2: "runnable s2 p" using run same(3)[OF p] by simp
  have rq: "requeued s2 W pre = requeued s1 W pre" and wq: "woken s2 W pre = woken s1 W pre"
    by (rule passed_cong; use same(1) ps in auto)+
  obtain m' Q' m1 where loop: "sched_loop s2 = Some (s2\<lparr>kmem := m', current_running := p\<rparr>)"
    and ok': "queues_ok b m' Q'" "dom Q' = dom Q" "p \<notin> queued Q'" "Q' (ready_queue s2) = Some (rest @ requeued s2 W pre)"
    and oth: "\<And>r. r \<noteq> ready_queue s2 \<Longrightarrow> r \<notin> waiting ` {x \<in> set pre. \<not> asleep s2 x} \<Longrightarrow> Q' r = Q r"
    and emp: "\<And>x. x \<in> set pre \<Longrightarrow> \<not> asleep s2 x \<Longrightarrow> Q' (waiting x) = Some []"
    and wk: "woke b (dom Q) (woken s2 W pre) (kmem s2) m1"
    and fr: "\<And>a. a \<notin> family_cells b (dom Q) \<Longrightarrow> a \<noteq> cell p STATUS \<Longrightarrow> m' a = m1 a"
    by (rule sched_loop_picks[OF ok2 q2 pre2 run2]) blast
  let ?s' = "sched_enter (s2\<lparr>kmem := m', current_running := p\<rparr>)"
  have m': "m' (cell x f) = kmem s2 (cell x f)"
    if "x \<in> pcbs b" "plain_field f" "f \<notin> {PREV, NEXT, STATUS, CHAN}" for x f
    using fr[of "cell x f"] that family_plain[OF ok, of x f] p cell_inj[of x b p f STATUS]
      woke_get[OF wk ok that(1) woken_pcbs[OF ok2 pre2], of f] by (auto simp: plain_field_ok)
  have cur: "kmem s2 (cell x CURSOR_X) = (if x = c then screen_cursor_x s1 else get s1 x CURSOR_X)"
    "kmem s2 (cell x CURSOR_Y) = (if x = c then screen_cursor_y s1 else get s1 x CURSOR_Y)"
    "kept_field f \<Longrightarrow> kmem s2 (cell x f) = get s1 x f" if "x \<in> pcbs b" for x f
    using that c cell_inj[OF that c(2)] by (auto simp: k2 kept_field_def plain_field_ok)
  have wkd: "m' (cell x STATUS) = (if x \<in> woken s1 W pre then TASK_READY else get s1 x STATUS)"
    if "x \<in> pcbs b" "x \<noteq> p" for x
    using fr[of "cell x STATUS"] that family_plain[OF ok, of x STATUS] p cell_inj[of x b p STATUS STATUS]
      woke_get[OF wk ok that(1) woken_pcbs[OF ok2 pre2], of STATUS] wk wq k2 c
      cell_inj[of x b c STATUS CURSOR_X] cell_inj[of x b c STATUS CURSOR_Y]
    by (auto simp: woke_def)
  have chan: "m' (cell x CHAN) = get s1 x CHAN" if "x \<in> pcbs b" "x \<notin> woken s1 W pre" for x
    using fr[of "cell x CHAN"] that family_plain[OF ok, of x CHAN] p cell_inj[of x b p CHAN STATUS]
      woke_get[OF wk ok that(1) woken_pcbs[OF ok2 pre2], of CHAN] wq k2 c
      cell_inj[of x b c CHAN CURSOR_X] cell_inj[of x b c CHAN CURSOR_Y]
    by auto
  have st: "cell x f \<noteq> cell p STATUS" if "x \<in> pcbs b" "field_ok f" "f \<noteq> STATUS" for x f
    using that p cell_inj[of x b p f STATUS] by auto
  have eq: "scheduler arg1 status s = Some ?s'"
    using loop c by (simp add: scheduler_def leave s2_def)
  show ?thesis
  proof (intro exI conjI)
    show "scheduler arg1 status s = Some ?s'" by (rule eq)
    show "queues_ok b (kmem ?s') Q'" using ok' p by (simp add: queues_put)
    show "\<forall>x \<in> pcbs b. get ?s' x STATUS = (if x = p then TASK_RUNNING
       else if x \<in> woken s1 W pre then TASK_READY else get s1 x STATUS) \<and>
       (x \<notin> woken s1 W pre \<longrightarrow> get ?s' x CHAN = get s1 x CHAN)"
      using wkd chan st p cell_inj[of _ b p STATUS STATUS] by auto
    show "\<forall>r. r \<noteq> ready_queue s1 \<longrightarrow> r \<notin> waiting ` {x \<in> set pre. \<not> asleep s1 x} \<longrightarrow> Q' r = Q r"
      using oth r2 same(1) ps by auto
    show "\<forall>x \<in> set pre. \<not> asleep s1 x \<longrightarrow> Q' (waiting x) = Some []"
      using emp same(1) ps by auto
    show "\<forall>x \<in> pcbs b. \<forall>f. kept_field f \<longrightarrow> get ?s' x f = get s1 x f"
      using m' cur(3) st by (auto simp: kept_field_def plain_field_ok)
    show "\<forall>a. outside b a \<longrightarrow> a \<notin> family_cells b (dom Q) \<longrightarrow> kmem ?s' a = kmem s1 a"
    proof (intro allI impI)
      fix a assume a: "outside b a" "a \<notin> family_cells b (dom Q)"
      have ne: "cell x f \<noteq> a" if "x \<in> pcbs b" "field_ok f" for x f using outside_cell[OF a(1) that] .
      have "a \<notin> wake_cells (woken s2 W pre)"
        by (rule outside_wake[OF a(1) woken_pcbs[OF ok2 pre2]])
      then have "m' a = kmem s2 a" using fr[OF a(2)] ne[OF p, of STATUS] woke_frame[OF wk a(2)] by auto
      then show "kmem ?s' a = kmem s1 a"
        using ne[OF p, of STATUS] ne[OF c(2), of CURSOR_X] ne[OF c(2), of CURSOR_Y] by (auto simp: k2)
    qed
  qed (use ok' c p m' cur st rq in \<open>simp_all add: s2_def\<close>)
qed

section \<open>The invariant of the scheduler\<close>

text \<open>
  Every process of the ready queue is new, ready, sleeping or killed (a killed one holding
  no lock); every process of another queue is blocked on that queue.
\<close>

definition ready_status :: "kstate \<Rightarrow> u32 \<Rightarrow> bool" where
  "ready_status s x \<longleftrightarrow> get s x STATUS \<in> {TASK_EMBRYO, TASK_READY, TASK_SLEEPING} \<or> gone s x"

definition blocked_on :: "kstate \<Rightarrow> u32 \<Rightarrow> u32 \<Rightarrow> bool" where
  "blocked_on s q x \<longleftrightarrow> get s x STATUS = TASK_BLOCKED \<and> get s x CHAN = q"

definition statuses_ok :: "kstate \<Rightarrow> queues \<Rightarrow> bool" where
  "statuses_ok s Q \<longleftrightarrow>
     (\<forall>q xs. Q q = Some xs \<longrightarrow>
        (\<forall>x \<in> set xs. if q = ready_queue s then ready_status s x else blocked_on s q x))"

lemma statuses_ready:
  "statuses_ok s Q \<Longrightarrow> Q (ready_queue s) = Some rs \<Longrightarrow> x \<in> set rs \<Longrightarrow> ready_status s x"
  by (auto simp: statuses_ok_def)

lemma statuses_blocked:
  "statuses_ok s Q \<Longrightarrow> Q q = Some xs \<Longrightarrow> x \<in> set xs \<Longrightarrow> q \<noteq> ready_queue s \<Longrightarrow> blocked_on s q x"
  by (auto simp: statuses_ok_def)

text \<open>Between the two halves of the scheduler the leaving process may be in a queue.\<close>

definition leaving_ok :: "kstate \<Rightarrow> queues \<Rightarrow> bool" where
  "leaving_ok s Q \<longleftrightarrow>
     kernel_ok s Q \<and> statuses_ok s Q \<and> current_running s \<in> pcbs (pcb s)"

definition sched_inv :: "kstate \<Rightarrow> queues \<Rightarrow> bool" where
  "sched_inv s Q \<longleftrightarrow> leaving_ok s Q \<and> current_running s \<notin> queued Q"

text \<open>The processes that wait for \<open>x\<close> to end, and the first of a queue that can run.\<close>

definition waiters :: "queues \<Rightarrow> u32 \<Rightarrow> u32 list" where
  "waiters Q x = (case Q (waiting x) of Some xs \<Rightarrow> xs | None \<Rightarrow> [])"

definition passed :: "kstate \<Rightarrow> u32 list \<Rightarrow> u32 list" where
  "passed s rs = takeWhile (\<lambda>x. \<not> runnable s x) rs"

definition left_over :: "kstate \<Rightarrow> u32 list \<Rightarrow> u32 list" where
  "left_over s rs = dropWhile (\<lambda>x. \<not> runnable s x) rs"

lemma left_over_split:
  assumes "\<exists>x \<in> set rs. runnable s x"
  obtains p rest where "rs = passed s rs @ p # rest" and "left_over s rs = p # rest" and "runnable s p"
    and "find (runnable s) rs = Some p"
proof -
  have "left_over s rs \<noteq> []"
    using assms by (auto simp: left_over_def dropWhile_eq_Nil_conv)
  then obtain p rest where eq: "left_over s rs = p # rest" by (cases "left_over s rs") auto
  moreover have "rs = passed s rs @ left_over s rs"
    by (simp add: passed_def left_over_def)
  moreover have "runnable s p"
    using eq hd_dropWhile[of "\<lambda>x. \<not> runnable s x" rs] by (auto simp: left_over_def)
  moreover from this have "find (runnable s) rs = Some p"
    using eq by (simp add: find_dropWhile left_over_def comp_def)
  ultimately show thesis using that by auto
qed

lemma kernel_waiting:
  assumes "kernel_ok s Q" and "x \<in> pcbs (pcb s)"
  shows "Q (waiting x) = Some (waiters Q x)" and "waiting x \<noteq> ready_queue s"
proof -
  have w: "waiting x \<in> waiting ` pcbs (pcb s)" using assms(2) by (rule imageI)
  then show "waiting x \<noteq> ready_queue s"
    using assms(1) unfolding kernel_ok_def by metis
  from w have "waiting x \<in> dom Q"
    using assms(1) unfolding kernel_ok_def by blast
  then show "Q (waiting x) = Some (waiters Q x)"
    by (auto simp: waiters_def)
qed

lemma passed_idle:
  assumes "leaving_ok s Q" and "Q (ready_queue s) = Some rs"
  shows "\<forall>x \<in> set (passed s rs). idle s Q (waiters Q) x"
proof
  fix x assume "x \<in> set (passed s rs)"
  then have x: "x \<in> set rs" "\<not> runnable s x"
    by (auto simp: passed_def dest: set_takeWhileD)
  then have "x \<in> pcbs (pcb s)" "ready_status s x"
    using assms queues_okD(2)[of "pcb s" "kmem s" Q "ready_queue s" rs]
    by (auto simp: leaving_ok_def kernel_ok_def statuses_ok_def)
  then show "idle s Q (waiters Q) x"
    using x(2) assms(1) kernel_waiting[of s Q x]
    by (auto simp: idle_def asleep_def ready_status_def runnable_def leaving_ok_def not_le)
qed

lemma requeued_cases:
  assumes "x \<in> set (requeued s W pre)"
  shows "x \<in> set pre \<and> asleep s x \<or> x \<in> woken s W pre"
  using assms by (auto simp: requeued_def woken_def split: if_splits)

lemma woken_requeued: "woken s W pre \<subseteq> set (requeued s W pre)"
  by (auto simp: requeued_def woken_def)

lemma find_left_over: "find (runnable s) rs = (case left_over s rs of [] \<Rightarrow> None | x # xs \<Rightarrow> Some x)"
  by (simp add: find_dropWhile left_over_def comp_def)

text \<open>
  With the leaving process dealt with and some process able to run, the scheduler returns,
  enters the first that can run, and re-establishes the invariant.
\<close>

lemma scheduler_inv:
  assumes leave: "sched_leave arg1 status s = Some s1" and inv: "leaving_ok s1 Q"
    and q: "Q (ready_queue s1) = Some rs" and ex: "\<exists>x \<in> set rs. runnable s1 x"
  obtains s' Q' where "scheduler arg1 status s = Some s'" and "sched_inv s' Q'"
    and "dom Q' = dom Q" and "pcb s' = pcb s1" and "ready_queue s' = ready_queue s1"
    and "find (runnable s1) rs = Some (current_running s')"
    and "get s' (current_running s') STATUS = TASK_RUNNING"
    and "Q' (ready_queue s') = Some (tl (left_over s1 rs) @ requeued s1 (waiters Q) (passed s1 rs))"
    and "get s' (current_running s1) CURSOR_X = screen_cursor_x s1"
    and "get s' (current_running s1) CURSOR_Y = screen_cursor_y s1"
    and "current_running s' \<noteq> current_running s1 \<Longrightarrow>
      screen_cursor_x s' = get s1 (current_running s') CURSOR_X \<and>
      screen_cursor_y s' = get s1 (current_running s') CURSOR_Y"
    and "time_elapsed s' = time_elapsed s1 + cp0_count s1 * 2 div 300" and "cp0_count s' = 0"
    and "gpr s' = gpr s1"
    and "\<And>x. x \<in> pcbs (pcb s1) \<Longrightarrow> x \<noteq> current_running s' \<Longrightarrow>
      get s1 x STATUS = TASK_READY \<Longrightarrow> get s' x STATUS = TASK_READY"
    and "\<And>x f. x \<in> pcbs (pcb s1) \<Longrightarrow> kept_field f \<Longrightarrow> get s' x f = get s1 x f"
    and "\<And>r. r \<noteq> ready_queue s1 \<Longrightarrow> r \<notin> waiting ` {x \<in> set rs. gone s1 x} \<Longrightarrow> Q' r = Q r"
    and "queued Q' \<subseteq> queued Q"
    and "\<And>x. x \<in> pcbs (pcb s1) \<Longrightarrow> x \<notin> queued Q \<Longrightarrow> get s' x STATUS = get s1 x STATUS"
    and "\<And>a. outside (pcb s1) a \<Longrightarrow> a \<notin> family_cells (pcb s1) (dom Q) \<Longrightarrow> kmem s' a = kmem s1 a"
proof -
  obtain p rest where rs: "rs = passed s1 rs @ p # rest" and lo: "left_over s1 rs = p # rest"
    and run: "runnable s1 p" and fnd: "find (runnable s1) rs = Some p"
    by (rule left_over_split[OF ex])
  define pre where "pre = passed s1 rs"
  let ?b = "pcb s1" and ?W = "waiters Q"
  have ok: "queues_ok ?b (kmem s1) Q" and k: "kernel_ok s1 Q" and c: "current_running s1 \<in> pcbs ?b"
    and st: "statuses_ok s1 Q"
    using inv by (auto simp: leaving_ok_def kernel_ok_def)
  have q': "Q (ready_queue s1) = Some (pre @ p # rest)" using q rs by (simp add: pre_def)
  have idle: "\<forall>x \<in> set pre. idle s1 Q ?W x"
    using passed_idle[OF inv q] by (simp add: pre_def)
  obtain s' Q' where s': "scheduler arg1 status s = Some s'" "pcb s' = pcb s1" "ready_queue s' = ready_queue s1"
    and Q': "queues_ok ?b (kmem s') Q'" "dom Q' = dom Q" "Q' (ready_queue s') = Some (rest @ requeued s1 ?W pre)"
      "\<forall>r. r \<noteq> ready_queue s1 \<longrightarrow> r \<notin> waiting ` {x \<in> set pre. \<not> asleep s1 x} \<longrightarrow> Q' r = Q r"
      "\<forall>x \<in> set pre. \<not> asleep s1 x \<longrightarrow> Q' (waiting x) = Some []" "p \<notin> queued Q'"
    and cur: "current_running s' = p"
    and stat: "\<forall>x \<in> pcbs ?b. get s' x STATUS = (if x = p then TASK_RUNNING
       else if x \<in> woken s1 ?W pre then TASK_READY else get s1 x STATUS) \<and>
       (x \<notin> woken s1 ?W pre \<longrightarrow> get s' x CHAN = get s1 x CHAN)"
    and rest: "get s' (current_running s1) CURSOR_X = screen_cursor_x s1"
      "get s' (current_running s1) CURSOR_Y = screen_cursor_y s1"
      "screen_cursor_x s' = (if p = current_running s1 then screen_cursor_x s1 else get s1 p CURSOR_X)"
      "screen_cursor_y s' = (if p = current_running s1 then screen_cursor_y s1 else get s1 p CURSOR_Y)"
      "time_elapsed s' = time_elapsed s1 + cp0_count s1 * 2 div 300" "cp0_count s' = 0" "gpr s' = gpr s1"
      "\<forall>x \<in> pcbs ?b. \<forall>f. kept_field f \<longrightarrow> get s' x f = get s1 x f"
      "\<forall>a. outside ?b a \<longrightarrow> a \<notin> family_cells ?b (dom Q) \<longrightarrow> kmem s' a = kmem s1 a"
    using scheduler_picks[OF leave ok refl c q' idle run] by blast
  have pin: "p \<in> pcbs ?b" using queues_okD(2)[OF ok q'] by simp
  have "kernel_ok s' Q'"
    using k s' Q' by (simp add: kernel_ok_def)
  moreover have "statuses_ok s' Q'"
    unfolding statuses_ok_def
  proof (intro allI impI ballI)
    fix r xs x assume r: "Q' r = Some xs" and x: "x \<in> set xs"
    have xb: "x \<in> pcbs ?b" and xp: "x \<noteq> p"
      using queues_okD(2)[OF Q'(1) r] x Q'(6) queuedI[of Q' r xs x] r x by auto
    have H: "get s' x HOLDING_HEAD = get s1 x HOLDING_HEAD"
      using rest(8) xb by (simp add: kept_field_def)
    show "if r = ready_queue s' then ready_status s' x else blocked_on s' r x"
    proof (cases "r = ready_queue s'")
      case True
      with r Q'(3) x have "x \<in> woken s1 ?W pre \<or> x \<in> set (pre @ p # rest)"
        using requeued_cases[of x s1 ?W pre] by auto
      then have "x \<in> woken s1 ?W pre \<or> x \<in> set rs"
        using rs by (simp add: pre_def)
      then have "x \<in> woken s1 ?W pre \<or> ready_status s1 x"
        using statuses_ready[OF st q] by auto
      then show ?thesis
        using True stat xb xp H by (auto simp: ready_status_def gone_def)
    next
      case False
      have nw: "x \<notin> woken s1 ?W pre"
        using queues_disjoint[OF Q'(1) r Q'(3) x] False woken_requeued by auto
      have "Q r = Some xs"
        using r x Q'(4,5) False s'(3) by (cases "r \<in> waiting ` {x \<in> set pre. \<not> asleep s1 x}") auto
      then show ?thesis
        using False statuses_blocked[OF st _ x] stat xb xp nw s'(3) by (auto simp: blocked_on_def)
    qed
  qed
  ultimately have "sched_inv s' Q'"
    using cur pin s' Q'(6) by (simp add: sched_inv_def leaving_ok_def)
  moreover have "Q' r = Q r" if "r \<noteq> ready_queue s1" "r \<notin> waiting ` {x \<in> set rs. gone s1 x}" for r
  proof -
    have "x \<in> set rs \<and> gone s1 x" if "x \<in> set pre" "\<not> asleep s1 x" for x
      using that idle by (auto simp: idle_def pre_def passed_def dest: set_takeWhileD)
    then show ?thesis using that Q'(4) by auto
  qed
  moreover have wq: "x \<in> queued Q" if "x \<in> woken s1 ?W pre" for x
    using that idle queuedI[of Q] by (fastforce simp: woken_def idle_def)
  have pq: "x \<in> queued Q" if "x \<in> set (pre @ p # rest)" for x
    using q' that by (rule queuedI)
  have "queued Q' \<subseteq> queued Q"
  proof
    fix x assume "x \<in> queued Q'"
    then obtain r xs where r: "Q' r = Some xs" "x \<in> set xs" by (auto simp: queued_def ran_def)
    show "x \<in> queued Q"
    proof (cases "r = ready_queue s1")
      case True
      with r Q'(3) s'(3) show ?thesis using requeued_cases[of x s1 ?W pre] wq pq by auto
    next
      case False
      then have "Q r = Some xs"
        using r Q'(4,5) by (cases "r \<in> waiting ` {x \<in> set pre. \<not> asleep s1 x}") auto
      then show ?thesis using r(2) by (rule queuedI)
    qed
  qed
  moreover have "get s' x STATUS = get s1 x STATUS" if "x \<in> pcbs ?b" "x \<notin> queued Q" for x
    using that stat wq pq[of p] by auto
  ultimately show thesis
    using s' Q'(2,3) rest cur fnd lo stat pin by (intro that[of s' Q']) (auto simp: pre_def)
qed

section \<open>Giving up the processor\<close>

text \<open>The leaving process is pushed on a queue after its own status fields were written.\<close>

lemma push_leaving:
  assumes inv: "sched_inv s Q" and q: "Q q = Some xs" and c: "c = current_running s"
    and m: "\<forall>a. a \<notin> {cell c STATUS, cell c CHAN, cell c SLEEP_END} \<longrightarrow> m a = kmem s a"
    and st: "if q = ready_queue s then m (cell c STATUS) \<in> {TASK_READY, TASK_SLEEPING}
             else m (cell c STATUS) = TASK_BLOCKED \<and> m (cell c CHAN) = q"
  shows "leaving_ok (s\<lparr>kmem := queue_push m q c\<rparr>) (Q(q \<mapsto> xs @ [c]))"
    and "x \<in> pcbs (pcb s) \<Longrightarrow> plain_field f \<Longrightarrow> f \<noteq> PREV \<Longrightarrow> f \<noteq> NEXT \<Longrightarrow>
      queue_push m q c (cell x f) = m (cell x f)"
    and "x \<in> pcbs (pcb s) \<Longrightarrow> x \<noteq> c \<Longrightarrow> field_ok f \<Longrightarrow> m (cell x f) = get s x f"
    and "a \<notin> family_cells (pcb s) (dom Q) \<Longrightarrow> queue_push m q c a = m a"
proof -
  let ?b = "pcb s" and ?s1 = "s\<lparr>kmem := queue_push m q c\<rparr>"
  have cb: "c \<in> pcbs ?b" and fresh: "c \<notin> queued Q" and k: "kernel_ok s Q" and so: "statuses_ok s Q"
    using inv c by (auto simp: sched_inv_def leaving_ok_def)
  have ok: "queues_ok ?b (kmem s) Q" using k by (simp add: kernel_ok_def)
  have meq: "m = (kmem s)(cell c STATUS := m (cell c STATUS), cell c CHAN := m (cell c CHAN),
      cell c SLEEP_END := m (cell c SLEEP_END))"
    using m by (auto simp: fun_eq_iff)
  have okm: "queues_ok ?b m Q"
    by (subst meq) (simp add: queues_put cb ok)
  have ok1: "queues_ok ?b (queue_push m q c) (Q(q \<mapsto> xs @ [c]))"
    using queues_push[OF okm q cb fresh] .
  show "queue_push m q c a = m a" if "a \<notin> family_cells ?b (dom Q)"
    using family_push_frame[OF okm q cb that] .
  show fr: "queue_push m q c (cell x f) = m (cell x f)"
    if "x \<in> pcbs ?b" "plain_field f" "f \<noteq> PREV" "f \<noteq> NEXT" for x f
    using family_push_frame[OF okm q cb] family_plain[OF ok that] by blast
  show oth: "m (cell x f) = get s x f" if "x \<in> pcbs ?b" "x \<noteq> c" "field_ok f" for x f
    using m[rule_format, of "cell x f"] that cb cell_inj[of x ?b c f] by auto
  have "kernel_ok ?s1 (Q(q \<mapsto> xs @ [c]))"
    using k ok1 q by (auto simp: kernel_ok_def)
  moreover have "statuses_ok ?s1 (Q(q \<mapsto> xs @ [c]))"
    unfolding statuses_ok_def
  proof (intro allI impI ballI)
    fix r ys x assume r: "(Q(q \<mapsto> xs @ [c])) r = Some ys" and x: "x \<in> set ys"
    have xb: "x \<in> pcbs ?b" using queues_okD(2)[OF ok1 r] x by auto
    have g: "get ?s1 x f = m (cell x f)" if "f \<in> {STATUS, CHAN, HOLDING_HEAD}" for f
      using fr[OF xb, of f] that by auto
    show "if r = ready_queue ?s1 then ready_status ?s1 x else blocked_on ?s1 r x"
    proof (cases "x = c")
      case True
      have "r = q"
        using r x True fresh queuedI[of Q r ys c] by (auto split: if_splits)
      then show ?thesis
        using st g True by (auto simp: ready_status_def blocked_on_def)
    next
      case False
      then have "\<exists>zs. Q r = Some zs \<and> x \<in> set zs"
        using r x q by (auto split: if_splits)
      then have "if r = ready_queue s then ready_status s x else blocked_on s r x"
        using so unfolding statuses_ok_def by blast
      then show ?thesis
        using g oth[OF xb False] by (auto simp: ready_status_def blocked_on_def gone_def)
    qed
  qed
  ultimately show "leaving_ok ?s1 (Q(q \<mapsto> xs @ [c]))"
    using cb c by (simp add: leaving_ok_def)
qed

lemma leave_ready:
  assumes "status \<notin> {TASK_BLOCKED, TASK_SLEEPING, TASK_EXITED}"
  shows "sched_leave arg1 status s = Some (s\<lparr>kmem := queue_push
    ((kmem s)(cell (current_running s) STATUS := TASK_READY)) (ready_queue s) (current_running s)\<rparr>)"
  using assms by (simp add: sched_leave_def Let_def put_def)

lemma leave_sleep:
  "sched_leave arg1 TASK_SLEEPING s = Some (s\<lparr>kmem := queue_push
    ((kmem s)(cell (current_running s) STATUS := TASK_SLEEPING,
              cell (current_running s) SLEEP_END := get_timer s + arg1))
    (ready_queue s) (current_running s)\<rparr>)"
  by (simp add: sched_leave_def Let_def put_def task_status_defs get_timer_def)

lemma leave_block:
  "sched_leave q TASK_BLOCKED s = Some (s\<lparr>kmem := queue_push
    ((kmem s)(cell (current_running s) STATUS := TASK_BLOCKED, cell (current_running s) CHAN := q))
    q (current_running s)\<rparr>)"
  by (simp add: sched_leave_def Let_def put_def)

text \<open>The other processes look the same to the search as before.\<close>

lemma search_cong:
  assumes "\<And>f. f \<in> {STATUS, SLEEP_END, HOLDING_HEAD} \<Longrightarrow> m (cell x f) = get s x f"
  shows "runnable (s\<lparr>kmem := m\<rparr>) x = runnable s x" and "asleep (s\<lparr>kmem := m\<rparr>) x = asleep s x"
  using assms by (simp_all add: runnable_def asleep_def get_timer_def)

lemma split_cong:
  assumes "\<And>x. x \<in> set rs \<Longrightarrow> runnable t x = runnable s x \<and> asleep t x = asleep s x"
    and "\<exists>x \<in> set rs. runnable s x"
  shows "find (runnable t) (rs @ ys) = find (runnable s) rs"
    and "passed t (rs @ ys) = passed s rs" and "left_over t (rs @ ys) = left_over s rs @ ys"
    and "requeued t W (passed s rs) = requeued s W (passed s rs)"
proof -
  have ex: "\<exists>x \<in> set rs. runnable t x" using assms by blast
  show "requeued t W (passed s rs) = requeued s W (passed s rs)"
    by (rule passed_cong) (use assms(1) in \<open>auto simp: passed_def dest: set_takeWhileD\<close>)
  show "passed t (rs @ ys) = passed s rs"
    using ex assms(1) by (auto simp: passed_def takeWhile_append intro: takeWhile_cong)
  show "left_over t (rs @ ys) = left_over s rs @ ys"
    using ex assms(1) by (auto simp: left_over_def dropWhile_append dropWhile_eq_Nil_conv intro: dropWhile_cong)
  moreover have "left_over s rs \<noteq> []"
    using assms(2) by (auto simp: left_over_def dropWhile_eq_Nil_conv)
  ultimately show "find (runnable t) (rs @ ys) = find (runnable s) rs"
    by (auto simp: find_left_over split: list.splits)
qed

text \<open>
  What a switch does, for a process \<open>c\<close> that leaves for the queue \<open>q\<close> with its status
  fields as in \<open>m\<close>.
\<close>

lemma leave_runs:
  assumes inv: "sched_inv s Q" and q: "Q q = Some xs" and c: "c = current_running s"
    and m: "\<forall>a. a \<notin> {cell c STATUS, cell c CHAN, cell c SLEEP_END} \<longrightarrow> m a = kmem s a"
    and st: "if q = ready_queue s then m (cell c STATUS) \<in> {TASK_READY, TASK_SLEEPING}
             else m (cell c STATUS) = TASK_BLOCKED \<and> m (cell c CHAN) = q"
    and rq: "Q (ready_queue s) = Some rs"
    and leave: "sched_leave arg1 status s = Some (s\<lparr>kmem := queue_push m q c\<rparr>)"
    and ex: "(\<exists>x \<in> set rs. runnable s x) \<or> q = ready_queue s \<and> m (cell c STATUS) = TASK_READY"
  obtains s' Q' where "scheduler arg1 status s = Some s'" and "sched_inv s' Q'"
    and "pcb s' = pcb s" and "ready_queue s' = ready_queue s" and "dom Q' = dom Q"
    and "current_running s' = (case find (runnable s) rs of Some p \<Rightarrow> p | None \<Rightarrow> c)"
    and "get s' (current_running s') STATUS = TASK_RUNNING"
    and "\<exists>x \<in> set rs. runnable s x \<Longrightarrow> Q' (ready_queue s') =
      Some (tl (left_over s rs) @ (if q = ready_queue s then [c] else []) @
        requeued s (waiters (Q(q \<mapsto> xs @ [c]))) (passed s rs))"
    and "get s' c CURSOR_X = screen_cursor_x s" and "get s' c CURSOR_Y = screen_cursor_y s"
    and "current_running s' \<noteq> c \<Longrightarrow>
      screen_cursor_x s' = get s (current_running s') CURSOR_X \<and>
      screen_cursor_y s' = get s (current_running s') CURSOR_Y"
    and "time_elapsed s' = time_elapsed s + cp0_count s * 2 div 300" and "cp0_count s' = 0"
    and "gpr s' = gpr s"
    and "\<And>x. x \<in> pcbs (pcb s) \<Longrightarrow> x \<noteq> current_running s' \<Longrightarrow> x \<noteq> c \<Longrightarrow>
      get s x STATUS = TASK_READY \<Longrightarrow> get s' x STATUS = TASK_READY"
    and "\<And>x f. x \<in> pcbs (pcb s) \<Longrightarrow> kept_field f \<Longrightarrow> get s' x f = get s x f"
    and "\<And>r. r \<noteq> ready_queue s \<Longrightarrow> r \<notin> waiting ` {x \<in> set rs. gone s x} \<Longrightarrow> Q' r = (Q(q \<mapsto> xs @ [c])) r"
    and "m (cell c STATUS) = TASK_READY \<Longrightarrow> current_running s' \<noteq> c \<Longrightarrow> get s' c STATUS = TASK_READY"
    and "\<And>a. outside (pcb s) a \<Longrightarrow> a \<notin> family_cells (pcb s) (dom Q) \<Longrightarrow> kmem s' a = kmem s a"
proof -
  define s1 where "s1 = s\<lparr>kmem := queue_push m q c\<rparr>"
  define Q1 where "Q1 = Q(q \<mapsto> xs @ [c])"
  define ys where "ys = (if q = ready_queue s then [c] else [])"
  note push = push_leaving[OF inv q c m st]
  have s1: "pcb s1 = pcb s" "ready_queue s1 = ready_queue s" "current_running s1 = c"
    "screen_cursor_x s1 = screen_cursor_x s" "screen_cursor_y s1 = screen_cursor_y s" "gpr s1 = gpr s"
    "time_elapsed s1 = time_elapsed s" "cp0_count s1 = cp0_count s"
    by (simp_all add: s1_def c)
  have lv: "leaving_ok s1 Q1" unfolding s1_def Q1_def by (rule push(1))
  have cb: "c \<in> pcbs (pcb s)" and cf: "c \<notin> queued Q" and ok: "queues_ok (pcb s) (kmem s) Q"
    using inv by (auto simp: sched_inv_def leaving_ok_def kernel_ok_def c)
  have rs: "x \<in> pcbs (pcb s)" "x \<noteq> c" if "x \<in> set rs" for x
    using that queues_okD(2)[OF ok rq] queuedI[of Q "ready_queue s" rs x] rq cf by auto
  have g: "get s1 x f = m (cell x f)" if "x \<in> pcbs (pcb s)" "plain_field f" "f \<noteq> PREV" "f \<noteq> NEXT" for x f
    unfolding s1_def using push(2)[OF that] by simp
  have g': "get s1 x f = get s x f" if "x \<in> pcbs (pcb s)" "plain_field f"
    "f \<notin> {PREV, NEXT, STATUS, CHAN, SLEEP_END}" for x f
    using g[OF that(1,2)] that m cell_inj[OF that(1) cb, of f] by (auto simp: plain_field_ok)
  have same: "runnable s1 x = runnable s x \<and> asleep s1 x = asleep s x" if "x \<in> set rs" for x
  proof -
    have "get s1 x f = get s x f" if "f \<in> {STATUS, SLEEP_END, HOLDING_HEAD}" for f
      using g[OF rs(1), of x f] push(3)[OF rs, of x f] that \<open>x \<in> set rs\<close> by auto
    then show ?thesis
      using search_cong[of "queue_push m q c" x s] by (simp add: s1_def)
  qed
  have gn: "gone s1 x = gone s x" if "x \<in> set rs" for x
    using g[OF rs(1)[OF that]] push(3)[OF rs[OF that]] by (simp add: gone_def)
  have nc: "\<not> gone s1 c"
    using g[OF cb, of STATUS] st by (auto simp: gone_def task_status_defs split: if_splits)
  have q1: "Q1 (ready_queue s1) = Some (rs @ ys)"
    using rq q by (auto simp: Q1_def s1_def ys_def)
  have rc: "runnable s1 c" if "m (cell c STATUS) = TASK_READY"
    using g[OF cb, of STATUS] that by (simp add: runnable_def)
  have ex1: "\<exists>x \<in> set (rs @ ys). runnable s1 x"
    using ex same rc by (auto simp: ys_def)
  have fnd: "find (runnable s1) (rs @ ys) =
      Some (case find (runnable s) rs of Some p \<Rightarrow> p | None \<Rightarrow> c)"
  proof (cases "\<exists>x \<in> set rs. runnable s x")
    case True
    then show ?thesis
      using split_cong(1)[OF same True, of ys] by (auto simp: find_None_iff split: option.splits)
  next
    case False
    then have "find (runnable s) rs = None" "left_over s1 (rs @ ys) = [c]"
      using same ex rc by (auto simp: find_None_iff left_over_def ys_def dropWhile_append dropWhile_eq_Nil_conv)
    then show ?thesis by (simp add: find_left_over)
  qed
  have lo: "tl (left_over s1 (rs @ ys)) @ requeued s1 (waiters Q1) (passed s1 (rs @ ys)) =
      tl (left_over s rs) @ ys @ requeued s (waiters Q1) (passed s rs)" if "\<exists>x \<in> set rs. runnable s x"
    using split_cong[OF same that] that by (auto simp: left_over_def dropWhile_eq_Nil_conv)
  have d: "dom Q1 = dom Q" using q by (auto simp: Q1_def)
  show thesis
  proof (rule scheduler_inv[OF leave[folded s1_def] lv q1 ex1])
    fix s' Q'
    assume s': "scheduler arg1 status s = Some s'" "sched_inv s' Q'" "dom Q' = dom Q1"
      "pcb s' = pcb s1" "ready_queue s' = ready_queue s1"
      "find (runnable s1) (rs @ ys) = Some (current_running s')"
      "get s' (current_running s') STATUS = TASK_RUNNING"
      "Q' (ready_queue s') = Some (tl (left_over s1 (rs @ ys)) @ requeued s1 (waiters Q1) (passed s1 (rs @ ys)))"
      "get s' (current_running s1) CURSOR_X = screen_cursor_x s1"
      "get s' (current_running s1) CURSOR_Y = screen_cursor_y s1"
      "current_running s' \<noteq> current_running s1 \<Longrightarrow>
      screen_cursor_x s' = get s1 (current_running s') CURSOR_X \<and>
      screen_cursor_y s' = get s1 (current_running s') CURSOR_Y"
      "time_elapsed s' = time_elapsed s1 + cp0_count s1 * 2 div 300" "cp0_count s' = 0" "gpr s' = gpr s1"
      "\<And>x. x \<in> pcbs (pcb s1) \<Longrightarrow> x \<noteq> current_running s' \<Longrightarrow>
      get s1 x STATUS = TASK_READY \<Longrightarrow> get s' x STATUS = TASK_READY"
      "\<And>x f. x \<in> pcbs (pcb s1) \<Longrightarrow> kept_field f \<Longrightarrow> get s' x f = get s1 x f"
      "\<And>r. r \<noteq> ready_queue s1 \<Longrightarrow> r \<notin> waiting ` {x \<in> set (rs @ ys). gone s1 x} \<Longrightarrow> Q' r = Q1 r"
      "\<And>a. outside (pcb s1) a \<Longrightarrow> a \<notin> family_cells (pcb s1) (dom Q1) \<Longrightarrow> kmem s' a = kmem s1 a"
    have cur: "current_running s' \<in> pcbs (pcb s)"
      using s'(2,4) s1(1) by (simp add: sched_inv_def leaving_ok_def)
    show thesis
    proof (rule that[OF s'(1,2)])
      show "Q' (ready_queue s') = Some (tl (left_over s rs) @ (if q = ready_queue s then [c] else []) @
          requeued s (waiters (Q(q \<mapsto> xs @ [c]))) (passed s rs))" if "\<exists>x \<in> set rs. runnable s x"
        using s'(8) lo[OF that] unfolding ys_def Q1_def by simp
      show "get s' x STATUS = TASK_READY"
        if "x \<in> pcbs (pcb s)" "x \<noteq> current_running s'" "x \<noteq> c" "get s x STATUS = TASK_READY" for x
        using s'(15)[of x] that s1(1) g[of x STATUS] push(3)[of x STATUS] by simp
      show "get s' x f = get s x f" if "x \<in> pcbs (pcb s)" "kept_field f" for x f
        using s'(16)[of x f] that s1(1) g'[of x f] by (simp add: kept_field_def)
      show "Q' r = (Q(q \<mapsto> xs @ [c])) r" if "r \<noteq> ready_queue s" "r \<notin> waiting ` {x \<in> set rs. gone s x}" for r
      proof -
        have "x \<in> {x \<in> set rs. gone s x}" if "x \<in> set (rs @ ys)" "gone s1 x" for x
          using that gn nc by (auto simp: ys_def split: if_splits)
        then show ?thesis using s'(17)[of r] that s1(2) unfolding Q1_def by blast
      qed
      show "kmem s' a = kmem s a" if "outside (pcb s) a" "a \<notin> family_cells (pcb s) (dom Q)" for a
      proof -
        have "a \<notin> {cell c STATUS, cell c CHAN, cell c SLEEP_END}" using outside_cell[OF that(1) cb, of STATUS] outside_cell[OF that(1) cb, of CHAN] outside_cell[OF that(1) cb, of SLEEP_END] by auto
        then have "m a = kmem s a" using m by blast
        then show ?thesis using s'(18)[of a] that s1(1) d push(4)[OF that(2)] by (simp add: s1_def)
      qed
      show "get s' c STATUS = TASK_READY" if "m (cell c STATUS) = TASK_READY" "current_running s' \<noteq> c"
        using s'(15)[of c] cb that s1(1) g[OF cb, of STATUS] by simp
      show "current_running s' = (case find (runnable s) rs of Some p \<Rightarrow> p | None \<Rightarrow> c)"
        using s'(6) fnd by simp
    qed (use s' s1 d cur g'[OF cur, of CURSOR_X] g'[OF cur, of CURSOR_Y] in simp_all)
  qed
qed

section \<open>When nobody can run\<close>

text \<open>Without a process that could run the search turns round the ready queue for ever.\<close>

lemma sched_loop_asleep:
  assumes "queues_ok b (kmem s) Q" and "Q (ready_queue s) = Some rs" and "rs \<noteq> []"
    and "\<forall>x \<in> set rs. asleep s x"
  shows "sched_loop s = None"
proof (rule ccontr)
  assume "sched_loop s \<noteq> None"
  then obtain r where "sched_loop s = Some r" by auto
  then have "\<forall>Q rs. queues_ok b (kmem s) Q \<longrightarrow> Q (ready_queue s) = Some rs \<longrightarrow> rs \<noteq> [] \<longrightarrow>
      \<not> (\<forall>x \<in> set rs. asleep s x)"
  proof (induction rule: sched_loop.raw_induct[rotated 1, consumes 1, case_names step])
    case (step loop s r)
    show ?case
    proof (intro allI impI notI)
      fix Q rs
      assume ok: "queues_ok b (kmem s) Q" and q: "Q (ready_queue s) = Some rs" and "rs \<noteq> []"
        and all: "\<forall>x \<in> set rs. asleep s x"
      then obtain x xs where xs: "rs = x # xs" by (cases rs) auto
      have q': "Q (ready_queue s) = Some (x # xs)" and x: "asleep s x" using q all xs by simp_all
      obtain m where m: "sched_consider (sched_take s) = Some (s\<lparr>kmem := m, current_running := x\<rparr>)"
        "queues_ok b m (Q(ready_queue s \<mapsto> xs @ [x]))"
        "\<And>a. a \<notin> family_cells b (dom Q) \<Longrightarrow> m a = kmem s a"
        by (rule sched_step_asleep[OF ok q' x]) blast
      let ?t = "s\<lparr>kmem := m, current_running := x\<rparr>"
      have wk: "woke b (dom Q) {} (kmem s) m" using m(3) by (simp add: woke_def)
      have same: "asleep ?t y = asleep s y" "get ?t y STATUS = get s y STATUS" if "y \<in> set (x # xs)" for y
        using idle_step_unchanged[OF ok q' that wk, of x] by auto
      have "get ?t x STATUS \<noteq> TASK_READY"
        using same(2)[of x] x by (simp add: asleep_def task_status_defs)
      then have "loop ?t = Some r" using step(2) m(1) by simp
      from step(1)[OF this] have IH: "\<And>Q rs. queues_ok b m Q \<Longrightarrow> Q (ready_queue s) = Some rs \<Longrightarrow> rs \<noteq> [] \<Longrightarrow>
          \<not> (\<forall>y \<in> set rs. asleep ?t y)"
        by simp
      have "\<not> (\<forall>y \<in> set (xs @ [x]). asleep ?t y)"
        by (rule IH[OF m(2)]) simp_all
      then show False using all xs same(1) by auto
    qed
  qed
  with assms show False by blast
qed

section \<open>A sample kernel\<close>

text \<open>
  A kernel whose queues are all empty except the ready queue, at concrete addresses: the
  array at 0x1000, the ready queue at 0x100. The processes of the ready queue were pushed by
  \<open>queue_push\<close>.
\<close>

lemma queues_push_list:
  assumes "queues_ok b m Q" and "Q q = Some ys" and "set xs \<subseteq> pcbs b" and "distinct xs"
    and "set xs \<inter> queued Q = {}"
  shows "queues_ok b (fold (\<lambda>x m. queue_push m q x) xs m) (Q(q \<mapsto> ys @ xs)) \<and>
    (\<forall>a. a \<notin> family_cells b (dom Q) \<longrightarrow> fold (\<lambda>x m. queue_push m q x) xs m a = m a)"
  using assms
proof (induction xs arbitrary: m Q ys)
  case Nil
  then show ?case by (simp add: fun_upd_idem)
next
  case (Cons x xs)
  define Q' where "Q' = Q(q \<mapsto> ys @ [x])"
  have ok: "queues_ok b (queue_push m q x) Q'"
    unfolding Q'_def using Cons.prems by (intro queues_push) auto
  have Q': "Q' q = Some (ys @ [x])" "dom Q' = dom Q" "queued Q' \<subseteq> queued Q \<union> set (ys @ [x])"
    "Q'(q \<mapsto> (ys @ [x]) @ xs) = Q(q \<mapsto> ys @ x # xs)"
    using Cons.prems(2) queued_upd[of Q q ys "ys @ [x]"] by (auto simp: Q'_def)
  have "set xs \<inter> queued Q' = {}"
    using Q'(3) Cons.prems(2,4,5) queuedI[of Q q ys] by auto
  then have "queues_ok b (fold (\<lambda>x m. queue_push m q x) xs (queue_push m q x)) (Q(q \<mapsto> ys @ x # xs)) \<and>
    (\<forall>a. a \<notin> family_cells b (dom Q) \<longrightarrow>
      fold (\<lambda>x m. queue_push m q x) xs (queue_push m q x) a = queue_push m q x a)"
    using Cons.IH[OF ok Q'(1)] Cons.prems(3,4) unfolding Q'(2,4) by (simp del: fun_upd_apply)
  then show ?case
    using family_push_frame[OF Cons.prems(1,2), of x] Cons.prems(3)
    unfolding fold_simps list.set by (metis insert_subset)
qed

definition sample_mem :: "u32 list \<Rightarrow> mem \<Rightarrow> mem" where
  "sample_mem rs m = fold (\<lambda>x m. queue_push m 0x100 x) rs m"

definition sample_kernel :: "u32 list \<Rightarrow> mem \<Rightarrow> u32 \<Rightarrow> kstate" where
  "sample_kernel rs m c = \<lparr>kmem = sample_mem rs m, pcb = 0x1000, ready_queue = 0x100,
     recv_block_queue = 0x200, embryo_start = 0x80, current_running = c, process_id = 4,
     time_elapsed = 3000000, screen_cursor_x = 7, screen_cursor_y = 8, gpr = (\<lambda>i. word_of_nat i),
     reg_hi = 0, reg_lo = 0, cp0_status = 0xff01, cp0_cause = 0, cp0_epc = 0, cp0_entryhi = 0,
     cp0_badvaddr = 0, cp0_count = 600, cp0_compare = 0x10000, klog = []\<rparr>"

definition sample_queues :: "u32 list \<Rightarrow> queues" where
  "sample_queues rs = (empty_queues ({0x100, 0x200} \<union> waiting ` pcbs 0x1000))(0x100 \<mapsto> rs)"

lemma sample_outside:
  "outside 0x1000 0" "outside 0x1000 0x100" "outside 0x1000 0x104" "outside 0x1000 0x200" "outside 0x1000 0x204"
  by (simp_all add: outside_def sizeof_pcb_def NUM_MAX_TASK_def)

lemma sample_addrs: "queue_addrs_ok 0x1000 ({0x100, 0x200} \<union> waiting ` pcbs 0x1000)"
  by (rule addrs_array) (simp_all add: sample_outside layout)


lemma sample_queues_simps [simp]:
  "sample_queues rs 0x100 = Some rs" "dom (sample_queues rs) = {0x100, 0x200} \<union> waiting ` pcbs 0x1000"
  "(sample_queues [])(0x100 \<mapsto> rs) = sample_queues rs" "queued (sample_queues []) = {}"
  by (auto simp: sample_queues_def empty_queues_def queued_def ran_def split: if_splits)

lemma sample_other: "q \<noteq> 0x100 \<Longrightarrow> sample_queues rs q = Some xs \<Longrightarrow> xs = []"
  by (auto simp: sample_queues_def empty_queues_def split: if_splits)

lemma sample_empty: "queues_ok 0x1000 (\<lambda>_. 0) (sample_queues [])"
proof -
  have "sample_queues [] = empty_queues ({0x100, 0x200} \<union> waiting ` pcbs 0x1000)"
    by (auto simp: sample_queues_def empty_queues_def fun_eq_iff)
  then show ?thesis using empty_queues_ok[OF sample_addrs] by simp
qed

lemma sample_simps [simp]:
  "pcb (sample_kernel rs m c) = 0x1000" "ready_queue (sample_kernel rs m c) = 0x100"
  "recv_block_queue (sample_kernel rs m c) = 0x200"
  "current_running (sample_kernel rs m c) = c" "time_elapsed (sample_kernel rs m c) = 3000000"
  "kmem (sample_kernel rs m c) = sample_mem rs m" "gpr (sample_kernel rs m c) = (\<lambda>i. word_of_nat i)"
  "process_id (sample_kernel rs m c) = 4" "klog (sample_kernel rs m c) = []"
  by (simp_all add: sample_kernel_def)

lemma sample_kernel_ok:
  assumes ok: "queues_ok 0x1000 m (sample_queues [])" and rs: "set rs \<subseteq> pcbs 0x1000" "distinct rs"
  shows "kernel_ok (sample_kernel rs m c) (sample_queues rs)"
    and "x \<in> pcbs 0x1000 \<Longrightarrow> plain_field f \<Longrightarrow> f \<noteq> PREV \<Longrightarrow> f \<noteq> NEXT \<Longrightarrow>
      sample_mem rs m (cell x f) = m (cell x f)"
proof -
  have push: "queues_ok 0x1000 (sample_mem rs m) (sample_queues rs) \<and>
      (\<forall>a. a \<notin> family_cells 0x1000 (dom (sample_queues [])) \<longrightarrow> sample_mem rs m a = m a)"
    using queues_push_list[OF ok sample_queues_simps(1) rs] unfolding sample_mem_def by simp
  then show "kernel_ok (sample_kernel rs m c) (sample_queues rs)"
    using sample_outside(2) outside_cell[of "0x1000" "0x100" _ WAITING_HEAD]
    by (auto simp: kernel_ok_def waiting_def)
  show "x \<in> pcbs 0x1000 \<Longrightarrow> plain_field f \<Longrightarrow> f \<noteq> PREV \<Longrightarrow> f \<noteq> NEXT \<Longrightarrow>
      sample_mem rs m (cell x f) = m (cell x f)"
    using push family_plain[OF ok] by blast
qed

lemma sample_inv:
  assumes ok: "queues_ok 0x1000 m (sample_queues [])" and rs: "set rs \<subseteq> pcbs 0x1000" "distinct rs"
    and c: "c \<in> pcbs 0x1000" "c \<notin> set rs"
    and st: "\<forall>x \<in> set rs. m (cell x STATUS) \<in> {TASK_EMBRYO, TASK_READY, TASK_SLEEPING}"
  shows "sched_inv (sample_kernel rs m c) (sample_queues rs)"
proof -
  have "sample_mem rs m (cell x STATUS) = m (cell x STATUS)" if "x \<in> set rs" for x
    using that rs(1) sample_kernel_ok(2)[OF ok rs, of x STATUS] by auto
  then have "\<forall>x \<in> set rs. ready_status (sample_kernel rs m c) x"
    using st by (auto simp: ready_status_def)
  then have "statuses_ok (sample_kernel rs m c) (sample_queues rs)"
    using sample_other by (fastforce simp: statuses_ok_def)
  moreover have "c \<notin> set ys" if "sample_queues rs r = Some ys" for r ys
    using that c(2) sample_other[of r rs ys] by (cases "r = 0x100") auto
  then have "c \<notin> queued (sample_queues rs)"
    by (auto simp: queued_def ran_def)
  ultimately show ?thesis
    using sample_kernel_ok(1)[OF ok rs] c(1) by (simp add: sched_inv_def leaving_ok_def)
qed

lemma sample_pcbs: "i < 32 \<Longrightarrow> pcb_at 0x1000 i \<in> pcbs 0x1000"
  by (simp add: pcbs_def NUM_MAX_TASK_def)

end
