(* ===== verification/Switch.thy ===== *)
theory Switch
  imports Sched_Inv
begin

text \<open>
  What the scheduler guarantees to the processes: a tick always finds a process, the ready
  queue is served in turn, sleeping and blocking hand the processor on, and the registers of
  a process survive its time off the processor (\<^verbatim>\<open>run_sched\<close> and its like in
  \<^verbatim>\<open>arch/mips/kernel/entry.S\<close>).
\<close>

section \<open>Ticks, sleeping, blocking\<close>

lemmas leave_facts = sched_inv_def leaving_ok_def kernel_ok_def

lemma tick_runs:
  assumes inv: "sched_inv s Q" and q: "Q (ready_queue s) = Some rs"
    and st: "status \<notin> {TASK_BLOCKED, TASK_SLEEPING, TASK_EXITED}"
  obtains s' Q' where "scheduler arg1 status s = Some s'" and "sched_inv s' Q'"
    and "pcb s' = pcb s" and "ready_queue s' = ready_queue s"
    and "current_running s' = (case find (runnable s) rs of Some p \<Rightarrow> p | None \<Rightarrow> current_running s)"
    and "get s' (current_running s') STATUS = TASK_RUNNING"
    and "\<exists>x \<in> set rs. runnable s x \<Longrightarrow> \<exists>ys. Q' (ready_queue s') =
      Some (tl (left_over s rs) @ [current_running s] @ ys)"
    and "get s' (current_running s) CURSOR_X = screen_cursor_x s"
    and "get s' (current_running s) CURSOR_Y = screen_cursor_y s"
    and "current_running s' \<noteq> current_running s \<Longrightarrow>
      screen_cursor_x s' = get s (current_running s') CURSOR_X \<and>
      screen_cursor_y s' = get s (current_running s') CURSOR_Y"
    and "time_elapsed s' = time_elapsed s + cp0_count s * 2 div 300" and "cp0_count s' = 0"
    and "\<And>x. x \<in> pcbs (pcb s) \<Longrightarrow> x \<noteq> current_running s' \<Longrightarrow> x \<noteq> current_running s \<Longrightarrow>
      get s x STATUS = TASK_READY \<Longrightarrow> get s' x STATUS = TASK_READY"
    and "\<And>x f. x \<in> pcbs (pcb s) \<Longrightarrow> kept_field f \<Longrightarrow> get s' x f = get s x f"
    and "current_running s' \<noteq> current_running s \<Longrightarrow> get s' (current_running s) STATUS = TASK_READY"
    and "dom Q' = dom Q"
    and "\<And>a. outside (pcb s) a \<Longrightarrow> a \<notin> family_cells (pcb s) (dom Q) \<Longrightarrow> kmem s' a = kmem s a"
proof (rule leave_runs[OF inv q refl _ _ q leave_ready[OF st]])
  let ?m = "(kmem s)(cell (current_running s) STATUS := TASK_READY)"
  show "\<forall>a. a \<notin> {cell (current_running s) STATUS, cell (current_running s) CHAN,
      cell (current_running s) SLEEP_END} \<longrightarrow> ?m a = kmem s a"
    by simp
qed (simp_all, blast intro: that)

text \<open>
  C2: A tick of the timer (or a plain yield) in a state that satisfies the scheduler's
  invariant always returns: the first process of the ready queue that can run is entered, or
  the old one again if there is none; the invariant holds again, the cursor of the old process
  is saved and that of the new one restored, the clock is advanced by the time the counter
  showed and the counter restarts.
\<close>

theorem scheduler_tick:
  assumes "sched_inv s Q" and "Q (ready_queue s) = Some rs"
    and "status \<notin> {TASK_BLOCKED, TASK_SLEEPING, TASK_EXITED}"
  shows "\<exists>s' Q'. scheduler arg1 status s = Some s' \<and> sched_inv s' Q' \<and>
    current_running s' = (case find (runnable s) rs of Some p \<Rightarrow> p | None \<Rightarrow> current_running s) \<and>
    get s' (current_running s') STATUS = TASK_RUNNING \<and>
    get s' (current_running s) CURSOR_X = screen_cursor_x s \<and>
    get s' (current_running s) CURSOR_Y = screen_cursor_y s \<and>
    (current_running s' \<noteq> current_running s \<longrightarrow>
      screen_cursor_x s' = get s (current_running s') CURSOR_X \<and>
      screen_cursor_y s' = get s (current_running s') CURSOR_Y) \<and>
    time_elapsed s' = time_elapsed s + cp0_count s * 2 div 300 \<and> cp0_count s' = 0"
  by (rule tick_runs[OF assms, of arg1]) blast

definition sample_two :: mem where
  "sample_two = (\<lambda>_. 0)(cell (pcb_at 0x1000 1) STATUS := TASK_SLEEPING,
     cell (pcb_at 0x1000 1) SLEEP_END := 10, cell (pcb_at 0x1000 2) STATUS := TASK_READY)"

definition sample :: kstate where
  "sample = sample_kernel [pcb_at 0x1000 1, pcb_at 0x1000 2] sample_two (pcb_at 0x1000 0)"

definition sampleQ :: queues where
  "sampleQ = sample_queues [pcb_at 0x1000 1, pcb_at 0x1000 2]"

lemma sampleQ_simps [simp]:
  "sampleQ 0x100 = Some [pcb_at 0x1000 1, pcb_at 0x1000 2]"
  "sampleQ 0x200 = Some []" "dom sampleQ = {0x100, 0x200} \<union> waiting ` pcbs 0x1000"
  by (simp_all add: sampleQ_def sample_queues_def empty_queues_def)
     (auto simp: empty_queues_def split: if_splits)

lemma sample_two_ok: "queues_ok 0x1000 sample_two (sample_queues [])"
  by (simp add: sample_two_def queues_put sample_pcbs sample_empty)

lemma sample_two_inv: "sched_inv sample sampleQ"
  unfolding sample_def sampleQ_def
  by (rule sample_inv[OF sample_two_ok])
     (auto simp: sample_pcbs pcb_at_inj NUM_MAX_TASK_def sample_two_def cell_inj_idx)

lemma sample_get:
  assumes "i < 32" and "plain_field f" and "f \<noteq> PREV" "f \<noteq> NEXT"
  shows "get sample (pcb_at 0x1000 i) f = sample_two (cell (pcb_at 0x1000 i) f)"
  unfolding sample_def sample_simps using assms sample_two_ok
  by (intro sample_kernel_ok(2)) (auto simp: sample_pcbs pcb_at_inj NUM_MAX_TASK_def)

lemma sample_two_simps [simp]:
  "ready_queue sample = 0x100" "pcb sample = 0x1000" "current_running sample = pcb_at 0x1000 0"
  "time_elapsed sample = 3000000" "cp0_count sample = 600" "gpr sample = (\<lambda>i. word_of_nat i)"
  by (simp_all add: sample_def sample_kernel_def)

lemma sample_two_search:
  "find (runnable sample) [pcb_at 0x1000 1, pcb_at 0x1000 2] = Some (pcb_at 0x1000 2)"
proof -
  have "\<not> runnable sample (pcb_at 0x1000 1)" "runnable sample (pcb_at 0x1000 2)"
    by (simp_all only: runnable_def sample_get get_timer_def sample_two_simps)
       (simp_all add: sample_get sample_two_def cell_inj_idx NUM_MAX_TASK_def task_status_defs)
  then show ?thesis by simp
qed

theorem scheduler_tick_witness:
  "\<exists>s'. scheduler 0 TASK_RUNNING sample = Some s' \<and> current_running s' = pcb_at 0x1000 2 \<and>
    time_elapsed s' = 3000004"
  using scheduler_tick[OF sample_two_inv, of "[pcb_at 0x1000 1, pcb_at 0x1000 2]" TASK_RUNNING 0]
  unfolding sample_two_search by (auto simp: task_status_defs)

text \<open>Processes wait their turn: a run of ticks.\<close>

fun ticks :: "u32 \<Rightarrow> nat \<Rightarrow> kstate \<Rightarrow> kstate option" where
  "ticks arg1 0 s = Some s"
| "ticks arg1 (Suc n) s = scheduler arg1 TASK_RUNNING s \<bind> ticks arg1 n"

lemma tl_left_over_nth:
  assumes "i < length rs" and "runnable s (rs ! i)"
  shows "find (runnable s) rs = Some (rs ! i) \<or>
    (\<exists>j < i. j < length (tl (left_over s rs)) \<and> tl (left_over s rs) ! j = rs ! i)"
  using assms
proof (induction rs arbitrary: i)
  case Nil
  then show ?case by simp
next
  case (Cons x xs)
  show ?case
  proof (cases "runnable s x")
    case True
    with Cons.prems show ?thesis by (cases i) (auto simp: left_over_def)
  next
    case False
    with Cons.prems obtain j where i: "i = Suc j" "j < length xs" "runnable s (xs ! j)" by (cases i) auto
    then show ?thesis using Cons.IH[OF i(2,3)] False by (auto simp: left_over_def intro: less_SucI)
  qed
qed

text \<open>
  C6: The ready queue is served in turn: a process that is ready at position \<open>i\<close> of the
  ready queue is entered within \<open>i + 1\<close> ticks, whatever the others do.
\<close>

theorem ready_process_served:
  assumes "sched_inv s Q" and "Q (ready_queue s) = Some rs"
    and "i < length rs" and "get s (rs ! i) STATUS = TASK_READY"
  shows "\<exists>n s'. n \<le> i + 1 \<and> ticks arg1 n s = Some s' \<and> current_running s' = rs ! i"
  using assms
proof (induction i arbitrary: s Q rs rule: less_induct)
  case (less i)
  note inv = less.prems(1) and q = less.prems(2)
  let ?x = "rs ! i"
  have run: "runnable s ?x" using less.prems(4) by (simp add: runnable_def)
  have x: "?x \<in> set rs" using less.prems(3) by simp
  have st: "TASK_RUNNING \<notin> {TASK_BLOCKED, TASK_SLEEPING, TASK_EXITED}" by (simp add: task_status_defs)
  have xp: "?x \<in> pcbs (pcb s)" "?x \<noteq> current_running s"
    using inv x q queues_okD(2)[of "pcb s" "kmem s" Q "ready_queue s" rs] queuedI[of Q "ready_queue s" rs ?x]
    by (auto simp: leave_facts)
  obtain s' Q' ys where s': "scheduler arg1 TASK_RUNNING s = Some s'" "sched_inv s' Q'"
    "current_running s' = (case find (runnable s) rs of Some p \<Rightarrow> p | None \<Rightarrow> current_running s)"
    "Q' (ready_queue s') = Some (tl (left_over s rs) @ [current_running s] @ ys)"
    "?x \<noteq> current_running s' \<Longrightarrow> get s' ?x STATUS = TASK_READY"
    using tick_runs[OF inv q st, of arg1 thesis] run x xp less.prems(4) by metis
  show ?case
  proof (cases "?x = current_running s'")
    case True
    then have "ticks arg1 1 s = Some s'" using s'(1) by simp
    with True show ?thesis by (intro exI[of _ 1] exI[of _ s']) simp
  next
    case False
    then have "find (runnable s) rs \<noteq> Some ?x" using s'(3) by auto
    then obtain j where j: "j < i" "j < length (tl (left_over s rs))" "tl (left_over s rs) ! j = ?x"
      using tl_left_over_nth[OF less.prems(3) run] by auto
    have "j < length (tl (left_over s rs) @ [current_running s] @ ys)"
      unfolding length_append using j(2) by linarith
    then obtain n t where "n \<le> j + 1" "ticks arg1 n s' = Some t" "current_running t = ?x"
      using less.IH[OF j(1) s'(2,4)] s'(5) False j(2,3) by (auto simp: nth_append)
    then show ?thesis using j(1) s'(1) by (intro exI[of _ "Suc n"] exI[of _ t]) auto
  qed
qed

theorem ready_process_served_witness:
  "\<exists>n s'. n \<le> 2 \<and> ticks 0 n sample = Some s' \<and> current_running s' = pcb_at 0x1000 2"
proof -
  have "get sample (pcb_at 0x1000 2) STATUS = TASK_READY"
    by (simp add: sample_get sample_two_def)
  then show ?thesis
    using ready_process_served[OF sample_two_inv, of "[pcb_at 0x1000 1, pcb_at 0x1000 2]" 1 0]
    by (simp add: numeral_2_eq_2)
qed


lemma block_runs:
  assumes "sched_inv s Q" and "Q q = Some xs" and "q \<noteq> ready_queue s"
    and "Q (ready_queue s) = Some rs" and "find (runnable s) rs = Some p"
    and "q \<notin> waiting ` {x \<in> set rs. gone s x}"
  obtains s' Q' where "scheduler q TASK_BLOCKED s = Some s'" and "sched_inv s' Q'"
    and "ready_queue s' = ready_queue s" and "pcb s' = pcb s" and "current_running s' = p"
    and "get s' p STATUS = TASK_RUNNING" and "Q' q = Some (xs @ [current_running s])"
    and "get s' (current_running s) STATUS = TASK_BLOCKED" and "get s' (current_running s) CHAN = q"
    and "dom Q' = dom Q"
    and "\<And>a. outside (pcb s) a \<Longrightarrow> a \<notin> family_cells (pcb s) (dom Q) \<Longrightarrow> kmem s' a = kmem s a"
    and "\<And>x f. x \<in> pcbs (pcb s) \<Longrightarrow> kept_field f \<Longrightarrow> get s' x f = get s x f"
proof -
  let ?c = "current_running s"
  have ex: "\<exists>x \<in> set rs. runnable s x" using assms(5) by (auto simp: find_Some_iff)
  have ne: "cell ?c STATUS \<noteq> cell ?c CHAN"
    using cell_inj[of ?c "pcb s" ?c STATUS CHAN] assms(1) by (auto simp: leave_facts)
  obtain s' Q' where s': "scheduler q TASK_BLOCKED s = Some s'" "sched_inv s' Q'" "ready_queue s' = ready_queue s"
    "pcb s' = pcb s" "current_running s' = p" "get s' p STATUS = TASK_RUNNING" "Q' q = Some (xs @ [?c])"
    "dom Q' = dom Q" "\<And>a. outside (pcb s) a \<Longrightarrow> a \<notin> family_cells (pcb s) (dom Q) \<Longrightarrow> kmem s' a = kmem s a"
    "\<And>x f. x \<in> pcbs (pcb s) \<Longrightarrow> kept_field f \<Longrightarrow> get s' x f = get s x f"
    by (rule leave_runs[OF assms(1,2) refl _ _ assms(4) leave_block, of thesis])
       (use assms ex ne in auto)
  then have "statuses_ok s' Q'" by (simp add: sched_inv_def leaving_ok_def)
  then have "blocked_on s' q ?c"
    using s'(3,7) assms(3) statuses_blocked[of s' Q' q "xs @ [?c]" ?c] by simp
  then show thesis using that[OF s'(1-7) _ _ s'(8-10)] by (simp add: blocked_on_def)
qed

text \<open>
  C7: Blocking on a queue: if some process of the ready queue can run, the switch returns with
  the first such process entered, the caller last in the queue it blocks on (unless a killed
  process, whose waiters are all woken, owns that queue), and the invariant restored, so that
  the caller is \<open>TASK_BLOCKED\<close> with \<open>chan\<close> pointing to the queue.
\<close>

theorem scheduler_block:
  assumes "sched_inv s Q" and "Q q = Some xs" and "q \<noteq> ready_queue s"
    and "Q (ready_queue s) = Some rs" and "find (runnable s) rs = Some p"
    and "q \<notin> waiting ` {x \<in> set rs. gone s x}"
  shows "\<exists>s' Q'. scheduler q TASK_BLOCKED s = Some s' \<and> sched_inv s' Q' \<and> current_running s' = p \<and>
    Q' q = Some (xs @ [current_running s]) \<and> get s' p STATUS = TASK_RUNNING \<and>
    get s' (current_running s) STATUS = TASK_BLOCKED \<and> get s' (current_running s) CHAN = q"
  by (rule block_runs[OF assms]) blast

theorem scheduler_block_witness:
  "\<exists>s' Q'. scheduler 0x200 TASK_BLOCKED sample = Some s' \<and> sched_inv s' Q' \<and>
    current_running s' = pcb_at 0x1000 2 \<and> Q' 0x200 = Some [pcb_at 0x1000 0]"
proof -
  have "0x200 \<notin> waiting ` {x \<in> set [pcb_at 0x1000 1, pcb_at 0x1000 2]. gone sample x}"
    using sample_outside(4) outside_cell[of "0x1000" "0x200" _ WAITING_HEAD] sample_pcbs
    by (auto simp: waiting_def)
  then show ?thesis
    using scheduler_block[OF sample_two_inv, of "0x200" "[]" "[pcb_at 0x1000 1, pcb_at 0x1000 2]" "pcb_at 0x1000 2"]
      sample_two_search by auto
qed

text \<open>
  C8: A process that goes to sleep while every other process of the ready queue sleeps as well
  never returns from the scheduler: the clock is read in the loop but only advanced after it.
\<close>

theorem scheduler_sleep_livelock:
  assumes "sched_inv s Q" and "Q (ready_queue s) = Some rs"
    and "\<forall>x \<in> set rs. asleep s x" and "get_timer s < get_timer s + arg1"
  shows "scheduler arg1 TASK_SLEEPING s = None"
proof -
  let ?c = "current_running s"
  let ?m = "(kmem s)(cell ?c STATUS := TASK_SLEEPING, cell ?c SLEEP_END := get_timer s + arg1)"
  let ?s1 = "s\<lparr>kmem := queue_push ?m (ready_queue s) ?c\<rparr>"
  define s2 where "s2 = put ?c CURSOR_Y (screen_cursor_y ?s1) (put ?c CURSOR_X (screen_cursor_x ?s1) ?s1)"
  have c: "?c \<in> pcbs (pcb s)" "?c \<notin> queued Q" and ok0: "queues_ok (pcb s) (kmem s) Q"
    using assms(1) by (auto simp: leave_facts)
  have ne: "cell ?c STATUS \<noteq> cell ?c SLEEP_END" using cell_inj[OF c(1) c(1), of STATUS SLEEP_END] by simp
  have m: "\<forall>a. a \<notin> {cell ?c STATUS, cell ?c CHAN, cell ?c SLEEP_END} \<longrightarrow> ?m a = kmem s a"
    and st: "if ready_queue s = ready_queue s then ?m (cell ?c STATUS) \<in> {TASK_READY, TASK_SLEEPING}
      else ?m (cell ?c STATUS) = TASK_BLOCKED \<and> ?m (cell ?c CHAN) = ready_queue s"
    using ne by simp_all
  note push = push_leaving[where m = ?m, OF assms(1,2) refl m st]
  have ok: "queues_ok (pcb s) (kmem s2) (Q(ready_queue s \<mapsto> rs @ [?c]))"
    using push(1) c by (simp add: s2_def queues_put leave_facts)
  have "asleep s2 x" if "x \<in> set (rs @ [?c])" for x
  proof -
    have x: "x \<in> pcbs (pcb s)" using that c(1) queues_okD(2)[OF ok0 assms(2)] by auto
    have "asleep ?s1 x"
    proof (cases "x = ?c")
      case True
      then show ?thesis
        using push(2)[OF c(1), of STATUS] push(2)[OF c(1), of SLEEP_END] assms(4) ne
        by (simp add: asleep_def get_timer_def)
    next
      case False
      then have xs: "asleep s x" using that assms(3) by simp
      have "queue_push ?m (ready_queue s) ?c (cell x f) = get s x f"
        if "f \<in> {STATUS, SLEEP_END, HOLDING_HEAD}" for f
      proof -
        have f: "plain_field f" "f \<noteq> PREV" "f \<noteq> NEXT" "field_ok f" using that by auto
        show ?thesis by (rule trans[OF push(2)[OF x f(1-3)] push(3)[OF x False f(4)]])
      qed
      then show ?thesis using search_cong(2) xs by blast
    qed
    then show ?thesis
      using sched_cong(1)[of s2 ?s1 ?c _ _ "pcb s" x] c(1) x by (simp add: s2_def)
  qed
  then have "sched_loop s2 = None"
    by (intro sched_loop_asleep[OF ok, of "rs @ [?c]"]) (simp_all add: s2_def)
  then show ?thesis
    by (simp add: scheduler_def leave_sleep s2_def)
qed


definition sample_sleepers :: mem where
  "sample_sleepers = (\<lambda>_. 0)(cell (pcb_at 0x1000 1) STATUS := TASK_SLEEPING,
     cell (pcb_at 0x1000 1) SLEEP_END := 10)"

theorem scheduler_sleep_livelock_witness:
  "scheduler 5 TASK_SLEEPING (sample_kernel [pcb_at 0x1000 1] sample_sleepers (pcb_at 0x1000 0)) = None"
proof (rule scheduler_sleep_livelock)
  have ok: "queues_ok 0x1000 sample_sleepers (sample_queues [])"
    by (simp add: sample_sleepers_def queues_put sample_pcbs sample_empty)
  have get: "sample_mem [pcb_at 0x1000 1] sample_sleepers (cell (pcb_at 0x1000 1) f) =
      sample_sleepers (cell (pcb_at 0x1000 1) f)" if "f \<in> {STATUS, SLEEP_END}" for f
    using that by (intro sample_kernel_ok(2)[OF ok]) (auto simp: sample_pcbs)
  have st: "sample_sleepers (cell (pcb_at 0x1000 1) STATUS) = TASK_SLEEPING"
    "sample_sleepers (cell (pcb_at 0x1000 1) SLEEP_END) = 10"
    by (simp_all add: sample_sleepers_def cell_inj_idx NUM_MAX_TASK_def)
  show "sched_inv (sample_kernel [pcb_at 0x1000 1] sample_sleepers (pcb_at 0x1000 0)) (sample_queues [pcb_at 0x1000 1])"
    by (rule sample_inv[OF ok])
       (auto simp: sample_pcbs pcb_at_inj NUM_MAX_TASK_def sample_sleepers_def cell_inj_idx)
  show "\<forall>x \<in> set [pcb_at 0x1000 1]. asleep (sample_kernel [pcb_at 0x1000 1] sample_sleepers (pcb_at 0x1000 0)) x"
    using get[of STATUS] get[of SLEEP_END] st by (simp add: asleep_def get_timer_def)
qed (simp_all add: get_timer_def)

section \<open>Contexts\<close>

lemma fold_put_other:
  "\<exists>m. fold (\<lambda>i. put c (ctx i) (g i)) is s = s\<lparr>kmem := m\<rparr>"
proof (induction "is" arbitrary: s)
  case Nil
  show ?case by (rule exI[of _ "kmem s"]) simp
next
  case (Cons i "is")
  then obtain m where "fold (\<lambda>i. put c (ctx i) (g i)) is (put c (ctx i) (g i) s) = (put c (ctx i) (g i) s)\<lparr>kmem := m\<rparr>"
    by blast
  moreover have "(put c (ctx i) (g i) s)\<lparr>kmem := m\<rparr> = s\<lparr>kmem := m\<rparr>"
    by (simp add: put_def)
  ultimately show ?case by auto
qed

lemma fold_put_cell:
  assumes "distinct is" and "\<And>i j. i \<in> set is \<Longrightarrow> j \<in> set is \<Longrightarrow> cell c (ctx i) = cell c (ctx j) \<Longrightarrow> i = j"
  shows "i \<in> set is \<Longrightarrow> kmem (fold (\<lambda>i. put c (ctx i) (g i)) is s) (cell c (ctx i)) = g i"
    and "a \<notin> (\<lambda>i. cell c (ctx i)) ` set is \<Longrightarrow> kmem (fold (\<lambda>i. put c (ctx i) (g i)) is s) a = kmem s a"
proof -
  have frame: "kmem (fold (\<lambda>i. put c (ctx i) (g i)) js s) a = kmem s a"
    if "a \<notin> (\<lambda>i. cell c (ctx i)) ` set js" for js s a
    using that by (induction js arbitrary: s) auto
  then show "a \<notin> (\<lambda>i. cell c (ctx i)) ` set is \<Longrightarrow> kmem (fold (\<lambda>i. put c (ctx i) (g i)) is s) a = kmem s a"
    by blast
  show "i \<in> set is \<Longrightarrow> kmem (fold (\<lambda>i. put c (ctx i) (g i)) is s) (cell c (ctx i)) = g i"
    using assms
  proof (induction "is" arbitrary: s)
    case (Cons j js)
    show ?case
    proof (cases "i \<in> set js")
      case True
      with Cons show ?thesis by simp
    next
      case False
      with Cons.prems have "i = j" "cell c (ctx i) \<notin> (\<lambda>i. cell c (ctx i)) ` set js" by auto
      then show ?thesis by (simp add: frame)
    qed
  qed simp
qed

lemma saved_regs_props: "distinct saved_regs" "set saved_regs = {1..<32} - {26, 27}"
  by (auto simp: saved_regs_def)

text \<open>What \<open>SAVE_CONTEXT\<close> leaves in the block of the running process, for either context.\<close>

lemma ctx_kinds:
  "KERNEL_CONTEXT \<in> {KERNEL_CONTEXT, USER_CONTEXT}" "USER_CONTEXT \<in> {KERNEL_CONTEXT, USER_CONTEXT}"
  by simp_all

lemma save_cells:
  assumes ctx: "ctx \<in> {KERNEL_CONTEXT, USER_CONTEXT}" and c: "current_running s \<in> pcbs b"
  defines "t \<equiv> save_context ctx s"
  shows "i \<in> set saved_regs \<Longrightarrow> get t (current_running s) (ctx i) = gpr s i"
    and "get t (current_running s) (ctx CTX_STATUS) = cp0_status s"
    and "get t (current_running s) (ctx CTX_HI) = reg_hi s"
    and "get t (current_running s) (ctx CTX_LO) = reg_lo s"
    and "get t (current_running s) (ctx CTX_EPC) = cp0_epc s"
    and "\<forall>i < 39. a \<noteq> cell (current_running s) (ctx i) \<Longrightarrow> kmem t a = kmem s a"
    and "t = s\<lparr>kmem := kmem t, gpr := (gpr s)(26 := current_running s, 27 := cp0_epc s)\<rparr>"
proof -
  let ?c = "current_running s"
  let ?f = "fold (\<lambda>i. put ?c (ctx i) (gpr s i)) saved_regs s"
  have inj: "cell ?c (ctx i) = cell ?c (ctx j) \<longleftrightarrow> i = j" if "i < 39" "j < 39" for i j
    using cell_inj[OF c c, of "ctx i" "ctx j"] that ctx by auto
  have sr: "i < 32" if "i \<in> set saved_regs" for i using that by (simp add: saved_regs_props)
  obtain mf where mf: "?f = s\<lparr>kmem := mf\<rparr>"
    using fold_put_other by blast
  then have km: "mf = kmem ?f" by simp
  have inj': "\<And>i j. i \<in> set saved_regs \<Longrightarrow> j \<in> set saved_regs \<Longrightarrow>
      cell ?c (ctx i) = cell ?c (ctx j) \<Longrightarrow> i = j"
    subgoal for i j using inj[of i j] sr[of i] sr[of j] by simp
    done
  have fc: "i \<in> set saved_regs \<Longrightarrow> mf (cell ?c (ctx i)) = gpr s i"
    and fo: "a \<notin> (\<lambda>i. cell ?c (ctx i)) ` set saved_regs \<Longrightarrow> mf a = kmem s a" for i a
    unfolding km using fold_put_cell[OF saved_regs_props(1) inj'] by blast+
  have t: "t = s\<lparr>kmem := mf(cell ?c (ctx CTX_STATUS) := cp0_status s,
      cell ?c (ctx CTX_HI) := reg_hi s, cell ?c (ctx CTX_LO) := reg_lo s,
      cell ?c (ctx CTX_EPC) := cp0_epc s),
      gpr := (gpr s)(26 := ?c, 27 := cp0_epc s)\<rparr>"
    by (simp add: t_def save_context_def mf Let_def put_def)
  note regs = CTX_STATUS_def CTX_HI_def CTX_LO_def CTX_EPC_def
  show "i \<in> set saved_regs \<Longrightarrow> get t ?c (ctx i) = gpr s i"
    using sr[of i] fc[of i] by (simp add: t inj regs)
  show "get t ?c (ctx CTX_STATUS) = cp0_status s" "get t ?c (ctx CTX_HI) = reg_hi s"
    "get t ?c (ctx CTX_LO) = reg_lo s" "get t ?c (ctx CTX_EPC) = cp0_epc s"
    by (simp_all add: t inj regs)
  show "kmem t a = kmem s a" if "\<forall>i < 39. a \<noteq> cell ?c (ctx i)"
  proof -
    have "a \<noteq> cell ?c (ctx i)" if "i \<in> set saved_regs" for i
      using sr[OF that] \<open>\<forall>i < 39. a \<noteq> cell ?c (ctx i)\<close> by simp
    then have "a \<notin> (\<lambda>i. cell ?c (ctx i)) ` set saved_regs" by auto
    then show ?thesis using fo[of a] that by (simp add: t regs)
  qed
  show "t = s\<lparr>kmem := kmem t, gpr := (gpr s)(26 := ?c, 27 := cp0_epc s)\<rparr>"
    by (simp add: t)
qed

lemmas save_context_cells = save_cells[OF ctx_kinds(1)]

text \<open>Writing the contexts of processes keeps the scheduler's invariant.\<close>

definition ctx_cells :: "u32 \<Rightarrow> u32 set" where
  "ctx_cells b = {a. \<exists>p \<in> pcbs b. \<exists>i < 39. a = cell p (KERNEL_CONTEXT i) \<or> a = cell p (USER_CONTEXT i)}"

lemma ctx_cells_plain:
  assumes "p \<in> pcbs b" and "field_ok f" and "cell p f \<in> ctx_cells b"
  shows "\<exists>i < 39. f = KERNEL_CONTEXT i \<or> f = USER_CONTEXT i"
  using assms cell_inj[of p b _ f] by (fastforce simp: ctx_cells_def)

lemma queues_ok_ctx:
  assumes "queues_ok b m Q" and "\<And>a. a \<notin> ctx_cells b \<Longrightarrow> m' a = m a"
  shows "queues_ok b m' Q"
proof -
  have "queue_rep m' q xs = queue_rep m q xs" if "Q q = Some xs" for q xs
  proof (rule queue_rep_cong)
    fix a assume a: "a \<in> queue_cells q (set xs)"
    have "a \<notin> ctx_cells b"
    proof
      assume "a \<in> ctx_cells b"
      then obtain p f where pf: "p \<in> pcbs b" "plain_field f" "f \<noteq> PREV" "f \<noteq> NEXT" "a = cell p f"
        unfolding ctx_cells_def using plain_fields(15,16) by blast
      have "queue_addrs_ok b (dom Q)" "q \<in> dom Q" using assms(1) that by (auto simp: queues_ok_def)
      from addrs_plain[OF this queues_okD(2)[OF assms(1) that] pf(1-4)] show False using a pf(5) by simp
    qed
    then show "m' a = m a" by (rule assms(2))
  qed
  then show ?thesis using assms(1) unfolding queues_ok_def by blast
qed

lemma sched_inv_ctx:
  assumes inv: "sched_inv s Q" and m: "\<And>a. a \<notin> ctx_cells (pcb s) \<Longrightarrow> kmem t a = kmem s a"
    and t: "pcb t = pcb s" "ready_queue t = ready_queue s" "current_running t = current_running s"
  shows "sched_inv t Q"
    and "x \<in> pcbs (pcb s) \<Longrightarrow> time_elapsed t = time_elapsed s \<Longrightarrow> runnable t x = runnable s x"
proof -
  have g: "get t x f = get s x f"
    if x: "x \<in> pcbs (pcb s)" and f: "f \<in> {STATUS, CHAN, SLEEP_END, HOLDING_HEAD}" for x f
  proof (rule m, rule notI)
    assume "cell x f \<in> ctx_cells (pcb s)"
    then obtain i where "f = KERNEL_CONTEXT i \<or> f = USER_CONTEXT i"
      using ctx_cells_plain[OF x, of f] f by auto
    with f show False by auto
  qed
  have ok: "queues_ok (pcb s) (kmem s) Q" using inv by (simp add: leave_facts)
  have "statuses_ok t Q"
    unfolding statuses_ok_def
  proof (intro allI impI ballI)
    fix q xs x assume q: "Q q = Some xs" "x \<in> set xs"
    then have "x \<in> pcbs (pcb s)" using queues_okD(2)[OF ok] by auto
    moreover have "if q = ready_queue s then ready_status s x else blocked_on s q x"
      using inv q unfolding sched_inv_def leaving_ok_def statuses_ok_def by blast
    ultimately show "if q = ready_queue t then ready_status t x else blocked_on t q x"
      using g[of x STATUS] g[of x CHAN] g[of x HOLDING_HEAD] t(2)
      by (simp add: ready_status_def blocked_on_def gone_def split: if_splits)
  qed
  then show "sched_inv t Q"
    using inv queues_ok_ctx[OF ok m] t by (simp add: leave_facts)
  show "x \<in> pcbs (pcb s) \<Longrightarrow> time_elapsed t = time_elapsed s \<Longrightarrow> runnable t x = runnable s x"
    using g[of x STATUS] g[of x SLEEP_END] by (simp add: runnable_def get_timer_def)
qed

lemma saved_reg_bounds: "i \<in> set saved_regs \<Longrightarrow> i < 39 \<and> i \<noteq> 26 \<and> i \<noteq> 27"
  by (auto simp: saved_regs_def)

lemma kept_contexts: "i < 39 \<Longrightarrow> kept_field (KERNEL_CONTEXT i)" "i < 39 \<Longrightarrow> kept_field (USER_CONTEXT i)"
  by (simp_all add: kept_field_def)

lemma restore_regs:
  assumes "i \<in> set saved_regs"
  shows "gpr (restore_context ctx s) i = get s (current_running s) (ctx i)"
  using assms saved_reg_bounds[OF assms] by (simp add: restore_context_def Let_def)

lemma save_inv:
  assumes ctx: "ctx \<in> {KERNEL_CONTEXT, USER_CONTEXT}" and inv: "sched_inv s Q"
  defines "t \<equiv> save_context ctx s"
  shows "sched_inv t Q" and "pcb t = pcb s" "ready_queue t = ready_queue s"
    "current_running t = current_running s" "time_elapsed t = time_elapsed s"
    and "x \<in> pcbs (pcb s) \<Longrightarrow> runnable t x = runnable s x"
    and "a \<notin> ctx_cells (pcb s) \<Longrightarrow> kmem t a = kmem s a"
proof -
  have c: "current_running s \<in> pcbs (pcb s)" using inv by (simp add: leave_facts)
  note sv = save_cells[OF ctx c, folded t_def]
  show t: "pcb t = pcb s" "ready_queue t = ready_queue s"
    "current_running t = current_running s" "time_elapsed t = time_elapsed s"
    by (subst sv(7), simp)+
  show m: "kmem t a = kmem s a" if "a \<notin> ctx_cells (pcb s)" for a
    using that c ctx by (intro sv(6)) (auto simp: ctx_cells_def)
  show "sched_inv t Q" "x \<in> pcbs (pcb s) \<Longrightarrow> runnable t x = runnable s x"
    using sched_inv_ctx[OF inv m t(1-3)] t(4) by auto
qed

lemmas save_context_inv = save_inv[OF ctx_kinds(1)]

lemma restore_context_inv:
  assumes "sched_inv s Q"
  shows "sched_inv (restore_context ctx s) Q"
  by (rule sched_inv_ctx(1)[OF assms]) (simp_all add: restore_context_def Let_def)

lemma restore_context_simps [simp]:
  "kmem (restore_context ctx s) = kmem s" "pcb (restore_context ctx s) = pcb s"
  "ready_queue (restore_context ctx s) = ready_queue s" "current_running (restore_context ctx s) = current_running s"
  by (simp_all add: restore_context_def Let_def)

lemma find_runnable_cong:
  "(\<And>x. x \<in> set rs \<Longrightarrow> runnable t x = runnable s x) \<Longrightarrow> find (runnable t) rs = find (runnable s) rs"
  by (intro find_cong) auto

text \<open>Blocking through \<open>do_block\<close>, with the contexts saved and restored around the scheduler.\<close>

text \<open>What a switch leaves alone: memory outside the array of blocks and the queues, and the
  lists of held locks.\<close>

definition unswitched :: "kstate \<Rightarrow> queues \<Rightarrow> kstate \<Rightarrow> bool" where
  "unswitched s Q s' \<longleftrightarrow>
     (\<forall>a. outside (pcb s) a \<longrightarrow> a \<notin> family_cells (pcb s) (dom Q) \<longrightarrow> kmem s' a = kmem s a) \<and>
     (\<forall>x \<in> pcbs (pcb s). get s' x HOLDING_HEAD = get s x HOLDING_HEAD \<and> get s' x HOLDING_TAIL = get s x HOLDING_TAIL)"

lemma outside_ctx: "outside b a \<Longrightarrow> a \<notin> ctx_cells b"
  using outside_cell[of b a _ "KERNEL_CONTEXT _"] outside_cell[of b a _ "USER_CONTEXT _"] by (force simp: ctx_cells_def)

lemma switch_unswitched:
  assumes "sched_inv s Q" and "t = save_context KERNEL_CONTEXT s"
    and "\<And>a. outside (pcb t) a \<Longrightarrow> a \<notin> family_cells (pcb t) (dom Q) \<Longrightarrow> kmem u a = kmem t a"
    and "\<And>x f. x \<in> pcbs (pcb t) \<Longrightarrow> kept_field f \<Longrightarrow> get u x f = get t x f"
  shows "unswitched s Q (restore_context KERNEL_CONTEXT u)"
proof -
  note sv = save_context_inv[OF assms(1), folded assms(2)]
  have "kmem u a = kmem s a" if "outside (pcb s) a" "a \<notin> family_cells (pcb s) (dom Q)" for a
    using assms(3)[of a] sv(2) sv(7)[OF outside_ctx[OF that(1)]] that by simp
  moreover have "get u x f = get s x f" if "x \<in> pcbs (pcb s)" "f \<in> {HOLDING_HEAD, HOLDING_TAIL}" for x f
  proof -
    have "cell x f \<notin> ctx_cells (pcb s)" using ctx_cells_plain[OF that(1), of f] that(2) by auto
    then show ?thesis using assms(4)[of x f] sv(2,7) that by (auto simp: kept_field_def)
  qed
  ultimately show ?thesis by (simp add: unswitched_def)
qed

lemma do_block_runs:
  assumes inv: "sched_inv s Q" and q: "Q q = Some xs" "q \<noteq> ready_queue s"
    and rq: "Q (ready_queue s) = Some rs" and fnd: "find (runnable s) rs = Some p"
    and ng: "\<forall>x \<in> set rs. waiting x = q \<longrightarrow> get s x STATUS \<noteq> TASK_EXITED"
  obtains s' Q' where "do_block q s = Some s'" and "sched_inv s' Q'" and "ready_queue s' = ready_queue s"
    and "pcb s' = pcb s" and "current_running s' = p" and "Q' q = Some (xs @ [current_running s])"
    and "dom Q' = dom Q" and "unswitched s Q s'"
proof -
  define t where "t = save_context KERNEL_CONTEXT s"
  note sv = save_context_inv[OF inv, folded t_def]
  have ok: "queues_ok (pcb s) (kmem s) Q" using inv by (simp add: leave_facts)
  have rs: "x \<in> pcbs (pcb s)" if "x \<in> set rs" for x using queues_okD(2)[OF ok rq] that by auto
  have q': "q \<noteq> ready_queue t" and rq': "Q (ready_queue t) = Some rs" using q rq sv(3) by simp_all
  have fnd': "find (runnable t) rs = Some p"
    using fnd find_runnable_cong[of rs t s] sv(6) rs by simp
  have "get t x STATUS = get s x STATUS" if "x \<in> set rs" for x
    using ctx_cells_plain[OF rs[OF that], of STATUS] by (intro sv(7)) auto
  then have ng': "q \<notin> waiting ` {x \<in> set rs. gone t x}"
    using ng by (auto simp: gone_def)
  obtain u Q' where u: "scheduler q TASK_BLOCKED t = Some u" "sched_inv u Q'" "ready_queue u = ready_queue t"
    "pcb u = pcb t" "current_running u = p" "Q' q = Some (xs @ [current_running t])" "dom Q' = dom Q"
    and fr: "\<And>a. outside (pcb t) a \<Longrightarrow> a \<notin> family_cells (pcb t) (dom Q) \<Longrightarrow> kmem u a = kmem t a"
      "\<And>x f. x \<in> pcbs (pcb t) \<Longrightarrow> kept_field f \<Longrightarrow> get u x f = get t x f"
    by (rule block_runs[OF sv(1) q(1) q' rq' fnd' ng']) blast
  have "do_block q s = Some (restore_context KERNEL_CONTEXT u)"
    using u(1) by (simp add: do_block_def switch_sched_def t_def TASK_BLOCKED_def)
  then show thesis
    by (rule that[OF _ restore_context_inv[OF u(2)] _ _ _ _ _ switch_unswitched[OF inv t_def fr]]) (simp_all add: u sv)
qed

lemma do_scheduler_runs:
  assumes inv: "sched_inv s Q"
  obtains s' Q' where "do_scheduler s = Some s'" and "sched_inv s' Q'" and "ready_queue s' = ready_queue s"
    and "pcb s' = pcb s" and "dom Q' = dom Q" and "unswitched s Q s'"
proof -
  define t where "t = save_context KERNEL_CONTEXT s"
  note sv = save_context_inv[OF inv, folded t_def]
  obtain rs where rs: "Q (ready_queue t) = Some rs" using inv sv(3) by (auto simp: leave_facts)
  have st: "3 \<notin> {TASK_BLOCKED, TASK_SLEEPING, TASK_EXITED}" by (simp add: task_status_defs)
  obtain u Q' where u: "scheduler (gpr s 4) 3 t = Some u" "sched_inv u Q'" "pcb u = pcb t"
    "ready_queue u = ready_queue t" "dom Q' = dom Q"
    and fr: "\<And>a. outside (pcb t) a \<Longrightarrow> a \<notin> family_cells (pcb t) (dom Q) \<Longrightarrow> kmem u a = kmem t a"
      "\<And>x f. x \<in> pcbs (pcb t) \<Longrightarrow> kept_field f \<Longrightarrow> get u x f = get t x f"
    by (rule tick_runs[OF sv(1) rs st, of "gpr s 4"]) blast
  have "do_scheduler s = Some (restore_context KERNEL_CONTEXT u)"
    using u(1) by (simp add: do_scheduler_def switch_sched_def t_def)
  then show thesis
    by (rule that[OF _ restore_context_inv[OF u(2)] _ _ _ switch_unswitched[OF inv t_def fr]]) (simp_all add: u sv)
qed

lemma do_scheduler_switch:
  assumes inv: "sched_inv s Q" and rq: "Q (ready_queue s) = Some rs"
  defines "p \<equiv> case find (runnable s) rs of Some p \<Rightarrow> p | None \<Rightarrow> current_running s"
  obtains s' Q' where "do_scheduler s = Some s'" and "sched_inv s' Q'" and "pcb s' = pcb s"
    and "ready_queue s' = ready_queue s" and "dom Q' = dom Q" and "current_running s' = p" and "p \<in> pcbs (pcb s)"
    and "\<And>x f. x \<in> pcbs (pcb s) \<Longrightarrow> kept_field f \<Longrightarrow> \<forall>i. f \<noteq> KERNEL_CONTEXT i \<Longrightarrow> get s' x f = get s x f"
    and "\<And>i. i \<in> set saved_regs \<Longrightarrow> get s' (current_running s) (KERNEL_CONTEXT i) = gpr s i"
    and "\<And>i. i \<in> set saved_regs \<Longrightarrow> gpr s' i = (if p = current_running s then gpr s i else get s p (KERNEL_CONTEXT i))"
    and "get s' p STATUS = TASK_RUNNING"
    and "p \<noteq> current_running s \<Longrightarrow> get s' (current_running s) STATUS = TASK_READY"
    and "\<And>x i. x \<in> pcbs (pcb s) \<Longrightarrow> x \<noteq> current_running s \<Longrightarrow> i < 39 \<Longrightarrow> get s' x (KERNEL_CONTEXT i) = get s x (KERNEL_CONTEXT i)"
    and "\<exists>x \<in> set rs. runnable s x \<Longrightarrow> \<exists>ys. Q' (ready_queue s') = Some (tl (left_over s rs) @ [current_running s] @ ys)"
    and "p \<noteq> current_running s \<Longrightarrow> screen_cursor_x s' = get s p CURSOR_X \<and> screen_cursor_y s' = get s p CURSOR_Y"
proof -
  define t where "t = save_context KERNEL_CONTEXT s"
  let ?c = "current_running s"
  have c: "?c \<in> pcbs (pcb s)" and ok: "queues_ok (pcb s) (kmem s) Q" using inv by (simp_all add: leave_facts)
  note sv = save_context_cells[OF c, folded t_def]
  note si = save_context_inv[OF inv, folded t_def]
  have fnd: "find (runnable t) rs = find (runnable s) rs"
    using si(6) queues_okD(2)[OF ok rq] by (intro find_runnable_cong) auto
  have st: "3 \<notin> {TASK_BLOCKED, TASK_SLEEPING, TASK_EXITED}" by (simp add: task_status_defs)
  have q: "Q (ready_queue t) = Some rs" using rq si(3) by simp
  obtain u Q' where u: "scheduler (gpr s 4) 3 t = Some u" "sched_inv u Q'" "pcb u = pcb t" "ready_queue u = ready_queue t"
    "current_running u = (case find (runnable t) rs of Some p \<Rightarrow> p | None \<Rightarrow> current_running t)"
    "get u (current_running u) STATUS = TASK_RUNNING" "dom Q' = dom Q"
    "\<And>x f. x \<in> pcbs (pcb t) \<Longrightarrow> kept_field f \<Longrightarrow> get u x f = get t x f"
    "current_running u \<noteq> current_running t \<Longrightarrow> get u (current_running t) STATUS = TASK_READY"
    "\<exists>x \<in> set rs. runnable t x \<Longrightarrow> \<exists>ys. Q' (ready_queue u) = Some (tl (left_over t rs) @ [current_running t] @ ys)"
    "current_running u \<noteq> current_running t \<Longrightarrow> screen_cursor_x u = get t (current_running u) CURSOR_X \<and>
      screen_cursor_y u = get t (current_running u) CURSOR_Y"
    by (rule tick_runs[OF si(1) q st, of "gpr s 4"]) blast
  have rn: "runnable t x = runnable s x" if "x \<in> set rs" for x
    using that si(6) queues_okD(2)[OF ok rq] by auto
  then have lo: "left_over t rs = left_over s rs" by (auto simp: left_over_def intro!: dropWhile_cong)
  have cur: "get t x f = get s x f" if "x \<in> pcbs (pcb s)" "f \<in> {CURSOR_X, CURSOR_Y}" for x f
    using that ctx_cells_plain[OF that(1), of f] by (intro si(7)) auto
  have cu: "current_running u = p" using u(5) unfolding si(4) fnd p_def .
  have p: "p \<in> pcbs (pcb s)" using u(2,3) si(2) cu by (simp add: leave_facts)
  have gp: "get u x (KERNEL_CONTEXT i) = (if x = ?c then gpr s i else get s x (KERNEL_CONTEXT i))"
    if "x \<in> pcbs (pcb s)" "i \<in> set saved_regs" for x i
    using u(8)[of x "KERNEL_CONTEXT i"] that saved_reg_bounds[OF that(2)] si(2) sv(1)[OF that(2)]
      sv(6)[of "cell x (KERNEL_CONTEXT i)"] cell_inj[OF that(1) c] by (auto simp: kept_contexts)
  have other: "get u x f = get s x f" if "x \<in> pcbs (pcb s)" "kept_field f" "\<forall>i. x = ?c \<longrightarrow> f \<noteq> KERNEL_CONTEXT i" for x f
  proof -
    have "cell x f \<noteq> cell ?c (KERNEL_CONTEXT i)" if "i < 39" for i
      using cell_inj[OF \<open>x \<in> pcbs (pcb s)\<close> c, of f "KERNEL_CONTEXT i"] \<open>kept_field f\<close> that
        \<open>\<forall>i. x = ?c \<longrightarrow> f \<noteq> KERNEL_CONTEXT i\<close> by (auto simp: kept_field_def plain_field_ok)
    then show ?thesis using u(8)[of x f] sv(6)[of "cell x f"] that(1,2) si(2) by simp
  qed
  show thesis
  proof (rule that[of "restore_context KERNEL_CONTEXT u" Q'])
    show "do_scheduler s = Some (restore_context KERNEL_CONTEXT u)"
      using u(1) by (simp add: do_scheduler_def switch_sched_def t_def)
    show "\<exists>ys. Q' (ready_queue (restore_context KERNEL_CONTEXT u)) = Some (tl (left_over s rs) @ [?c] @ ys)"
      if "\<exists>x \<in> set rs. runnable s x"
      using u(10) that rn si(4) lo by auto
    show "screen_cursor_x (restore_context KERNEL_CONTEXT u) = get s p CURSOR_X \<and>
        screen_cursor_y (restore_context KERNEL_CONTEXT u) = get s p CURSOR_Y" if "p \<noteq> ?c"
      using u(11) that cu si(4) cur[OF p] by (simp add: restore_context_def Let_def)
  qed (use u(3,4,6,7,9) si cu p gp[OF p] gp[OF c] other restore_context_inv[OF u(2)] restore_regs[of _ KERNEL_CONTEXT u] in
    \<open>auto simp: kept_contexts\<close>)
qed

text \<open>
  A switch through \<open>do_scheduler\<close> saves the registers of the process that leaves in its
  block and loads those of the process that is entered from its block, where they were saved
  when it left; if no other process can run, the caller goes on with its own registers.
\<close>

theorem do_scheduler_contexts:
  assumes "sched_inv s Q" and "Q (ready_queue s) = Some rs" and "i \<in> set saved_regs"
  shows "\<exists>s' Q'. do_scheduler s = Some s' \<and> sched_inv s' Q' \<and>
    current_running s' = (case find (runnable s) rs of Some p \<Rightarrow> p | None \<Rightarrow> current_running s) \<and>
    get s' (current_running s) (KERNEL_CONTEXT i) = gpr s i \<and>
    gpr s' i = (if current_running s' = current_running s then gpr s i
      else get s (current_running s') (KERNEL_CONTEXT i))"
  by (rule do_scheduler_switch[OF assms(1,2)]) (use assms(3) in auto)

theorem do_scheduler_contexts_witness:
  "\<exists>s'. do_scheduler sample = Some s' \<and> current_running s' = pcb_at 0x1000 2 \<and>
    get s' (pcb_at 0x1000 0) (KERNEL_CONTEXT 29) = 29"
  using do_scheduler_contexts[OF sample_two_inv, of "[pcb_at 0x1000 1, pcb_at 0x1000 2]" 29]
  unfolding sample_two_search by (auto simp: saved_regs_def)

end
