(* ===== verification/Proc.thy ===== *)
theory Proc
  imports Switch
begin

text \<open>
  \<^verbatim>\<open>kernel/sched/proc.c\<close>: creating, killing and awaiting processes, and
  \<open>init_pcb\<close> of \<^verbatim>\<open>init/main.c\<close>, which builds the first process.
\<close>

section \<open>Operations\<close>

text \<open>\<open>task_info_t\<close>: name, entry point, type.\<close>

definition task_name :: u32 where
  task_name_def [layout]: "task_name = 0"

definition task_entry_point :: u32 where
  task_entry_point_def [layout]: "task_entry_point = 4"

definition task_type :: u32 where
  task_type_def [layout]: "task_type = 8"

definition USTACK_BASE :: u32 where "USTACK_BASE = 0x00400000"
definition USTACK_SIZE :: u32 where "USTACK_SIZE = 0x400000"
definition KSTACK_BASE :: u32 where "KSTACK_BASE = 0xa0f00000"
definition KSTACK_SIZE :: u32 where "KSTACK_SIZE = 0x100000"

definition assign_task :: "u32 \<Rightarrow> u32 \<Rightarrow> u32 \<Rightarrow> u32 \<Rightarrow> kstate \<Rightarrow> kstate" where
  "assign_task dest src kstack_top ustack_top s =
    (let s = s\<lparr>kmem := queue_push (kmem s) (ready_queue s) dest\<rparr>;
         s = s\<lparr>kmem := queue_init (kmem s) (holding dest)\<rparr>;
         s = s\<lparr>kmem := queue_init (kmem s) (waiting dest)\<rparr>;
         s = put dest NAME (kmem s (src + task_name)) s;
         s = put dest KERNEL_STACK_TOP kstack_top s;
         s = put dest USER_STACK_TOP ustack_top s;
         s = put dest PID (process_id s) s;
         s = s\<lparr>process_id := process_id s + 1\<rparr>;
         s = put dest TASK_TYPE (kmem s (src + task_type)) s;
         s = put dest STATUS TASK_EMBRYO s;
         s = put dest (KERNEL_CONTEXT 29) kstack_top s;
         s = put dest (KERNEL_CONTEXT 31) (embryo_start s) s;
         s = put dest (KERNEL_CONTEXT CTX_EPC) (kmem s (src + task_entry_point)) s;
         s = put dest (KERNEL_CONTEXT CTX_STATUS) 0 s;
         s = put dest (USER_CONTEXT 29) ustack_top s;
         s = put dest (USER_CONTEXT 31) (kmem s (src + task_entry_point)) s;
         s = put dest (USER_CONTEXT CTX_EPC) (kmem s (src + task_entry_point)) s
     in put dest (USER_CONTEXT CTX_STATUS) 0xff01 s)"

definition assignt :: "u32 \<Rightarrow> nat \<Rightarrow> kstate \<Rightarrow> kstate" where
  "assignt src i s =
    assign_task (pcb_at (pcb s) i) src (KSTACK_BASE + word_of_nat i * KSTACK_SIZE)
      (USTACK_BASE + word_of_nat i * USTACK_SIZE) s"

definition spawn :: "u32 \<Rightarrow> kstate \<Rightarrow> kstate" where
  "spawn task s =
    (case find (\<lambda>i. get s (pcb_at (pcb s) i) STATUS = TASK_EXITED) [0..<NUM_MAX_TASK] of
       Some i \<Rightarrow> assignt task i s
     | None \<Rightarrow> printk (''error: pcbs full!'' @ [CHR 0x0A]) s)"

text \<open>The search of \<open>kill\<close> and \<open>wait\<close> for a live process of a given id.\<close>

definition find_pid :: "u32 \<Rightarrow> kstate \<Rightarrow> nat option" where
  "find_pid pid s =
    find (\<lambda>i. get s (pcb_at (pcb s) i) PID = pid \<and> get s (pcb_at (pcb s) i) STATUS \<noteq> TASK_EXITED)
      [0..<NUM_MAX_TASK]"

definition kill :: "u32 \<Rightarrow> kstate \<Rightarrow> kstate" where
  "kill pid s =
    (case find_pid pid s of
       Some i \<Rightarrow>
         let p = pcb_at (pcb s) i;
             s = put p STATUS TASK_EXITED s
         in if get s p CHAN \<noteq> NULL then
              let s = s\<lparr>kmem := snd (queue_remove (pcb s) (kmem s) (get s p CHAN) p)\<rparr>
              in s\<lparr>kmem := queue_push (kmem s) (ready_queue s) p\<rparr>
            else s
     | None \<Rightarrow> s)"

definition wait :: "u32 \<Rightarrow> kstate \<Rightarrow> kstate option" where
  "wait pid s =
    (case find_pid pid s of
       Some i \<Rightarrow>
         if get s (current_running s) PID = pid then
           Some (printk (''error: wait id equals to self id'' @ [CHR 0x0A]) s)
         else do_block (waiting (pcb_at (pcb s) i)) s
     | None \<Rightarrow> Some s)"

definition exit :: "kstate \<Rightarrow> kstate option" where
  "exit s = do_exit s"

text \<open>\<open>return_int32\<close> of \<^verbatim>\<open>entry.S\<close> stores into the saved user register \<open>v0\<close>.\<close>

definition return_int32 :: "u32 \<Rightarrow> kstate \<Rightarrow> kstate" where
  "return_int32 v s = put (current_running s) (USER_CONTEXT 2) v s"

definition getpid :: "kstate \<Rightarrow> u32 \<times> kstate" where
  "getpid s =
    (let s = return_int32 (get s (current_running s) PID) s
     in (get s (current_running s) PID, s))"

definition init_pcb :: "u32 \<Rightarrow> kstate \<Rightarrow> kstate" where
  "init_pcb shell s =
    (let s = s\<lparr>kmem := queue_init (kmem s) (ready_queue s)\<rparr>;
         s = assignt shell 0 s;
         s = fold (\<lambda>i. put (pcb_at (pcb s) i) STATUS TASK_EXITED) [1..<NUM_MAX_TASK] s;
         (p, m) = queue_dequeue (kmem s) (ready_queue s)
     in s\<lparr>kmem := m, current_running := p\<rparr>)"

definition init_variables :: "kstate \<Rightarrow> kstate" where
  "init_variables s = s\<lparr>time_elapsed := 0, process_id := 1\<rparr>"

section \<open>Writing several fields of one block\<close>

definition puts :: "u32 \<Rightarrow> (pcb_field \<times> u32) list \<Rightarrow> mem \<Rightarrow> mem" where
  "puts p fvs m = fold (\<lambda>(f, v) m. m(cell p f := v)) fvs m"

lemma puts_simps [simp]:
  "puts p [] m = m" "puts p ((f, v) # fvs) m = puts p fvs (m(cell p f := v))"
  by (simp_all add: puts_def)

lemma puts_queues:
  "p \<in> pcbs b \<Longrightarrow> \<forall>(f, v) \<in> set fvs. plain_field f \<and> f \<noteq> PREV \<and> f \<noteq> NEXT \<Longrightarrow>
   queues_ok b (puts p fvs m) Q = queues_ok b m Q"
  by (induction fvs arbitrary: m) (auto simp: queues_put)

lemma puts_frame: "\<forall>(f, v) \<in> set fvs. a \<noteq> cell p f \<Longrightarrow> puts p fvs m a = m a"
  by (induction fvs arbitrary: m) auto

lemma puts_other:
  "p \<in> pcbs b \<Longrightarrow> q \<in> pcbs b \<Longrightarrow> q \<noteq> p \<Longrightarrow> field_ok g \<Longrightarrow> \<forall>(f, v) \<in> set fvs. field_ok f \<Longrightarrow>
   puts p fvs m (cell q g) = m (cell q g)"
  by (rule puts_frame) (auto simp: cell_inj[of q b p g])

lemma puts_outside:
  "p \<in> pcbs b \<Longrightarrow> outside b a \<Longrightarrow> \<forall>(f, v) \<in> set fvs. field_ok f \<Longrightarrow> puts p fvs m a = m a"
  by (rule puts_frame) (auto dest: outside_cell)

lemma puts_get:
  assumes "p \<in> pcbs b" and "field_ok g" and "\<forall>(f, v) \<in> set fvs. field_ok f" and "distinct (map fst fvs)"
  shows "puts p fvs m (cell p g) = (case map_of fvs g of Some v \<Rightarrow> v | None \<Rightarrow> m (cell p g))"
  using assms(3,4)
proof (induction fvs arbitrary: m)
  case (Cons fv fvs)
  obtain f v where fv: "fv = (f, v)" by (cases fv)
  have "cell p g = cell p f \<longleftrightarrow> g = f" using assms(1,2) Cons.prems fv by (auto simp: cell_inj)
  moreover have "map_of fvs f = None" using Cons.prems(2) fv by (auto simp: map_of_eq_None_iff)
  ultimately show ?case using Cons fv by (auto split: option.splits)
qed simp

section \<open>Creating a process\<close>

text \<open>The descriptor of a task lies outside the blocks and the queues.\<close>

definition task_ok :: "kstate \<Rightarrow> queues \<Rightarrow> u32 \<Rightarrow> bool" where
  "task_ok s Q src \<longleftrightarrow>
     (\<forall>k \<in> {task_name, task_entry_point, task_type}.
        outside (pcb s) (src + k) \<and> src + k \<notin> family_cells (pcb s) (dom Q))"

text \<open>What \<open>assign_task\<close> writes into the block.\<close>

definition new_fields :: "kstate \<Rightarrow> u32 \<Rightarrow> u32 \<Rightarrow> u32 \<Rightarrow> (pcb_field \<times> u32) list" where
  "new_fields s src kst ust =
    [(HOLDING_TAIL, NULL), (HOLDING_HEAD, NULL), (NAME, kmem s (src + task_name)),
     (KERNEL_STACK_TOP, kst), (USER_STACK_TOP, ust), (PID, process_id s),
     (TASK_TYPE, kmem s (src + task_type)), (STATUS, TASK_EMBRYO),
     (KERNEL_CONTEXT 29, kst), (KERNEL_CONTEXT 31, embryo_start s),
     (KERNEL_CONTEXT CTX_EPC, kmem s (src + task_entry_point)), (KERNEL_CONTEXT CTX_STATUS, 0),
     (USER_CONTEXT 29, ust), (USER_CONTEXT 31, kmem s (src + task_entry_point)),
     (USER_CONTEXT CTX_EPC, kmem s (src + task_entry_point)), (USER_CONTEXT CTX_STATUS, 0xff01)]"

lemmas ctx_defs = CTX_STATUS_def CTX_HI_def CTX_LO_def CTX_EPC_def CTX_ENTRYHI_def

lemma new_fields_plain:
  "\<forall>(f, v) \<in> set (new_fields s src kst ust). plain_field f \<and> f \<noteq> PREV \<and> f \<noteq> NEXT"
  "\<forall>(f, v) \<in> set (new_fields s src kst ust). field_ok f"
  "distinct (map fst (new_fields s src kst ust))"
  by (simp_all add: new_fields_def ctx_defs)

lemma assign_task_eq:
  assumes ok: "queues_ok (pcb s) (kmem s) Q" and p: "p \<in> pcbs (pcb s)" "p \<notin> queued Q"
    and q: "Q (ready_queue s) = Some rs" "Q (waiting p) = Some []" "waiting p \<noteq> ready_queue s"
    and src: "task_ok s Q src"
  shows "assign_task p src kst ust s =
    s\<lparr>kmem := puts p (new_fields s src kst ust) (queue_push (kmem s) (ready_queue s) p),
      process_id := process_id s + 1\<rparr>"
proof -
  let ?m1 = "queue_push (kmem s) (ready_queue s) p"
  have ok1: "queues_ok (pcb s) ?m1 (Q(ready_queue s \<mapsto> rs @ [p]))"
    using queues_push[OF ok q(1) p] .
  then have "queue_rep ?m1 (waiting p) []"
    using queues_okD(1)[OF ok1, of "waiting p" "[]"] q(2,3) by simp
  then have w: "?m1 (cell p WAITING_HEAD) = NULL" "?m1 (cell p WAITING_TAIL) = NULL"
    by (simp_all add: queue_rep_def queue_in_pcb)
  have src1: "?m1 (src + k) = kmem s (src + k)" if "k \<in> {task_name, task_entry_point, task_type}" for k
    using family_push_frame[OF ok q(1) p(1)] that src by (auto simp: task_ok_def)
  have ne: "src + k \<noteq> cell p f" "cell p f \<noteq> src + k"
    if "k \<in> {task_name, task_entry_point, task_type}" "field_ok f" for k f
    using outside_cell[of "pcb s" "src + k" p f] that src p by (auto simp: task_ok_def)
  have idem: "?m1(cell p HOLDING_TAIL := NULL, cell p HOLDING_HEAD := NULL, cell p WAITING_TAIL := NULL,
      cell p WAITING_HEAD := NULL) = ?m1(cell p HOLDING_TAIL := NULL, cell p HOLDING_HEAD := NULL)"
    using w cell_inj[OF p(1) p(1)] by (auto simp: fun_eq_iff)
  show ?thesis
    by (simp add: assign_task_def Let_def put_def queue_init_def queue_in_pcb idem new_fields_def
        src1 ne ctx_defs)
qed

lemma statuses_cong:
  assumes "statuses_ok s Q" and "ready_queue t = ready_queue s"
    and "\<And>x. x \<in> queued Q \<Longrightarrow> get t x STATUS = get s x STATUS \<and> get t x CHAN = get s x CHAN \<and>
      get t x HOLDING_HEAD = get s x HOLDING_HEAD"
  shows "statuses_ok t Q"
  unfolding statuses_ok_def
proof (intro allI impI ballI)
  fix q xs x assume q: "Q q = Some xs" "x \<in> set xs"
  then have "x \<in> queued Q" by (rule queuedI)
  moreover have "if q = ready_queue s then ready_status s x else blocked_on s q x"
    using assms(1) q unfolding statuses_ok_def by blast
  ultimately show "if q = ready_queue t then ready_status t x else blocked_on t q x"
    using assms(2) assms(3)[of x] by (simp add: ready_status_def blocked_on_def gone_def split: if_splits)
qed

lemma statuses_upd:
  assumes "statuses_ok s Q" and "Q q = Some ys"
    and "\<And>x. x \<in> set xs \<Longrightarrow> x \<in> set ys \<or> (if q = ready_queue s then ready_status s x else blocked_on s q x)"
  shows "statuses_ok s (Q(q \<mapsto> xs))"
  unfolding statuses_ok_def
proof (intro allI impI ballI)
  fix r zs x assume r: "(Q(q \<mapsto> xs)) r = Some zs" and x: "x \<in> set zs"
  show "if r = ready_queue s then ready_status s x else blocked_on s r x"
  proof (cases "r = q")
    case True
    with r x assms(3)[of x] assms(1,2) show ?thesis unfolding statuses_ok_def by auto
  next
    case False
    with r x assms(1) show ?thesis unfolding statuses_ok_def by auto
  qed
qed

lemma queued_pcbs: "queues_ok b m Q \<Longrightarrow> x \<in> queued Q \<Longrightarrow> x \<in> pcbs b"
  using queues_okD(2) by (fastforce simp: queued_def ran_def)

lemma queued_iff: "x \<in> queued Q \<longleftrightarrow> (\<exists>q xs. Q q = Some xs \<and> x \<in> set xs)"
  by (auto simp: queued_def ran_def)

lemma queued_push_iff:
  assumes "Q q = Some xs"
  shows "x \<in> queued (Q(q \<mapsto> xs @ [y])) \<longleftrightarrow> x \<in> queued Q \<or> x = y"
proof
  show "x \<in> queued (Q(q \<mapsto> xs @ [y])) \<Longrightarrow> x \<in> queued Q \<or> x = y"
    using assms by (fastforce simp: queued_iff split: if_splits)
next
  assume "x \<in> queued Q \<or> x = y"
  then consider r ys where "Q r = Some ys" "x \<in> set ys" | "x = y" by (auto simp: queued_iff)
  then show "x \<in> queued (Q(q \<mapsto> xs @ [y]))"
  proof cases
    case 1
    with assms show ?thesis by (cases "r = q") (auto intro: queuedI[of _ r ys] queuedI[of _ q "xs @ [y]"])
  next
    case 2
    then show ?thesis by (intro queuedI[of _ q "xs @ [y]"]) auto
  qed
qed

text \<open>A block that is in no queue and that nobody waits for can be given to a new process.\<close>

lemma assign_task_inv:
  assumes inv: "sched_inv s Q" and p: "p \<in> pcbs (pcb s)" "p \<notin> queued Q" "p \<noteq> current_running s"
    and q: "Q (ready_queue s) = Some rs" "waiters Q p = []" and src: "task_ok s Q src"
    and t_def: "t = assign_task p src kst ust s"
  shows "sched_inv t (Q(ready_queue s \<mapsto> rs @ [p]))"
    and "field_ok f \<Longrightarrow> map_of (new_fields s src kst ust) f = Some v \<Longrightarrow> get t p f = v"
    and "process_id t = process_id s + 1" and "current_running t = current_running s"
    and "ready_queue t = ready_queue s" and "pcb t = pcb s"
    and "get t p CHAN = get s p CHAN"
proof -
  let ?b = "pcb s" and ?Q = "Q(ready_queue s \<mapsto> rs @ [p])"
  let ?m1 = "queue_push (kmem s) (ready_queue s) p"
  have k: "kernel_ok s Q" and ok: "queues_ok ?b (kmem s) Q" and so: "statuses_ok s Q"
    using inv by (auto simp: leave_facts)
  have w: "Q (waiting p) = Some []" "waiting p \<noteq> ready_queue s"
    using kernel_waiting[OF k p(1)] q(2) by auto
  have t: "t = s\<lparr>kmem := puts p (new_fields s src kst ust) ?m1, process_id := process_id s + 1\<rparr>"
    unfolding t_def by (rule assign_task_eq[OF ok p(1,2) q(1) w src])
  show "process_id t = process_id s + 1" "current_running t = current_running s"
    "ready_queue t = ready_queue s" "pcb t = pcb s" by (simp_all add: t)
  have ok1: "queues_ok ?b (kmem t) ?Q"
    using queues_push[OF ok q(1) p(1,2)] p(1) puts_queues[OF p(1) new_fields_plain(1)] by (simp add: t)
  show get: "field_ok f \<Longrightarrow> map_of (new_fields s src kst ust) f = Some v \<Longrightarrow> get t p f = v" for f v
    by (simp add: t puts_get[OF p(1) _ new_fields_plain(2,3)])
  have other: "get t x f = get s x f"
    if x: "x \<in> pcbs ?b" "x \<noteq> p" and f: "plain_field f" "f \<noteq> PREV" "f \<noteq> NEXT" for x f
    using puts_other[OF p(1) x _ new_fields_plain(2)] plain_field_ok[OF f(1)]
      family_push_frame[OF ok q(1) p(1)] family_plain[OF ok x(1) f] by (simp add: t)
  show "get t p CHAN = get s p CHAN"
    using puts_get[OF p(1) _ new_fields_plain(2,3), of CHAN] family_push_frame[OF ok q(1) p(1)]
      family_plain[OF ok p(1), of CHAN] by (simp add: t new_fields_def)
  have so': "statuses_ok t Q"
  proof (rule statuses_cong[OF so])
    fix x assume "x \<in> queued Q"
    then have "x \<in> pcbs ?b" "x \<noteq> p" using queued_pcbs[OF ok] p(2) by auto
    then show "get t x STATUS = get s x STATUS \<and> get t x CHAN = get s x CHAN \<and>
        get t x HOLDING_HEAD = get s x HOLDING_HEAD"
      using other by simp
  qed (simp add: t)
  have "get t p STATUS = TASK_EMBRYO"
    by (rule get) (simp_all add: new_fields_def)
  then have "statuses_ok t ?Q"
    using q(1) by (intro statuses_upd[OF so' q(1)]) (auto simp: t ready_status_def)
  moreover have "current_running s \<notin> queued ?Q"
    using inv p(3) queued_push_iff[of Q "ready_queue s" rs _ p] q(1) by (simp add: sched_inv_def)
  moreover have "kernel_ok t ?Q" using k ok1 q(1) by (auto simp: kernel_ok_def t)
  ultimately show "sched_inv t ?Q" using inv by (simp add: leave_facts t)
qed

lemma find_upt_Some:
  "find P [0..<n] = Some i \<longleftrightarrow> i < n \<and> P i \<and> (\<forall>j < i. \<not> P j)"
  by (auto simp: find_Some_iff)

text \<open>What \<open>assign_task\<close> does not write apart from the links of the queue: the saved registers of both
  contexts but for four each, and some other fields.\<close>

lemma spawn_keeps:
  assumes "sched_inv s Q" and "Q (ready_queue s) = Some rs" and p: "p \<in> pcbs (pcb s)" "p \<notin> queued Q" "waiters Q p = []"
    and src: "task_ok s Q src" and t: "t = assign_task p src kst ust s"
    and f: "plain_field f" "f \<noteq> PREV" "f \<noteq> NEXT" "map_of (new_fields s src kst ust) f = None"
  shows "get t p f = get s p f"
proof -
  have k: "kernel_ok s Q" and ok: "queues_ok (pcb s) (kmem s) Q" using assms(1) by (auto simp: leave_facts)
  have w: "Q (waiting p) = Some []" "waiting p \<noteq> ready_queue s" using kernel_waiting[OF k p(1)] p(3) by auto
  show ?thesis
    using puts_get[OF p(1) plain_field_ok[OF f(1)] new_fields_plain(2,3)] f(4)
      family_push_frame[OF ok assms(2) p(1)] family_plain[OF ok p(1) f(1-3)]
    by (simp add: t assign_task_eq[OF ok p(1,2) assms(2) w src])
qed

text \<open>
  C12: \<open>spawn\<close> takes the first block whose process has exited. If that block is really free (in
  no queue, nobody waiting on it), the new process is last in the ready queue, the scheduler's
  invariant is kept, and every field that the new process needs is set: it is new and has a fresh id,
  name and type are those of its task, it holds no lock, its kernel and user stacks are those of the
  number of its block, both stack pointers stand at their tops, the kernel context returns to
  \<open>embryo_start\<close>, and the user context is at the entry point with interrupts on. The other saved
  registers are not cleared: they are what the process that had the block before left in them.
\<close>

theorem spawn_creates:
  assumes "sched_inv s Q" and "Q (ready_queue s) = Some rs"
    and "i < NUM_MAX_TASK" and "get s (pcb_at (pcb s) i) STATUS = TASK_EXITED"
    and "\<forall>j < i. get s (pcb_at (pcb s) j) STATUS \<noteq> TASK_EXITED"
    and "p = pcb_at (pcb s) i" and "p \<notin> queued Q" and "p \<noteq> current_running s" and "waiters Q p = []"
    and "task_ok s Q task"
  shows "let t = spawn task s; entry = kmem s (task + task_entry_point);
        kst = 0xa0f00000 + word_of_nat i * 0x100000; ust = 0x00400000 + word_of_nat i * 0x400000
    in sched_inv t (Q(ready_queue s \<mapsto> rs @ [p])) \<and>
      get t p STATUS = TASK_EMBRYO \<and> get t p PID = process_id s \<and> process_id t = process_id s + 1 \<and>
      get t p NAME = kmem s (task + task_name) \<and> get t p TASK_TYPE = kmem s (task + task_type) \<and>
      get t p HOLDING_HEAD = NULL \<and> get t p HOLDING_TAIL = NULL \<and>
      get t p KERNEL_STACK_TOP = kst \<and> get t p USER_STACK_TOP = ust \<and>
      get t p (KERNEL_CONTEXT 29) = kst \<and> get t p (KERNEL_CONTEXT 31) = embryo_start s \<and>
      get t p (KERNEL_CONTEXT CTX_EPC) = entry \<and> get t p (KERNEL_CONTEXT CTX_STATUS) = 0 \<and>
      get t p (USER_CONTEXT 29) = ust \<and> get t p (USER_CONTEXT 31) = entry \<and>
      get t p (USER_CONTEXT CTX_EPC) = entry \<and> get t p (USER_CONTEXT CTX_STATUS) = 0xff01 \<and>
      (\<forall>r < 39. r \<notin> {29, 31, CTX_EPC, CTX_STATUS} \<longrightarrow>
        get t p (USER_CONTEXT r) = get s p (USER_CONTEXT r) \<and> get t p (KERNEL_CONTEXT r) = get s p (KERNEL_CONTEXT r))"
proof -
  let ?kst = "KSTACK_BASE + word_of_nat i * KSTACK_SIZE" and ?ust = "USTACK_BASE + word_of_nat i * USTACK_SIZE"
  have p: "p \<in> pcbs (pcb s)" using assms(3,6) by (simp add: pcbs_def)
  have sp: "spawn task s = assign_task p task ?kst ?ust s"
    using assms(3-6) find_upt_Some[of "\<lambda>i. get s (pcb_at (pcb s) i) STATUS = TASK_EXITED" NUM_MAX_TASK i]
    by (simp add: spawn_def assignt_def)
  note new = assign_task_inv[OF assms(1) p assms(7,8,2,9,10) sp]
  have keep: "get (spawn task s) p f = get s p f"
    if "f = USER_CONTEXT r \<or> f = KERNEL_CONTEXT r" "r < 39" "r \<notin> {29, 31, CTX_EPC, CTX_STATUS}" for f r
    by (rule spawn_keeps[OF assms(1,2) p assms(7,9,10) sp]) (use that in \<open>auto simp: new_fields_def ctx_defs\<close>)
  have kept: "\<forall>r < 39. r \<notin> {29, 31, CTX_EPC, CTX_STATUS} \<longrightarrow>
      get (spawn task s) p (USER_CONTEXT r) = get s p (USER_CONTEXT r) \<and>
      get (spawn task s) p (KERNEL_CONTEXT r) = get s p (KERNEL_CONTEXT r)" by (intro allI impI conjI keep; simp)
  show ?thesis
    unfolding Let_def using new
    by (simp add: new_fields_def ctx_defs KSTACK_BASE_def KSTACK_SIZE_def USTACK_BASE_def USTACK_SIZE_def
        kept[unfolded ctx_defs] del: all_simps)
qed

text \<open>A kernel in which process 0 runs, 1 sleeps, 2 is ready and block 3 is free.\<close>

definition sample_free :: mem where
  "sample_free = (\<lambda>_. 0)(cell (pcb_at 0x1000 1) STATUS := TASK_SLEEPING,
     cell (pcb_at 0x1000 1) SLEEP_END := 10, cell (pcb_at 0x1000 2) STATUS := TASK_READY,
     cell (pcb_at 0x1000 0) STATUS := TASK_RUNNING, cell (pcb_at 0x1000 3) STATUS := TASK_EXITED,
     cell (pcb_at 0x1000 1) PID := 1, cell (pcb_at 0x1000 2) PID := 2,
     cell (pcb_at 0x1000 4) STATUS := TASK_BLOCKED, cell (pcb_at 0x1000 4) CHAN := 0x200,
     cell (pcb_at 0x1000 4) PID := 4, 0x704 := 0x50000)"

definition sampleF :: kstate where
  "sampleF = sample_kernel [pcb_at 0x1000 1, pcb_at 0x1000 2] sample_free (pcb_at 0x1000 0)"

lemma sample_queue_addrs:
  assumes "outside 0x1000 a" and "a \<noteq> 0x100" "a \<noteq> 0x104" "a \<noteq> 0x200" "a \<noteq> 0x204"
  shows "a \<notin> family_cells 0x1000 (dom (sample_queues rs))"
  unfolding sample_queues_simps by (rule outside_family) (use assms in \<open>auto simp: layout\<close>)

lemma sample_task_addrs: "outside 0x1000 0x700" "outside 0x1000 0x704" "outside 0x1000 0x708"
  by (simp_all add: outside_def sizeof_pcb_def NUM_MAX_TASK_def)

lemma sample_free_ok: "queues_ok 0x1000 sample_free (sample_queues [])"
  unfolding sample_free_def
  by (subst queues_ok_outside, rule sample_queue_addrs)
     (simp_all add: queues_put sample_pcbs sample_empty sample_task_addrs)

lemma sample_free_simps [simp]:
  "ready_queue sampleF = 0x100" "pcb sampleF = 0x1000" "current_running sampleF = pcb_at 0x1000 0"
  "process_id sampleF = 4" "klog sampleF = []" "time_elapsed sampleF = 3000000"
  by (simp_all add: sampleF_def)

lemma sample_free_get:
  assumes "i < 32" and "f \<in> {STATUS, PID, CHAN, HOLDING_HEAD, SLEEP_END}"
  shows "get sampleF (pcb_at 0x1000 i) f =
    (if f = STATUS then if i = 1 then TASK_SLEEPING else if i = 2 then TASK_READY
       else if i = 0 then TASK_RUNNING else if i = 3 then TASK_EXITED
       else if i = 4 then TASK_BLOCKED else 0
     else if f = PID then if i \<in> {1, 2, 4} then word_of_nat i else 0
     else if f = CHAN \<and> i = 4 then 0x200 else if f = SLEEP_END \<and> i = 1 then 10 else 0)"
proof -
  have "get sampleF (pcb_at 0x1000 i) f = sample_free (cell (pcb_at 0x1000 i) f)"
    unfolding sampleF_def sample_simps using assms
    by (intro sample_kernel_ok(2)[OF sample_free_ok]) (auto simp: sample_pcbs pcb_at_inj NUM_MAX_TASK_def)
  moreover have "field_ok f" using assms(2) by auto
  ultimately show ?thesis
    using assms outside_cell[OF sample_task_addrs(2) sample_pcbs[OF assms(1)], of f]
    by (auto simp: sample_free_def cell_inj_idx NUM_MAX_TASK_def)
qed

lemma sample_free_inv: "sched_inv sampleF sampleQ"
  unfolding sampleF_def sampleQ_def
proof (rule sample_inv[OF sample_free_ok])
  show "\<forall>x \<in> set [pcb_at 0x1000 1, pcb_at 0x1000 2].
      sample_free (cell x STATUS) \<in> {TASK_EMBRYO, TASK_READY, TASK_SLEEPING}"
    using outside_cell[OF sample_task_addrs(2) sample_pcbs, of _ STATUS]
    by (simp add: sample_free_def cell_inj_idx NUM_MAX_TASK_def)
qed (auto simp: sample_pcbs pcb_at_inj NUM_MAX_TASK_def)

lemma sample_unqueued:
  assumes "i < 32" and "i \<noteq> 1" and "i \<noteq> 2"
  shows "pcb_at 0x1000 i \<notin> queued sampleQ"
proof -
  have "pcb_at 0x1000 i \<notin> set xs" if "sampleQ q = Some xs" for q xs
    using that assms sample_other[of q "[pcb_at 0x1000 1, pcb_at 0x1000 2]" xs] unfolding sampleQ_def
    by (cases "q = 0x100") (auto simp: pcb_at_inj NUM_MAX_TASK_def)
  then show ?thesis by (auto simp: queued_iff)
qed

lemma sample_no_waiters: "i < 32 \<Longrightarrow> waiters sampleQ (pcb_at 0x1000 i) = []"
  using sample_other[of "waiting (pcb_at 0x1000 i)" "[pcb_at 0x1000 1, pcb_at 0x1000 2]"]
    outside_cell[OF sample_outside(2) sample_pcbs, of i WAITING_HEAD]
  by (auto simp: waiters_def waiting_def sampleQ_def split: option.splits)

lemma sample_task: "task_ok sampleF sampleQ 0x700"
proof -
  have "a \<notin> family_cells 0x1000 (dom sampleQ)" if "a \<in> {0x700, 0x704, 0x708}" for a
    unfolding sampleQ_def using that by (intro sample_queue_addrs) (auto simp: sample_task_addrs)
  then show ?thesis
    by (simp add: task_ok_def layout sample_task_addrs)
qed

theorem spawn_creates_witness:
  "sched_inv (spawn 0x700 sampleF) (sample_queues [pcb_at 0x1000 1, pcb_at 0x1000 2, pcb_at 0x1000 3]) \<and>
   get (spawn 0x700 sampleF) (pcb_at 0x1000 3) PID = 4"
proof -
  have upd: "sampleQ(0x100 \<mapsto> [pcb_at 0x1000 1, pcb_at 0x1000 2] @ [pcb_at 0x1000 3]) =
      sample_queues [pcb_at 0x1000 1, pcb_at 0x1000 2, pcb_at 0x1000 3]"
    by (simp add: sampleQ_def sample_queues_def)
  have first: "\<forall>j < 3. get sampleF (pcb_at (pcb sampleF) j) STATUS \<noteq> TASK_EXITED"
    by (auto simp: sample_free_get task_status_defs)
  have h: "sampleQ (ready_queue sampleF) = Some [pcb_at 0x1000 1, pcb_at 0x1000 2]" "3 < NUM_MAX_TASK"
    "get sampleF (pcb_at (pcb sampleF) 3) STATUS = TASK_EXITED" "pcb_at 0x1000 3 = pcb_at (pcb sampleF) 3"
    "pcb_at 0x1000 3 \<notin> queued sampleQ" "pcb_at 0x1000 3 \<noteq> current_running sampleF"
    "waiters sampleQ (pcb_at 0x1000 3) = []"
    using sample_unqueued[of 3] sample_no_waiters[of 3]
    by (simp_all add: sample_free_get NUM_MAX_TASK_def pcb_at_inj)
  note new = spawn_creates[OF sample_free_inv h(1-3) first h(4-7) sample_task]
  show ?thesis using new unfolding sample_free_simps upd Let_def by blast
qed

section \<open>Killing a process\<close>

lemma find_pid_Some:
  "find_pid pid s = Some i \<longleftrightarrow> i < NUM_MAX_TASK \<and>
     (get s (pcb_at (pcb s) i) PID = pid \<and> get s (pcb_at (pcb s) i) STATUS \<noteq> TASK_EXITED) \<and>
     (\<forall>j < i. \<not> (get s (pcb_at (pcb s) j) PID = pid \<and> get s (pcb_at (pcb s) j) STATUS \<noteq> TASK_EXITED))"
  by (simp only: find_pid_def find_upt_Some)

text \<open>Changing the status of one process of the ready queue.\<close>

lemma put_status_inv:
  assumes inv: "sched_inv s Q" and x: "x \<in> pcbs (pcb s)"
    and st: "\<And>q xs. Q q = Some xs \<Longrightarrow> x \<in> set xs \<Longrightarrow> q = ready_queue s"
    and v: "x \<in> queued Q \<Longrightarrow>
      v \<in> {TASK_EMBRYO, TASK_READY, TASK_SLEEPING} \<or> v = TASK_EXITED \<and> get s x HOLDING_HEAD = NULL"
  shows "sched_inv (put x STATUS v s) Q"
proof -
  let ?t = "put x STATUS v s"
  have ok: "queues_ok (pcb s) (kmem s) Q" and so: "statuses_ok s Q" using inv by (auto simp: leave_facts)
  have ne: "cell y f \<noteq> cell x STATUS" if "y \<in> pcbs (pcb s)" "field_ok f" "y \<noteq> x \<or> f \<noteq> STATUS" for y f
    using that x cell_inj[of y "pcb s" x f STATUS] by auto
  have "statuses_ok ?t Q"
    unfolding statuses_ok_def
  proof (intro allI impI ballI)
    fix q xs y assume q: "Q q = Some xs" and y: "y \<in> set xs"
    have yb: "y \<in> pcbs (pcb s)" using queues_okD(2)[OF ok q] y by auto
    have old: "if q = ready_queue s then ready_status s y else blocked_on s q y"
      using so q y unfolding statuses_ok_def by blast
    show "if q = ready_queue ?t then ready_status ?t y else blocked_on ?t q y"
    proof (cases "y = x")
      case True
      then show ?thesis using st[OF q] y v[OF queuedI[of Q q xs x]] q ne[OF x, of HOLDING_HEAD]
        by (auto simp: ready_status_def gone_def)
    next
      case False
      then show ?thesis
        using old ne[OF yb] by (simp add: ready_status_def blocked_on_def gone_def split: if_splits)
    qed
  qed
  then show ?thesis
    using inv x by (simp add: leave_facts queues_put)
qed

text \<open>
  Killing a process that is in the ready queue marks it exited and leaves it there, for the
  scheduler to reap: the invariant is kept, and nothing else changes.
\<close>

theorem kill_ready:
  assumes "sched_inv s Q" and "find_pid pid s = Some i" and "p = pcb_at (pcb s) i"
    and "Q (ready_queue s) = Some rs" and "p \<in> set rs"
    and "get s p CHAN = NULL" and "get s p HOLDING_HEAD = NULL"
  shows "sched_inv (kill pid s) Q \<and> gone (kill pid s) p \<and> kill pid s = put p STATUS TASK_EXITED s"
proof -
  have ok: "queues_ok (pcb s) (kmem s) Q" using assms(1) by (simp add: leave_facts)
  have p: "p \<in> pcbs (pcb s)" using queues_okD(2)[OF ok assms(4)] assms(5) by auto
  have ne: "cell p CHAN \<noteq> cell p STATUS" "cell p HOLDING_HEAD \<noteq> cell p STATUS"
    using cell_inj[OF p p] by auto
  have eq: "kill pid s = put p STATUS TASK_EXITED s"
    using assms(2,3,6) ne by (simp add: kill_def)
  have "sched_inv (put p STATUS TASK_EXITED s) Q"
    using assms p kqs.disjoint[OF ok _ assms(4)] by (intro put_status_inv) auto
  then show ?thesis
    using eq ne assms(7) by (simp add: gone_def)
qed

theorem kill_ready_witness:
  "sched_inv (kill 2 sampleF) sampleQ \<and> gone (kill 2 sampleF) (pcb_at 0x1000 2)"
proof -
  have "find_pid 2 sampleF = Some 2"
    unfolding find_pid_Some by (auto simp: NUM_MAX_TASK_def sample_free_get task_status_defs)
  then have "sched_inv (kill 2 sampleF) sampleQ \<and> gone (kill 2 sampleF) (pcb_at 0x1000 2) \<and>
      kill 2 sampleF = put (pcb_at 0x1000 2) STATUS TASK_EXITED sampleF"
    by (rule kill_ready[OF sample_free_inv, where rs = "[pcb_at 0x1000 1, pcb_at 0x1000 2]"]) (simp_all add: sample_free_get)
  then show ?thesis by blast
qed

text \<open>Taking a process out of one end of its queue and putting it at the end of the ready queue.\<close>

lemma move_to_ready:
  assumes ok: "queues_ok b m Q" and q: "Q q = Some xs" and x: "p \<in> set xs" "p = hd xs \<or> p = last xs"
    and r: "Q r = Some rs" "q \<noteq> r"
  defines "m' \<equiv> queue_push (snd (queue_remove b m q p)) r p"
  shows "queues_ok b m' (Q(q \<mapsto> remove1 p xs, r \<mapsto> rs @ [p]))"
    and "a \<notin> family_cells b (dom Q) \<Longrightarrow> m' a = m a"
    and "p \<notin> queued (Q(q \<mapsto> remove1 p xs))"
proof -
  define Q1 where "Q1 = Q(q \<mapsto> remove1 p xs)"
  have p: "p \<in> pcbs b" using queues_okD(2)[OF ok q] x by auto
  have ok1: "queues_ok b (snd (queue_remove b m q p)) Q1"
    unfolding Q1_def by (rule queues_remove_end(1)[OF ok q x])
  have fresh: "p \<notin> set ys" if "Q1 r = Some ys" for r ys
    using that kqs.disjoint[OF ok _ q, of r ys p] queues_distinct[OF ok q] x
    by (auto simp: Q1_def split: if_splits)
  then show "p \<notin> queued (Q(q \<mapsto> remove1 p xs))"
    by (auto simp: queued_iff Q1_def)
  have Q1: "Q1 r = Some rs" "dom Q1 = dom Q" using q r by (auto simp: Q1_def)
  show "queues_ok b m' (Q(q \<mapsto> remove1 p xs, r \<mapsto> rs @ [p]))"
    unfolding m'_def Q1_def[symmetric] by (rule kqs.push_ok[OF ok1 Q1(1) p]) (rule fresh)
  show "a \<notin> family_cells b (dom Q) \<Longrightarrow> m' a = m a"
    using family_push_frame[OF ok1 Q1(1) p] queues_remove_end(2)[OF ok q x] Q1(2) by (simp add: m'_def)
qed

text \<open>
  Killing a process that is blocked at either end of a queue takes it out of that queue and
  puts it, marked exited, at the end of the ready queue, where the scheduler will reap it; the
  invariant is kept. Its \<open>chan\<close> still names the queue it has left.
\<close>

theorem kill_blocked:
  assumes "sched_inv s Q" and "find_pid pid s = Some i" and "p = pcb_at (pcb s) i"
    and "Q q = Some xs" and "q \<noteq> ready_queue s" and "q \<noteq> NULL"
    and "p \<in> set xs" and "p = hd xs \<or> p = last xs"
    and "Q (ready_queue s) = Some rs" and "get s p HOLDING_HEAD = NULL"
  shows "sched_inv (kill pid s) (Q(q \<mapsto> remove1 p xs, ready_queue s \<mapsto> rs @ [p])) \<and>
    gone (kill pid s) p \<and> get (kill pid s) p CHAN = q"
proof -
  let ?b = "pcb s"
  define m where "m = (kmem s)(cell p STATUS := TASK_EXITED)"
  define m' where "m' = queue_push (snd (queue_remove ?b m q p)) (ready_queue s) p"
  define Q2 where "Q2 = Q(q \<mapsto> remove1 p xs, ready_queue s \<mapsto> rs @ [p])"
  have k: "kernel_ok s Q" and ok: "queues_ok ?b (kmem s) Q" and so: "statuses_ok s Q"
    using assms(1) by (simp_all add: leave_facts)
  have p: "p \<in> pcbs ?b" using queues_okD(2)[OF ok assms(4)] assms(7) by auto
  have ch: "get s p CHAN = q"
    using statuses_blocked[OF so assms(4,7,5)] by (simp add: blocked_on_def)
  have ne: "cell y f \<noteq> cell p STATUS" if "y \<in> pcbs ?b" "field_ok f" "y \<noteq> p \<or> f \<noteq> STATUS" for y f
    using that p cell_inj[of y ?b p f STATUS] by auto
  have okm: "queues_ok ?b m Q" using ok p by (simp add: queues_put m_def)
  note mv = move_to_ready[OF okm assms(4,7,8,9,5), folded m'_def Q2_def]
  have eq: "kill pid s = s\<lparr>kmem := m'\<rparr>"
    using assms(2,3,6) ch ne[OF p, of CHAN] by (simp add: kill_def put_def Let_def m'_def m_def)
  have g: "get (kill pid s) y f = (if y = p \<and> f = STATUS then TASK_EXITED else get s y f)"
    if y: "y \<in> pcbs ?b" and f: "f \<in> {STATUS, CHAN, HOLDING_HEAD}" for y f
  proof -
    have "m' (cell y f) = m (cell y f)" using f by (intro mv(2) family_plain[OF ok y]) auto
    moreover have "field_ok f" using f by auto
    ultimately show ?thesis using ne[OF y, of f] by (auto simp: eq m_def)
  qed
  have gone: "gone (kill pid s) p" using g[OF p, of STATUS] g[OF p, of HOLDING_HEAD] assms(10) by (simp add: gone_def)
  have old: "\<exists>zs. Q r = Some zs \<and> y \<in> set zs" if "Q2 r = Some ys" "y \<in> set ys" "y \<noteq> p" for r ys y
    using that assms(4,9) notin_set_remove1[of y xs p] by (auto simp: Q2_def split: if_splits)
  have "statuses_ok (kill pid s) Q2"
    unfolding statuses_ok_def
  proof (intro allI impI ballI)
    fix r ys y assume r: "Q2 r = Some ys" and y: "y \<in> set ys"
    have yb: "y \<in> pcbs ?b" using queues_okD(2)[OF mv(1) r] y by auto
    show "if r = ready_queue (kill pid s) then ready_status (kill pid s) y else blocked_on (kill pid s) r y"
    proof (cases "y = p")
      case True
      then have "r = ready_queue s"
        using r y mv(3) queuedI[of "Q(q \<mapsto> remove1 p xs)" r ys p] by (auto simp: Q2_def split: if_splits)
      then show ?thesis using gone True by (simp add: ready_status_def eq)
    next
      case False
      have "if r = ready_queue s then ready_status s y else blocked_on s r y"
        using so old[OF r y False] unfolding statuses_ok_def by blast
      then show ?thesis
        using g[OF yb, of STATUS] g[OF yb, of CHAN] g[OF yb, of HOLDING_HEAD] False
        by (simp add: ready_status_def blocked_on_def gone_def eq split: if_splits)
    qed
  qed
  moreover have "kernel_ok (kill pid s) Q2"
    using k mv(1) assms(4,9) by (auto simp: kernel_ok_def eq Q2_def)
  moreover have "current_running s \<notin> queued Q2"
  proof
    assume "current_running s \<in> queued Q2"
    then obtain r ys where r: "Q2 r = Some ys" "current_running s \<in> set ys" by (auto simp: queued_iff)
    have "current_running s \<noteq> p" using assms(1,4,7) queuedI[of Q q xs p] by (auto simp: sched_inv_def)
    then have "current_running s \<in> queued Q" using old[OF r] queuedI[of Q r] by blast
    then show False using assms(1) by (simp add: sched_inv_def)
  qed
  ultimately have "sched_inv (kill pid s) Q2"
    using assms(1) by (simp add: leave_facts eq)
  then show ?thesis using gone g[OF p, of CHAN] ch unfolding Q2_def by simp
qed

text \<open>The sample kernel with process 4 blocked on the queue at 0x200.\<close>

definition sampleB :: kstate where
  "sampleB = sampleF\<lparr>kmem := queue_push (kmem sampleF) 0x200 (pcb_at 0x1000 4)\<rparr>"

lemma sampleB_inv: "sched_inv sampleB (sampleQ(0x200 \<mapsto> [] @ [pcb_at 0x1000 4]))"
  and sampleB_get: "i < 32 \<Longrightarrow> f \<in> {STATUS, PID, CHAN, HOLDING_HEAD} \<Longrightarrow>
    get sampleB (pcb_at 0x1000 i) f = get sampleF (pcb_at 0x1000 i) f"
proof -
  let ?p = "pcb_at 0x1000 4"
  define Q where "Q = sampleQ(0x200 \<mapsto> [] @ [?p])"
  have inv: "sched_inv sampleF sampleQ" and ok: "queues_ok 0x1000 (kmem sampleF) sampleQ"
    using sample_free_inv by (simp_all add: leave_facts)
  have p: "?p \<in> pcbs 0x1000" "?p \<notin> queued sampleQ" by (simp_all add: sample_pcbs sample_unqueued)
  have ok': "queues_ok 0x1000 (kmem sampleB) Q"
    unfolding Q_def sampleB_def using queues_push[OF ok sampleQ_simps(2) p] by simp
  show get: "get sampleB (pcb_at 0x1000 i) f = get sampleF (pcb_at 0x1000 i) f"
    if "i < 32" "f \<in> {STATUS, PID, CHAN, HOLDING_HEAD}" for i f
    using family_push_frame[OF ok sampleQ_simps(2) p(1)] family_plain[OF ok sample_pcbs[OF that(1)], of f] that
    by (auto simp: sampleB_def)
  have rq: "ready_queue sampleB = 0x100" by (simp add: sampleB_def)
  have so: "statuses_ok sampleB sampleQ"
  proof (rule statuses_cong)
    show "statuses_ok sampleF sampleQ" using inv by (simp add: leave_facts)
    show "get sampleB x STATUS = get sampleF x STATUS \<and> get sampleB x CHAN = get sampleF x CHAN \<and>
        get sampleB x HOLDING_HEAD = get sampleF x HOLDING_HEAD" if "x \<in> queued sampleQ" for x
      using queued_pcbs[OF ok that] get by (auto simp: pcbs_def NUM_MAX_TASK_def)
  qed (simp add: sampleB_def)
  have "statuses_ok sampleB Q"
    unfolding Q_def using get[of 4 STATUS] get[of 4 CHAN] rq
    by (intro statuses_upd[OF so sampleQ_simps(2)]) (auto simp: blocked_on_def sample_free_get)
  moreover have "kernel_ok sampleB Q"
    using inv ok' by (auto simp: kernel_ok_def leave_facts Q_def sampleB_def)
  moreover have "pcb_at 0x1000 0 \<notin> queued Q"
    using queued_push_iff[of sampleQ "0x200" "[]" "pcb_at 0x1000 0" ?p] sample_unqueued[of 0]
    by (simp add: Q_def pcb_at_inj NUM_MAX_TASK_def)
  ultimately show "sched_inv sampleB (sampleQ(0x200 \<mapsto> [] @ [?p]))"
    unfolding Q_def[symmetric] sched_inv_def leaving_ok_def by (simp add: sampleB_def sample_pcbs)
qed

theorem kill_blocked_witness:
  "\<exists>Q. sched_inv (kill 4 sampleB) Q \<and> Q 0x200 = Some [] \<and> gone (kill 4 sampleB) (pcb_at 0x1000 4) \<and>
    get (kill 4 sampleB) (pcb_at 0x1000 4) CHAN = 0x200"
proof -
  let ?p = "pcb_at 0x1000 4"
  have b: "pcb sampleB = 0x1000" "ready_queue sampleB = 0x100" by (simp_all add: sampleB_def)
  have "find_pid 4 sampleB = Some 4"
    unfolding find_pid_Some b by (auto simp: NUM_MAX_TASK_def sampleB_get sample_free_get task_status_defs)
  then have "sched_inv (kill 4 sampleB) ((sampleQ(0x200 \<mapsto> [] @ [?p]))
        (0x200 \<mapsto> remove1 ?p [?p], ready_queue sampleB \<mapsto> [pcb_at 0x1000 1, pcb_at 0x1000 2] @ [?p])) \<and>
      gone (kill 4 sampleB) ?p \<and> get (kill 4 sampleB) ?p CHAN = 0x200"
    by (rule kill_blocked[OF sampleB_inv])
       (simp_all add: b sampleB_get sample_free_get)
  then show ?thesis unfolding b
    by (intro exI[of _ "(sampleQ(0x200 \<mapsto> [] @ [?p]))
        (0x200 \<mapsto> remove1 ?p [?p], 0x100 \<mapsto> [pcb_at 0x1000 1, pcb_at 0x1000 2] @ [?p])"]) simp
qed

text \<open>
  C14: Killing the running process has no effect: at its next turn through the scheduler it is
  marked ready again and put back into the ready queue.
\<close>

theorem kill_self_undone:
  assumes "sched_inv s Q" and "find_pid pid s = Some i" and "pcb_at (pcb s) i = current_running s"
    and "get s (current_running s) CHAN = NULL" and "Q (ready_queue s) = Some rs"
  shows "get (kill pid s) (current_running s) STATUS = TASK_EXITED \<and>
    (\<exists>s' Q'. scheduler arg1 TASK_RUNNING (kill pid s) = Some s' \<and> sched_inv s' Q' \<and>
      get s' (current_running s) STATUS \<in> {TASK_READY, TASK_RUNNING})"
proof -
  let ?c = "current_running s"
  have c: "?c \<in> pcbs (pcb s)" and cf: "?c \<notin> queued Q" using assms(1) by (simp_all add: leave_facts)
  have eq: "kill pid s = put ?c STATUS TASK_EXITED s"
    using assms(2-4) cell_inj[OF c c, of CHAN STATUS] by (simp add: kill_def)
  have inv: "sched_inv (kill pid s) Q"
    unfolding eq using cf queuedI[of Q] by (intro put_status_inv[OF assms(1) c]) blast+
  have q: "Q (ready_queue (kill pid s)) = Some rs" using assms(5) by (simp add: eq)
  have st: "TASK_RUNNING \<notin> {TASK_BLOCKED, TASK_SLEEPING, TASK_EXITED}" by (simp add: task_status_defs)
  obtain s' Q' where s': "scheduler arg1 TASK_RUNNING (kill pid s) = Some s'" "sched_inv s' Q'"
    "get s' (current_running s') STATUS = TASK_RUNNING"
    "current_running s' \<noteq> current_running (kill pid s) \<Longrightarrow> get s' (current_running (kill pid s)) STATUS = TASK_READY"
    by (rule tick_runs[OF inv q st]) blast
  then have "get s' ?c STATUS \<in> {TASK_READY, TASK_RUNNING}"
    by (cases "current_running s' = ?c") (auto simp: eq)
  then show ?thesis using s'(1,2) by (auto simp: eq)
qed

theorem kill_self_undone_witness:
  "\<exists>s'. scheduler 0 TASK_RUNNING (kill 0 sampleF) = Some s' \<and>
    get s' (pcb_at 0x1000 0) STATUS \<in> {TASK_READY, TASK_RUNNING}"
proof -
  have "find_pid 0 sampleF = Some 0"
    unfolding find_pid_Some by (auto simp: NUM_MAX_TASK_def sample_free_get task_status_defs)
  then show ?thesis
    using kill_self_undone[OF sample_free_inv, of 0 0 "[pcb_at 0x1000 1, pcb_at 0x1000 2]" 0]
    by (auto simp: sample_free_get)
qed

section \<open>Waiting for a process and exiting\<close>

lemma waiters_ready:
  assumes "kernel_ok s Q" and "x \<in> pcbs (pcb s)"
  shows "queues_ok (pcb s) (kmem s) Q" "Q (waiting x) = Some (waiters Q x)" "waiting x \<noteq> ready_queue s"
  using assms kernel_waiting[OF assms] by (simp_all add: kernel_ok_def)

text \<open>The first half of the scheduler for a process that exits and holds no lock.\<close>

lemma leave_exit:
  assumes inv: "sched_inv s Q" and rq: "Q (ready_queue s) = Some rs" and c: "c = current_running s"
    and h: "get s c HOLDING_HEAD = NULL"
  obtains s1 Q1 where "sched_leave arg1 TASK_EXITED s = Some s1" and "leaving_ok s1 Q1"
    and "Q1 = Q(waiting c \<mapsto> [], ready_queue s \<mapsto> rs @ waiters Q c)"
    and "ready_queue s1 = ready_queue s" and "pcb s1 = pcb s" and "current_running s1 = c"
    and "time_elapsed s1 = time_elapsed s" and "get s1 c STATUS = TASK_EXITED"
    and "\<forall>x \<in> set (waiters Q c). get s1 x STATUS = TASK_READY \<and> get s1 x CHAN = NULL"
    and "\<forall>x \<in> set rs. \<forall>f \<in> {STATUS, CHAN, SLEEP_END, HOLDING_HEAD}. get s1 x f = get s x f"
proof -
  let ?b = "pcb s" and ?ws = "waiters Q c"
  define t where "t = put c STATUS TASK_EXITED s"
  have k: "kernel_ok s Q" and cb: "c \<in> pcbs ?b" and cf: "c \<notin> queued Q" and so: "statuses_ok s Q"
    using inv c by (simp_all add: leave_facts)
  note w = waiters_ready[OF k cb]
  have okt: "queues_ok ?b (kmem t) Q" using w(1) cb by (simp add: t_def queues_put)
  have t: "ready_queue t = ready_queue s" "current_running t = c" "pcb t = ?b" by (simp_all add: t_def c)
  have ne: "waiting c \<noteq> ready_queue t" and rt: "Q (ready_queue t) = Some rs" using w(3) rq t by simp_all
  obtain m Q1 where m: "do_unblock_all (waiting c) t = Some (t\<lparr>kmem := m\<rparr>)" "queues_ok ?b m Q1"
    and Q1: "Q1 = Q(waiting c \<mapsto> [], ready_queue t \<mapsto> rs @ ?ws)" and wk: "woke ?b (dom Q) (set ?ws) (kmem t) m"
    using do_unblock_all_family[OF okt w(2) rt ne] by blast
  have ws: "set ?ws \<subseteq> pcbs ?b" using queues_okD(2)[OF w(1,2)] .
  have cws: "c \<notin> set ?ws" using cf w(2) queuedI[of Q "waiting c" ?ws c] by auto
  have g: "m (cell x f) = (if x = c \<and> f = STATUS then TASK_EXITED else get s x f)"
    if "x \<in> pcbs ?b" "x \<notin> set ?ws \<or> f \<notin> {STATUS, CHAN}" "plain_field f" "f \<noteq> PREV" "f \<noteq> NEXT" for x f
    using woke_get[OF wk w(1) that(1) ws that(2-5)] cell_inj[OF that(1) cb, of f STATUS] plain_field_ok[OF that(3)]
    by (auto simp: t_def)
  let ?s1 = "t\<lparr>kmem := m\<rparr>"
  have "m (cell c HOLDING_HEAD) = NULL" using g[OF cb, of HOLDING_HEAD] h cws by simp
  then have "release_holding ?s1 = Some ?s1"
    by (simp add: release_holding.simps queue_is_empty_def queue_in_pcb t(2))
  then have leave: "sched_leave arg1 TASK_EXITED s = Some ?s1"
    using m(1) by (simp add: sched_leave_def task_status_defs sched_exited_def t_def[symmetric] c[symmetric] t(2)
        t_def[unfolded task_status_defs, symmetric])
  have same: "get ?s1 x f = get s x f"
    if "Q r = Some ys" "x \<in> set ys" "r \<noteq> waiting c" "f \<in> {STATUS, CHAN, SLEEP_END, HOLDING_HEAD}" for r ys x f
  proof -
    have "x \<notin> set ?ws" using queues_disjoint[OF w(1) that(1) w(2) that(2)] that(3) by auto
    moreover have "x \<noteq> c" using cf queuedI[of Q r ys x] that by auto
    moreover have "x \<in> pcbs ?b" using queues_okD(2)[OF w(1) that(1)] that(2) by auto
    ultimately show ?thesis using g[of x f] that(4) by auto
  qed
  have ready: "get ?s1 x STATUS = TASK_READY \<and> get ?s1 x CHAN = NULL" if "x \<in> set ?ws" for x
    using wk that by (simp add: woke_def)
  have "statuses_ok ?s1 Q1"
    unfolding statuses_ok_def
  proof (intro allI impI ballI)
    fix r ys x assume r: "Q1 r = Some ys" and x: "x \<in> set ys"
    then consider "r = ready_queue s" "x \<in> set ?ws" | zs where "Q r = Some zs" "x \<in> set zs" "r \<noteq> waiting c"
      using rq w(3) by (auto simp: Q1 t split: if_splits)
    then show "if r = ready_queue ?s1 then ready_status ?s1 x else blocked_on ?s1 r x"
    proof cases
      case 1
      then show ?thesis using ready by (simp add: ready_status_def t)
    next
      case 2
      then have "if r = ready_queue s then ready_status s x else blocked_on s r x"
        using so unfolding statuses_ok_def by blast
      then show ?thesis using same[OF 2]
        by (simp add: ready_status_def blocked_on_def gone_def t split: if_splits)
    qed
  qed
  moreover have "kernel_ok ?s1 Q1"
    using k m(2) by (auto simp: kernel_ok_def t Q1)
  ultimately have "leaving_ok ?s1 Q1" using cb by (simp add: leaving_ok_def t)
  moreover have "time_elapsed ?s1 = time_elapsed s" by (simp add: t_def)
  ultimately show thesis
    using leave Q1 ready same[OF rq] w(3) g[OF cb, of STATUS] cws by (intro that[of ?s1 Q1]) (auto simp: t)
qed

lemma runnable_cong:
  assumes "get t x STATUS = get s x STATUS" and "get t x SLEEP_END = get s x SLEEP_END"
    and "time_elapsed t = time_elapsed s"
  shows "runnable t x = runnable s x"
  using assms by (simp add: runnable_def get_timer_def)

text \<open>A process that exits holding no lock; the theory of exiting processes removes that restriction.\<close>

lemma exit_runs:
  assumes "sched_inv s Q" and "Q (ready_queue s) = Some rs" and "c = current_running s"
    and "get s c HOLDING_HEAD = NULL" and "waiters Q c \<noteq> [] \<or> (\<exists>x \<in> set rs. runnable s x)"
  shows "\<exists>s' Q'. scheduler arg1 TASK_EXITED s = Some s' \<and> sched_inv s' Q' \<and>
    c \<notin> queued Q' \<and> current_running s' \<noteq> c \<and> get s' c STATUS = TASK_EXITED \<and>
    (\<forall>x \<in> set (waiters Q c). x = current_running s' \<or> get s' x STATUS = TASK_READY)"
proof -
  obtain s1 Q1 where leave: "sched_leave arg1 TASK_EXITED s = Some s1" and lv: "leaving_ok s1 Q1"
    and Q1: "Q1 = Q(waiting c \<mapsto> [], ready_queue s \<mapsto> rs @ waiters Q c)"
    and s1: "ready_queue s1 = ready_queue s" "pcb s1 = pcb s" "current_running s1 = c"
      "time_elapsed s1 = time_elapsed s" "get s1 c STATUS = TASK_EXITED"
    and ws: "\<forall>x \<in> set (waiters Q c). get s1 x STATUS = TASK_READY \<and> get s1 x CHAN = NULL"
    and old: "\<forall>x \<in> set rs. \<forall>f \<in> {STATUS, CHAN, SLEEP_END, HOLDING_HEAD}. get s1 x f = get s x f"
    by (rule leave_exit[OF assms(1-4), of arg1]) blast
  have k: "kernel_ok s Q" and cb: "c \<in> pcbs (pcb s)" and cf: "c \<notin> queued Q"
    using assms(1,3) by (simp_all add: leave_facts)
  note w = waiters_ready[OF k cb]
  have rq: "Q1 (ready_queue s1) = Some (rs @ waiters Q c)" by (simp add: Q1 s1)
  have "runnable s1 x = runnable s x" if "x \<in> set rs" for x
    using that old s1(4) by (intro runnable_cong) auto
  moreover have "runnable s1 x" if "x \<in> set (waiters Q c)" for x
    using ws that by (simp add: runnable_def)
  ultimately have ex: "\<exists>x \<in> set (rs @ waiters Q c). runnable s1 x"
    using assms(5) by (metis Un_iff hd_in_set set_append)
  have cf1: "c \<notin> queued Q1"
    using cf assms(2) w(2) unfolding queued_iff by (auto simp: Q1 split: if_splits)
  obtain s' Q' where s': "scheduler arg1 TASK_EXITED s = Some s'" "sched_inv s' Q'"
    "\<And>x. x \<in> pcbs (pcb s1) \<Longrightarrow> x \<noteq> current_running s' \<Longrightarrow>
      get s1 x STATUS = TASK_READY \<Longrightarrow> get s' x STATUS = TASK_READY"
    "queued Q' \<subseteq> queued Q1" "\<And>x. x \<in> pcbs (pcb s1) \<Longrightarrow> x \<notin> queued Q1 \<Longrightarrow> get s' x STATUS = get s1 x STATUS"
    "get s' (current_running s') STATUS = TASK_RUNNING"
    by (rule scheduler_inv[OF leave lv rq ex]) blast
  have st: "get s' c STATUS = TASK_EXITED" using s'(5)[of c] cb cf1 s1 by simp
  moreover have "current_running s' \<noteq> c" using st s'(6) by (auto simp: task_status_defs)
  moreover have "x \<in> pcbs (pcb s1)" if "x \<in> set (waiters Q c)" for x
    using that queues_okD(2)[OF w(1,2)] s1(2) by auto
  ultimately show ?thesis
    using s'(1-4) cf1 ws by blast
qed

lemma exit_returns:
  assumes "sched_inv s Q" and "Q (ready_queue s) = Some rs" and "get s (current_running s) HOLDING_HEAD = NULL"
    and "\<exists>x \<in> set rs. runnable s x"
  shows "\<exists>k. exit s = Some k"
proof -
  let ?t = "save_context KERNEL_CONTEXT s"
  note sv = save_context_inv[OF assms(1)]
  have cb: "current_running s \<in> pcbs (pcb s)" using assms(1) by (simp add: leave_facts)
  have "cell (current_running s) HOLDING_HEAD \<noteq> cell (current_running s) (KERNEL_CONTEXT i)" if "i < 39" for i
    using cell_inj[OF cb cb, of HOLDING_HEAD "KERNEL_CONTEXT i"] that by simp
  then have "get ?t (current_running s) HOLDING_HEAD = NULL" using save_cells(6)[OF ctx_kinds(1) cb] assms(3) by simp
  moreover have "x \<in> pcbs (pcb s)" if "x \<in> set rs" for x
    using queues_okD(2)[of "pcb s" "kmem s" Q "ready_queue s" rs] assms(1,2) that by (auto simp: leave_facts kernel_ok_def)
  then have "\<exists>x \<in> set rs. runnable ?t x" using assms(4) sv(6) by blast
  ultimately obtain s' where "scheduler (gpr s 4) 5 ?t = Some s'"
    using exit_runs[OF sv(1), of rs "current_running s" "gpr s 4"] assms(2) sv(3,4) by (auto simp: task_status_defs)
  then show ?thesis by (simp add: exit_def do_exit_def switch_sched_def)
qed

lemma sample_exits: "\<exists>k. exit sampleF = Some k"
proof -
  have "runnable sampleF (pcb_at 0x1000 2)" by (simp add: runnable_def sample_free_get)
  then show ?thesis
    using exit_returns[OF sample_free_inv, of "[pcb_at 0x1000 1, pcb_at 0x1000 2]"] by (auto simp: sample_free_get)
qed

text \<open>
  Waiting for another live process puts the caller at the end of that process' waiters and
  enters the first process that can run; the caller will be woken when the other exits.
\<close>

theorem wait_blocks:
  assumes "sched_inv s Q" and "find_pid pid s = Some i" and "p = pcb_at (pcb s) i"
    and "get s (current_running s) PID \<noteq> pid"
    and "Q (ready_queue s) = Some rs" and "find (runnable s) rs = Some r"
  shows "\<exists>s' Q'. wait pid s = Some s' \<and> sched_inv s' Q' \<and> current_running s' = r \<and>
    waiters Q' p = waiters Q p @ [current_running s]"
proof -
  have i: "i < NUM_MAX_TASK" "get s p STATUS \<noteq> TASK_EXITED"
    using assms(2,3) by (simp_all add: find_pid_Some)
  then have p: "p \<in> pcbs (pcb s)" using assms(3) by (simp add: pcbs_def)
  have k: "kernel_ok s Q" using assms(1) by (simp add: leave_facts)
  note w = waiters_ready[OF k p]
  have "x = p" if "x \<in> set rs" "waiting x = waiting p" for x
    using that waiting_inj[of x "pcb s" p] queues_okD(2)[OF w(1) assms(5)] p by auto
  then have ng: "\<forall>x \<in> set rs. waiting x = waiting p \<longrightarrow> get s x STATUS \<noteq> TASK_EXITED"
    using i(2) by blast
  obtain s' Q' where s': "do_block (waiting p) s = Some s'" "sched_inv s' Q'" "current_running s' = r"
    "Q' (waiting p) = Some (waiters Q p @ [current_running s])"
    by (rule do_block_runs[OF assms(1) w(2,3) assms(5,6) ng]) blast
  have "wait pid s = Some s'"
    using s'(1) assms(2-4) by (simp add: wait_def)
  moreover have "waiters Q' p = waiters Q p @ [current_running s]"
    using s'(4) by (simp add: waiters_def)
  ultimately show ?thesis using s' by blast
qed

theorem wait_blocks_witness:
  "\<exists>s' Q'. wait 2 sampleF = Some s' \<and> sched_inv s' Q' \<and> current_running s' = pcb_at 0x1000 2 \<and>
    waiters Q' (pcb_at 0x1000 2) = [pcb_at 0x1000 0]"
proof -
  have "find_pid 2 sampleF = Some 2"
    unfolding find_pid_Some by (auto simp: NUM_MAX_TASK_def sample_free_get task_status_defs)
  moreover have "find (runnable sampleF) [pcb_at 0x1000 1, pcb_at 0x1000 2] = Some (pcb_at 0x1000 2)"
    by (simp add: runnable_def sample_free_get get_timer_def task_status_defs)
  ultimately show ?thesis
    using wait_blocks[OF sample_free_inv, of 2 2 "pcb_at 0x1000 2" "[pcb_at 0x1000 1, pcb_at 0x1000 2]" "pcb_at 0x1000 2"]
    by (simp add: sample_free_get sample_no_waiters)
qed

section \<open>The first process\<close>

lemma fold_status_eq:
  "fold (\<lambda>i. put (p i) STATUS v) is s = s\<lparr>kmem := fold (\<lambda>i m. m(cell (p i) STATUS := v)) is (kmem s)\<rparr>"
  by (induction "is" arbitrary: s) (simp_all add: put_def)

lemma fold_status_queues:
  "\<forall>i \<in> set is. p i \<in> pcbs b \<Longrightarrow>
   queues_ok b (fold (\<lambda>i m. m(cell (p i) STATUS := v)) is m) Q = queues_ok b m Q"
  by (induction "is" arbitrary: m) (simp_all add: queues_put)

lemma fold_status_get:
  "fold (\<lambda>i m. m(cell (p i) STATUS := v)) is m a = (if \<exists>i \<in> set is. a = cell (p i) STATUS then v else m a)"
  by (induction "is" arbitrary: m) auto

lemma init_pcb_inv:
  assumes "queue_addrs_ok (pcb s) D" and "D = insert (ready_queue s) (waiting ` pcbs (pcb s))"
    and "ready_queue s \<notin> waiting ` pcbs (pcb s)"
    and "\<forall>p \<in> pcbs (pcb s). kmem s (cell p WAITING_HEAD) = NULL \<and> kmem s (cell p WAITING_TAIL) = NULL"
    and "task_ok s (empty_queues D) shell"
  shows "sched_inv (init_pcb shell s) (empty_queues D) \<and>
    current_running (init_pcb shell s) = pcb_at (pcb s) 0 \<and>
    get (init_pcb shell s) (pcb_at (pcb s) 0) STATUS = TASK_EMBRYO \<and>
    get (init_pcb shell s) (pcb_at (pcb s) 0) PID = process_id s \<and>
    (\<forall>i. 0 < i \<longrightarrow> i < NUM_MAX_TASK \<longrightarrow> get (init_pcb shell s) (pcb_at (pcb s) i) STATUS = TASK_EXITED)"
proof -
  let ?b = "pcb s" and ?p = "pcb_at (pcb s) 0" and ?Q = "empty_queues D" and ?r = "ready_queue s"
  define s0 where "s0 = s\<lparr>kmem := queue_init (kmem s) ?r\<rparr>"
  have p: "?p \<in> pcbs ?b" by (simp add: pcbs_def NUM_MAX_TASK_def)
  have dom: "dom ?Q = D" by (auto simp: empty_queues_def split: if_splits)
  have D: "?r \<in> D" "waiting ?p \<in> D" and sub: "waiting ` pcbs ?b \<subseteq> D" using assms(2) p by auto
  have notq: "x \<notin> queued ?Q" for x by (auto simp: queued_iff empty_queues_def split: if_splits)
  have w0: "kmem s0 (q + queue_head) = NULL \<and> kmem s0 (q + queue_tail) = NULL" if "q \<in> D" for q
    using that assms(2,4) by (auto simp: s0_def queue_init_def queue_in_pcb)
  have ok0: "queues_ok ?b (kmem s0) ?Q" by (rule empty_queues_ok[OF assms(1)]) (use w0 in blast)
  have s0: "pcb s0 = ?b" "ready_queue s0 = ?r" "process_id s0 = process_id s" by (simp_all add: s0_def)
  have t0: "task_ok s0 ?Q shell" using assms(5) by (simp add: task_ok_def s0)
  have Qs: "?Q (ready_queue s0) = Some []" "?Q (waiting ?p) = Some []"
    using D by (simp_all add: empty_queues_def s0)
  have ne: "waiting ?p \<noteq> ready_queue s0" using assms(3) p s0(2) by (metis imageI)
  define kst where "kst = KSTACK_BASE + word_of_nat 0 * KSTACK_SIZE"
  define ust where "ust = USTACK_BASE + word_of_nat 0 * USTACK_SIZE"
  let ?F = "new_fields s0 shell kst ust"
  define m1 where "m1 = puts ?p ?F (queue_push (kmem s0) ?r ?p)"
  define m2 where "m2 = fold (\<lambda>i m. m(cell (pcb_at ?b i) STATUS := TASK_EXITED)) [1..<NUM_MAX_TASK] m1"
  have "assignt shell 0 s0 = s0\<lparr>kmem := m1, process_id := process_id s + 1\<rparr>"
    unfolding m1_def
    using assign_task_eq[of s0 ?Q ?p "[]" shell kst ust] ok0 p notq Qs ne t0
    by (simp add: assignt_def s0 kst_def ust_def)
  then have init: "init_pcb shell s = s\<lparr>kmem := snd (queue_dequeue m2 ?r), process_id := process_id s + 1,
      current_running := fst (queue_dequeue m2 ?r)\<rparr>"
    by (simp add: init_pcb_def s0_def[symmetric] fold_status_eq m2_def case_prod_beta Let_def)
       (simp add: s0_def)
  define Q1 where "Q1 = ?Q(?r \<mapsto> [] @ [?p])"
  have Q1: "Q1 ?r = Some [?p]" "Q1(?r \<mapsto> []) = ?Q" "dom Q1 = D"
    using D dom by (auto simp: Q1_def empty_queues_def)
  have in_b: "pcb_at ?b i \<in> pcbs ?b" if "i < NUM_MAX_TASK" for i using that by (simp add: pcbs_def)
  have "queues_ok ?b (queue_push (kmem s0) ?r ?p) Q1"
    unfolding Q1_def using queues_push[OF ok0 Qs(1) p notq] by (simp only: s0)
  then have ok2: "queues_ok ?b m2 Q1"
    using puts_queues[OF p new_fields_plain(1)] in_b by (simp add: m2_def m1_def fold_status_queues)
  have deq: "fst (queue_dequeue m2 ?r) = ?p" "queues_ok ?b (snd (queue_dequeue m2 ?r)) ?Q"
    using queues_dequeue[OF ok2 Q1(1)] unfolding Q1(2) by auto
  have fr: "snd (queue_dequeue m2 ?r) (cell x f) = m2 (cell x f)" if "x \<in> pcbs ?b" "f \<in> {STATUS, PID}" for x f
    using that by (intro family_dequeue_frame[OF ok2 Q1(1)] family_plain[OF ok2]) auto
  have g0: "m2 (cell ?p f) = m1 (cell ?p f)" if "f \<in> {STATUS, PID}" for f
    using that by (auto simp: m2_def fold_status_get cell_inj_idx NUM_MAX_TASK_def)
  have gi: "m2 (cell (pcb_at ?b i) STATUS) = TASK_EXITED" if "0 < i" "i < NUM_MAX_TASK" for i
    using that by (auto simp: m2_def fold_status_get)
  have F: "m1 (cell ?p STATUS) = TASK_EMBRYO" "m1 (cell ?p PID) = process_id s"
    unfolding m1_def by (simp_all add: puts_get[OF p _ new_fields_plain(2,3)])
       (simp_all add: new_fields_def s0)
  have "statuses_ok (init_pcb shell s) ?Q"
    by (auto simp: statuses_ok_def empty_queues_def split: if_splits)
  moreover have "kernel_ok (init_pcb shell s) ?Q"
    using deq(2) D(1) sub assms(3) by (simp add: kernel_ok_def init dom)
  ultimately have "sched_inv (init_pcb shell s) ?Q"
    using notq p deq(1) by (simp add: sched_inv_def leaving_ok_def init)
  then show ?thesis
    using deq(1) fr[OF p] g0 F fr[OF in_b] gi by (simp add: init)
qed

lemma sample_boot:
  defines "s \<equiv> sample_kernel [] (\<lambda>_. 0) 0" and "D \<equiv> insert 0x100 (waiting ` pcbs 0x1000)"
  shows "queue_addrs_ok (pcb s) D" and "0x100 \<notin> waiting ` pcbs 0x1000" and "task_ok s (empty_queues D) 0x700"
proof -
  show "queue_addrs_ok (pcb s) D"
    using addrs_array[of "0x1000" "{0x100}"] by (simp add: sample_outside layout s_def D_def)
  show "0x100 \<notin> waiting ` pcbs 0x1000"
    using outside_cell[OF sample_outside(2), of _ WAITING_HEAD] by (auto simp: waiting_def)
  have fam: "a \<notin> family_cells 0x1000 ({0x100} \<union> waiting ` pcbs 0x1000)" if "a \<in> {0x700, 0x704, 0x708}" for a
    using that by (intro outside_family) (auto simp: sample_task_addrs layout)
  have dom: "dom (empty_queues D) = {0x100} \<union> waiting ` pcbs 0x1000"
    by (auto simp: empty_queues_def D_def split: if_splits)
  show "task_ok s (empty_queues D) 0x700"
    unfolding task_ok_def dom s_def sample_simps
    using fam[of "0x700"] fam[of "0x704"] fam[of "0x708"] by (simp add: layout sample_task_addrs)
qed

text \<open>
  Booting: with the kernel's queues at addresses that do not overlap and the blocks zeroed,
  \<open>init_pcb\<close> ends with the shell, new and with the first pid, as the running process, every
  other block free, all queues empty, and the scheduler's invariant established.
\<close>

theorem init_pcb_establishes:
  assumes "queue_addrs_ok (pcb s) D" and "D = insert (ready_queue s) (waiting ` pcbs (pcb s))"
    and "ready_queue s \<notin> waiting ` pcbs (pcb s)"
    and "\<forall>p \<in> pcbs (pcb s). kmem s (cell p WAITING_HEAD) = NULL \<and> kmem s (cell p WAITING_TAIL) = NULL"
    and "task_ok s (empty_queues D) shell"
  shows "sched_inv (init_pcb shell s) (empty_queues D) \<and>
    current_running (init_pcb shell s) = pcb_at (pcb s) 0 \<and>
    get (init_pcb shell s) (pcb_at (pcb s) 0) STATUS = TASK_EMBRYO \<and>
    get (init_pcb shell s) (pcb_at (pcb s) 0) PID = process_id s \<and>
    (\<forall>i. 0 < i \<longrightarrow> i < NUM_MAX_TASK \<longrightarrow> get (init_pcb shell s) (pcb_at (pcb s) i) STATUS = TASK_EXITED)"
  using assms by (rule init_pcb_inv)

theorem init_pcb_establishes_witness:
  "current_running (init_pcb 0x700 (sample_kernel [] (\<lambda>_. 0) 0)) = pcb_at 0x1000 0 \<and>
   sched_inv (init_pcb 0x700 (sample_kernel [] (\<lambda>_. 0) 0)) (empty_queues (insert 0x100 (waiting ` pcbs 0x1000)))"
  using init_pcb_establishes[OF sample_boot(1), of "0x700"] sample_boot(2,3) by (simp add: sample_mem_def)

end
