(* ===== verification/Sync.thy ===== *)
theory Sync
  imports Proc
begin

text \<open>
  \<^verbatim>\<open>kernel/locking/\<close>: spin locks, mutexes, conditions, semaphores and barriers. Several of
  these functions give the processor away in the middle (\<open>do_block\<close>) and go on when the
  process is entered again, on its own kernel stack. They are therefore programs, lists of the
  statements of the source, and the system keeps for each process the statements it still has
  to execute in the kernel. Kernel code runs with interrupts off (\<open>CLI\<close> at the entry of the
  exception handlers in \<^verbatim>\<open>arch/mips/kernel/entry.S\<close>), so a process leaves the processor
  in the kernel only through \<open>do_block\<close> and through the timer interrupt, which comes in user
  mode.
\<close>

section \<open>Statements\<close>

text \<open>The tests of the loops and branches: \<open>LOCKED == lock->status\<close>, \<open>s->count <= 0\<close>, and
  \<open>barrier->count == barrier->max\<close>.\<close>

datatype kcond = Locked u32 | Not_positive u32 | Equal u32 u32

text \<open>\<open>Hold\<close> is the pair of statements behind the loop of \<open>do_mutex_lock_acquire\<close>; \<open>Add\<close> and
  \<open>Store\<close> are assignments to a counter.\<close>

datatype kop =
    Block u32 | Unblock_one u32 | Unblock_all u32
  | Hold u32 | Release u32 | Add u32 u32 | Store u32 u32
  | While kcond "kop list" | Choose kcond "kop list" "kop list"

definition store :: "u32 \<Rightarrow> u32 \<Rightarrow> kstate \<Rightarrow> kstate" where
  "store a v s = s\<lparr>kmem := (kmem s)(a := v)\<rparr>"

definition hold :: "u32 \<Rightarrow> kstate \<Rightarrow> kstate" where
  "hold lock s =
    (let s = s\<lparr>kmem := queue_push (kmem s) (holding (current_running s)) lock\<rparr>
     in store (lock + lock_status) LOCKED s)"

fun test :: "kcond \<Rightarrow> kstate \<Rightarrow> bool" where
  "test (Locked lock) s \<longleftrightarrow> LOCKED = kmem s (lock + lock_status)"
| "test (Not_positive a) s \<longleftrightarrow> sleq (kmem s a) 0"
| "test (Equal a b) s \<longleftrightarrow> kmem s a = kmem s b"

section \<open>Functions of the source\<close>

definition spin_lock_init :: "u32 \<Rightarrow> kstate \<Rightarrow> kstate" where
  "spin_lock_init lock s = store lock UNLOCKED s"

partial_function (option) spin_lock_acquire :: "u32 \<Rightarrow> kstate \<Rightarrow> kstate option" where
  "spin_lock_acquire lock s =
    (if LOCKED = kmem s lock then spin_lock_acquire lock s else Some (store lock LOCKED s))"

definition spin_lock_release :: "u32 \<Rightarrow> kstate \<Rightarrow> kstate" where
  "spin_lock_release lock s = store lock UNLOCKED s"

definition do_mutex_lock_init :: "u32 \<Rightarrow> kstate \<Rightarrow> kstate" where
  "do_mutex_lock_init lock s =
    (let s = store (lock + lock_status) UNLOCKED s
     in s\<lparr>kmem := queue_init (kmem s) (lock + lock_block_queue)\<rparr>)"

definition do_mutex_lock_acquire :: "u32 \<Rightarrow> kop list" where
  "do_mutex_lock_acquire lock = [While (Locked lock) [Block (lock + lock_block_queue)], Hold lock]"

definition do_condition_init :: "u32 \<Rightarrow> kstate \<Rightarrow> kstate" where
  "do_condition_init condition s = s\<lparr>kmem := queue_init (kmem s) condition\<rparr>"

definition do_condition_wait :: "u32 \<Rightarrow> u32 \<Rightarrow> kop list" where
  "do_condition_wait lock condition = [Release lock, Block condition] @ do_mutex_lock_acquire lock"

definition do_condition_signal :: "u32 \<Rightarrow> kop list" where
  "do_condition_signal condition = [Unblock_one condition]"

definition do_condition_broadcast :: "u32 \<Rightarrow> kop list" where
  "do_condition_broadcast condition = [Unblock_all condition]"

text \<open>\<open>semaphore_t\<close>: the queue, the count, the lock.\<close>

definition sem_queue :: u32 where
  sem_queue_def [layout]: "sem_queue = 0"
definition sem_count :: u32 where
  sem_count_def [layout]: "sem_count = 8"
definition sem_lock :: u32 where
  sem_lock_def [layout]: "sem_lock = 12"

definition do_semaphore_init :: "u32 \<Rightarrow> u32 \<Rightarrow> kstate \<Rightarrow> kstate" where
  "do_semaphore_init sem val s =
    (let s = s\<lparr>kmem := queue_init (kmem s) (sem + sem_queue)\<rparr>;
         s = do_mutex_lock_init (sem + sem_lock) s
     in store (sem + sem_count) val s)"

definition do_semaphore_up :: "u32 \<Rightarrow> kop list" where
  "do_semaphore_up sem =
    do_mutex_lock_acquire (sem + sem_lock) @
    [Add (sem + sem_count) 1, Unblock_one (sem + sem_queue), Release (sem + sem_lock)]"

definition do_semaphore_down :: "u32 \<Rightarrow> kop list" where
  "do_semaphore_down sem =
    do_mutex_lock_acquire (sem + sem_lock) @
    [While (Not_positive (sem + sem_count))
       ([Release (sem + sem_lock), Block (sem + sem_queue)] @ do_mutex_lock_acquire (sem + sem_lock)),
     Add (sem + sem_count) (- 1), Release (sem + sem_lock)]"

text \<open>\<open>barrier_t\<close>: the count, the goal, the queue, the lock.\<close>

definition barrier_count :: u32 where
  barrier_count_def [layout]: "barrier_count = 0"
definition barrier_max :: u32 where
  barrier_max_def [layout]: "barrier_max = 4"
definition barrier_queue :: u32 where
  barrier_queue_def [layout]: "barrier_queue = 8"
definition barrier_lock :: u32 where
  barrier_lock_def [layout]: "barrier_lock = 16"

definition do_barrier_init :: "u32 \<Rightarrow> u32 \<Rightarrow> kstate \<Rightarrow> kstate" where
  "do_barrier_init barrier goal s =
    (let s = store (barrier + barrier_count) 0 s;
         s = store (barrier + barrier_max) goal s;
         s = do_mutex_lock_init (barrier + barrier_lock) s
     in s\<lparr>kmem := queue_init (kmem s) (barrier + barrier_queue)\<rparr>)"

definition do_barrier_wait :: "u32 \<Rightarrow> kop list" where
  "do_barrier_wait barrier =
    do_mutex_lock_acquire (barrier + barrier_lock) @
    [Add (barrier + barrier_count) 1,
     Choose (Equal (barrier + barrier_count) (barrier + barrier_max))
       [Unblock_all (barrier + barrier_queue), Store (barrier + barrier_count) 0]
       ([Release (barrier + barrier_lock), Block (barrier + barrier_queue)] @
        do_mutex_lock_acquire (barrier + barrier_lock)),
     Release (barrier + barrier_lock)]"

section \<open>Execution\<close>

text \<open>One statement of the running process: its effect, and the statements that replace it.\<close>

fun exec_op :: "kop \<Rightarrow> kstate \<Rightarrow> (kstate \<times> kop list) option" where
  "exec_op (Block q) s = map_option (\<lambda>s. (s, [])) (do_block q s)"
| "exec_op (Unblock_one q) s = Some (do_unblock_one q s, [])"
| "exec_op (Unblock_all q) s = map_option (\<lambda>s. (s, [])) (do_unblock_all q s)"
| "exec_op (Hold l) s = Some (hold l s, [])"
| "exec_op (Release l) s = map_option (\<lambda>s. (s, [])) (do_mutex_lock_release l s)"
| "exec_op (Add a v) s = Some (store a (kmem s a + v) s, [])"
| "exec_op (Store a v) s = Some (store a v s, [])"
| "exec_op (While c body) s = Some (s, if test c s then body @ [While c body] else [])"
| "exec_op (Choose c yes no) s = Some (s, if test c s then yes else no)"

text \<open>The system: the kernel and, for each process, what it still has to do in the kernel.\<close>

record ksys =
  ks :: kstate
  todo :: "u32 \<Rightarrow> kop list"

definition kstep :: "ksys \<Rightarrow> ksys option" where
  "kstep S =
    (let p = current_running (ks S) in
     case todo S p of
       [] \<Rightarrow> None
     | op # rest \<Rightarrow> do {
         (s, more) \<leftarrow> exec_op op (ks S);
         Some (S\<lparr>ks := s, todo := (todo S)(p := more @ rest)\<rparr>)
       })"

text \<open>Statements until the running process is in user mode, at most \<open>n\<close> of them.\<close>

fun krun :: "nat \<Rightarrow> ksys \<Rightarrow> ksys option" where
  "krun 0 S = Some S"
| "krun (Suc n) S = (if todo S (current_running (ks S)) = [] then Some S else do { S \<leftarrow> kstep S; krun n S })"

section \<open>Writing memory under the invariant of the scheduler\<close>

text \<open>The invariant depends on the cells of the queues and on three fields of the processes that
  are in queues.\<close>

lemma sched_inv_cong:
  assumes inv: "sched_inv s Q" and m: "\<And>a. a \<in> family_cells (pcb s) (dom Q) \<Longrightarrow> m a = kmem s a"
    and f: "\<And>x f. x \<in> queued Q \<Longrightarrow> f \<in> {STATUS, CHAN, HOLDING_HEAD} \<Longrightarrow> m (cell x f) = get s x f"
  shows "sched_inv (s\<lparr>kmem := m\<rparr>) Q"
proof -
  have ok: "queues_ok (pcb s) (kmem s) Q" using inv by (simp add: leave_facts)
  have "queue_rep m q xs = queue_rep (kmem s) q xs" if "Q q = Some xs" for q xs
    using m that queue_cells_mono[OF queues_okD(2)[OF ok that], of q]
    by (intro queue_rep_cong) (auto simp: family_cells_def domI)
  then have okm: "queues_ok (pcb s) m Q" using ok unfolding queues_ok_def by blast
  have "statuses_ok (s\<lparr>kmem := m\<rparr>) Q"
    unfolding statuses_ok_def
  proof (intro allI impI ballI)
    fix q xs x assume q: "Q q = Some xs" "x \<in> set xs"
    then have "x \<in> queued Q" by (rule queuedI)
    moreover have "if q = ready_queue s then ready_status s x else blocked_on s q x"
      using inv q unfolding sched_inv_def leaving_ok_def statuses_ok_def by blast
    ultimately show "if q = ready_queue (s\<lparr>kmem := m\<rparr>) then ready_status (s\<lparr>kmem := m\<rparr>) x
        else blocked_on (s\<lparr>kmem := m\<rparr>) q x"
      using f[of x STATUS] f[of x CHAN] f[of x HOLDING_HEAD]
      by (simp add: ready_status_def blocked_on_def gone_def split: if_splits)
  qed
  then show ?thesis using inv okm by (simp add: leave_facts)
qed

lemma queued_in: "sched_inv s Q \<Longrightarrow> x \<in> queued Q \<Longrightarrow> x \<in> pcbs (pcb s)"
  using queued_pcbs by (auto simp: leave_facts)

lemma store_inv:
  assumes "sched_inv s Q" and "outside (pcb s) a" and "a \<notin> family_cells (pcb s) (dom Q)"
  shows "sched_inv (store a v s) Q"
  unfolding store_def
proof (rule sched_inv_cong[OF assms(1)])
  show "((kmem s)(a := v)) (cell x f) = get s x f" if "x \<in> queued Q" "f \<in> {STATUS, CHAN, HOLDING_HEAD}" for x f
    using that outside_cell[OF assms(2) queued_in[OF assms(1)], of x f] by auto
qed (use assms(3) in auto)

section \<open>Waking\<close>

lemma woke_inv:
  assumes inv: "sched_inv s Q" and q: "Q q = Some (zs @ ys)" "q \<noteq> ready_queue s"
    and rq: "Q (ready_queue s) = Some rs"
    and Q1: "Q1 = Q(q \<mapsto> ys, ready_queue s \<mapsto> rs @ zs)" and okm: "queues_ok (pcb s) m Q1"
    and wk: "woke (pcb s) (dom Q) (set zs) (kmem s) m"
  shows "sched_inv (s\<lparr>kmem := m\<rparr>) Q1" and "unswitched s Q (s\<lparr>kmem := m\<rparr>)" and "dom Q1 = dom Q"
proof -
  let ?b = "pcb s"
  have ok: "queues_ok ?b (kmem s) Q" and k: "kernel_ok s Q" and so: "statuses_ok s Q"
    and c: "current_running s \<in> pcbs ?b" "current_running s \<notin> queued Q"
    using inv by (simp_all add: leave_facts)
  have zs: "set zs \<subseteq> pcbs ?b" using queues_okD(2)[OF ok q(1)] by simp
  have g: "m (cell x f) = get s x f"
    if "x \<in> pcbs ?b" "x \<notin> set zs \<or> f \<notin> {STATUS, CHAN}" "plain_field f" "f \<noteq> PREV" "f \<noteq> NEXT" for x f
    using woke_get[OF wk ok that(1) zs that(2-5)] .
  have "statuses_ok (s\<lparr>kmem := m\<rparr>) Q1"
    unfolding statuses_ok_def
  proof (intro allI impI ballI)
    fix r xs x assume r: "Q1 r = Some xs" and x: "x \<in> set xs"
    show "if r = ready_queue (s\<lparr>kmem := m\<rparr>) then ready_status (s\<lparr>kmem := m\<rparr>) x else blocked_on (s\<lparr>kmem := m\<rparr>) r x"
    proof (cases "x \<in> set zs")
      case True
      then have "r = ready_queue s"
        using kqs.disjoint[OF okm r, of "ready_queue s" "rs @ zs" x] x by (auto simp: Q1)
      then show ?thesis using True wk by (simp add: ready_status_def woke_def)
    next
      case False
      then obtain vs where vs: "Q r = Some vs" "x \<in> set vs"
        using r x q rq by (auto simp: Q1 split: if_splits)
      then have "x \<in> pcbs ?b" using queues_okD(2)[OF ok vs(1)] by auto
      moreover have "if r = ready_queue s then ready_status s x else blocked_on s r x"
        using so vs unfolding statuses_ok_def by blast
      ultimately show ?thesis using False g[of x STATUS] g[of x CHAN] g[of x HOLDING_HEAD]
        by (simp add: ready_status_def blocked_on_def gone_def split: if_splits)
    qed
  qed
  moreover show d: "dom Q1 = dom Q" using q rq by (auto simp: Q1)
  moreover have "queued Q1 \<subseteq> queued Q"
    using q rq by (fastforce simp: queued_iff Q1 split: if_splits)
  ultimately show "sched_inv (s\<lparr>kmem := m\<rparr>) Q1"
    using okm k c by (auto simp: leave_facts)
  show "unswitched s Q (s\<lparr>kmem := m\<rparr>)"
    unfolding unswitched_def
  proof (intro conjI allI impI ballI)
    fix a assume "outside ?b a" "a \<notin> family_cells ?b (dom Q)"
    then show "kmem (s\<lparr>kmem := m\<rparr>) a = kmem s a" using woke_frame[OF wk] outside_wake[OF _ zs] by simp
  qed (use g in simp_all)
qed

lemma unblock_all_inv:
  assumes inv: "sched_inv s Q" and q: "q \<in> dom Q" "q \<noteq> ready_queue s"
  obtains m Q1 where "do_unblock_all q s = Some (s\<lparr>kmem := m\<rparr>)" and "sched_inv (s\<lparr>kmem := m\<rparr>) Q1"
    and "dom Q1 = dom Q" and "unswitched s Q (s\<lparr>kmem := m\<rparr>)"
proof -
  obtain xs rs where xs: "Q q = Some xs" and rs: "Q (ready_queue s) = Some rs"
    using q inv by (auto simp: leave_facts)
  have ok: "queues_ok (pcb s) (kmem s) Q" using inv by (simp add: leave_facts)
  from do_unblock_all_family[OF ok xs rs q(2)] obtain m Q1 where
    m: "do_unblock_all q s = Some (s\<lparr>kmem := m\<rparr>)" "queues_ok (pcb s) m Q1" "Q1 = Q(q \<mapsto> [], ready_queue s \<mapsto> rs @ xs)"
      "woke (pcb s) (dom Q) (set xs) (kmem s) m" by blast
  have "Q q = Some (xs @ [])" using xs by simp
  from woke_inv[OF inv this q(2) rs m(3,2,4)] show thesis using that[OF m(1)] by blast
qed

lemma unblock_one_inv:
  assumes inv: "sched_inv s Q" and q: "q \<in> dom Q" "q \<noteq> ready_queue s"
  obtains m Q1 where "do_unblock_one q s = s\<lparr>kmem := m\<rparr>" and "sched_inv (s\<lparr>kmem := m\<rparr>) Q1"
    and "dom Q1 = dom Q" and "unswitched s Q (s\<lparr>kmem := m\<rparr>)"
proof -
  obtain xs rs where xs: "Q q = Some xs" and rs: "Q (ready_queue s) = Some rs"
    using q inv by (auto simp: leave_facts)
  have ok: "queues_ok (pcb s) (kmem s) Q" using inv by (simp add: leave_facts)
  have e: "queue_is_empty (kmem s) q \<longleftrightarrow> xs = []" using queue_is_empty_rep[OF queues_okD(1)[OF ok xs]] .
  show thesis
  proof (cases xs)
    case Nil
    then have "do_unblock_one q s = s\<lparr>kmem := kmem s\<rparr>" using e by (simp add: do_unblock_one_def)
    then show thesis by (rule that[of "kmem s" Q]) (use inv in \<open>simp_all add: unswitched_def\<close>)
  next
    case (Cons x ys)
    have "Q q = Some (x # ys)" using xs Cons by simp
    then obtain m where m: "unblock_first q s = s\<lparr>kmem := m\<rparr>" "queues_ok (pcb s) m (Q(q \<mapsto> ys, ready_queue s \<mapsto> rs @ [x]))"
      "woke (pcb s) (dom Q) {x} (kmem s) m"
      by (rule unblock_first_family[OF ok _ rs q(2)])
    have "Q q = Some ([x] @ ys)" "woke (pcb s) (dom Q) (set [x]) (kmem s) m" using xs Cons m(3) by simp_all
    from woke_inv[OF inv this(1) q(2) rs refl m(2) this(2)] show thesis
      using that m(1) e Cons by (simp add: do_unblock_one_def)
  qed
qed

section \<open>Locks in memory\<close>

text \<open>
  The words of a lock that its users write apart from its queue: the status and the two link
  words of a queue item, which \<open>queue_push\<close> finds at the offsets of \<open>prev\<close> and \<open>next\<close> in a
  \<open>pcb_t\<close>. \<open>locks_ok\<close> asks that these words are the locks' own; the struct \<open>mutex_lock_t\<close> has
  only 20 bytes, so this is a condition on what lies behind a lock in memory.
\<close>

definition lock_words :: "u32 \<Rightarrow> u32 set" where
  "lock_words l = {l + lock_status, l + pcb_prev, l + pcb_next}"

definition sync_queue :: "kstate \<Rightarrow> u32 set \<Rightarrow> u32 \<Rightarrow> bool" where
  "sync_queue s D q \<longleftrightarrow> q \<in> D \<and> q \<noteq> ready_queue s \<and> q \<notin> waiting ` pcbs (pcb s)"

definition free_word :: "kstate \<Rightarrow> u32 set \<Rightarrow> u32 \<Rightarrow> bool" where
  "free_word s D a \<longleftrightarrow> outside (pcb s) a \<and> a \<notin> family_cells (pcb s) D"

definition locks_ok :: "kstate \<Rightarrow> u32 set \<Rightarrow> u32 set \<Rightarrow> bool" where
  "locks_ok s D L \<longleftrightarrow>
     NULL \<notin> L \<and>
     (\<forall>l \<in> L. sync_queue s D (l + lock_block_queue) \<and> (\<forall>a \<in> lock_words l. free_word s D a)) \<and>
     (\<forall>l \<in> L. \<forall>k \<in> L. l + lock_status \<noteq> k + pcb_prev \<and> l + lock_status \<noteq> k + pcb_next \<and> l + pcb_prev \<noteq> k + pcb_next)"

text \<open>Which process holds which locks, oldest first: the lists in memory, and the status words.\<close>

definition holds_ok :: "kstate \<Rightarrow> u32 set \<Rightarrow> (u32 \<Rightarrow> u32 list) \<Rightarrow> bool" where
  "holds_ok s L H \<longleftrightarrow>
     (\<forall>p \<in> pcbs (pcb s). queue_rep (kmem s) (holding p) (H p) \<and> set (H p) \<subseteq> L) \<and>
     (\<forall>p \<in> pcbs (pcb s). \<forall>q \<in> pcbs (pcb s). p \<noteq> q \<longrightarrow> set (H p) \<inter> set (H q) = {}) \<and>
     (\<forall>l \<in> L. kmem s (l + lock_status) = (if \<exists>p \<in> pcbs (pcb s). l \<in> set (H p) then LOCKED else UNLOCKED))"

lemma holdsD:
  assumes "holds_ok s L H" and "p \<in> pcbs (pcb s)"
  shows "queue_rep (kmem s) (holding p) (H p)" and "set (H p) \<subseteq> L"
  using assms by (auto simp: holds_ok_def)

lemma holding_cells:
  "queue_cells (holding p) X = {cell p HOLDING_HEAD, cell p HOLDING_TAIL} \<union> (\<lambda>l. l + pcb_prev) ` X \<union> (\<lambda>l. l + pcb_next) ` X"
  by (auto simp: queue_cells_def queue_in_pcb)

lemma lock_word_cell:
  assumes "locks_ok s D L" and "l \<in> L" and "a \<in> lock_words l" and "p \<in> pcbs (pcb s)" and "field_ok f"
  shows "cell p f \<noteq> a"
  using assms outside_cell[of "pcb s" a p f] by (auto simp: locks_ok_def free_word_def)

lemma lock_words_disjoint:
  assumes "locks_ok s D L" and "l \<in> L" and "k \<in> L" and "l \<noteq> k"
  shows "lock_words l \<inter> lock_words k = {}"
  using assms by (auto simp: locks_ok_def lock_words_def)

lemma holding_sep:
  assumes "locks_ok s D L" and "p \<in> pcbs (pcb s)" and "X \<subseteq> L"
  shows "queue_sep (holding p) X"
proof -
  have "x + pcb_prev \<noteq> y + pcb_next" if "x \<in> X" "y \<in> X" for x y
    using that assms(1,3) unfolding locks_ok_def by blast
  moreover have "cell p HOLDING_HEAD \<noteq> a \<and> cell p HOLDING_TAIL \<noteq> a" if "x \<in> X" "a \<in> {x + pcb_prev, x + pcb_next}" for x a
    using that assms lock_word_cell[OF assms(1), of x a p] by (auto simp: lock_words_def)
  ultimately show ?thesis by (fastforce simp: queue_sep_iff queue_in_pcb)
qed


text \<open>A switch, and a write to memory that is nobody's, keep the locks.\<close>

lemma holds_frame:
  assumes H: "holds_ok s L H" and L: "locks_ok s D L" and b: "pcb s' = pcb s"
    and w: "\<And>l a. l \<in> L \<Longrightarrow> a \<in> lock_words l \<Longrightarrow> kmem s' a = kmem s a"
    and h: "\<And>p. p \<in> pcbs (pcb s) \<Longrightarrow> get s' p HOLDING_HEAD = get s p HOLDING_HEAD \<and> get s' p HOLDING_TAIL = get s p HOLDING_TAIL"
  shows "holds_ok s' L H"
proof -
  have "queue_rep (kmem s') (holding p) (H p) = queue_rep (kmem s) (holding p) (H p)" if p: "p \<in> pcbs (pcb s)" for p
  proof (rule queue_rep_cong)
    fix a assume "a \<in> queue_cells (holding p) (set (H p))"
    then show "kmem s' a = kmem s a"
      using holdsD(2)[OF H p] h[OF p] w by (auto simp: holding_cells lock_words_def)
  qed
  moreover have "kmem s' (l + lock_status) = kmem s (l + lock_status)" if "l \<in> L" for l
    using w[OF that] by (simp add: lock_words_def)
  ultimately show ?thesis using H unfolding holds_ok_def b by simp
qed

lemma holds_unswitched:
  assumes "holds_ok s L H" and "locks_ok s (dom Q) L" and "pcb s' = pcb s" and "unswitched s Q s'"
  shows "holds_ok s' L H"
  by (rule holds_frame[OF assms(1-3)]) (use assms in \<open>auto simp: unswitched_def locks_ok_def free_word_def\<close>)

lemma locks_cong:
  assumes "locks_ok s D L" and "pcb s' = pcb s" and "ready_queue s' = ready_queue s"
  shows "locks_ok s' D L"
  using assms by (simp add: locks_ok_def sync_queue_def free_word_def)

lemma holding_disjoint:
  assumes L: "locks_ok s D L" and p: "p \<in> pcbs (pcb s)" "c \<in> pcbs (pcb s)" "p \<noteq> c"
    and X: "X \<subseteq> L" "Y \<subseteq> L" "X \<inter> Y = {}"
  shows "queue_cells (holding p) X \<inter> queue_cells (holding c) Y = {}"
proof -
  let ?N = "\<lambda>l. {l + pcb_prev, l + pcb_next}" and ?C = "\<lambda>x. {cell x HOLDING_HEAD, cell x HOLDING_TAIL}"
  have cells: "queue_cells (holding x) Z = ?C x \<union> (\<Union>l \<in> Z. ?N l)" for x Z by (auto simp: holding_cells)
  have "?C p \<inter> ?C c = {}" using p(3) cell_inj[OF p(1,2)] by auto
  moreover have "?C x \<inter> ?N l = {}" if "x \<in> pcbs (pcb s)" "l \<in> L" for x l
    using lock_word_cell[OF L that(2) _ that(1), of "l + pcb_prev"] lock_word_cell[OF L that(2) _ that(1), of "l + pcb_next"]
    by (simp add: lock_words_def)
  then have "?C p \<inter> (\<Union>l \<in> Y. ?N l) = {}" "(\<Union>l \<in> X. ?N l) \<inter> ?C c = {}" using p X by blast+
  moreover have "?N l \<inter> ?N k = {}" if "l \<in> X" "k \<in> Y" for l k
  proof -
    have "lock_words l \<inter> lock_words k = {}" using lock_words_disjoint[OF L, of l k] that X by blast
    then show ?thesis by (auto simp: lock_words_def)
  qed
  then have "(\<Union>l \<in> X. ?N l) \<inter> (\<Union>l \<in> Y. ?N l) = {}" by blast
  ultimately show ?thesis unfolding cells by blast
qed

lemma status_not_holding:
  assumes L: "locks_ok s D L" and "l \<in> L" and "p \<in> pcbs (pcb s)" and "X \<subseteq> L"
  shows "l + lock_status \<notin> queue_cells (holding p) X"
proof -
  have "cell p f \<noteq> l + lock_status" if "field_ok f" for f
    using lock_word_cell[OF L assms(2) _ assms(3) that] by (simp add: lock_words_def)
  then have "l + lock_status \<noteq> cell p HOLDING_HEAD" "l + lock_status \<noteq> cell p HOLDING_TAIL" by (metis field_ok.simps(14), metis field_ok.simps(15))
  moreover have "l + lock_status \<noteq> k + pcb_prev \<and> l + lock_status \<noteq> k + pcb_next" if "k \<in> X" for k
    using that L assms(2,4) unfolding locks_ok_def by blast
  ultimately show ?thesis unfolding holding_cells by blast
qed

lemma free_not_holding:
  assumes "free_word s D a" and "p \<in> pcbs (pcb s)" and "\<And>k. k \<in> L \<Longrightarrow> a \<notin> lock_words k" and "X \<subseteq> L"
  shows "a \<notin> queue_cells (holding p) X"
proof -
  have "outside (pcb s) a" using assms(1) by (simp add: free_word_def)
  then have "cell p HOLDING_HEAD \<noteq> a" "cell p HOLDING_TAIL \<noteq> a" using outside_cell[OF _ assms(2)] by auto
  moreover have "a \<noteq> k + pcb_prev \<and> a \<noteq> k + pcb_next" if "k \<in> X" for k
    using assms(3)[of k] assms(4) that by (auto simp: lock_words_def)
  ultimately show ?thesis unfolding holding_cells by blast
qed

lemma queue_rep_upd: "queue_rep m q xs \<Longrightarrow> a \<notin> queue_cells q (set xs) \<Longrightarrow> queue_rep (m(a := v)) q xs"
  by (subst queue_rep_cong[of q xs _ m]) auto

text \<open>The running process takes or gives up one lock: what it may write, and what is kept.\<close>

lemma lock_change:
  assumes inv: "sched_inv s Q" and L: "locks_ok s (dom Q) L" and H: "holds_ok s L H" and l: "l \<in> L"
    and c: "c = current_running s"
    and nobody: "\<And>p. p \<in> pcbs (pcb s) \<Longrightarrow> p \<noteq> c \<Longrightarrow> l \<notin> set (H p)"
    and rep: "queue_rep m (holding c) h" and h: "set h - {l} = set (H c) - {l}"
    and st: "m (l + lock_status) = (if l \<in> set h then LOCKED else UNLOCKED)"
    and fr: "\<And>a. a \<notin> queue_cells (holding c) (insert l (set (H c))) \<Longrightarrow> a \<noteq> l + lock_status \<Longrightarrow> m a = kmem s a"
  shows "sched_inv (s\<lparr>kmem := m\<rparr>) Q" and "holds_ok (s\<lparr>kmem := m\<rparr>) L (H(c := h))"
proof -
  let ?b = "pcb s" and ?Y = "insert l (set (H c))"
  have cb: "c \<in> pcbs ?b" and cf: "c \<notin> queued Q" using inv c by (simp_all add: leave_facts)
  have Y: "?Y \<subseteq> L" using holdsD(2)[OF H cb] l by simp
  have cells: "a \<in> {cell c HOLDING_HEAD, cell c HOLDING_TAIL} \<or> (\<exists>k \<in> L. a \<in> lock_words k)"
    if "a \<in> queue_cells (holding c) ?Y \<or> a = l + lock_status" for a
    using that Y l by (auto simp: holding_cells lock_words_def)
  show "sched_inv (s\<lparr>kmem := m\<rparr>) Q"
  proof (rule sched_inv_cong[OF inv])
    fix a assume a: "a \<in> family_cells ?b (dom Q)"
    have "a \<notin> {cell c HOLDING_HEAD, cell c HOLDING_TAIL}"
      using a inv cb family_plain[of ?b "kmem s" Q c HOLDING_HEAD] family_plain[of ?b "kmem s" Q c HOLDING_TAIL]
      by (auto simp: leave_facts)
    moreover have "a \<notin> lock_words k" if "k \<in> L" for k using a L that by (auto simp: locks_ok_def free_word_def)
    ultimately show "m a = kmem s a" using fr[of a] cells[of a] by blast
  next
    fix x f assume x: "x \<in> queued Q" and f: "f \<in> {STATUS, CHAN, HOLDING_HEAD}"
    have xb: "x \<in> pcbs ?b" and xc: "x \<noteq> c" using queued_in[OF inv x] cf x by auto
    have "cell x f \<notin> lock_words k" if "k \<in> L" for k
      using lock_word_cell[OF L that _ xb, of "cell x f" f] f by auto
    moreover have "cell x f \<notin> {cell c HOLDING_HEAD, cell c HOLDING_TAIL}"
      using xc cell_inj[OF xb cb, of f HOLDING_HEAD] cell_inj[OF xb cb, of f HOLDING_TAIL] f by auto
    ultimately show "m (cell x f) = get s x f" using fr[of "cell x f"] cells[of "cell x f"] by blast
  qed
  have other: "queue_rep m (holding p) (H p)" if p: "p \<in> pcbs ?b" "p \<noteq> c" for p
  proof -
    have d: "set (H p) \<inter> ?Y = {}" "set (H p) \<subseteq> L"
      using H p cb nobody[OF p] by (auto simp: holds_ok_def)
    have "m a = kmem s a" if "a \<in> queue_cells (holding p) (set (H p))" for a
      using that fr holding_disjoint[OF L p(1) cb p(2) d(2) Y d(1)] status_not_holding[OF L l p(1) d(2)] by blast
    then show ?thesis using queue_rep_cong holdsD(1)[OF H p(1)] by blast
  qed
  have hk: "k \<in> set h \<longleftrightarrow> k \<in> set (H c)" if "k \<noteq> l" for k using h that by blast
  have held: "(\<exists>p \<in> pcbs ?b. k \<in> set ((H(c := h)) p)) \<longleftrightarrow> (if k = l then l \<in> set h else \<exists>p \<in> pcbs ?b. k \<in> set (H p))" for k
  proof (cases "k = l")
    case True
    then show ?thesis using nobody cb by auto
  next
    case False
    then have "k \<in> set ((H(c := h)) p) \<longleftrightarrow> k \<in> set (H p)" for p using hk by simp
    then show ?thesis using False by simp
  qed
  have keep: "m (k + lock_status) = kmem s (k + lock_status)" if "k \<in> L" "k \<noteq> l" for k
    using that fr[of "k + lock_status"] status_not_holding[OF L that(1) cb Y] by simp
  have hL: "set h \<subseteq> L" using h Y by auto
  have disj: "set ((H(c := h)) p) \<inter> set ((H(c := h)) q) = {}" if "p \<in> pcbs ?b" "q \<in> pcbs ?b" "p \<noteq> q" for p q
  proof -
    have "set (H p) \<inter> set (H q) = {}" using that H by (auto simp: holds_ok_def)
    then show ?thesis using h nobody that by (auto split: if_splits)
  qed
  have "m (k + lock_status) = (if \<exists>p \<in> pcbs ?b. k \<in> set ((H(c := h)) p) then LOCKED else UNLOCKED)" if "k \<in> L" for k
    unfolding held using that st keep[OF that] H by (auto simp: holds_ok_def)
  then show "holds_ok (s\<lparr>kmem := m\<rparr>) L (H(c := h))"
    using other rep hL holdsD(2)[OF H] disj unfolding holds_ok_def by simp
qed

text \<open>Taking a free lock.\<close>

lemma hold_keeps:
  assumes inv: "sched_inv s Q" and L: "locks_ok s (dom Q) L" and H: "holds_ok s L H" and l: "l \<in> L"
    and free: "kmem s (l + lock_status) \<noteq> LOCKED" and c: "c = current_running s"
  shows "sched_inv (hold l s) Q" and "holds_ok (hold l s) L (H(c := H c @ [l]))"
    and "free_word s (dom Q) a \<Longrightarrow> (\<And>k. k \<in> L \<Longrightarrow> a \<notin> lock_words k) \<Longrightarrow> kmem (hold l s) a = kmem s a"
proof -
  let ?m = "queue_push (kmem s) (holding c) l" and ?b = "pcb s"
  have cb: "c \<in> pcbs ?b" using inv c by (simp add: leave_facts)
  note rep = holdsD(1)[OF H cb] and sub = holdsD(2)[OF H cb]
  have nobody: "l \<notin> set (H p)" if "p \<in> pcbs ?b" for p
    using H free l that by (auto simp: holds_ok_def split: if_splits)
  have sep: "queue_sep (holding c) (insert l (set (H c)))" using holding_sep[OF L cb] sub l by simp
  have l0: "l \<noteq> NULL" using L l by (auto simp: locks_ok_def)
  have "queue_rep ?m (holding c) (H c @ [l])" by (rule queue_push_rep[OF rep sep nobody[OF cb] l0])
  moreover have ns: "l + lock_status \<notin> queue_cells (holding c) (set (H c @ [l]))"
    using status_not_holding[OF L l cb] sub l by simp
  ultimately have r: "queue_rep (?m(l + lock_status := LOCKED)) (holding c) (H c @ [l])"
    by (rule queue_rep_upd)
  have eq: "hold l s = s\<lparr>kmem := ?m(l + lock_status := LOCKED)\<rparr>" by (simp add: hold_def store_def c)
  have fr: "(?m(l + lock_status := LOCKED)) a = kmem s a"
    if "a \<notin> queue_cells (holding c) (insert l (set (H c)))" "a \<noteq> l + lock_status" for a
    using that queue_push_frame[OF rep that(1)] by simp
  have p: "set (H c @ [l]) - {l} = set (H c) - {l}"
    "(?m(l + lock_status := LOCKED)) (l + lock_status) = (if l \<in> set (H c @ [l]) then LOCKED else UNLOCKED)" by auto
  show "sched_inv (hold l s) Q" and "holds_ok (hold l s) L (H(c := H c @ [l]))"
    unfolding eq by (rule lock_change[where m = "?m(l + lock_status := LOCKED)", OF inv L H l c nobody r p fr]; simp)+
  show "kmem (hold l s) a = kmem s a" if a: "free_word s (dom Q) a" "\<And>k. k \<in> L \<Longrightarrow> a \<notin> lock_words k"
  proof -
    have "a \<notin> queue_cells (holding c) (insert l (set (H c)))"
      by (rule free_not_holding[OF a(1) cb, of L]) (use a(2) sub l in auto)
    moreover have "a \<noteq> l + lock_status" using a(2)[OF l] by (simp add: lock_words_def)
    ultimately show ?thesis using fr unfolding eq by simp
  qed
qed

text \<open>Giving up a lock at either end of the list of held locks.\<close>

lemma release_keeps:
  assumes inv: "sched_inv s Q" and L: "locks_ok s (dom Q) L" and H: "holds_ok s L H" and l: "l \<in> set (H c)"
    and e: "l = hd (H c) \<or> l = last (H c)" and c: "c = current_running s"
  obtains s' Q' where "do_mutex_lock_release l s = Some s'" and "sched_inv s' Q'" and "dom Q' = dom Q"
    and "holds_ok s' L (H(c := remove1 l (H c)))" and "pcb s' = pcb s" and "ready_queue s' = ready_queue s"
    and "current_running s' = c"
    and "\<And>a. free_word s (dom Q) a \<Longrightarrow> (\<And>k. k \<in> L \<Longrightarrow> a \<notin> lock_words k) \<Longrightarrow> kmem s' a = kmem s a"
proof -
  let ?m = "snd (queue_remove (pcb s) (kmem s) (holding c) l)" and ?b = "pcb s" and ?h = "remove1 l (H c)"
  have cb: "c \<in> pcbs ?b" using inv c by (simp add: leave_facts)
  note rep = holdsD(1)[OF H cb] and sub = holdsD(2)[OF H cb]
  have lL: "l \<in> L" using l sub by auto
  have d: "distinct (H c)" using rep by (simp add: queue_rep_def)
  have e': "l = hdd NULL (H c) \<or> l = lastd NULL (H c)" using e l by (cases "H c") (auto simp: lastd_nonempty)
  have sep: "queue_sep (holding c) (set (H c))" using holding_sep[OF L cb sub] .
  have has: "queue_has (kmem s) (holding c) l = Some True"
    using queue_has_fwd[OF queue_rep_fwd[OF rep], of l] l L lL by (auto simp: locks_ok_def)
  have r0: "queue_rep ?m (holding c) ?h" by (rule queue_remove_end_rep[OF rep sep l e'])
  have "l + lock_status \<notin> queue_cells (holding c) (set ?h)"
    using status_not_holding[OF L lL cb, of "set ?h"] sub set_remove1_subset[of l "H c"] by blast
  with r0 have r: "queue_rep (?m(l + lock_status := UNLOCKED)) (holding c) ?h"
    by (rule queue_rep_upd)
  have nobody: "l \<notin> set (H p)" if "p \<in> pcbs ?b" "p \<noteq> c" for p
    using H cb l that unfolding holds_ok_def by blast
  have fr: "(?m(l + lock_status := UNLOCKED)) a = kmem s a"
    if "a \<notin> queue_cells (holding c) (insert l (set (H c)))" "a \<noteq> l + lock_status" for a
    using that queue_remove_end_frame[OF rep l e' sep, of a] l by (simp add: insert_absorb)
  have p: "set ?h - {l} = set (H c) - {l}"
    "(?m(l + lock_status := UNLOCKED)) (l + lock_status) = (if l \<in> set ?h then LOCKED else UNLOCKED)" using d by auto
  let ?s = "s\<lparr>kmem := ?m(l + lock_status := UNLOCKED)\<rparr>"
  note ch = lock_change[where m = "?m(l + lock_status := UNLOCKED)", OF inv L H lL c nobody r p fr]
  have q: "l + lock_block_queue \<in> dom Q" "l + lock_block_queue \<noteq> ready_queue ?s"
    using L lL by (auto simp: locks_ok_def sync_queue_def)
  obtain m1 Q1 where m1: "do_unblock_all (l + lock_block_queue) ?s = Some (?s\<lparr>kmem := m1\<rparr>)"
    "sched_inv (?s\<lparr>kmem := m1\<rparr>) Q1" "dom Q1 = dom Q" "unswitched ?s Q (?s\<lparr>kmem := m1\<rparr>)"
    by (rule unblock_all_inv[OF ch(1) q])
  have "locks_ok ?s (dom Q) L" by (rule locks_cong[OF L]) simp_all
  then have "holds_ok (?s\<lparr>kmem := m1\<rparr>) L (H(c := ?h))" by (intro holds_unswitched[OF ch(2) _ _ m1(4)]) simp_all
  moreover have "do_mutex_lock_release l s = Some (?s\<lparr>kmem := m1\<rparr>)"
    using has m1(1) by (simp add: do_mutex_lock_release_def c)
  moreover have "m1 a = kmem s a" if a: "free_word s (dom Q) a" "\<And>k. k \<in> L \<Longrightarrow> a \<notin> lock_words k" for a
  proof -
    have "a \<notin> queue_cells (holding c) (insert l (set (H c)))"
      by (rule free_not_holding[OF a(1) cb, of L]) (use a(2) sub lL in auto)
    moreover have "a \<noteq> l + lock_status" using a(2)[OF lL] by (simp add: lock_words_def)
    ultimately have "(?m(l + lock_status := UNLOCKED)) a = kmem s a" by (rule fr)
    moreover have "m1 a = kmem ?s a" using m1(4) a(1) by (simp add: unswitched_def free_word_def)
    ultimately show ?thesis by simp
  qed
  ultimately show thesis using m1(2,3) by (intro that[of "?s\<lparr>kmem := m1\<rparr>" Q1]) (simp_all add: c)
qed

end
