(* ===== verification/Sync_Inv.thy ===== *)
theory Sync_Inv
  imports Sync
begin

text \<open>
  Runs of processes that use the locks of \<^verbatim>\<open>kernel/locking/\<close>: which programs use locks
  properly, the steps of the system (statements of the running process, system calls, the
  timer), the invariant that ties the status word of every lock to the lists of held locks,
  and that every step keeps it.
\<close>

section \<open>Programs that use locks properly\<close>

text \<open>The queues, words and locks that a statement names.\<close>

fun op_ok :: "kstate \<Rightarrow> u32 set \<Rightarrow> u32 set \<Rightarrow> kop \<Rightarrow> bool" where
  "op_ok s D L (Block q) \<longleftrightarrow> sync_queue s D q"
| "op_ok s D L (Unblock_one q) \<longleftrightarrow> sync_queue s D q"
| "op_ok s D L (Unblock_all q) \<longleftrightarrow> sync_queue s D q"
| "op_ok s D L (Hold l) \<longleftrightarrow> l \<in> L"
| "op_ok s D L (Release l) \<longleftrightarrow> l \<in> L"
| "op_ok s D L (Add a v) \<longleftrightarrow> free_word s D a \<and> (\<forall>l \<in> L. a \<notin> lock_words l)"
| "op_ok s D L (Store a v) \<longleftrightarrow> free_word s D a \<and> (\<forall>l \<in> L. a \<notin> lock_words l)"
| "op_ok s D L (While c body) \<longleftrightarrow> list_all (op_ok s D L) body"
| "op_ok s D L (Choose c yes no) \<longleftrightarrow> list_all (op_ok s D L) yes \<and> list_all (op_ok s D L) no"

text \<open>The list of held locks after a program of a disciplined process: it takes no lock that it
  holds, and releases only locks that it holds, each as the oldest or the newest of its list, which
  is where \<open>queue_remove\<close> is sound. The code itself has no such check: \<open>do_mutex_lock_release\<close> can be
  called for any lock.\<close>

fun held_after :: "u32 list \<Rightarrow> kop list \<Rightarrow> u32 list option" where
  "held_after h [] = Some h"
| "held_after h (Hold l # k) = (if l \<in> set h then None else held_after (h @ [l]) k)"
| "held_after h (Release l # k) =
    (if l \<in> set h \<and> (l = hd h \<or> l = last h) then held_after (remove1 l h) k else None)"
| "held_after h (While c body # k) = (if held_after h body = Some h then held_after h k else None)"
| "held_after h (Choose c yes no # k) =
    (if held_after h yes = held_after h no then held_after h yes \<bind> (\<lambda>h. held_after h k) else None)"
| "held_after h (Block q # k) = held_after h k"
| "held_after h (Unblock_one q # k) = held_after h k"
| "held_after h (Unblock_all q # k) = held_after h k"
| "held_after h (Add a v # k) = held_after h k"
| "held_after h (Store a v # k) = held_after h k"

text \<open>\<open>Hold\<close> only behind the loop that waits for the lock.\<close>

fun guarded :: "kop list \<Rightarrow> bool" where
  "guarded [] \<longleftrightarrow> True"
| "guarded (Hold l # k) \<longleftrightarrow> False"
| "guarded (While c body # k) \<longleftrightarrow>
    (case k of
       Hold l # k' \<Rightarrow> c = Locked l \<and> body = [Block (l + lock_block_queue)] \<and> guarded k'
     | _ \<Rightarrow> guarded body \<and> guarded k)"
| "guarded (Choose c yes no # k) \<longleftrightarrow> guarded yes \<and> guarded no \<and> guarded k"
| "guarded (Release l # k) \<longleftrightarrow> guarded k"
| "guarded (Block q # k) \<longleftrightarrow> guarded k"
| "guarded (Unblock_one q # k) \<longleftrightarrow> guarded k"
| "guarded (Unblock_all q # k) \<longleftrightarrow> guarded k"
| "guarded (Add a v # k) \<longleftrightarrow> guarded k"
| "guarded (Store a v # k) \<longleftrightarrow> guarded k"

lemma held_append: "held_after h (a @ k) = held_after h a \<bind> (\<lambda>h. held_after h k)"
  by (induction h a rule: held_after.induct) (auto split: bind_splits)

definition starts_hold :: "kop list \<Rightarrow> bool" where
  "starts_hold k \<longleftrightarrow> (\<exists>l k'. k = Hold l # k')"

lemma guarded_no_hold: "guarded k \<Longrightarrow> \<not> starts_hold k"
  by (auto simp: starts_hold_def)

lemma guarded_While:
  "\<not> starts_hold k \<Longrightarrow> guarded (While c body # k) \<longleftrightarrow> guarded body \<and> guarded k"
  by (auto simp: starts_hold_def split: list.splits kop.splits)

lemma guarded_append: "guarded a \<Longrightarrow> guarded k \<Longrightarrow> guarded (a @ k)"
proof (induction a rule: length_induct)
  case (1 a)
  note IH = 1(1) and a = 1(2) and k = 1(3)
  show ?case
  proof (cases a)
    case (Cons op r)
    have r: "guarded (r @ k)" if "guarded r" using IH Cons that k by simp
    show ?thesis
    proof (cases op)
      case (While c body)
      show ?thesis
      proof (cases "starts_hold r")
        case True
        then obtain l k' where l: "r = Hold l # k'" by (auto simp: starts_hold_def)
        have "length k' < length a" by (simp add: Cons l)
        then have "guarded k' \<Longrightarrow> guarded (k' @ k)" using IH k by blast
        then show ?thesis using a by (simp add: Cons While l)
      next
        case False
        have ns: "\<not> starts_hold (r @ k)"
          using False guarded_no_hold[OF k] by (cases r) (auto simp: starts_hold_def)
        have "guarded body" "guarded r" using a guarded_While[OF False, of c body] by (simp_all only: Cons While)
        then show ?thesis using r guarded_While[OF ns, of c body] by (simp only: Cons While append_Cons)
      qed
    qed (use a r in \<open>simp_all add: Cons\<close>)
  qed (use k in simp)
qed

text \<open>The functions of the kernel.\<close>

lemma acquire_guarded: "guarded k \<Longrightarrow> guarded (do_mutex_lock_acquire l @ k)"
  by (simp add: do_mutex_lock_acquire_def)

lemma acquire_held:
  "l \<notin> set h \<Longrightarrow> held_after h (do_mutex_lock_acquire l @ k) = held_after (h @ [l]) k"
  by (simp add: do_mutex_lock_acquire_def)

lemma remove_last: "l \<notin> set h \<Longrightarrow> remove1 l (h @ [l]) = h"
  by (simp add: remove1_append)

lemma programs_guarded:
  "guarded (do_mutex_lock_acquire l)" "guarded (do_condition_wait l c)" "guarded (do_condition_signal c)"
  "guarded (do_condition_broadcast c)" "guarded (do_semaphore_up sem)" "guarded (do_semaphore_down sem)"
  "guarded (do_barrier_wait b)"
  by (simp_all add: do_mutex_lock_acquire_def do_condition_wait_def do_condition_signal_def do_condition_broadcast_def
      do_semaphore_up_def do_semaphore_down_def do_barrier_wait_def)

lemma programs_held:
  "l \<notin> set h \<Longrightarrow> held_after h (do_mutex_lock_acquire l) = Some (h @ [l])"
  "l \<in> set h \<Longrightarrow> l = last h \<Longrightarrow> distinct h \<Longrightarrow> held_after h (do_condition_wait l c) = Some h"
  "held_after h (do_condition_signal c) = Some h" "held_after h (do_condition_broadcast c) = Some h"
  "sem + sem_lock \<notin> set h \<Longrightarrow> held_after h (do_semaphore_up sem) = Some h"
  "sem + sem_lock \<notin> set h \<Longrightarrow> held_after h (do_semaphore_down sem) = Some h"
  "b + barrier_lock \<notin> set h \<Longrightarrow> held_after h (do_barrier_wait b) = Some h"
proof -
  show "held_after h (do_condition_wait l c) = Some h" if l: "l \<in> set h" "l = last h" "distinct h"
  proof -
    have "h \<noteq> []" using l(1) by auto
    then obtain h' where "h = h' @ [l]" using l(2) by (metis append_butlast_last_id)
    moreover from this have "l \<notin> set h'" using l(3) by simp
    ultimately show ?thesis by (simp add: do_condition_wait_def do_mutex_lock_acquire_def remove_last)
  qed
qed (simp_all add: do_mutex_lock_acquire_def do_condition_signal_def do_condition_broadcast_def
      do_semaphore_up_def do_semaphore_down_def do_barrier_wait_def remove_last)

section \<open>Runs of the system\<close>

lemma fwd_unique: "fwd m xs NULL \<Longrightarrow> fwd m ys NULL \<Longrightarrow> hdd NULL xs = hdd NULL ys \<Longrightarrow> xs = ys"
proof (induction xs arbitrary: ys)
  case Nil
  then show ?case by (cases ys) auto
next
  case (Cons x xs)
  then show ?case by (cases ys) auto
qed

lemma queue_rep_unique: "queue_rep m q xs \<Longrightarrow> queue_rep m q ys \<Longrightarrow> xs = ys"
  using fwd_unique[of m xs ys] links_fwd by (auto simp: queue_rep_def)

text \<open>Some process of the ready queue can run.\<close>

definition can_switch :: "kstate \<Rightarrow> bool" where
  "can_switch s \<longleftrightarrow> (\<exists>rs. queue_rep (kmem s) (ready_queue s) rs \<and> (\<exists>x \<in> set rs. runnable s x))"

text \<open>The system calls on locks, conditions, semaphores and barriers.\<close>

datatype sync_call =
    Mutex_acquire u32 | Mutex_release u32
  | Condition_wait u32 u32 | Condition_signal u32 | Condition_broadcast u32
  | Semaphore_up u32 | Semaphore_down u32 | Barrier_wait u32

fun program :: "sync_call \<Rightarrow> kop list" where
  "program (Mutex_acquire l) = do_mutex_lock_acquire l"
| "program (Mutex_release l) = [Release l]"
| "program (Condition_wait l c) = do_condition_wait l c"
| "program (Condition_signal c) = do_condition_signal c"
| "program (Condition_broadcast c) = do_condition_broadcast c"
| "program (Semaphore_up sem) = do_semaphore_up sem"
| "program (Semaphore_down sem) = do_semaphore_down sem"
| "program (Barrier_wait b) = do_barrier_wait b"

text \<open>
  The steps of the system, for the queues \<open>D\<close> and the locks \<open>L\<close>: a statement of the running
  process in the kernel, a system call of a process that is in user mode, and the timer, which
  interrupts a process in user mode. The processes are disciplined: a call must name queues, words
  and locks of the layout, and \<open>held_after\<close> must be defined for it on the list of locks that the
  caller holds (no lock is taken twice, and a released lock is held, as the oldest or the newest of
  the list); a process blocks only while another can run. Runs in which a process breaks these rules
  are runs of the program too, but not of this relation.
\<close>

inductive sys_step :: "u32 set \<Rightarrow> u32 set \<Rightarrow> ksys \<Rightarrow> ksys \<Rightarrow> bool" for D L where
  kernel: "kstep S = Some S' \<Longrightarrow>
    (\<And>q k. todo S (current_running (ks S)) = Block q # k \<Longrightarrow> can_switch (ks S)) \<Longrightarrow> sys_step D L S S'"
| call: "todo S (current_running (ks S)) = [] \<Longrightarrow> queue_rep (kmem (ks S)) (holding (current_running (ks S))) h \<Longrightarrow>
    held_after h (program c) \<noteq> None \<Longrightarrow> list_all (op_ok (ks S) D L) (program c) \<Longrightarrow>
    sys_step D L S (S\<lparr>todo := (todo S)(current_running (ks S) := program c)\<rparr>)"
| timer: "todo S (current_running (ks S)) = [] \<Longrightarrow> do_scheduler (ks S) = Some s \<Longrightarrow> sys_step D L S (S\<lparr>ks := s\<rparr>)"

section \<open>The invariant of the locks\<close>

definition todo_ok :: "u32 set \<Rightarrow> u32 set \<Rightarrow> ksys \<Rightarrow> (u32 \<Rightarrow> u32 list) \<Rightarrow> u32 \<Rightarrow> bool" where
  "todo_ok D L S H p \<longleftrightarrow>
     list_all (op_ok (ks S) D L) (todo S p) \<and> held_after (H p) (todo S p) \<noteq> None \<and>
     (guarded (todo S p) \<or>
      p = current_running (ks S) \<and>
      (\<exists>l k. todo S p = Hold l # k \<and> guarded k \<and> kmem (ks S) (l + lock_status) \<noteq> LOCKED))"

definition mutex_inv :: "u32 set \<Rightarrow> u32 set \<Rightarrow> ksys \<Rightarrow> (u32 \<Rightarrow> u32 list) \<Rightarrow> bool" where
  "mutex_inv D L S H \<longleftrightarrow>
     (\<exists>Q. dom Q = D \<and> sched_inv (ks S) Q) \<and> locks_ok (ks S) D L \<and> holds_ok (ks S) L H \<and>
     (\<forall>p \<in> pcbs (pcb (ks S)). todo_ok D L S H p)"

lemma op_ok_cong: "pcb s' = pcb s \<Longrightarrow> ready_queue s' = ready_queue s \<Longrightarrow> op_ok s' D L op = op_ok s D L op"
  by (induction op) (auto simp: sync_queue_def free_word_def list_all_iff)

text \<open>After a step of the running process: the others are as they were, and it goes on with
  statements that are in order.\<close>

lemma mutex_inv_step:
  assumes inv: "mutex_inv D L S H" and S': "S' = S\<lparr>ks := s, todo := (todo S)(c := k)\<rparr>" and c: "c = current_running (ks S)"
    and k: "pcb s = pcb (ks S)" "ready_queue s = ready_queue (ks S)"
    and Q: "sched_inv s Q" "dom Q = D" and H: "holds_ok s L H'" "\<And>p. p \<noteq> c \<Longrightarrow> H' p = H p"
    and ok: "list_all (op_ok (ks S) D L) k" "held_after (H' c) k \<noteq> None"
      "guarded k \<or> current_running s = c \<and> (\<exists>l k'. k = Hold l # k' \<and> guarded k' \<and> kmem s (l + lock_status) \<noteq> LOCKED)"
  shows "mutex_inv D L S' H'"
proof -
  have L: "locks_ok s D L" using locks_cong[of "ks S" D L s] inv k by (simp add: mutex_inv_def)
  have o: "op_ok s D L = op_ok (ks S) D L" using op_ok_cong[OF k] by blast
  have "todo_ok D L S' H' p" if p: "p \<in> pcbs (pcb (ks S))" for p
  proof (cases "p = c")
    case True
    then show ?thesis using ok o by (auto simp: todo_ok_def S')
  next
    case False
    then have "todo_ok D L S H p" using inv p by (simp add: mutex_inv_def)
    then show ?thesis using False c o H(2)[OF False] by (auto simp: todo_ok_def S')
  qed
  then show ?thesis using L Q H(1) k(1) by (auto simp: mutex_inv_def S')
qed

lemma guarded_Cons:
  assumes "guarded (op # k)" and "\<nexists>c b. op = While c b"
  shows "guarded k" and "\<nexists>l. op = Hold l"
  using assms by (cases op; simp)+

lemma cur_todo:
  assumes "mutex_inv D L S H" and "c = current_running (ks S)"
  obtains Q where "sched_inv (ks S) Q" and "dom Q = D" and "locks_ok (ks S) D L" and "holds_ok (ks S) L H"
    and "c \<in> pcbs (pcb (ks S))" and "todo_ok D L S H c"
proof -
  obtain Q where Q: "dom Q = D" "sched_inv (ks S) Q" using assms(1) by (auto simp: mutex_inv_def)
  then have "c \<in> pcbs (pcb (ks S))" using assms(2) by (simp add: leave_facts)
  then show thesis using that Q assms(1) by (simp add: mutex_inv_def)
qed

text \<open>A statement of the running process keeps the invariant.\<close>

lemma step_quiet:
  assumes inv: "mutex_inv D L S H" and c: "c = current_running (ks S)" and td: "todo S c = op # k"
    and op: "\<nexists>b d. op = While b d" "\<nexists>b x y. op = Choose b x y" "\<nexists>l. op = Hold l" "\<nexists>l. op = Release l"
    and ex: "exec_op op (ks S) = Some (s, [])" and S': "kstep S = Some S'"
    and s: "pcb s = pcb (ks S)" "ready_queue s = ready_queue (ks S)" "sched_inv s Q" "dom Q = D" "holds_ok s L H"
  shows "mutex_inv D L S' H"
proof -
  have t: "todo_ok D L S H c" by (rule cur_todo[OF inv c])
  have "S' = S\<lparr>ks := s, todo := (todo S)(c := k)\<rparr>"
    using S' td ex c by (simp add: kstep_def)
  moreover have "guarded (op # k)" using t op(3) td by (auto simp: todo_ok_def)
  then have "guarded k" using guarded_Cons(1) op(1) by blast
  moreover have "held_after (H c) (op # k) = held_after (H c) k" using op by (cases op) auto
  ultimately show ?thesis
    using mutex_inv_step[OF inv _ c s(1,2,3,4,5), of S' k] t td by (auto simp: todo_ok_def)
qed

lemma sync_queueD: "sync_queue s (dom Q) q \<Longrightarrow> q \<in> dom Q \<and> q \<noteq> ready_queue s \<and> (\<forall>x \<in> pcbs (pcb s). waiting x \<noteq> q)"
  by (auto simp: sync_queue_def)

lemma step_block:
  assumes inv: "mutex_inv D L S H" and c: "c = current_running (ks S)" and td: "todo S c = Block q # k"
    and S': "kstep S = Some S'" and sw: "can_switch (ks S)"
  shows "mutex_inv D L S' H"
proof -
  let ?s = "ks S"
  obtain Q where Q: "sched_inv ?s Q" "dom Q = D" and L: "locks_ok ?s D L" and H: "holds_ok ?s L H" and t: "todo_ok D L S H c"
    by (rule cur_todo[OF inv c])
  have q: "q \<in> dom Q" "q \<noteq> ready_queue ?s" "\<forall>x \<in> pcbs (pcb ?s). waiting x \<noteq> q"
    using t td Q(2) sync_queueD[of ?s Q q] by (auto simp: todo_ok_def)
  obtain xs rs where xs: "Q q = Some xs" and rs: "Q (ready_queue ?s) = Some rs" using q(1) Q(1) by (auto simp: leave_facts)
  have ok: "queues_ok (pcb ?s) (kmem ?s) Q" using Q(1) by (simp add: leave_facts)
  have "\<exists>x \<in> set rs. runnable ?s x"
    using sw queue_rep_unique[OF queues_okD(1)[OF ok rs]] by (auto simp: can_switch_def)
  then obtain p where p: "find (runnable ?s) rs = Some p" by (cases "find (runnable ?s) rs") (auto simp: find_None_iff)
  have ng: "\<forall>x \<in> set rs. waiting x = q \<longrightarrow> get ?s x STATUS \<noteq> TASK_EXITED"
    using q(3) queues_okD(2)[OF ok rs] by auto
  obtain s' Q' where s': "do_block q ?s = Some s'" "sched_inv s' Q'" "ready_queue s' = ready_queue ?s" "pcb s' = pcb ?s"
    "dom Q' = dom Q" "unswitched ?s Q s'"
    by (rule do_block_runs[OF Q(1) xs q(2) rs p ng]) blast
  show ?thesis
    by (rule step_quiet[OF inv c td _ _ _ _ _ S' s'(4,3,2)])
      (use s' Q holds_unswitched[OF H _ s'(4,6)] L in simp_all)
qed

lemma step_unblock:
  assumes inv: "mutex_inv D L S H" and c: "c = current_running (ks S)"
    and td: "todo S c = Unblock_one q # k \<or> todo S c = Unblock_all q # k" and S': "kstep S = Some S'"
  shows "mutex_inv D L S' H"
proof -
  let ?s = "ks S"
  obtain Q where Q: "sched_inv ?s Q" "dom Q = D" and L: "locks_ok ?s D L" and H: "holds_ok ?s L H" and t: "todo_ok D L S H c"
    by (rule cur_todo[OF inv c])
  have q: "q \<in> dom Q" "q \<noteq> ready_queue ?s"
    using t td Q(2) sync_queueD[of ?s Q q] by (auto simp: todo_ok_def)
  from td show ?thesis
  proof
    assume td: "todo S c = Unblock_one q # k"
    obtain m Q1 where m: "do_unblock_one q ?s = ?s\<lparr>kmem := m\<rparr>" "sched_inv (?s\<lparr>kmem := m\<rparr>) Q1"
      "dom Q1 = dom Q" "unswitched ?s Q (?s\<lparr>kmem := m\<rparr>)" by (rule unblock_one_inv[OF Q(1) q])
    show ?thesis
      by (rule step_quiet[OF inv c td _ _ _ _ _ S' _ _ m(2)])
        (use m Q holds_unswitched[OF H _ _ m(4)] L in simp_all)
  next
    assume td: "todo S c = Unblock_all q # k"
    obtain m Q1 where m: "do_unblock_all q ?s = Some (?s\<lparr>kmem := m\<rparr>)" "sched_inv (?s\<lparr>kmem := m\<rparr>) Q1"
      "dom Q1 = dom Q" "unswitched ?s Q (?s\<lparr>kmem := m\<rparr>)" by (rule unblock_all_inv[OF Q(1) q])
    show ?thesis
      by (rule step_quiet[OF inv c td _ _ _ _ _ S' _ _ m(2)])
        (use m Q holds_unswitched[OF H _ _ m(4)] L in simp_all)
  qed
qed

lemma store_keeps:
  assumes "sched_inv s Q" and "locks_ok s (dom Q) L" and "holds_ok s L H"
    and "free_word s (dom Q) a" and "\<forall>l \<in> L. a \<notin> lock_words l"
  shows "sched_inv (store a v s) Q" and "holds_ok (store a v s) L H"
proof -
  have a: "outside (pcb s) a" "a \<notin> family_cells (pcb s) (dom Q)" using assms(4) by (simp_all add: free_word_def)
  show "sched_inv (store a v s) Q" by (rule store_inv[OF assms(1) a])
  show "holds_ok (store a v s) L H"
  proof (rule holds_frame[OF assms(3,2)])
    show "kmem (store a v s) w = kmem s w" if "l \<in> L" "w \<in> lock_words l" for l w
      using that assms(5) by (auto simp: store_def)
    show "get (store a v s) p HOLDING_HEAD = get s p HOLDING_HEAD \<and> get (store a v s) p HOLDING_TAIL = get s p HOLDING_TAIL"
      if "p \<in> pcbs (pcb s)" for p
      using outside_cell[OF a(1) that, of HOLDING_HEAD] outside_cell[OF a(1) that, of HOLDING_TAIL] by (simp add: store_def)
  qed (simp add: store_def)
qed

lemma step_store:
  assumes inv: "mutex_inv D L S H" and c: "c = current_running (ks S)"
    and td: "todo S c = Add a v # k \<or> todo S c = Store a v # k" and S': "kstep S = Some S'"
  shows "mutex_inv D L S' H"
proof -
  let ?s = "ks S"
  obtain Q where Q: "sched_inv ?s Q" "dom Q = D" and L: "locks_ok ?s D L" and H: "holds_ok ?s L H" and t: "todo_ok D L S H c"
    by (rule cur_todo[OF inv c])
  have a: "free_word ?s (dom Q) a" "\<forall>l \<in> L. a \<notin> lock_words l" using t td Q(2) by (auto simp: todo_ok_def)
  have k: "sched_inv (store a w ?s) Q" "holds_ok (store a w ?s) L H" "pcb (store a w ?s) = pcb ?s"
    "ready_queue (store a w ?s) = ready_queue ?s" for w
    using store_keeps[OF Q(1) _ H a] L Q(2) by (simp_all add: store_def)
  from td show ?thesis
  proof
    assume td: "todo S c = Add a v # k"
    show ?thesis by (rule step_quiet[OF inv c td _ _ _ _ _ S' k(3,4,1) Q(2) k(2)]) simp_all
  next
    assume td: "todo S c = Store a v # k"
    show ?thesis by (rule step_quiet[OF inv c td _ _ _ _ _ S' k(3,4,1) Q(2) k(2)]) simp_all
  qed
qed

lemma step_hold:
  assumes inv: "mutex_inv D L S H" and c: "c = current_running (ks S)" and td: "todo S c = Hold l # k"
    and S': "kstep S = Some S'"
  shows "mutex_inv D L S' (H(c := H c @ [l]))"
proof -
  let ?s = "ks S"
  obtain Q where Q: "sched_inv ?s Q" "dom Q = D" and L: "locks_ok ?s D L" and H: "holds_ok ?s L H" and t: "todo_ok D L S H c"
    by (rule cur_todo[OF inv c])
  have l: "l \<in> L" "kmem ?s (l + lock_status) \<noteq> LOCKED" "guarded k" "list_all (op_ok ?s D L) k"
    "held_after (H c @ [l]) k \<noteq> None"
    using t td by (auto simp: todo_ok_def split: if_splits)
  have L': "locks_ok ?s (dom Q) L" using L Q(2) by simp
  note h = hold_keeps[OF Q(1) L' H l(1,2) c]
  have s: "pcb (hold l ?s) = pcb ?s" "ready_queue (hold l ?s) = ready_queue ?s"
    by (simp_all add: hold_def store_def)
  have "S' = S\<lparr>ks := hold l ?s, todo := (todo S)(c := k)\<rparr>" using S' td c by (simp add: kstep_def)
  then show ?thesis
    by (rule mutex_inv_step[OF inv _ c s h(1) Q(2) h(2)]) (use l in simp_all)
qed

lemma step_release:
  assumes inv: "mutex_inv D L S H" and c: "c = current_running (ks S)" and td: "todo S c = Release l # k"
    and S': "kstep S = Some S'"
  shows "mutex_inv D L S' (H(c := remove1 l (H c)))"
proof -
  let ?s = "ks S"
  obtain Q where Q: "sched_inv ?s Q" "dom Q = D" and L: "locks_ok ?s D L" and H: "holds_ok ?s L H" and t: "todo_ok D L S H c"
    by (rule cur_todo[OF inv c])
  have l: "l \<in> set (H c)" "l = hd (H c) \<or> l = last (H c)" "guarded k" "list_all (op_ok ?s D L) k"
    "held_after (remove1 l (H c)) k \<noteq> None"
    using t td by (auto simp: todo_ok_def split: if_splits)
  have L': "locks_ok ?s (dom Q) L" using L Q(2) by simp
  obtain s' Q' where s': "do_mutex_lock_release l ?s = Some s'" "sched_inv s' Q'" "dom Q' = dom Q"
    "holds_ok s' L (H(c := remove1 l (H c)))" "pcb s' = pcb ?s" "ready_queue s' = ready_queue ?s"
    by (rule release_keeps[OF Q(1) L' H l(1,2) c])
  have "S' = S\<lparr>ks := s', todo := (todo S)(c := k)\<rparr>" using S' td c s'(1) by (simp add: kstep_def)
  then show ?thesis
    by (rule mutex_inv_step[OF inv _ c s'(5,6,2) _ s'(4)]) (use l Q(2) s'(3) in simp_all)
qed

lemma step_branch:
  assumes inv: "mutex_inv D L S H" and c: "c = current_running (ks S)"
    and td: "todo S c = While b body # k \<or> todo S c = Choose b yes no # k" and S': "kstep S = Some S'"
  shows "mutex_inv D L S' H"
proof -
  let ?s = "ks S"
  obtain Q where Q: "sched_inv ?s Q" "dom Q = D" and H: "holds_ok ?s L H" and t: "todo_ok D L S H c"
    by (rule cur_todo[OF inv c])
  have g: "guarded (todo S c)" using t td by (auto simp: todo_ok_def)
  have step: "mutex_inv D L S' H"
    if "S' = S\<lparr>ks := ?s, todo := (todo S)(c := j)\<rparr>" "list_all (op_ok ?s D L) j" "held_after (H c) j \<noteq> None"
      "guarded j \<or> (\<exists>l k'. j = Hold l # k' \<and> guarded k' \<and> kmem ?s (l + lock_status) \<noteq> LOCKED)" for j
    using mutex_inv_step[OF inv that(1) c refl refl Q H] that(2-4) c by auto
  have o: "list_all (op_ok ?s D L) (todo S c)" and h: "held_after (H c) (todo S c) \<noteq> None"
    using t by (simp_all add: todo_ok_def)
  from td show ?thesis
  proof
    assume td: "todo S c = While b body # k"
    have j: "S' = S\<lparr>ks := ?s, todo := (todo S)(c := (if test b ?s then body @ While b body # k else k))\<rparr>"
      using S' td c by (auto simp: kstep_def)
    have hb: "held_after (H c) body = Some (H c)" "held_after (H c) k \<noteq> None" using h td by (auto split: if_splits)
    have ob: "list_all (op_ok ?s D L) body" "list_all (op_ok ?s D L) k" using o td by simp_all
    show ?thesis
    proof (rule step[OF j])
      show "held_after (H c) (if test b ?s then body @ While b body # k else k) \<noteq> None"
        using hb by (simp add: held_append)
      show "list_all (op_ok ?s D L) (if test b ?s then body @ While b body # k else k)" using ob by simp
      show "guarded (if test b ?s then body @ While b body # k else k) \<or>
          (\<exists>l k'. (if test b ?s then body @ While b body # k else k) = Hold l # k' \<and> guarded k' \<and>
            kmem ?s (l + lock_status) \<noteq> LOCKED)"
      proof (cases "starts_hold k")
        case True
        then obtain l k' where k: "k = Hold l # k'" by (auto simp: starts_hold_def)
        then have "b = Locked l" "body = [Block (l + lock_block_queue)]" "guarded k'" using g td by auto
        then show ?thesis using k by auto
      next
        case False
        then have "guarded body" "guarded k" using g td guarded_While[OF False, of b body] by simp_all
        moreover have "guarded (While b body # k)" using g td by simp
        ultimately show ?thesis using guarded_append[of body "While b body # k"] by simp
      qed
    qed
  next
    assume td: "todo S c = Choose b yes no # k"
    have j: "S' = S\<lparr>ks := ?s, todo := (todo S)(c := (if test b ?s then yes else no) @ k)\<rparr>"
      using S' td c by (simp add: kstep_def)
    have "held_after (H c) yes = held_after (H c) no" "held_after (H c) yes \<bind> (\<lambda>h. held_after h k) \<noteq> None"
      using h td by (auto split: if_splits)
    then have hh: "held_after (H c) ((if test b ?s then yes else no) @ k) \<noteq> None" by (auto simp: held_append)
    have gg: "guarded ((if test b ?s then yes else no) @ k)" using g td by (auto intro: guarded_append)
    have oo: "list_all (op_ok ?s D L) ((if test b ?s then yes else no) @ k)" using o td by simp
    show ?thesis by (rule step[OF j oo hh]) (use gg in blast)
  qed
qed

lemma step_kernel:
  assumes inv: "mutex_inv D L S H" and S': "kstep S = Some S'"
    and sw: "\<And>q k. todo S (current_running (ks S)) = Block q # k \<Longrightarrow> can_switch (ks S)"
  shows "\<exists>H'. mutex_inv D L S' H'"
proof -
  define c where c: "c = current_running (ks S)"
  obtain op k where td: "todo S c = op # k" using S' by (cases "todo S c") (auto simp: kstep_def c)
  show ?thesis
  proof (cases op)
    case Block
    then show ?thesis using step_block[OF inv c _ S'] sw td unfolding c[symmetric] by blast
  next
    case Unblock_one
    then show ?thesis using step_unblock[OF inv c _ S'] td by blast
  next
    case Unblock_all
    then show ?thesis using step_unblock[OF inv c _ S'] td by blast
  next
    case Hold
    then show ?thesis using step_hold[OF inv c _ S'] td by blast
  next
    case Release
    then show ?thesis using step_release[OF inv c _ S'] td by blast
  next
    case Add
    then show ?thesis using step_store[OF inv c _ S'] td by blast
  next
    case Store
    then show ?thesis using step_store[OF inv c _ S'] td by blast
  next
    case While
    then show ?thesis using step_branch[OF inv c _ S'] td by blast
  next
    case Choose
    then show ?thesis using step_branch[OF inv c _ S'] td by blast
  qed
qed

lemma step_call:
  assumes inv: "mutex_inv D L S H" and c: "c = current_running (ks S)"
    and h: "queue_rep (kmem (ks S)) (holding c) h" "held_after h (program f) \<noteq> None"
      "list_all (op_ok (ks S) D L) (program f)"
  shows "mutex_inv D L (S\<lparr>todo := (todo S)(c := program f)\<rparr>) H"
proof -
  obtain Q where Q: "sched_inv (ks S) Q" "dom Q = D" and H: "holds_ok (ks S) L H" and cb: "c \<in> pcbs (pcb (ks S))"
    by (rule cur_todo[OF inv c])
  have "h = H c" by (rule queue_rep_unique[OF h(1) holdsD(1)[OF H cb]])
  moreover have "guarded (program f)" using programs_guarded by (cases f) simp_all
  ultimately show ?thesis
    using mutex_inv_step[OF inv _ c refl refl Q H refl h(3), of "S\<lparr>todo := (todo S)(c := program f)\<rparr>"] h(2) by simp
qed

lemma step_timer:
  assumes inv: "mutex_inv D L S H" and td: "todo S (current_running (ks S)) = []" and s: "do_scheduler (ks S) = Some s"
  shows "mutex_inv D L (S\<lparr>ks := s\<rparr>) H"
proof -
  define c where c: "c = current_running (ks S)"
  obtain Q where Q: "sched_inv (ks S) Q" "dom Q = D" and L: "locks_ok (ks S) D L" and H: "holds_ok (ks S) L H"
    by (rule cur_todo[OF inv c])
  obtain s' Q' where s': "do_scheduler (ks S) = Some s'" "sched_inv s' Q'" "ready_queue s' = ready_queue (ks S)"
    "pcb s' = pcb (ks S)" "dom Q' = dom Q" "unswitched (ks S) Q s'" by (rule do_scheduler_runs[OF Q(1)])
  have "holds_ok s' L H" using holds_unswitched[OF H _ s'(4,6)] L Q(2) by simp
  moreover have "S\<lparr>ks := s\<rparr> = S\<lparr>ks := s', todo := (todo S)(c := [])\<rparr>" using s s'(1) td by (simp add: c fun_upd_idem)
  moreover have "dom Q' = D" using Q(2) s'(5) by simp
  ultimately show ?thesis using mutex_inv_step[where k = "[]", OF inv _ c s'(4,3,2)] by simp
qed

lemma sys_step_keeps:
  assumes "mutex_inv D L S H" and "sys_step D L S S'"
  shows "\<exists>H'. mutex_inv D L S' H'"
  using assms(2)
proof (cases rule: sys_step.cases)
  case kernel
  then show ?thesis using step_kernel[OF assms(1)] by blast
next
  case (call h c)
  then show ?thesis using step_call[OF assms(1) refl call(3-5)] by blast
next
  case (timer s)
  then show ?thesis using step_timer[OF assms(1)] by blast
qed

lemma runs_keep:
  assumes "(sys_step D L)\<^sup>*\<^sup>* S S'" and "mutex_inv D L S H"
  shows "\<exists>H'. mutex_inv D L S' H'"
  using assms by (induction rule: rtranclp_induct) (auto dest: sys_step_keeps)

end
