(* ===== verification/Mutex.thy ===== *)
theory Mutex
  imports Sync_Inv
begin

text \<open>
  Properties of the locks of \<^verbatim>\<open>kernel/locking/\<close>: mutual exclusion and progress in every
  run, what acquiring a mutex and taking a semaphore do, and a concrete system on which they
  are evaluated.
\<close>

section \<open>Properties\<close>

text \<open>Process \<open>p\<close> has lock \<open>l\<close> in its list of held locks, as \<open>queue_has\<close> sees it.\<close>

definition has_lock :: "kstate \<Rightarrow> u32 \<Rightarrow> u32 \<Rightarrow> bool" where
  "has_lock s p l \<longleftrightarrow> queue_has (kmem s) (holding p) l = Some True"

lemma has_lock_iff:
  assumes "holds_ok s L H" and "locks_ok s D L" and "p \<in> pcbs (pcb s)" and "l \<in> L"
  shows "has_lock s p l \<longleftrightarrow> l \<in> set (H p)"
proof -
  have "l \<noteq> NULL" using assms(2,4) by (auto simp: locks_ok_def)
  then show ?thesis
    using queue_has_fwd[OF queue_rep_fwd[OF holdsD(1)[OF assms(1,3)]]] by (simp add: has_lock_def)
qed

text \<open>A state in which every process is in user mode, no lock is taken, and the scheduler is in
  order.\<close>

definition sync_start :: "u32 set \<Rightarrow> u32 set \<Rightarrow> ksys \<Rightarrow> bool" where
  "sync_start D L S \<longleftrightarrow>
     (\<exists>Q. dom Q = D \<and> sched_inv (ks S) Q) \<and> locks_ok (ks S) D L \<and>
     (\<forall>l \<in> L. kmem (ks S) (l + lock_status) = UNLOCKED) \<and>
     (\<forall>p \<in> pcbs (pcb (ks S)). todo S p = [] \<and> get (ks S) p HOLDING_HEAD = NULL \<and> get (ks S) p HOLDING_TAIL = NULL)"

lemma start_inv: "sync_start D L S \<Longrightarrow> mutex_inv D L S (\<lambda>_. [])"
  by (auto simp: sync_start_def mutex_inv_def holds_ok_def todo_ok_def queue_rep_def queue_in_pcb)

lemma locks_exclusive:
  assumes inv: "mutex_inv D L S H" and "l \<in> L"
  shows "p \<in> pcbs (pcb (ks S)) \<Longrightarrow> q \<in> pcbs (pcb (ks S)) \<Longrightarrow> has_lock (ks S) p l \<Longrightarrow> has_lock (ks S) q l \<Longrightarrow> p = q"
    and "kmem (ks S) (l + lock_status) = LOCKED \<longleftrightarrow> (\<exists>p \<in> pcbs (pcb (ks S)). has_lock (ks S) p l)"
proof -
  have H: "holds_ok (ks S) L H" and L: "locks_ok (ks S) D L" using inv by (simp_all add: mutex_inv_def)
  note has = has_lock_iff[OF H L _ assms(2)]
  show "p = q" if "p \<in> pcbs (pcb (ks S))" "q \<in> pcbs (pcb (ks S))" "has_lock (ks S) p l" "has_lock (ks S) q l"
  proof (rule ccontr)
    assume "p \<noteq> q"
    then have "set (H p) \<inter> set (H q) = {}" using H that(1,2) by (simp add: holds_ok_def)
    then show False using that has by blast
  qed
  have "LOCKED \<noteq> UNLOCKED" by (simp add: LOCKED_def UNLOCKED_def)
  then show "kmem (ks S) (l + lock_status) = LOCKED \<longleftrightarrow> (\<exists>p \<in> pcbs (pcb (ks S)). has_lock (ks S) p l)"
    using H assms(2) has by (auto simp: holds_ok_def)
qed

lemma stale_links:
  fixes m :: mem
  assumes "distinct [qh, qt, ap, an, bp, bn, dp, dn, bs, ds, be, de]" and "n \<notin> set [qh, qt, ap, an, bp, bn, dp, dn, bs, ds, be, de]"
    and "m qh = a" "m qt = d" "m dn = 0" "m dp = b" "m be = 0" "m de = 0"
    and "m1 = m(an := d, n := a, bp := 0, bn := 0, bs := UNLOCKED)"
    and "m2 = m1(qt := b, bn := 0, dp := 0, dn := 0, ds := UNLOCKED)"
  shows "m1 qh = a \<and> m1 qt = d \<and> m1 an = d \<and> m1 dn = 0 \<and> m1 dp = b \<and> m1 be = 0 \<and> m1 de = 0"
    and "m2 qh = a \<and> m2 qt = b \<and> m2 an = d \<and> m2 dn = 0 \<and> m2 de = 0 \<and> m2 ds = UNLOCKED"
proof -
  show 1: "m1 qh = a \<and> m1 qt = d \<and> m1 an = d \<and> m1 dn = 0 \<and> m1 dp = b \<and> m1 be = 0 \<and> m1 de = 0"
    unfolding assms(9) using assms(1-8) by auto
  show "m2 qh = a \<and> m2 qt = b \<and> m2 an = d \<and> m2 dn = 0 \<and> m2 de = 0 \<and> m2 ds = UNLOCKED"
    unfolding assms(10) using 1 assms(1) by auto
qed

lemma release_held:
  assumes "queue_has (kmem s) (holding (current_running s)) l = Some True"
    and "m = (snd (queue_remove (pcb s) (kmem s) (holding (current_running s)) l))(l + lock_status := UNLOCKED)"
    and "m (l + lock_block_queue + queue_head) = NULL"
  shows "do_mutex_lock_release l s = Some (s\<lparr>kmem := m\<rparr>)"
proof -
  have "do_mutex_lock_release l s = do_unblock_all (l + lock_block_queue) (s\<lparr>kmem := m\<rparr>)"
    by (simp add: do_mutex_lock_release_def assms(1,2))
  then show ?thesis using assms(3) by (simp add: do_unblock_all.simps[of "l + lock_block_queue"] queue_is_empty_def)
qed

text \<open>
  Why \<open>held_after\<close> asks for the oldest or the newest lock: a process that holds \<open>a\<close>, \<open>b\<close> and \<open>d\<close>
  and releases \<open>b\<close> and then \<open>d\<close> still has \<open>d\<close> in its list, although \<open>d\<close> is \<open>UNLOCKED\<close>.
  \<open>queue_remove\<close> does not write \<open>prev\<close> of the item behind the one it removes, but \<open>prev\<close> of the
  item behind \<open>pcb[0]\<close>.
\<close>

lemma release_in_the_middle:
  assumes rep: "queue_rep (kmem s) (holding (current_running s)) [a, b, d]"
    and W: "W = [holding (current_running s) + queue_head, holding (current_running s) + queue_tail, a + pcb_prev, a + pcb_next,
      b + pcb_prev, b + pcb_next, d + pcb_prev, d + pcb_next, b + lock_status, d + lock_status,
      b + lock_block_queue + queue_head, d + lock_block_queue + queue_head]"
    and d: "distinct W" and stray: "pcb s + pcb_next \<notin> set W" "kmem s (pcb s + pcb_next) + pcb_prev \<notin> set W"
    and nobody: "kmem s (b + lock_block_queue + queue_head) = NULL" "kmem s (d + lock_block_queue + queue_head) = NULL"
  shows "\<exists>s1 s2. do_mutex_lock_release b s = Some s1 \<and> do_mutex_lock_release d s1 = Some s2 \<and>
    kmem s2 (d + lock_status) = UNLOCKED \<and> has_lock s2 (current_running s) d"
proof -
  let ?q = "holding (current_running s)" and ?m = "kmem s"
  note d' = d[unfolded W] and r = rep[unfolded queue_rep_def] and st = stray[unfolded W]
  let ?n = "?m (pcb s + pcb_next) + pcb_prev"
  define m1 where "m1 = (snd (queue_remove (pcb s) ?m ?q b))(b + lock_status := UNLOCKED)"
  have "b \<noteq> NULL" "d \<noteq> NULL" "a \<noteq> NULL" "a \<noteq> d" "a \<noteq> b" "b \<noteq> d" using r by auto
  note ne = this
  have m: "?m (?q + queue_head) = a" "?m (?q + queue_tail) = d" "?m (b + pcb_prev) = a" "?m (b + pcb_next) = d"
    "?m (d + pcb_next) = NULL" "?m (d + pcb_prev) = b"
    using r by simp_all
  have hb: "queue_has ?m ?q b = Some True" using queue_has_fwd[OF queue_rep_fwd[OF rep], of b] ne(1) by simp
  have pn: "pcb s + pcb_next \<noteq> a + pcb_next" "b + pcb_prev \<noteq> a + pcb_next" "?n \<noteq> b + pcb_prev" using st d' by auto
  have e1: "m1 = ?m(a + pcb_next := d, ?n := a, b + pcb_prev := 0, b + pcb_next := 0, b + lock_status := UNLOCKED)"
    using m ne pn by (simp add: m1_def queue_remove_def Let_def)
  define m2 where "m2 = m1(?q + queue_tail := b, b + pcb_next := 0, d + pcb_prev := 0, d + pcb_next := 0, d + lock_status := UNLOCKED)"
  note f = stale_links[OF d' st(2) m(1,2,5,6) nobody e1 m2_def]
  have one: "do_mutex_lock_release b s = Some (s\<lparr>kmem := m1\<rparr>)"
    by (rule release_held[OF hb m1_def]) (use f(1) in simp)
  have hd: "queue_has m1 ?q d = Some True"
    using f(1) ne by (simp add: queue_has_def queue_has_loop.simps[of m1 ?q d a] queue_has_loop.simps[of m1 ?q d d])
  have tn: "?q + queue_tail \<noteq> d + pcb_next" "?q + queue_tail \<noteq> d + pcb_prev" "b + pcb_next \<noteq> d + pcb_prev" using d' by auto
  have e2: "(snd (queue_remove (pcb s) m1 ?q d))(d + lock_status := UNLOCKED) = m2"
    using f(1) ne tn by (simp add: m2_def queue_remove_def Let_def)
  have two: "do_mutex_lock_release d (s\<lparr>kmem := m1\<rparr>) = Some (s\<lparr>kmem := m2\<rparr>)"
    using release_held[of "s\<lparr>kmem := m1\<rparr>" d m2] hd e2 f(2) by simp
  have "queue_has m2 ?q d = Some True"
    using f(2) ne by (simp add: queue_has_def queue_has_loop.simps[of m2 ?q d a] queue_has_loop.simps[of m2 ?q d d])
  then show ?thesis using one two f(2) by (auto simp: has_lock_def)
qed
text \<open>
  C3: Mutual exclusion among disciplined processes. In every run of \<open>sys_step\<close>, that is, of processes
  that use mutexes, conditions, semaphores and barriers, take no lock that they hold, and release
  only locks that they hold, each of them while it is the oldest or the newest on their list
  (\<open>held_after\<close>), and block only while another process can run, whatever the order of system calls
  and timer interrupts: the scheduler stays in order, no lock is in the lists of two processes, and
  a lock is \<open>LOCKED\<close> exactly when some process holds it. The code does not enforce this discipline;
  \<open>release_in_the_middle\<close> shows that without it the last part fails.
\<close>

theorem mutual_exclusion:
  assumes "sync_start D L S" and "(sys_step D L)\<^sup>*\<^sup>* S S'" and "l \<in> L"
  shows "(\<exists>Q. dom Q = D \<and> sched_inv (ks S') Q) \<and>
    (\<forall>p \<in> pcbs (pcb (ks S')). \<forall>q \<in> pcbs (pcb (ks S')). has_lock (ks S') p l \<and> has_lock (ks S') q l \<longrightarrow> p = q) \<and>
    (kmem (ks S') (l + lock_status) = LOCKED \<longleftrightarrow> (\<exists>p \<in> pcbs (pcb (ks S')). has_lock (ks S') p l))"
proof -
  obtain H where inv: "mutex_inv D L S' H" using runs_keep[OF assms(2) start_inv[OF assms(1)]] by blast
  then have "\<exists>Q. dom Q = D \<and> sched_inv (ks S') Q" by (simp add: mutex_inv_def)
  then show ?thesis using locks_exclusive[OF inv assms(3)] by blast
qed

text \<open>C9: No statement of these functions gets stuck: in every state that a run of disciplined processes
  (\<open>sys_step\<close>, as above) reaches and in which the running process is in the kernel, its next statement
  returns, a blocking one provided another process can run.\<close>

theorem sync_never_stuck:
  assumes "sync_start D L S" and "(sys_step D L)\<^sup>*\<^sup>* S S'"
    and "todo S' (current_running (ks S')) = op # k" and "\<forall>q. op = Block q \<longrightarrow> can_switch (ks S')"
  shows "\<exists>S''. kstep S' = Some S'' \<and> sys_step D L S' S''"
proof -
  define c where c: "c = current_running (ks S')"
  let ?s = "ks S'"
  obtain H where inv: "mutex_inv D L S' H" using runs_keep[OF assms(2) start_inv[OF assms(1)]] by blast
  obtain Q where Q: "sched_inv ?s Q" "dom Q = D" and L: "locks_ok ?s D L" and H: "holds_ok ?s L H" and t: "todo_ok D L S' H c"
    by (rule cur_todo[OF inv c])
  have td: "todo S' c = op # k" using assms(3) c by simp
  have L': "locks_ok ?s (dom Q) L" using L Q(2) by simp
  have ok: "queues_ok (pcb ?s) (kmem ?s) Q" using Q(1) by (simp add: leave_facts)
  have "\<exists>r. exec_op op ?s = Some r"
  proof (cases op)
    case (Block q)
    then have q: "q \<in> dom Q" "q \<noteq> ready_queue ?s" "\<forall>x \<in> pcbs (pcb ?s). waiting x \<noteq> q"
      using t td Q(2) sync_queueD[of ?s Q q] by (auto simp: todo_ok_def)
    obtain xs rs where xs: "Q q = Some xs" and rs: "Q (ready_queue ?s) = Some rs" using q(1) Q(1) by (auto simp: leave_facts)
    have "\<exists>x \<in> set rs. runnable ?s x"
      using assms(4) Block queue_rep_unique[OF queues_okD(1)[OF ok rs]] by (auto simp: can_switch_def)
    then obtain p where p: "find (runnable ?s) rs = Some p" by (cases "find (runnable ?s) rs") (auto simp: find_None_iff)
    have "\<forall>x \<in> set rs. waiting x = q \<longrightarrow> get ?s x STATUS \<noteq> TASK_EXITED"
      using q(3) queues_okD(2)[OF ok rs] by auto
    then show ?thesis by (rule do_block_runs[OF Q(1) xs q(2) rs p]) (simp add: Block)
  next
    case (Unblock_all q)
    then have "q \<in> dom Q" "q \<noteq> ready_queue ?s" using t td Q(2) sync_queueD[of ?s Q q] by (auto simp: todo_ok_def)
    then show ?thesis by (rule unblock_all_inv[OF Q(1)]) (simp add: Unblock_all)
  next
    case (Release l)
    then have "l \<in> set (H c)" "l = hd (H c) \<or> l = last (H c)" using t td by (auto simp: todo_ok_def split: if_splits)
    then show ?thesis by (rule release_keeps[OF Q(1) L' H _ _ c]) (simp add: Release)
  qed simp_all
  then obtain S'' where "kstep S' = Some S''" using assms(3) by (force simp: kstep_def)
  moreover from this have "sys_step D L S' S''" using assms(3,4) by (intro sys_step.kernel) auto
  ultimately show ?thesis by blast
qed

text \<open>Acquiring a mutex. If it is free the caller takes it at once and is not interrupted.\<close>

theorem acquire_free:
  assumes "mutex_inv D L S H" and "l \<in> L" and "kmem (ks S) (l + lock_status) \<noteq> LOCKED"
    and "c = current_running (ks S)" and "todo S c = do_mutex_lock_acquire l"
  shows "\<exists>S'. krun 2 S = Some S' \<and> current_running (ks S') = c \<and> todo S' c = [] \<and>
    kmem (ks S') (l + lock_status) = LOCKED \<and> mutex_inv D L S' (H(c := H c @ [l]))"
proof -
  let ?S1 = "S\<lparr>todo := (todo S)(c := [Hold l])\<rparr>"
  let ?S2 = "?S1\<lparr>ks := hold l (ks S), todo := (todo ?S1)(c := [])\<rparr>"
  have 1: "kstep S = Some ?S1" using assms(3-5) by (simp add: kstep_def do_mutex_lock_acquire_def)
  have 2: "kstep ?S1 = Some ?S2" using assms(4) by (simp add: kstep_def)
  have "mutex_inv D L ?S1 H"
    by (rule step_branch[OF assms(1,4) _ 1]) (use assms(5) in \<open>simp add: do_mutex_lock_acquire_def\<close>)
  from step_hold[OF this _ _ 2, of c l "[]"] assms(4) have "mutex_inv D L ?S2 (H(c := H c @ [l]))" by simp
  moreover have "krun 2 S = Some ?S2" using 1 2 assms(4,5) by (simp add: numeral_2_eq_2 do_mutex_lock_acquire_def)
  ultimately show ?thesis using assms(4) by (intro exI[of _ ?S2]) (simp add: hold_def store_def)
qed

text \<open>A process that blocks: it is last in the queue, and the first process that can run is entered.\<close>

lemma block_enters:
  assumes inv: "mutex_inv D L S H" and c: "c = current_running (ks S)" and td: "todo S c = Block q # k"
    and sw: "can_switch (ks S)"
  obtains S' xs rs where "kstep S = Some S'" and "mutex_inv D L S' H" and "todo S' c = k"
    and "queue_rep (kmem (ks S)) (ready_queue (ks S)) rs" and "find (runnable (ks S)) rs = Some (current_running (ks S'))"
    and "queue_rep (kmem (ks S)) q xs" and "queue_rep (kmem (ks S')) q (xs @ [c])" and "get (ks S') c STATUS = TASK_BLOCKED"
proof -
  let ?s = "ks S"
  obtain Q where Q: "sched_inv ?s Q" "dom Q = D" and t: "todo_ok D L S H c" by (rule cur_todo[OF inv c])
  have ok: "queues_ok (pcb ?s) (kmem ?s) Q" using Q(1) by (simp add: leave_facts)
  have q: "q \<in> dom Q" "q \<noteq> ready_queue ?s" "\<forall>x \<in> pcbs (pcb ?s). waiting x \<noteq> q"
    using t td Q(2) sync_queueD[of ?s Q q] by (auto simp: todo_ok_def)
  obtain xs rs where xs: "Q q = Some xs" and rs: "Q (ready_queue ?s) = Some rs" using q(1) Q(1) by (auto simp: leave_facts)
  have "\<exists>x \<in> set rs. runnable ?s x"
    using sw queue_rep_unique[OF queues_okD(1)[OF ok rs]] by (auto simp: can_switch_def)
  then obtain p where p: "find (runnable ?s) rs = Some p" by (cases "find (runnable ?s) rs") (auto simp: find_None_iff)
  have ng: "\<forall>x \<in> set rs. waiting x = q \<longrightarrow> get ?s x STATUS \<noteq> TASK_EXITED"
    using q(3) queues_okD(2)[OF ok rs] by auto
  obtain s' Q' where s': "do_block q ?s = Some s'" "sched_inv s' Q'" "ready_queue s' = ready_queue ?s" "pcb s' = pcb ?s"
    "current_running s' = p" "Q' q = Some (xs @ [current_running ?s])"
    by (rule do_block_runs[OF Q(1) xs q(2) rs p ng]) blast
  have 1: "kstep S = Some (S\<lparr>ks := s', todo := (todo S)(c := k)\<rparr>)" using td c s'(1) by (simp add: kstep_def)
  moreover have "queue_rep (kmem s') q (xs @ [c])"
    using s'(2,6) queues_okD(1)[of "pcb s'" "kmem s'" Q' q] c by (simp add: leave_facts)
  moreover have "blocked_on s' q c"
    using s'(2,3,6) q(2) c statuses_blocked[of s' Q' q "xs @ [c]" c] by (simp add: leave_facts)
  ultimately show thesis
    using that[OF 1 step_block[OF inv c td 1 sw], of rs xs] p queues_okD(1)[OF ok rs] queues_okD(1)[OF ok xs] s'(5)
    by (simp add: blocked_on_def)
qed

text \<open>If the mutex is taken the caller is put at the end of its queue, with the whole acquisition
  still to do, and the first process that can run is entered.\<close>

theorem acquire_blocks:
  assumes "mutex_inv D L S H" and "l \<in> L" and "kmem (ks S) (l + lock_status) = LOCKED"
    and "c = current_running (ks S)" and "todo S c = do_mutex_lock_acquire l" and "can_switch (ks S)"
  shows "\<exists>S' S'' xs. kstep S = Some S' \<and> kstep S' = Some S'' \<and> todo S'' c = do_mutex_lock_acquire l \<and>
    runnable (ks S) (current_running (ks S'')) \<and> get (ks S'') c STATUS = TASK_BLOCKED \<and>
    queue_rep (kmem (ks S'')) (l + lock_block_queue) (xs @ [c]) \<and> mutex_inv D L S'' H"
proof -
  let ?S1 = "S\<lparr>todo := (todo S)(c := Block (l + lock_block_queue) # do_mutex_lock_acquire l)\<rparr>"
  have 1: "kstep S = Some ?S1" using assms(3-5) by (simp add: kstep_def do_mutex_lock_acquire_def)
  have "mutex_inv D L ?S1 H"
    by (rule step_branch[OF assms(1,4) _ 1]) (use assms(5) in \<open>simp add: do_mutex_lock_acquire_def\<close>)
  then obtain S2 xs rs where 2: "kstep ?S1 = Some S2" "mutex_inv D L S2 H" "todo S2 c = do_mutex_lock_acquire l"
    "find (runnable (ks ?S1)) rs = Some (current_running (ks S2))" "queue_rep (kmem (ks S2)) (l + lock_block_queue) (xs @ [c])"
    "get (ks S2) c STATUS = TASK_BLOCKED"
    by (rule block_enters[of D L ?S1 H c "l + lock_block_queue" "do_mutex_lock_acquire l"]) (use assms(4,6) in simp_all)
  then show ?thesis using 1 by (intro exI[of _ ?S1] exI[of _ S2] exI[of _ xs]) (auto simp: find_Some_iff)
qed

section \<open>Semaphores\<close>

lemma acquire_prefix:
  assumes "mutex_inv D L S H" and "kmem (ks S) (l + lock_status) \<noteq> LOCKED"
    and "c = current_running (ks S)" and "todo S c = do_mutex_lock_acquire l @ k"
  defines "S' \<equiv> S\<lparr>ks := hold l (ks S), todo := (todo S)(c := k)\<rparr>"
  shows "krun (Suc (Suc n)) S = krun n S'" and "mutex_inv D L S' (H(c := H c @ [l]))"
    and "current_running (ks S') = c" and "l \<in> L"
    and "free_word (ks S) D a \<Longrightarrow> (\<And>k. k \<in> L \<Longrightarrow> a \<notin> lock_words k) \<Longrightarrow> kmem (ks S') a = kmem (ks S) a"
proof -
  let ?S1 = "S\<lparr>todo := (todo S)(c := Hold l # k)\<rparr>"
  have 1: "kstep S = Some ?S1" using assms(2-4) by (simp add: kstep_def do_mutex_lock_acquire_def)
  have 2: "kstep ?S1 = Some S'" using assms(3) by (simp add: kstep_def S'_def)
  have inv1: "mutex_inv D L ?S1 H"
    by (rule step_branch[OF assms(1,3) _ 1]) (use assms(4) in \<open>simp add: do_mutex_lock_acquire_def\<close>)
  from step_hold[OF this _ _ 2, of c l k] assms(3) show "mutex_inv D L S' (H(c := H c @ [l]))" by simp
  show "krun (Suc (Suc n)) S = krun n S'" using 1 2 assms(3,4) by (simp add: do_mutex_lock_acquire_def)
  show "current_running (ks S') = c" by (simp add: S'_def hold_def store_def assms(3))
  obtain Q where Q: "sched_inv (ks S) Q" "dom Q = D" and L: "locks_ok (ks S) D L" and H: "holds_ok (ks S) L H"
    and t: "todo_ok D L S H c" by (rule cur_todo[OF assms(1,3)])
  show l: "l \<in> L" using t assms(4) by (auto simp: todo_ok_def do_mutex_lock_acquire_def)
  show "kmem (ks S') a = kmem (ks S) a" if "free_word (ks S) D a" "\<And>k. k \<in> L \<Longrightarrow> a \<notin> lock_words k"
    using hold_keeps(3)[OF Q(1) _ H l assms(2,3), of a] that L Q(2) by (simp add: S'_def)
qed

lemma release_prefix:
  assumes "mutex_inv D L S H" and "c = current_running (ks S)" and "todo S c = Release l # k"
  obtains s where "\<And>n. krun (Suc n) S = krun n (S\<lparr>ks := s, todo := (todo S)(c := k)\<rparr>)"
    and "mutex_inv D L (S\<lparr>ks := s, todo := (todo S)(c := k)\<rparr>) (H(c := remove1 l (H c)))"
    and "current_running s = c" and "kmem s (l + lock_status) = UNLOCKED"
    and "\<And>a. free_word (ks S) D a \<Longrightarrow> (\<And>k. k \<in> L \<Longrightarrow> a \<notin> lock_words k) \<Longrightarrow> kmem s a = kmem (ks S) a"
    and "pcb s = pcb (ks S)" and "ready_queue s = ready_queue (ks S)"
proof -
  let ?s = "ks S"
  obtain Q where Q: "sched_inv ?s Q" "dom Q = D" and L: "locks_ok ?s D L" and H: "holds_ok ?s L H" and t: "todo_ok D L S H c"
    and cb: "c \<in> pcbs (pcb ?s)" by (rule cur_todo[OF assms(1,2)])
  have l: "l \<in> set (H c)" "l = hd (H c) \<or> l = last (H c)" "l \<in> L"
    using t assms(3) by (auto simp: todo_ok_def split: if_splits)
  have L': "locks_ok ?s (dom Q) L" using L Q(2) by simp
  obtain s' Q' where s': "do_mutex_lock_release l ?s = Some s'" "sched_inv s' Q'" "dom Q' = dom Q"
    "holds_ok s' L (H(c := remove1 l (H c)))" "pcb s' = pcb ?s" "ready_queue s' = ready_queue ?s" "current_running s' = c"
    and fr: "\<And>a. free_word ?s (dom Q) a \<Longrightarrow> (\<And>k. k \<in> L \<Longrightarrow> a \<notin> lock_words k) \<Longrightarrow> kmem s' a = kmem ?s a"
    by (rule release_keeps[OF Q(1) L' H l(1,2) assms(2)]) blast
  have st: "kstep S = Some (S\<lparr>ks := s', todo := (todo S)(c := k)\<rparr>)" using assms(2,3) s'(1) by (simp add: kstep_def)
  have d: "distinct (H c)" using holdsD(1)[OF H cb] by (simp add: queue_rep_def)
  have "l \<notin> set ((H(c := remove1 l (H c))) p)" if "p \<in> pcbs (pcb ?s)" for p
  proof (cases "p = c")
    case False
    then have "set (H p) \<inter> set (H c) = {}" using H that cb by (simp add: holds_ok_def)
    then show ?thesis using False l(1) by auto
  qed (use d in simp)
  then have "kmem s' (l + lock_status) = UNLOCKED" using s'(4,5) l(3) by (auto simp: holds_ok_def)
  then show thesis
    using that[of s'] st assms(2,3) step_release[OF assms st] s'(5-7) fr Q(2) by auto
qed

lemma semaphore_down_cases:
  assumes "mutex_inv D L S H" and "kmem (ks S) (sem + sem_lock + lock_status) \<noteq> LOCKED"
    and "c = current_running (ks S)" and "todo S c = do_semaphore_down sem"
    and "a = sem + sem_count"
  shows "0 < sint (kmem (ks S) a) \<Longrightarrow>
      \<exists>S'. krun 5 S = Some S' \<and> current_running (ks S') = c \<and> todo S' c = [] \<and>
        kmem (ks S') a = kmem (ks S) a - 1 \<and>
        kmem (ks S') (sem + sem_lock + lock_status) = UNLOCKED \<and> mutex_inv D L S' H"
    and "sint (kmem (ks S) a) \<le> 0 \<Longrightarrow>
      \<exists>S'. krun 4 S = Some S' \<and> current_running (ks S') = c \<and> kmem (ks S') a = kmem (ks S) a \<and>
        kmem (ks S') (sem + sem_lock + lock_status) = UNLOCKED \<and> mutex_inv D L S' H \<and>
        todo S' c = Block (sem + sem_queue) # do_semaphore_down sem"
proof -
  let ?l = "sem + sem_lock"
  let ?loop = "While (Not_positive a) ([Release ?l, Block (sem + sem_queue)] @ do_mutex_lock_acquire ?l)"
  let ?k = "[?loop, Add a (- 1), Release ?l]"
  let ?S1 = "S\<lparr>ks := hold ?l (ks S), todo := (todo S)(c := ?k)\<rparr>"
  have td: "todo S c = do_mutex_lock_acquire ?l @ ?k" using assms(4,5) by (simp add: do_semaphore_down_def)
  note acq = acquire_prefix[OF assms(1-3) td]
  have t: "todo_ok D L S H c" by (rule cur_todo[OF assms(1,3)])
  have a: "free_word (ks S) D a" "\<And>k. k \<in> L \<Longrightarrow> a \<notin> lock_words k" using t td by (auto simp: todo_ok_def)
  have nl: "?l \<notin> set (H c)" using t td by (auto simp: todo_ok_def do_mutex_lock_acquire_def)
  have rm: "(H(c := H c @ [?l]))(c := remove1 ?l ((H(c := H c @ [?l])) c)) = H" using nl by (simp add: remove_last)
  have v: "kmem (ks ?S1) a = kmem (ks S) a" by (rule acq(5)[OF a])
  have fw: "free_word s D a = free_word (ks S) D a" if "pcb s = pcb (ks S)" for s using that by (simp add: free_word_def)
  have pcb1: "pcb (hold ?l (ks S)) = pcb (ks S)" by (simp add: hold_def store_def)
  have dn: "do_semaphore_down sem = do_mutex_lock_acquire ?l @ ?k" using assms(5) by (simp add: do_semaphore_down_def)
  show "\<exists>S'. krun 5 S = Some S' \<and> current_running (ks S') = c \<and> todo S' c = [] \<and>
        kmem (ks S') a = kmem (ks S) a - 1 \<and>
        kmem (ks S') (sem + sem_lock + lock_status) = UNLOCKED \<and> mutex_inv D L S' H" if p: "0 < sint (kmem (ks S) a)"
  proof -
    let ?S2 = "?S1\<lparr>todo := (todo ?S1)(c := [Add a (- 1), Release ?l])\<rparr>"
    let ?S3 = "?S2\<lparr>ks := store a (kmem (ks ?S1) a - 1) (ks ?S1), todo := (todo ?S2)(c := [Release ?l])\<rparr>"
    have 2: "kstep ?S1 = Some ?S2" using acq(3) v p by (simp add: kstep_def sleq_def)
    have i2: "mutex_inv D L ?S2 (H(c := H c @ [?l]))"
      by (rule step_branch[OF acq(2) acq(3)[symmetric] _ 2]) simp
    have c2: "c = current_running (ks ?S2)" using acq(3) by simp
    have 3: "kstep ?S2 = Some ?S3" using acq(3) by (simp add: kstep_def)
    have i3: "mutex_inv D L ?S3 (H(c := H c @ [?l]))"
      by (rule step_store[OF i2 c2 _ 3]) simp
    have c3: "c = current_running (ks ?S3)" using acq(3) by (simp add: store_def)
    have t3: "todo ?S3 c = Release ?l # []" by simp
    obtain s where s: "\<And>n. krun (Suc n) ?S3 = krun n (?S3\<lparr>ks := s, todo := (todo ?S3)(c := [])\<rparr>)"
      "mutex_inv D L (?S3\<lparr>ks := s, todo := (todo ?S3)(c := [])\<rparr>) H" "current_running s = c"
      "kmem s (?l + lock_status) = UNLOCKED" "kmem s a = kmem (ks ?S3) a"
    proof (rule release_prefix[OF i3 c3 t3])
      fix s assume s: "\<And>n. krun (Suc n) ?S3 = krun n (?S3\<lparr>ks := s, todo := (todo ?S3)(c := [])\<rparr>)"
        "mutex_inv D L (?S3\<lparr>ks := s, todo := (todo ?S3)(c := [])\<rparr>) ((H(c := H c @ [?l]))(c := remove1 ?l ((H(c := H c @ [?l])) c)))"
        "current_running s = c" "kmem s (?l + lock_status) = UNLOCKED"
        "\<And>a. free_word (ks ?S3) D a \<Longrightarrow> (\<And>k. k \<in> L \<Longrightarrow> a \<notin> lock_words k) \<Longrightarrow> kmem s a = kmem (ks ?S3) a"
      have "kmem s a = kmem (ks ?S3) a" by (rule s(5)) (use a fw[of "ks ?S3"] pcb1 in \<open>simp_all add: store_def\<close>)
      then show thesis using that[of s] s(1-4) unfolding rm by blast
    qed
    have "krun 5 S = Some (?S3\<lparr>ks := s, todo := (todo ?S3)(c := [])\<rparr>)"
    proof -
      have "krun 5 S = krun 3 ?S1" using acq(1)[of 3] by (simp add: numeral_eq_Suc)
      also have "\<dots> = krun 2 ?S2" using 2 acq(3) by (simp add: numeral_eq_Suc)
      also have "\<dots> = krun 1 ?S3" using 3 acq(3) by (simp add: numeral_eq_Suc)
      also have "\<dots> = krun 0 (?S3\<lparr>ks := s, todo := (todo ?S3)(c := [])\<rparr>)" using s(1)[of 0] by simp
      finally show ?thesis by simp
    qed
    moreover have "kmem s a = kmem (ks S) a - 1" using s(5) v by (simp add: store_def)
    ultimately show ?thesis using s(2-4) by simp
  qed
  show "\<exists>S'. krun 4 S = Some S' \<and> current_running (ks S') = c \<and> kmem (ks S') a = kmem (ks S) a \<and>
        kmem (ks S') (sem + sem_lock + lock_status) = UNLOCKED \<and> mutex_inv D L S' H \<and>
        todo S' c = Block (sem + sem_queue) # do_semaphore_down sem" if p: "sint (kmem (ks S) a) \<le> 0"
  proof -
    let ?k2 = "Block (sem + sem_queue) # do_semaphore_down sem"
    let ?S2 = "?S1\<lparr>todo := (todo ?S1)(c := Release ?l # ?k2)\<rparr>"
    have 2: "kstep ?S1 = Some ?S2" using acq(3) v p by (simp add: kstep_def sleq_def dn)
    have i2: "mutex_inv D L ?S2 (H(c := H c @ [?l]))"
      by (rule step_branch[OF acq(2) acq(3)[symmetric] _ 2]) simp
    have c2: "c = current_running (ks ?S2)" using acq(3) by simp
    have t2: "todo ?S2 c = Release ?l # ?k2" by simp
    obtain s where s: "\<And>n. krun (Suc n) ?S2 = krun n (?S2\<lparr>ks := s, todo := (todo ?S2)(c := ?k2)\<rparr>)"
      "mutex_inv D L (?S2\<lparr>ks := s, todo := (todo ?S2)(c := ?k2)\<rparr>) H" "current_running s = c"
      "kmem s (?l + lock_status) = UNLOCKED" "kmem s a = kmem (ks ?S2) a"
    proof (rule release_prefix[OF i2 c2 t2])
      fix s assume s: "\<And>n. krun (Suc n) ?S2 = krun n (?S2\<lparr>ks := s, todo := (todo ?S2)(c := ?k2)\<rparr>)"
        "mutex_inv D L (?S2\<lparr>ks := s, todo := (todo ?S2)(c := ?k2)\<rparr>) ((H(c := H c @ [?l]))(c := remove1 ?l ((H(c := H c @ [?l])) c)))"
        "current_running s = c" "kmem s (?l + lock_status) = UNLOCKED"
        "\<And>a. free_word (ks ?S2) D a \<Longrightarrow> (\<And>k. k \<in> L \<Longrightarrow> a \<notin> lock_words k) \<Longrightarrow> kmem s a = kmem (ks ?S2) a"
      have "kmem s a = kmem (ks ?S2) a" by (rule s(5)) (use a fw[of "ks ?S2"] pcb1 in simp_all)
      then show thesis using that[of s] s(1-4) unfolding rm by blast
    qed
    have "krun 4 S = krun 2 ?S1" using acq(1)[of 2] by (simp add: numeral_eq_Suc)
    also have "\<dots> = krun 1 ?S2" using 2 acq(3) by (simp add: numeral_eq_Suc)
    also have "\<dots> = krun 0 (?S2\<lparr>ks := s, todo := (todo ?S2)(c := ?k2)\<rparr>)" using s(1)[of 0] by simp
    finally show ?thesis using s(2-5) v by simp
  qed
qed

text \<open>One statement more.\<close>

lemma krun_next:
  assumes "krun n S = Some S1" and "todo S1 (current_running (ks S1)) \<noteq> []" and "kstep S1 = Some S2"
  shows "krun (Suc n) S = Some S2"
  using assms
proof (induction n arbitrary: S)
  case (Suc n)
  then obtain T where T: "todo S (current_running (ks S)) \<noteq> []" "kstep S = Some T" "krun n T = Some S1"
    by (auto simp: bind_eq_Some_conv split: if_splits)
  then have "krun (Suc n) T = Some S2" using Suc.IH Suc.prems(2,3) by blast
  then show ?case using T by (simp del: krun.simps(2) add: krun.simps(2)[of "Suc n"])
qed simp

text \<open>C10: \<open>do_semaphore_down\<close> with the semaphore's lock free: a positive count is decremented at once,
  the lock is free again and the caller goes on. Otherwise the count is left alone and the caller
  gives the lock back; if some process of the ready queue can then run, the next statement blocks the
  caller: it is last in the semaphore's queue, blocked, and will take the lock and test the count
  again when it is entered, and the first process of the ready queue that can run is entered.\<close>

theorem semaphore_down_runs:
  assumes "mutex_inv D L S H" and "kmem (ks S) (sem + sem_lock + lock_status) \<noteq> LOCKED"
    and "c = current_running (ks S)" and "todo S c = do_semaphore_down sem"
    and "a = sem + sem_count"
  shows "if 0 < sint (kmem (ks S) a) then
      \<exists>S'. krun 5 S = Some S' \<and> current_running (ks S') = c \<and> todo S' c = [] \<and>
        kmem (ks S') a = kmem (ks S) a - 1 \<and>
        kmem (ks S') (sem + sem_lock + lock_status) = UNLOCKED \<and> mutex_inv D L S' H
    else
      \<exists>S1. krun 4 S = Some S1 \<and> current_running (ks S1) = c \<and> kmem (ks S1) a = kmem (ks S) a \<and>
        kmem (ks S1) (sem + sem_lock + lock_status) = UNLOCKED \<and> mutex_inv D L S1 H \<and>
        (can_switch (ks S1) \<longrightarrow>
          (\<exists>S' xs rs. krun 5 S = Some S' \<and> todo S' c = do_semaphore_down sem \<and> get (ks S') c STATUS = TASK_BLOCKED \<and>
            queue_rep (kmem (ks S1)) (sem + sem_queue) xs \<and> queue_rep (kmem (ks S')) (sem + sem_queue) (xs @ [c]) \<and>
            queue_rep (kmem (ks S1)) (ready_queue (ks S1)) rs \<and>
            find (runnable (ks S1)) rs = Some (current_running (ks S')) \<and> mutex_inv D L S' H))"
proof (cases "0 < sint (kmem (ks S) a)")
  case True
  then show ?thesis using semaphore_down_cases(1)[OF assms] by simp
next
  case False
  obtain S1 where S1: "krun 4 S = Some S1" "current_running (ks S1) = c" "kmem (ks S1) a = kmem (ks S) a"
    "kmem (ks S1) (sem + sem_lock + lock_status) = UNLOCKED" "mutex_inv D L S1 H"
    "todo S1 c = Block (sem + sem_queue) # do_semaphore_down sem"
    using semaphore_down_cases(2)[OF assms] False by auto
  have "\<exists>S' xs rs. krun 5 S = Some S' \<and> todo S' c = do_semaphore_down sem \<and> get (ks S') c STATUS = TASK_BLOCKED \<and>
      queue_rep (kmem (ks S1)) (sem + sem_queue) xs \<and> queue_rep (kmem (ks S')) (sem + sem_queue) (xs @ [c]) \<and>
      queue_rep (kmem (ks S1)) (ready_queue (ks S1)) rs \<and>
      find (runnable (ks S1)) rs = Some (current_running (ks S')) \<and> mutex_inv D L S' H" if sw: "can_switch (ks S1)"
  proof -
    obtain S' xs rs where S': "kstep S1 = Some S'" "mutex_inv D L S' H" "todo S' c = do_semaphore_down sem"
      "queue_rep (kmem (ks S1)) (ready_queue (ks S1)) rs" "find (runnable (ks S1)) rs = Some (current_running (ks S'))"
      "queue_rep (kmem (ks S1)) (sem + sem_queue) xs" "queue_rep (kmem (ks S')) (sem + sem_queue) (xs @ [c])"
      "get (ks S') c STATUS = TASK_BLOCKED"
      by (rule block_enters[OF S1(5) S1(2)[symmetric] S1(6) sw]) blast
    have "krun (Suc 4) S = Some S'" by (rule krun_next[OF S1(1) _ S'(1)]) (use S1(2,6) in simp)
    then show ?thesis using S'(2-8) by auto
  qed
  then show ?thesis using S1(1-5) False by auto
qed

section \<open>A concrete system\<close>

text \<open>The processes of the sample kernel with a semaphore at 0x200 (its lock at 0x20c).\<close>

lemma add_queue:
  assumes inv: "sched_inv s Q" and q: "q \<notin> dom Q" "kmem s (q + queue_head) = NULL" "kmem s (q + queue_tail) = NULL"
    and ok: "queue_addrs_ok (pcb s) (insert q (dom Q))"
  shows "sched_inv s (Q(q \<mapsto> []))"
proof -
  have "queues_ok (pcb s) (kmem s) (Q(q \<mapsto> []))"
    using inv q ok unfolding leave_facts queues_ok_def by (auto simp: queue_rep_def)
  moreover have "queued (Q(q \<mapsto> [])) = queued Q" using q(1) by (simp add: domIff queued_def)
  moreover have "statuses_ok s (Q(q \<mapsto> []))" using inv unfolding leave_facts statuses_ok_def by auto
  ultimately show ?thesis using inv by (auto simp: leave_facts)
qed

definition sampleD :: "u32 set" where
  "sampleD = insert 0x210 (dom sampleQ)"

lemma sampleD_eq: "sampleD = {0x210, 0x100, 0x200} \<union> waiting ` pcbs 0x1000"
  by (simp add: sampleD_def)

definition sample_sys :: "kop list \<Rightarrow> ksys" where
  "sample_sys k = \<lparr>ks = sample\<lparr>kmem := (kmem sample)(0x208 := 1)\<rparr>, todo = (\<lambda>p. if p = pcb_at 0x1000 0 then k else [])\<rparr>"

lemma sample_far: "outside 0x1000 0x208" "outside 0x1000 0x20c" "outside 0x1000 0x210" "outside 0x1000 0x214"
  "outside 0x1000 0x34c" "outside 0x1000 0x350"
  by (simp_all add: outside_def sizeof_pcb_def NUM_MAX_TASK_def)

lemma sampleD_free:
  assumes "outside 0x1000 a" and "a \<notin> {0x100, 0x104, 0x200, 0x204, 0x210, 0x214}"
  shows "a \<notin> family_cells 0x1000 sampleD"
  unfolding sampleD_eq by (rule outside_family) (use assms in \<open>auto simp: layout\<close>)

lemma sample_sys_mem: "outside 0x1000 a \<Longrightarrow> a \<notin> {0x100, 0x104, 0x200, 0x204} \<Longrightarrow> kmem (ks (sample_sys k)) a = (if a = 0x208 then 1 else 0)"
proof -
  assume a: "outside 0x1000 a" "a \<notin> {0x100, 0x104, 0x200, 0x204}"
  have push: "\<forall>a. a \<notin> family_cells 0x1000 (dom (sample_queues [])) \<longrightarrow> sample_mem [pcb_at 0x1000 1, pcb_at 0x1000 2] sample_two a = sample_two a"
    using queues_push_list[OF sample_two_ok sample_queues_simps(1), of "[pcb_at 0x1000 1, pcb_at 0x1000 2]"]
    by (simp add: sample_mem_def sample_pcbs pcb_at_inj NUM_MAX_TASK_def)
  have "a \<notin> family_cells 0x1000 (dom (sample_queues []))" using a by (intro sample_queue_addrs) auto
  moreover have "sample_two a = 0"
    using outside_cell[OF a(1) sample_pcbs, of 1 STATUS] outside_cell[OF a(1) sample_pcbs, of 1 SLEEP_END]
      outside_cell[OF a(1) sample_pcbs, of 2 STATUS] by (auto simp: sample_two_def)
  ultimately have "kmem sample a = 0" using push by (simp add: sample_def)
  then show ?thesis by (simp add: sample_sys_def)
qed

lemma sample_sys_simps [simp]:
  "pcb (ks (sample_sys k)) = 0x1000" "ready_queue (ks (sample_sys k)) = 0x100"
  "current_running (ks (sample_sys k)) = pcb_at 0x1000 0" "todo (sample_sys k) (pcb_at 0x1000 0) = k"
  "(sample_sys k)\<lparr>todo := (todo (sample_sys k))(pcb_at 0x1000 0 := j)\<rparr> = sample_sys j"
  by (auto simp: sample_sys_def)

lemma sample_sys_inv: "sched_inv (ks (sample_sys k)) (sampleQ(0x210 \<mapsto> []))"
proof -
  have "sched_inv (store 0x208 1 sample) sampleQ"
    by (rule store_inv[OF sample_two_inv])
      (use sample_far(1) sample_queue_addrs[of "0x208" "[pcb_at 0x1000 1, pcb_at 0x1000 2]"] in \<open>simp_all add: sampleQ_def\<close>)
  then have inv: "sched_inv (ks (sample_sys k)) sampleQ" by (simp add: sample_sys_def store_def)
  have "queue_addrs_ok 0x1000 (insert 0x210 (dom sampleQ))"
  proof -
    have "queue_addrs_ok 0x1000 ({0x210, 0x100, 0x200} \<union> waiting ` pcbs 0x1000)"
      by (rule addrs_array) (simp_all add: sample_outside sample_far layout)
    then show ?thesis by simp
  qed
  moreover have "0x210 \<noteq> waiting x" if "x \<in> pcbs 0x1000" for x
    using outside_cell[OF sample_far(3) that, of WAITING_HEAD] by (auto simp: waiting_def)
  then have "0x210 \<notin> dom sampleQ" by auto
  ultimately show ?thesis
    using sample_sys_mem[of "0x210" k] sample_sys_mem[of "0x214" k] sample_far
    by (intro add_queue[OF inv]) (simp_all add: layout)
qed

lemma sample_sys_sched: "\<exists>Q. dom Q = sampleD \<and> sched_inv (ks (sample_sys k)) Q"
  using sample_sys_inv[of k] by (intro exI[of _ "sampleQ(0x210 \<mapsto> [])"]) (simp add: sampleD_def)

lemma sample_sync_queue: "sync_queue (ks (sample_sys k)) sampleD 0x210" "sync_queue (ks (sample_sys k)) sampleD 0x200"
proof -
  have "0x210 \<noteq> waiting x" "0x200 \<noteq> waiting x" if "x \<in> pcbs 0x1000" for x
    using outside_cell[OF sample_far(3) that, of WAITING_HEAD] outside_cell[OF sample_outside(4) that, of WAITING_HEAD]
    by (auto simp: waiting_def)
  then show "sync_queue (ks (sample_sys k)) sampleD 0x210" "sync_queue (ks (sample_sys k)) sampleD 0x200"
    by (auto simp: sync_queue_def sampleD_eq)
qed

lemma sample_locks: "locks_ok (ks (sample_sys k)) sampleD {0x20c}"
  using sample_sync_queue(1) sample_far sampleD_free[of "0x20c"] sampleD_free[of "0x34c"] sampleD_free[of "0x350"]
  by (simp add: locks_ok_def lock_words_def free_word_def layout)

lemma sample_start: "sync_start sampleD {0x20c} (sample_sys [])"
proof -
  have "get (ks (sample_sys [])) p f = 0" if p: "p \<in> pcbs 0x1000" "f \<in> {HOLDING_HEAD, HOLDING_TAIL}" for p f
  proof -
    obtain i where i: "p = pcb_at 0x1000 i" "i < 32" using p(1) by (auto simp: pcbs_def NUM_MAX_TASK_def)
    have "get sample p f = 0"
      using sample_get[OF i(2), of f] p(2) i by (auto simp: sample_two_def cell_inj_idx NUM_MAX_TASK_def)
    then show ?thesis using outside_cell[OF sample_far(1) p(1), of f] p(2) by (auto simp: sample_sys_def)
  qed
  then show ?thesis
    using sample_sys_sched[of "[]"] sample_locks[of "[]"] sample_sys_mem[of "0x20c" "[]"] sample_far(2)
    by (auto simp: sync_start_def sample_sys_def UNLOCKED_def layout)
qed

lemma sample_free_words: "free_word (ks (sample_sys k)) sampleD 0x208" "0x208 \<notin> lock_words 0x20c"
  using sample_far(1) sampleD_free[of "0x208"] by (simp_all add: free_word_def lock_words_def layout)

lemma sample_inv_call:
  assumes "k = program f" and "held_after [] k \<noteq> None" and "list_all (op_ok (ks (sample_sys [])) sampleD {0x20c}) k"
  shows "mutex_inv sampleD {0x20c} (sample_sys k) (\<lambda>_. [])" and "sys_step sampleD {0x20c} (sample_sys []) (sample_sys k)"
proof -
  have r: "queue_rep (kmem (ks (sample_sys []))) (holding (current_running (ks (sample_sys [])))) []"
    using sample_start sample_pcbs[of 0] by (simp add: sync_start_def queue_rep_def queue_in_pcb)
  show "mutex_inv sampleD {0x20c} (sample_sys k) (\<lambda>_. [])"
    using step_call[OF start_inv[OF sample_start] refl r, of f] assms by simp
  show "sys_step sampleD {0x20c} (sample_sys []) (sample_sys k)"
    using sys_step.call[OF _ r, of f sampleD "{0x20c}"] assms by simp
qed

lemma sample_acquire_ok: "list_all (op_ok (ks (sample_sys j)) sampleD {0x20c}) (do_mutex_lock_acquire 0x20c)"
  using sample_sync_queue(1)[of j] by (simp add: do_mutex_lock_acquire_def layout)

lemmas sample_acquire = sample_inv_call[of "do_mutex_lock_acquire 0x20c" "Mutex_acquire 0x20c"]

theorem acquire_free_witness:
  "\<exists>S'. krun 2 (sample_sys (do_mutex_lock_acquire 0x20c)) = Some S' \<and> todo S' (pcb_at 0x1000 0) = [] \<and>
     kmem (ks S') (0x20c + lock_status) = LOCKED"
proof -
  have inv: "mutex_inv sampleD {0x20c} (sample_sys (do_mutex_lock_acquire 0x20c)) (\<lambda>_. [])"
    by (rule sample_acquire(1)) (use sample_acquire_ok in \<open>simp_all add: programs_held\<close>)
  have "kmem (ks (sample_sys (do_mutex_lock_acquire 0x20c))) (0x20c + lock_status) \<noteq> LOCKED"
    using sample_sys_mem[of "0x20c"] sample_far(2) by (simp add: layout LOCKED_def)
  from acquire_free[OF inv _ this, of "pcb_at 0x1000 0"] show ?thesis by auto
qed


lemma sample_unlocked: "kmem (ks (sample_sys k)) (0x20c + lock_status) \<noteq> LOCKED"
  using sample_sys_mem[of "0x20c" k] sample_far(2) by (simp add: layout LOCKED_def)

theorem mutual_exclusion_witness:
  "\<exists>S'. (sys_step sampleD {0x20c})\<^sup>*\<^sup>* (sample_sys []) S' \<and> kmem (ks S') (0x20c + lock_status) = LOCKED \<and>
     (\<exists>p \<in> pcbs (pcb (ks S')). has_lock (ks S') p 0x20c)"
proof -
  let ?S0 = "sample_sys (do_mutex_lock_acquire 0x20c)" and ?S1 = "sample_sys [Hold 0x20c]" and ?c = "pcb_at 0x1000 0"
  let ?S2 = "?S1\<lparr>ks := hold 0x20c (ks ?S1), todo := (todo ?S1)(?c := [])\<rparr>"
  have 0: "sys_step sampleD {0x20c} (sample_sys []) ?S0"
    by (rule sample_acquire(2)) (use sample_acquire_ok in \<open>simp_all add: programs_held\<close>)
  have "kstep ?S0 = Some ?S1"
    using sample_unlocked[of "do_mutex_lock_acquire 0x20c"] by (simp add: kstep_def do_mutex_lock_acquire_def)
  then have 1: "sys_step sampleD {0x20c} ?S0 ?S1" by (rule sys_step.kernel) (simp add: do_mutex_lock_acquire_def)
  have "kstep ?S1 = Some ?S2" by (simp add: kstep_def)
  then have 2: "sys_step sampleD {0x20c} ?S1 ?S2" by (rule sys_step.kernel) simp
  have r: "(sys_step sampleD {0x20c})\<^sup>*\<^sup>* (sample_sys []) ?S2" 
    using 0 1 2 by (meson rtranclp.rtrancl_into_rtrancl rtranclp.rtrancl_refl)
  have "kmem (ks ?S2) (0x20c + lock_status) = LOCKED" by (simp add: hold_def store_def)
  then show ?thesis using mutual_exclusion[OF sample_start r, of "0x20c"] r by blast
qed

lemma sample_down_ok: "list_all (op_ok (ks (sample_sys j)) sampleD {0x20c}) (do_semaphore_down 0x200)"
  using sample_sync_queue[of j] sample_free_words(1)[of j] sample_free_words(2)
  by (simp add: do_semaphore_down_def do_mutex_lock_acquire_def layout)

lemmas sample_down = sample_inv_call[where f = "Semaphore_down 0x200" and k = "do_semaphore_down 0x200"]

theorem sync_never_stuck_witness:
  "\<exists>S''. kstep (sample_sys (do_semaphore_down 0x200)) = Some S'' \<and>
     sys_step sampleD {0x20c} (sample_sys (do_semaphore_down 0x200)) S''"
proof -
  have "sys_step sampleD {0x20c} (sample_sys []) (sample_sys (do_semaphore_down 0x200))"
    by (rule sample_down(2)) (use sample_down_ok in \<open>simp_all add: programs_held\<close>)
  then have "(sys_step sampleD {0x20c})\<^sup>*\<^sup>* (sample_sys []) (sample_sys (do_semaphore_down 0x200))" by simp
  then show ?thesis
    by (rule sync_never_stuck[OF sample_start]) (auto simp: do_semaphore_down_def do_mutex_lock_acquire_def)
qed

theorem semaphore_down_runs_witness:
  "\<exists>S'. krun 5 (sample_sys (do_semaphore_down 0x200)) = Some S' \<and> todo S' (pcb_at 0x1000 0) = [] \<and>
     kmem (ks S') 0x208 = 0"
proof -
  let ?S = "sample_sys (do_semaphore_down 0x200)"
  have inv: "mutex_inv sampleD {0x20c} ?S (\<lambda>_. [])"
    by (rule sample_down(1)) (use sample_down_ok in \<open>simp_all add: programs_held\<close>)
  have v: "kmem (ks ?S) 0x208 = 1" using sample_sys_mem[of "0x208"] sample_far(1) by simp
  have "kmem (ks ?S) (0x200 + sem_lock + lock_status) \<noteq> LOCKED"
    using sample_unlocked[of "do_semaphore_down 0x200"] by (simp add: layout)
  from semaphore_down_runs[OF inv this, of "pcb_at 0x1000 0" "0x208"] v show ?thesis by (auto simp: layout)
qed

end
