(* ===== verification/Mac.thy ===== *)
theory Mac
  imports Sync
begin

text \<open>
  The driver of the network card: \<^verbatim>\<open>drivers/mac.c\<close>, \<^verbatim>\<open>drivers/mac_support.c\<close> and
  \<^verbatim>\<open>drivers/mac.h\<close>. The card is not part of the sources: what it answers to reads and writes
  of its registers and what it does to memory on its own are a parameter, a record of functions
  on the state of the card. Descriptors and packets are in the memory of the kernel.
\<close>

unbundle bit_operations_syntax

section \<open>Registers\<close>

definition GMAC_BASE_ADDR :: u32 where "GMAC_BASE_ADDR = 0xbfe10000"
definition DMA_BASE_ADDR :: u32 where "DMA_BASE_ADDR = 0xbfe11000"
definition PSIZE :: nat where "PSIZE = 256"
definition PNUM :: nat where "PNUM = 64"
definition SEND_ADDR :: u32 where "SEND_ADDR = 0xa0830000"
definition RECV_ADDR :: u32 where "RECV_ADDR = 0xa0820000"
definition SEND_ADDR_PHY :: u32 where "SEND_ADDR_PHY = SEND_ADDR AND 0x1fffffff"
definition RECV_ADDR_PHY :: u32 where "RECV_ADDR_PHY = RECV_ADDR AND 0x1fffffff"
definition INT1_SR_ADDR :: u32 where "INT1_SR_ADDR = 0xbfd01058"
definition INT1_EN_ADDR :: u32 where "INT1_EN_ADDR = 0xbfd0105c"
definition INT1_CLR_ADDR :: u32 where "INT1_CLR_ADDR = 0xbfd01064"
definition INT1_POL_ADDR :: u32 where "INT1_POL_ADDR = 0xbfd01068"
definition INT1_EDGE_ADDR :: u32 where "INT1_EDGE_ADDR = 0xbfd0106c"

definition GmacConfig :: u32 where "GmacConfig = 0x0"
definition GmacFrameFilter :: u32 where "GmacFrameFilter = 0x4"
definition GmacHashHigh :: u32 where "GmacHashHigh = 0x8"
definition GmacHashLow :: u32 where "GmacHashLow = 0xc"
definition GmacFlowControl :: u32 where "GmacFlowControl = 0x18"
definition GmacVersion :: u32 where "GmacVersion = 0x20"
definition GmacInterruptStatus :: u32 where "GmacInterruptStatus = 0x38"
definition GmacInterruptMask :: u32 where "GmacInterruptMask = 0x3c"
definition GmacAddr0High :: u32 where "GmacAddr0High = 0x40"
definition GmacAddr0Low :: u32 where "GmacAddr0Low = 0x44"
definition DmaBusMode :: u32 where "DmaBusMode = 0x0"
definition DmaRxBaseAddr :: u32 where "DmaRxBaseAddr = 0xc"
definition DmaTxBaseAddr :: u32 where "DmaTxBaseAddr = 0x10"
definition DmaStatus :: u32 where "DmaStatus = 0x14"
definition DmaControl :: u32 where "DmaControl = 0x18"
definition DmaInterrupt :: u32 where "DmaInterrupt = 0x1c"
definition DmaMissedFr :: u32 where "DmaMissedFr = 0x20"
definition DmaTxCurrDesc :: u32 where "DmaTxCurrDesc = 0x48"
definition DmaRxCurrDesc :: u32 where "DmaRxCurrDesc = 0x4c"
definition DmaTxCurrAddr :: u32 where "DmaTxCurrAddr = 0x50"
definition DmaRxCurrAddr :: u32 where "DmaRxCurrAddr = 0x54"
definition DmaStoreAndForward :: u32 where "DmaStoreAndForward = 0x00200000"
definition DmaRxThreshCtrl128 :: u32 where "DmaRxThreshCtrl128 = 0x00000018"
definition DmaTxSecondFrame :: u32 where "DmaTxSecondFrame = 0x00000004"
definition DmaIntDisable :: u32 where "DmaIntDisable = 0"

section \<open>The card and the state\<close>

text \<open>A read of a register may change the card (reading can clear interrupts); \<open>dma\<close> is what the
  card does to memory and to itself between two accesses of the processor.\<close>

record 'd nic =
  bus_read :: "u32 \<Rightarrow> 'd \<Rightarrow> u32 \<times> 'd"
  bus_write :: "u32 \<Rightarrow> u32 \<Rightarrow> 'd \<Rightarrow> 'd"
  dma :: "mem \<Rightarrow> 'd \<Rightarrow> mem \<times> 'd"

text \<open>The kernel, the card, and the addresses of the arrays \<open>DMA_recv_desc\<close>, \<open>DMA_send_desc\<close> and
  \<open>buffer\<close>.\<close>

record 'd net =
  kern :: kstate
  dev :: 'd
  DMA_recv_desc :: u32
  DMA_send_desc :: u32
  buffer :: u32

text \<open>\<open>desc_t\<close>: four words; \<open>desc_at a i\<close> is the address of \<open>a[i]\<close>.\<close>

definition tdes0 :: u32 where tdes0_def [layout]: "tdes0 = 0"
definition tdes1 :: u32 where tdes1_def [layout]: "tdes1 = 4"
definition tdes2 :: u32 where tdes2_def [layout]: "tdes2 = 8"
definition tdes3 :: u32 where tdes3_def [layout]: "tdes3 = 12"

definition desc_at :: "u32 \<Rightarrow> nat \<Rightarrow> u32" where
  "desc_at a i = a + 16 * word_of_nat i"

record mac =
  psize :: u32
  pnum :: u32
  mac_addr :: u32
  dma_addr :: u32
  saddr :: u32
  daddr :: u32
  saddr_phy :: u32
  daddr_phy :: u32
  td :: u32
  rd :: u32
  td_phy :: u32
  rd_phy :: u32

definition load :: "u32 \<Rightarrow> 'd net \<Rightarrow> u32" where
  "load a s = kmem (kern s) a"

definition save :: "u32 \<Rightarrow> u32 \<Rightarrow> 'd net \<Rightarrow> 'd net" where
  "save a v s = s\<lparr>kern := (kern s)\<lparr>kmem := (kmem (kern s))(a := v)\<rparr>\<rparr>"

definition card_runs :: "'d nic \<Rightarrow> 'd net \<Rightarrow> 'd net" where
  "card_runs N s =
    (let (m, d) = dma N (kmem (kern s)) (dev s) in s\<lparr>kern := (kern s)\<lparr>kmem := m\<rparr>, dev := d\<rparr>)"

section \<open>Access to registers\<close>

definition reg_read_32 :: "'d nic \<Rightarrow> u32 \<Rightarrow> 'd net \<Rightarrow> u32 \<times> 'd net" where
  "reg_read_32 N addr s = (let (v, d) = bus_read N addr (dev s) in (v, s\<lparr>dev := d\<rparr>))"

definition read_register :: "'d nic \<Rightarrow> u32 \<Rightarrow> u32 \<Rightarrow> 'd net \<Rightarrow> u32 \<times> 'd net" where
  "read_register N base offset s = (let addr = base + offset in reg_read_32 N addr s)"

definition reg_write_32 :: "'d nic \<Rightarrow> u32 \<Rightarrow> u32 \<Rightarrow> 'd net \<Rightarrow> 'd net" where
  "reg_write_32 N addr data s = card_runs N (s\<lparr>dev := bus_write N addr data (dev s)\<rparr>)"

text \<open>\<open>reg_write_32(addr, reg_read_32(addr) | bits)\<close>.\<close>

definition reg_or :: "'d nic \<Rightarrow> u32 \<Rightarrow> u32 \<Rightarrow> 'd net \<Rightarrow> 'd net" where
  "reg_or N addr bits s = (let (v, s) = reg_read_32 N addr s in reg_write_32 N addr (v OR bits) s)"

definition gmac_get_mac_addr :: "'d nic \<Rightarrow> 'd net \<Rightarrow> u8 list \<times> 'd net" where
  "gmac_get_mac_addr N s =
    (let (lo, s) = read_register N GMAC_BASE_ADDR GmacAddr0Low s;
         (hi, s) = read_register N GMAC_BASE_ADDR GmacAddr0High s
     in ([ucast (drop_bit 0 lo AND 0xFF), ucast (drop_bit 8 lo AND 0xFF), ucast (drop_bit 16 lo AND 0xFF),
          ucast (drop_bit 24 lo AND 0xFF), ucast (drop_bit 0 hi AND 0xFF), ucast (drop_bit 8 hi AND 0xFF)], s))"

section \<open>Printing the registers\<close>

text \<open>What is printed: the format and the arguments of every call of \<open>printk\<close> and \<open>printf\<close>, and the calls
  of \<open>sys_move_cursor\<close> between them.\<close>

datatype outp = Printk string "u32 list" | Printf string "u32 list" | Move_cursor u32 u32

abbreviation newline :: string where "newline \<equiv> [CHR 0x0A]"

text \<open>One or two registers are read and printed.\<close>

definition show1 :: "'d nic \<Rightarrow> (string \<Rightarrow> u32 list \<Rightarrow> outp) \<Rightarrow> string \<Rightarrow> u32 \<Rightarrow> u32 \<Rightarrow> 'd net \<times> outp list \<Rightarrow> 'd net \<times> outp list" where
  "show1 N out fmt base r st =
    (let (s, log) = st; (v, s) = read_register N base r s in (s, log @ [out fmt [v]]))"

definition show2 :: "'d nic \<Rightarrow> (string \<Rightarrow> u32 list \<Rightarrow> outp) \<Rightarrow> string \<Rightarrow> u32 \<Rightarrow> u32 \<Rightarrow> u32 \<Rightarrow> 'd net \<times> outp list \<Rightarrow> 'd net \<times> outp list" where
  "show2 N out fmt base r1 r2 st =
    (let (s, log) = st; (v1, s) = read_register N base r1 s; (v2, s) = read_register N base r2 s
     in (s, log @ [out fmt [v1, v2]]))"

definition show2_swapped :: "'d nic \<Rightarrow> (string \<Rightarrow> u32 list \<Rightarrow> outp) \<Rightarrow> string \<Rightarrow> u32 \<Rightarrow> u32 \<Rightarrow> u32 \<Rightarrow> 'd net \<times> outp list \<Rightarrow> 'd net \<times> outp list" where
  "show2_swapped N out fmt base r1 r2 st =
    (let (s, log) = st; (v1, s) = read_register N base r1 s; (v2, s) = read_register N base r2 s
     in (s, log @ [out fmt [v2, v1]]))"

definition show_mac_addr :: "'d nic \<Rightarrow> (string \<Rightarrow> u32 list \<Rightarrow> outp) \<Rightarrow> 'd net \<times> outp list \<Rightarrow> 'd net \<times> outp list" where
  "show_mac_addr N out st =
    (let (s, log) = st; (addr, s) = gmac_get_mac_addr N s
     in (s, log @ [out (''  [16-17] Mac Addr : %X:%X:%X:%X:%X:%X'' @ newline) (map ucast addr)]))"

definition print_dma_regs :: "'d nic \<Rightarrow> 'd net \<Rightarrow> 'd net \<times> outp list" where
  "print_dma_regs N s =
    (let B = DMA_BASE_ADDR;
         st = (s, [Printk (''>>[DMA Register]'' @ newline) []]);
         st = show1 N Printk ''  [0] Bus Mode : 0x%x, '' B DmaBusMode st;
         st = show2_swapped N Printk (''  [3-4] TX/RX : 0x%x/0x%x'' @ newline) B DmaRxBaseAddr DmaTxBaseAddr st;
         st = show1 N Printk ''  [5] Status : 0x%x, '' B DmaStatus st;
         st = show1 N Printk (''  [6] Control : 0x%x'' @ newline) B DmaControl st;
         st = show1 N Printk ''  [7] Interrupt : 0x%x, '' B DmaInterrupt st;
         st = show1 N Printk (''  [8] Missed : 0x%x'' @ newline) B DmaMissedFr st;
         st = show2 N Printk (''  [18-19] Current Host TX/RX Description : 0x%x/0x%x'' @ newline) B DmaTxCurrDesc DmaRxCurrDesc st
     in show2 N Printk (''  [20-21] Current Host TX/RX Buffer Address : 0x%x/0x%x'' @ newline) B DmaTxCurrAddr DmaRxCurrAddr st)"

definition print_mac_regs :: "'d nic \<Rightarrow> 'd net \<Rightarrow> 'd net \<times> outp list" where
  "print_mac_regs N s =
    (let B = GMAC_BASE_ADDR;
         st = (s, [Printk (''>>[MAC Register]'' @ newline) []]);
         st = show1 N Printk ''  [0] Configure : 0x%x, '' B GmacConfig st;
         st = show1 N Printk (''  [1] Frame Filter : 0x%x'' @ newline) B GmacFrameFilter st;
         st = show2 N Printk (''  [2-3] Hash Table High/Low : 0x%x-0x%x'' @ newline) B GmacHashHigh GmacHashLow st;
         st = show1 N Printk ''  [6] Flow Control : 0x%x, '' B GmacFlowControl st;
         st = show1 N Printk (''  [8] Version : 0x%x'' @ newline) B GmacVersion st;
         st = show2 N Printk (''  [14-15] Interrupt Status/Mask : 0x%x/0x%x'' @ newline) B GmacInterruptStatus GmacInterruptMask st
     in show_mac_addr N Printk st)"

text \<open>The last line of \<open>printf_dma_regs\<close> goes through \<open>printk\<close>.\<close>

definition printf_dma_regs :: "'d nic \<Rightarrow> 'd net \<Rightarrow> 'd net \<times> outp list" where
  "printf_dma_regs N s =
    (let B = DMA_BASE_ADDR;
         st = (s, [Printf (''>>[DMA Register]'' @ newline) []]);
         st = show1 N Printf ''  [0] Bus Mode : 0x%x, '' B DmaBusMode st;
         st = show2 N Printf (''  [3-4] RX/TX : 0x%x/0x%x'' @ newline) B DmaRxBaseAddr DmaTxBaseAddr st;
         st = show1 N Printf ''  [5] Status : 0x%x, '' B DmaStatus st;
         st = show1 N Printf (''  [6] Control : 0x%x'' @ newline) B DmaControl st;
         st = show1 N Printf ''  [7] Interrupt : 0x%x, '' B DmaInterrupt st;
         st = show1 N Printf (''  [8] Missed : 0x%x'' @ newline) B DmaMissedFr st;
         st = show2 N Printf (''  [18-19] Current Host TX/RX Description : 0x%x/0x%x'' @ newline) B DmaTxCurrDesc DmaRxCurrDesc st
     in show2 N Printk (''  [20-21] Current Host TX/RX Buffer Address : 0x%x/0x%x'' @ newline) B DmaTxCurrAddr DmaRxCurrAddr st)"

definition printf_mac_regs :: "'d nic \<Rightarrow> 'd net \<Rightarrow> 'd net \<times> outp list" where
  "printf_mac_regs N s =
    (let B = GMAC_BASE_ADDR;
         st = (s, [Printf (''>>[MAC Register]'' @ newline) []]);
         st = show1 N Printf ''  [0] Configure : 0x%x, '' B GmacConfig st;
         st = show1 N Printf (''  [1] Frame Filter : 0x%x'' @ newline) B GmacFrameFilter st;
         st = show2 N Printf (''  [2-3] Hash Table High/Low : 0x%x-0x%x'' @ newline) B GmacHashHigh GmacHashLow st;
         st = show1 N Printf ''  [6] Flow Control : 0x%x, '' B GmacFlowControl st;
         st = show1 N Printf (''  [8] Version : 0x%x'' @ newline) B GmacVersion st;
         st = show2 N Printf (''  [14-15] Interrupt Status/Mask : 0x%x/0x%x'' @ newline) B GmacInterruptStatus GmacInterruptMask st
     in show_mac_addr N Printf st)"

definition print_tx_dscrb :: "mac \<Rightarrow> outp list" where
  "print_tx_dscrb mac =
    [Printf ''send buffer mac->saddr=0x%x '' [saddr mac], Printf ''mac->saddr_phy=0x%x '' [saddr_phy mac],
     Printf (''send discrb mac->td_phy=0x%x'' @ newline) [td_phy mac]]"

definition print_rx_dscrb :: "mac \<Rightarrow> outp list" where
  "print_rx_dscrb mac =
    [Printf ''recieve buffer add mac->daddr=0x%x '' [daddr mac], Printf ''mac->daddr_phy=0x%x '' [daddr_phy mac],
     Printf (''recieve discrb add mac->rd_phy=0x%x'' @ newline) [rd_phy mac]]"

section \<open>Operations of the driver\<close>

definition clear_interrupt :: "'d nic \<Rightarrow> 'd net \<Rightarrow> 'd net" where
  "clear_interrupt N s =
    (let (data, s) = reg_read_32 N (0xbfe11000 + DmaStatus) s
     in reg_write_32 N (0xbfe11000 + DmaStatus) data s)"

text \<open>\<open>desc_init desc i d0 d1 d2 d3\<close> fills in \<open>desc[i]\<close>.\<close>

definition desc_init :: "u32 \<Rightarrow> nat \<Rightarrow> u32 \<Rightarrow> u32 \<Rightarrow> u32 \<Rightarrow> u32 \<Rightarrow> 'd net \<Rightarrow> 'd net" where
  "desc_init desc i d0 d1 d2 d3 s =
    (let s = save (desc_at desc i + tdes0) d0 s;
         s = save (desc_at desc i + tdes2) d2 s;
         s = save (desc_at desc i + tdes1) d1 s
     in save (desc_at desc i + tdes3) d3 s)"

definition send_desc_init :: "mac \<Rightarrow> 'd net \<Rightarrow> mac \<times> 'd net" where
  "send_desc_init mac s =
    (let mac = mac\<lparr>saddr := SEND_ADDR, saddr_phy := SEND_ADDR_PHY, td := DMA_send_desc s, td_phy := DMA_send_desc s AND 0x1fffffff\<rparr>;
         body = (\<lambda>i s.
           if i = PNUM - 1
           then desc_init (DMA_send_desc s) i 0x00000000 0x63000400 (SEND_ADDR + word_of_nat i * psize mac)
                  (desc_at (DMA_send_desc s) 0 AND 0x1fffffff) s
           else desc_init (DMA_send_desc s) i 0x00000000 0x61000400 (SEND_ADDR + word_of_nat i * psize mac)
                  (desc_at (DMA_send_desc s) (i + 1) AND 0x1fffffff) s)
     in (mac, fold body [0..<PNUM] s))"

definition recv_desc_init :: "mac \<Rightarrow> 'd net \<Rightarrow> mac \<times> 'd net" where
  "recv_desc_init mac s =
    (let mac = mac\<lparr>daddr := RECV_ADDR, daddr_phy := RECV_ADDR_PHY, rd := DMA_recv_desc s, rd_phy := DMA_recv_desc s AND 0x1fffffff\<rparr>;
         body = (\<lambda>i s.
           if i = PNUM - 1
           then desc_init (DMA_recv_desc s) i 0x80000000 0x03000400 (RECV_ADDR + word_of_nat i * psize mac)
                  (desc_at (DMA_recv_desc s) 0 AND 0x1fffffff) s
           else desc_init (DMA_recv_desc s) i 0x80000000 0x01000400 (RECV_ADDR + word_of_nat i * psize mac)
                  (desc_at (DMA_recv_desc s) (i + 1) AND 0x1fffffff) s)
     in (mac, fold body [0..<PNUM] s))"

definition mii_dul_force :: "'d nic \<Rightarrow> mac \<Rightarrow> 'd net \<Rightarrow> 'd net" where
  "mii_dul_force N mac s =
    (let s = reg_write_32 N (dma_addr mac) 0x0 s;
         conf = 0xc800;
         s = reg_or N (mac_addr mac) (conf OR push_bit 8 1) s
     in reg_or N (mac_addr mac + 0x4) 0x80000001 s)"

definition dma_control_init :: "'d nic \<Rightarrow> mac \<Rightarrow> u32 \<Rightarrow> 'd net \<Rightarrow> 'd net" where
  "dma_control_init N mac init_value s = reg_write_32 N (dma_addr mac + DmaControl) init_value s"

definition irq_mac :: "'d nic \<Rightarrow> 'd net \<Rightarrow> 'd net option" where
  "irq_mac N s =
    (if drop_bit 31 (load (desc_at (DMA_recv_desc s) 63 + tdes0) s) = 0 then
       let s = clear_interrupt N s in do {
         k \<leftarrow> do_unblock_all (recv_block_queue (kern s)) (kern s);
         Some (s\<lparr>kern := k\<rparr>)
       }
     else Some s)"

definition irq_enable :: "'d nic \<Rightarrow> u32 \<Rightarrow> 'd net \<Rightarrow> 'd net" where
  "irq_enable N IRQn s = reg_or N INT1_EN_ADDR 0x08 s"

text \<open>The static counter \<open>i\<close> of \<open>check_recv\<close> is never reset.\<close>

definition check_recv :: "u32 \<Rightarrow> u32 \<times> outp list" where
  "check_recv i =
    (i + word_of_nat PNUM, map (\<lambda>j. Printf ''%d '' [i + word_of_nat j]) [0..<PNUM] @ [Printf newline []])"

definition set_sram_ctr :: "'d nic \<Rightarrow> 'd net \<Rightarrow> 'd net" where
  "set_sram_ctr N s = reg_write_32 N 0xbfd00420 0x8000 s"

text \<open>\<open>while ((reg_read_32(mac->dma_addr) & 0x01))\<close>; the delay loop inside runs \<open>time\<close> down to 0.\<close>

partial_function (option) reset_loop :: "'d nic \<Rightarrow> u32 \<Rightarrow> nat \<Rightarrow> 'd net \<Rightarrow> 'd net option" where
  "reset_loop N addr time s =
    (case reg_read_32 N addr s of (v, s) \<Rightarrow>
       if v AND 0x01 \<noteq> 0 then reset_loop N addr 0 (reg_write_32 N addr 0x01 s) else Some s)"

definition s_reset :: "'d nic \<Rightarrow> mac \<Rightarrow> 'd net \<Rightarrow> 'd net option" where
  "s_reset N mac s = reset_loop N (dma_addr mac) 1000000 (reg_write_32 N (dma_addr mac) 0x01 s)"

definition disable_interrupt_all :: "'d nic \<Rightarrow> mac \<Rightarrow> 'd net \<Rightarrow> 'd net" where
  "disable_interrupt_all N mac s = reg_write_32 N (dma_addr mac + DmaInterrupt) DmaIntDisable s"

definition MacAddr :: "u8 list" where
  "MacAddr = [0x00, 0x55, 0x7b, 0xb5, 0x7d, 0xf7]"

definition set_mac_addr :: "'d nic \<Rightarrow> mac \<Rightarrow> 'd net \<Rightarrow> 'd net" where
  "set_mac_addr N mac s =
    (let data = push_bit 8 (ucast (MacAddr ! 5)) OR ucast (MacAddr ! 4);
         s = reg_write_32 N (mac_addr mac + 0x40) data s;
         data = push_bit 24 (ucast (MacAddr ! 3)) OR push_bit 16 (ucast (MacAddr ! 2)) OR
           push_bit 8 (ucast (MacAddr ! 1)) OR ucast (MacAddr ! 0)
     in reg_write_32 N (mac_addr mac + 0x44) data s)"

definition do_net_recv :: "'d nic \<Rightarrow> u32 \<Rightarrow> u32 \<Rightarrow> u32 \<Rightarrow> 'd net \<Rightarrow> 'd net" where
  "do_net_recv N r r_phy d s =
    (let s = reg_write_32 N (DMA_BASE_ADDR + 0x0c) r_phy s;
         s = reg_or N GMAC_BASE_ADDR 0x04 s;
         s = reg_or N (DMA_BASE_ADDR + 0x18) 0x02200002 s;
         s = reg_write_32 N (DMA_BASE_ADDR + 0x1c) (0x10001 OR push_bit 6 1) s;
         s = fold (\<lambda>i s.
               let s = save (desc_at (DMA_recv_desc s) i + tdes0) (load (desc_at (DMA_recv_desc s) i + tdes0) s OR 0x80000000) s
               in reg_write_32 N (DMA_BASE_ADDR + 0x8) 0x01 s) [0..<PNUM] s;
         s = irq_enable N 0 s
     in s\<lparr>kern := return_int32 0 (kern s)\<rparr>)"

text \<open>\<open>memcpy\<close> of aligned words, from a region to one that does not overlap it.\<close>

definition copy_words :: "u32 \<Rightarrow> u32 \<Rightarrow> nat \<Rightarrow> 'd net \<Rightarrow> 'd net" where
  "copy_words dst src n s = fold (\<lambda>j s. save (dst + 4 * word_of_nat j) (load (src + 4 * word_of_nat j) s) s) [0..<n] s"

text \<open>\<open>while (DMA_send_desc[i].tdes0 >> 31);\<close>: the card runs between two reads of the descriptor.\<close>

partial_function (option) own_loop :: "'d nic \<Rightarrow> u32 \<Rightarrow> 'd net \<Rightarrow> 'd net option" where
  "own_loop N desc s =
    (let s = card_runs N s in if drop_bit 31 (load (desc + tdes0) s) \<noteq> 0 then own_loop N desc s else Some s)"

definition send_one :: "'d nic \<Rightarrow> nat \<Rightarrow> 'd net \<Rightarrow> 'd net option" where
  "send_one N i s =
    (let d = desc_at (DMA_send_desc s) i;
         s = copy_words (load (d + tdes2) s) (buffer s) PSIZE s;
         s = save (d + tdes0) (load (d + tdes0) s OR 0x80000000) s;
         s = reg_write_32 N (DMA_BASE_ADDR + 0x4) 0x01 s
     in own_loop N d s)"

definition do_net_send :: "'d nic \<Rightarrow> u32 \<Rightarrow> u32 \<Rightarrow> 'd net \<Rightarrow> 'd net option" where
  "do_net_send N t t_phy s =
    (let s = reg_write_32 N (DMA_BASE_ADDR + 0x10) t_phy s;
         s = reg_or N GMAC_BASE_ADDR 0x08 s;
         s = reg_or N (DMA_BASE_ADDR + 0x18) 0x02202000 s;
         s = reg_write_32 N (DMA_BASE_ADDR + 0x1c) (0x10001 OR push_bit 6 1) s
     in for_each (send_one N) [0..<PNUM] s)"

definition do_init_mac :: "'d nic \<Rightarrow> mac \<Rightarrow> 'd net \<Rightarrow> 'd net option" where
  "do_init_mac N test_mac s =
    (let test_mac = test_mac\<lparr>mac_addr := 0xbfe10000, dma_addr := 0xbfe11000,
           psize := word_of_nat PSIZE * 4, pnum := word_of_nat PNUM\<rparr>;
         s = set_sram_ctr N s
     in do {
       s \<leftarrow> s_reset N test_mac s;
       let s = disable_interrupt_all N test_mac s;
       let s = set_mac_addr N test_mac s;
       let s = reg_write_32 N INT1_CLR_ADDR 0xffffffff s;
       let s = reg_write_32 N INT1_POL_ADDR 0xffffffff s;
       Some (reg_write_32 N INT1_EDGE_ADDR 0x0 s)
     })"

definition do_wait_recv_package :: "'d net \<Rightarrow> 'd net option" where
  "do_wait_recv_package s = do { k \<leftarrow> do_block (recv_block_queue (kern s)) (kern s); Some (s\<lparr>kern := k\<rparr>) }"

section \<open>The send task\<close>

text \<open>\<open>phy_regs_task1\<close>: the set-up, then four times 64 packets, with its output and the calls of
  \<open>sys_move_cursor\<close>. The last step, \<open>sys_exit\<close>, is not part of it.\<close>

definition task_mac :: "mac \<Rightarrow> mac" where
  "task_mac test_mac = test_mac\<lparr>mac_addr := 0xbfe10000, dma_addr := 0xbfe11000,
     psize := word_of_nat PSIZE * 4, pnum := word_of_nat PNUM\<rparr>"

definition task_setup :: "'d nic \<Rightarrow> mac \<Rightarrow> 'd net \<Rightarrow> 'd net" where
  "task_setup N mac s =
    (let s = dma_control_init N mac (DmaStoreAndForward OR DmaTxSecondFrame OR DmaRxThreshCtrl128) s;
         s = clear_interrupt N s
     in mii_dul_force N mac s)"

text \<open>The output behind every 64 packets, lines 144 and 145.\<close>

definition report :: "u32 \<Rightarrow> outp list" where
  "report cnt = [Move_cursor 1 2, Printf (''> [SEND TASK] totally send package %d !        '' @ newline) [cnt]]"

fun send_task_loop :: "'d nic \<Rightarrow> mac \<Rightarrow> nat \<Rightarrow> u32 \<Rightarrow> 'd net \<Rightarrow> outp list \<Rightarrow> ('d net \<times> outp list) option" where
  "send_task_loop N mac 0 cnt s log = Some (s, log)"
| "send_task_loop N mac (Suc i) cnt s log = do {
     s \<leftarrow> do_net_send N (td mac) (td_phy mac) s;
     let cnt = cnt + word_of_nat PNUM;
     send_task_loop N mac i cnt s (log @ report cnt)
   }"

definition phy_regs_task1 :: "'d nic \<Rightarrow> mac \<Rightarrow> 'd net \<Rightarrow> ('d net \<times> outp list) option" where
  "phy_regs_task1 N test_mac s =
    (let (mac, s) = send_desc_init (task_mac test_mac) s;
         s = task_setup N mac s
     in send_task_loop N mac 4 0 s
       [Move_cursor 1 2, Printf (''> [SEND TASK] start send package.               '' @ newline) []])"

section \<open>The receive task and the initialisation task\<close>

text \<open>\<open>phy_regs_task2\<close>: the set-up, and one round of its endless loop, which is cut at
  \<open>sys_wait_recv_package\<close>: \<open>recv_task_ask\<close> ends in another process when the task has to wait,
  and \<open>recv_task_resume\<close> runs when the task does.\<close>

definition recv_task_setup :: "'d nic \<Rightarrow> mac \<Rightarrow> 'd net \<Rightarrow> mac \<times> 'd net \<times> outp list" where
  "recv_task_setup N test_mac s =
    (let (mac, s) = recv_desc_init (task_mac test_mac) s;
         s = task_setup N mac s;
         s = s\<lparr>kern := (kern s)\<lparr>kmem := queue_init (kmem (kern s)) (recv_block_queue (kern s))\<rparr>\<rparr>
     in (mac, s, [Move_cursor 1 1, Printf ''[RECV TASK] start recv:                    '' [], Move_cursor 1 1]))"

definition recv_task_ask :: "'d nic \<Rightarrow> mac \<Rightarrow> 'd net \<Rightarrow> (bool \<times> 'd net \<times> outp list) option" where
  "recv_task_ask N mac s =
    (let s = do_net_recv N (rd mac) (rd_phy mac) (daddr mac) s;
         Recv_desc = rd mac + (word_of_nat PNUM - 1) * 16
     in if load Recv_desc s AND 0x80000000 = 0x80000000 then do {
          s \<leftarrow> do_wait_recv_package s;
          Some (True, s, [Printf (''> [RECV TASK] waiting receive package.'' @ newline) []])
        }
        else Some (False, s, []))"

definition recv_task_resume :: "'d nic \<Rightarrow> bool \<Rightarrow> u32 \<Rightarrow> 'd net \<Rightarrow> u32 \<times> 'd net \<times> outp list" where
  "recv_task_resume N waited i s =
    (let s = (if waited then clear_interrupt N s else s);
         (i, log) = check_recv i
     in (i, s, log))"

definition phy_regs_task3 :: "'d nic \<Rightarrow> mac \<Rightarrow> 'd net \<Rightarrow> ('d net \<times> outp list) option" where
  "phy_regs_task3 N test_mac s = do {
     s \<leftarrow> do_init_mac N test_mac s;
     Some (s, [Move_cursor 1 1, Printf (''> [INIT] Waiting for MAC initialization .'' @ newline) [],
       Move_cursor 1 1, Printf (''> [INIT] MAC initialization succeeded.           '' @ newline) []])
   }"

section \<open>Addresses\<close>

text \<open>A region of memory, and where the words of an array stand.\<close>

definition region :: "u32 \<Rightarrow> nat \<Rightarrow> u32 set" where
  "region a n = {x. unat a \<le> unat x \<and> unat x < unat a + n}"

lemma unat_offset: "unat (a :: u32) + k < 2 ^ 32 \<Longrightarrow> unat (a + word_of_nat k) = unat a + k"
  by (simp add: unat_word_ariths unat_of_nat take_bit_eq_mod)

text \<open>The unmapped, uncached window of the processor through which kernel and card see the same
  physical memory.\<close>

definition kseg1 :: "u32 \<Rightarrow> u32" where
  "kseg1 p = (p AND 0x1fffffff) OR 0xa0000000"

definition in_kseg1 :: "u32 \<Rightarrow> nat \<Rightarrow> bool" where
  "in_kseg1 a n \<longleftrightarrow> 0xa0000000 \<le> unat a \<and> unat a + n \<le> 0xc0000000"

lemma kseg1_id:
  assumes "0xa0000000 \<le> unat a" and "unat a < 0xc0000000"
  shows "kseg1 a = a" and "kseg1 (a AND 0x1fffffff) = a"
proof -
  define x where "x = unat a - 0xa0000000"
  have x: "x < 2 ^ 29" "unat a = 0xa0000000 + x" using assms by (simp_all add: x_def)
  have m: "a AND 0x1fffffff = take_bit 29 a" by (simp add: take_bit_eq_mask mask_eq_exp_minus_1)
  have t: "unat (take_bit 29 a) = x"
  proof -
    have "unat (take_bit 29 a) = (5 * 2 ^ 29 + x) mod 2 ^ 29" 
      by (simp only: unsigned_take_bit_eq) (simp add: take_bit_eq_mod x(2))
    also have "\<dots> = x" using x(1) by (simp only: mod_mult_self3 mod_less)
    finally show ?thesis .
  qed
  have "\<not> bit (take_bit 29 a) n \<or> \<not> bit (0xa0000000 :: u32) n" for n
  proof (cases "n < 29")
    case True
    have "(0xa0000000 :: u32) = push_bit 29 5" by simp
    then show ?thesis using True by (simp only: bit_push_bit_iff) auto
  qed (simp add: bit_take_bit_iff)
  then have "take_bit 29 a OR 0xa0000000 = take_bit 29 a + 0xa0000000" by (rule disjunctive_add[symmetric])
  moreover have "take_bit 29 a + 0xa0000000 = a"
    using t x by (simp add: word_unat_eq_iff unat_word_ariths)
  ultimately show "kseg1 a = a" by (simp add: kseg1_def m)
  then show "kseg1 (a AND 0x1fffffff) = a" by (simp add: kseg1_def and.assoc)
qed

lemma desc_word: "desc_at a i + word_of_nat k = a + word_of_nat (16 * i + k)"
  by (simp add: desc_at_def)

lemma tdes_words: "desc_at a i + tdes0 = a + word_of_nat (16 * i)" "desc_at a i + tdes1 = a + word_of_nat (16 * i + 4)"
  "desc_at a i + tdes2 = a + word_of_nat (16 * i + 8)" "desc_at a i + tdes3 = a + word_of_nat (16 * i + 12)"
  by (simp_all add: layout desc_at_def)

lemma offset_eq:
  assumes "unat (a :: u32) + i < 2 ^ 32" and "unat a + j < 2 ^ 32"
  shows "a + word_of_nat i = a + word_of_nat j \<longleftrightarrow> i = j"
  using word_of_nat_inj32[of i j] assms by simp

lemma mem_region: "unat a + n \<le> 2 ^ 32 \<Longrightarrow> k < n \<Longrightarrow> a + word_of_nat k \<in> region a n"
  by (simp add: region_def unat_offset)

section \<open>Writing descriptors\<close>

lemma load_save [simp]: "load a (save b v s) = (if a = b then v else load a s)"
  by (simp add: load_def save_def)

lemma save_simps [simp]: "dev (save a v s) = dev s" "DMA_recv_desc (save a v s) = DMA_recv_desc s"
  "DMA_send_desc (save a v s) = DMA_send_desc s" "buffer (save a v s) = buffer s"
  "pcb (kern (save a v s)) = pcb (kern s)" "recv_block_queue (kern (save a v s)) = recv_block_queue (kern s)"
  "ready_queue (kern (save a v s)) = ready_queue (kern s)" "current_running (kern (save a v s)) = current_running (kern s)"
  by (simp_all add: save_def)

text \<open>The four words of a descriptor.\<close>

definition desc_is :: "'d net \<Rightarrow> u32 \<Rightarrow> nat \<Rightarrow> u32 \<times> u32 \<times> u32 \<times> u32 \<Rightarrow> bool" where
  "desc_is s a i w \<longleftrightarrow>
     (load (desc_at a i + tdes0) s, load (desc_at a i + tdes1) s, load (desc_at a i + tdes2) s, load (desc_at a i + tdes3) s) = w"

lemma desc_init_is:
  assumes "unat a + 1024 \<le> 2 ^ 32" and "i < 64"
  shows "desc_is (desc_init a i d0 d1 d2 d3 s) a i (d0, d1, d2, d3)"
    and "x \<notin> region (desc_at a i) 16 \<Longrightarrow> load x (desc_init a i d0 d1 d2 d3 s) = load x s"
proof -
  have o: "a + word_of_nat j = a + word_of_nat k \<longleftrightarrow> j = k" if "j < 1024" "k < 1024" for j k
    using offset_eq[of a j k] assms(1) that by simp
  have e: "(word_of_nat (16 * i + c) :: u32) = word_of_nat (16 * i + d) \<longleftrightarrow> c = d" if "c < 16" "d < 16" for c d
    using word_of_nat_inj32[of "16 * i + c" "16 * i + d"] that assms(2) by simp
  have n: "desc_at a i + tdes0 \<noteq> desc_at a i + tdes1" "desc_at a i + tdes0 \<noteq> desc_at a i + tdes2" "desc_at a i + tdes0 \<noteq> desc_at a i + tdes3"
    "desc_at a i + tdes1 \<noteq> desc_at a i + tdes2" "desc_at a i + tdes1 \<noteq> desc_at a i + tdes3" "desc_at a i + tdes2 \<noteq> desc_at a i + tdes3"
    by (simp_all add: layout)
  then show "desc_is (desc_init a i d0 d1 d2 d3 s) a i (d0, d1, d2, d3)"
    by (simp add: desc_is_def desc_init_def Let_def n[symmetric] del: add_left_cancel)
  assume x: "x \<notin> region (desc_at a i) 16"
  have "desc_at a i + word_of_nat k \<in> region (desc_at a i) 16" if "k < 16" for k
  proof (rule mem_region[OF _ that])
    have "unat (desc_at a i) = unat a + 16 * i"
      using unat_offset[of a "16 * i"] assms by (simp add: desc_at_def)
    then show "unat (desc_at a i) + 16 \<le> 2 ^ 32" using assms by simp
  qed
  from this[of 0] this[of 4] this[of 8] this[of 12] show "load x (desc_init a i d0 d1 d2 d3 s) = load x s"
    using x by (auto simp: desc_init_def Let_def layout)
qed

lemma desc_region:
  assumes "unat a + 1024 \<le> 2 ^ 32" and "i < 64"
  shows "region (desc_at a i) 16 \<subseteq> region a 1024"
    and "j < 64 \<Longrightarrow> j \<noteq> i \<Longrightarrow> k < 16 \<Longrightarrow> desc_at a j + word_of_nat k \<notin> region (desc_at a i) 16"
proof -
  have u: "unat (desc_at a j) = unat a + 16 * j" if "j < 64" for j
    using unat_offset[of a "16 * j"] assms(1) that by (simp add: desc_at_def)
  show "region (desc_at a i) 16 \<subseteq> region a 1024" using u[OF assms(2)] assms(2) by (auto simp: region_def)
  show "desc_at a j + word_of_nat k \<notin> region (desc_at a i) 16" if "j < 64" "j \<noteq> i" "k < 16"
  proof -
    have "unat (desc_at a j + word_of_nat k) = unat a + 16 * j + k"
      using unat_offset[of "desc_at a j" k] u[OF that(1)] that assms(1) by simp
    then show ?thesis using u[OF assms(2)] that by (auto simp: region_def)
  qed
qed

lemma desc_words: "tdes0 = word_of_nat 0" "tdes1 = word_of_nat 4" "tdes2 = word_of_nat 8" "tdes3 = word_of_nat 12"
  by (simp_all add: layout)

lemma desc_is_frame:
  assumes "desc_is s a j w" and "\<And>x. x \<in> region (desc_at a j) 16 \<Longrightarrow> load x t = load x s"
    and "unat a + 1024 \<le> 2 ^ 32" and "j < 64"
  shows "desc_is t a j w"
proof -
  have "unat (desc_at a j) = unat a + 16 * j" using unat_offset[of a "16 * j"] assms(3,4) by (simp add: desc_at_def)
  then have "desc_at a j + word_of_nat k \<in> region (desc_at a j) 16" if "k < 16" for k
    using that assms(3,4) by (intro mem_region) simp_all
  from this[of 0] this[of 4] this[of 8] this[of 12] show ?thesis
    using assms(1,2) unfolding desc_is_def desc_words by simp
qed

text \<open>A loop that fills in all descriptors of an array.\<close>

lemma fill_descs:
  fixes s :: "'d net" and addr :: "'d net \<Rightarrow> u32"
  assumes fits: "unat a + 1024 \<le> 2 ^ 32" and n: "n \<le> 64"
    and addr: "addr s = a" "\<And>i t w0 w1 w2 w3. addr t = a \<Longrightarrow> addr (desc_init a i w0 w1 w2 w3 t) = a"
    and body: "\<And>i t. addr t = a \<Longrightarrow> body i t = desc_init a i (own i) (cfg i) (bufs i) (link i) t"
  shows "addr (fold body [0..<n] s) = a \<and> dev (fold body [0..<n] s) = dev s \<and>
    (\<forall>i < n. desc_is (fold body [0..<n] s) a i (own i, cfg i, bufs i, link i)) \<and>
    (\<forall>x. x \<notin> region a 1024 \<longrightarrow> load x (fold body [0..<n] s) = load x s)"
  using n
proof (induction n)
  case (Suc n)
  let ?t = "fold body [0..<n] s"
  have t: "addr ?t = a" "dev ?t = dev s" "\<forall>i < n. desc_is ?t a i (own i, cfg i, bufs i, link i)"
    "\<forall>x. x \<notin> region a 1024 \<longrightarrow> load x ?t = load x s" using Suc by simp_all
  have b: "fold body [0..<Suc n] s = desc_init a n (own n) (cfg n) (bufs n) (link n) ?t" using body[OF t(1), of n] by simp
  note di = desc_init_is[OF fits, of n]
  have "addr (fold body [0..<Suc n] s) = a" unfolding b by (rule addr(2)[OF t(1)])
  moreover have "dev (fold body [0..<Suc n] s) = dev s" unfolding b by (simp add: desc_init_def Let_def t(2))
  moreover have "\<forall>i < Suc n. desc_is (fold body [0..<Suc n] s) a i (own i, cfg i, bufs i, link i)"
  proof (intro allI impI)
    fix i assume "i < Suc n"
    show "desc_is (fold body [0..<Suc n] s) a i (own i, cfg i, bufs i, link i)"
    proof (cases "i = n")
      case True
      then show ?thesis unfolding b using di(1) Suc.prems by simp
    next
      case False
      then have i: "i < n" using \<open>i < Suc n\<close> by simp
      have "region (desc_at a i) 16 \<inter> region (desc_at a n) 16 = {}"
      proof -
        have u: "unat (desc_at a j) = unat a + 16 * j" if "j < 64" for j
          using unat_offset[of a "16 * j"] fits that by (simp add: desc_at_def)
        show ?thesis using u[of i] u[of n] i Suc.prems by (auto simp: region_def)
      qed
      then have "x \<notin> region (desc_at a n) 16" if "x \<in> region (desc_at a i) 16" for x using that by blast
      then show ?thesis unfolding b
        using i Suc.prems by (intro desc_is_frame[OF t(3)[rule_format, OF i] _ fits]) (simp_all add: di(2))
    qed
  qed
  moreover have "\<forall>x. x \<notin> region a 1024 \<longrightarrow> load x (fold body [0..<Suc n] s) = load x s"
  proof (intro allI impI)
    fix x assume x: "x \<notin> region a 1024"
    then have "x \<notin> region (desc_at a n) 16" using desc_region(1)[OF fits, of n] Suc.prems by auto
    then show "load x (fold body [0..<Suc n] s) = load x s" unfolding b using Suc.prems x t(4) by (simp add: di(2))
  qed
  ultimately show ?case by blast
qed (use addr in auto)

section \<open>Descriptor rings\<close>

text \<open>The descriptors of an array form a ring through the physical addresses in \<open>tdes3\<close>, and the
  buffers of the descriptors follow each other from \<open>buf\<close> on.\<close>

definition ring :: "'d net \<Rightarrow> u32 \<Rightarrow> u32 \<Rightarrow> bool" where
  "ring s desc buf \<longleftrightarrow>
     (\<forall>i < PNUM. load (desc_at desc i + tdes1) s AND 0x7ff = 0x400 \<and>
        load (desc_at desc i + tdes2) s = buf + word_of_nat (1024 * i) \<and>
        load (desc_at desc i + tdes3) s = desc_at desc ((i + 1) mod PNUM) AND 0x1fffffff)"

lemma ringI:
  assumes "\<forall>i < 64. desc_is s desc i (d0 i, d1 i, buf + word_of_nat i * 1024, desc_at desc (if i = 63 then 0 else i + 1) AND 0x1fffffff)"
    and "\<And>i. d1 i AND 0x7ff = 0x400"
  shows "ring s desc buf"
proof -
  have "(i + 1) mod 64 = (if i = 63 then 0 else i + 1)" if "i < 64" for i :: nat using that by simp
  then show ?thesis using assms by (simp add: ring_def desc_is_def PNUM_def mult.commute)
qed

lemma desc_init_simps [simp]: "DMA_recv_desc (desc_init a i w0 w1 w2 w3 t) = DMA_recv_desc t"
  "DMA_send_desc (desc_init a i w0 w1 w2 w3 t) = DMA_send_desc t" "buffer (desc_init a i w0 w1 w2 w3 t) = buffer t"
  by (simp_all add: desc_init_def Let_def)

lemma desc_init_kern:
  "pcb (kern (desc_init a i w0 w1 w2 w3 t)) = pcb (kern t)" "ready_queue (kern (desc_init a i w0 w1 w2 w3 t)) = ready_queue (kern t)"
  by (simp_all add: desc_init_def Let_def)

lemma fold_keeps: "(\<And>i t. f (body i t) = f t) \<Longrightarrow> f (fold body xs s) = f s"
  by (induction xs arbitrary: s) simp_all

lemma send_ring:
  assumes "unat (DMA_send_desc s) + 1024 \<le> 2 ^ 32" and "psize mac = 1024"
  obtains s' where "send_desc_init mac s = (mac\<lparr>saddr := SEND_ADDR, saddr_phy := SEND_ADDR_PHY, td := DMA_send_desc s, td_phy := DMA_send_desc s AND 0x1fffffff\<rparr>, s')"
    and "ring s' (DMA_send_desc s) SEND_ADDR" and "\<forall>i < PNUM. load (desc_at (DMA_send_desc s) i + tdes0) s' = 0"
    and "\<forall>x. x \<notin> region (DMA_send_desc s) 1024 \<longrightarrow> load x s' = load x s"
    and "dev s' = dev s" and "DMA_send_desc s' = DMA_send_desc s" and "buffer s' = buffer s" and "DMA_recv_desc s' = DMA_recv_desc s"
proof -
  let ?a = "DMA_send_desc s"
  let ?body = "\<lambda>i s. if i = PNUM - 1
    then desc_init (DMA_send_desc s) i 0x00000000 0x63000400 (SEND_ADDR + word_of_nat i * 1024) (desc_at (DMA_send_desc s) 0 AND 0x1fffffff) s
    else desc_init (DMA_send_desc s) i 0x00000000 0x61000400 (SEND_ADDR + word_of_nat i * 1024) (desc_at (DMA_send_desc s) (i + 1) AND 0x1fffffff) s"
  let ?s = "fold ?body [0..<64] s"
  have f: "DMA_send_desc ?s = ?a \<and> dev ?s = dev s \<and>
      (\<forall>i < 64. desc_is ?s ?a i (0, if i = 63 then 0x63000400 else 0x61000400, SEND_ADDR + word_of_nat i * 1024,
        desc_at ?a (if i = 63 then 0 else i + 1) AND 0x1fffffff)) \<and>
      (\<forall>x. x \<notin> region ?a 1024 \<longrightarrow> load x ?s = load x s)"
    by (rule fill_descs[where own = "\<lambda>_. 0" and cfg = "\<lambda>i. if i = 63 then 0x63000400 else 0x61000400"
          and bufs = "\<lambda>i. SEND_ADDR + word_of_nat i * 1024" and link = "\<lambda>i. desc_at ?a (if i = 63 then 0 else i + 1) AND 0x1fffffff"])
       (use assms(1) in \<open>simp_all add: PNUM_def\<close>)
  have eq: "send_desc_init mac s = (mac\<lparr>saddr := SEND_ADDR, saddr_phy := SEND_ADDR_PHY, td := ?a, td_phy := ?a AND 0x1fffffff\<rparr>, ?s)"
    by (simp add: send_desc_init_def Let_def assms(2) PNUM_def cong: if_cong)
  have r: "ring ?s ?a SEND_ADDR" by (rule ringI[of _ _ "\<lambda>_. 0" "\<lambda>i. if i = 63 then 0x63000400 else 0x61000400"]) (use f in auto)
  have z: "\<forall>i < PNUM. load (desc_at ?a i + tdes0) ?s = 0" using f by (simp add: desc_is_def PNUM_def)
  have b: "buffer ?s = buffer s" "DMA_recv_desc ?s = DMA_recv_desc s" by (rule fold_keeps, simp)+
  show thesis by (rule that[OF eq r z]) (use f b in auto)
qed

lemma recv_ring:
  assumes "unat (DMA_recv_desc s) + 1024 \<le> 2 ^ 32" and "psize mac = 1024"
  obtains s' where "recv_desc_init mac s = (mac\<lparr>daddr := RECV_ADDR, daddr_phy := RECV_ADDR_PHY, rd := DMA_recv_desc s, rd_phy := DMA_recv_desc s AND 0x1fffffff\<rparr>, s')"
    and "ring s' (DMA_recv_desc s) RECV_ADDR" and "\<forall>i < PNUM. load (desc_at (DMA_recv_desc s) i + tdes0) s' = 0x80000000"
    and "\<forall>x. x \<notin> region (DMA_recv_desc s) 1024 \<longrightarrow> load x s' = load x s"
    and "dev s' = dev s" and "DMA_send_desc s' = DMA_send_desc s" and "buffer s' = buffer s" and "DMA_recv_desc s' = DMA_recv_desc s"
proof -
  let ?a = "DMA_recv_desc s"
  let ?body = "\<lambda>i s. if i = PNUM - 1
    then desc_init (DMA_recv_desc s) i 0x80000000 0x03000400 (RECV_ADDR + word_of_nat i * 1024) (desc_at (DMA_recv_desc s) 0 AND 0x1fffffff) s
    else desc_init (DMA_recv_desc s) i 0x80000000 0x01000400 (RECV_ADDR + word_of_nat i * 1024) (desc_at (DMA_recv_desc s) (i + 1) AND 0x1fffffff) s"
  let ?s = "fold ?body [0..<64] s"
  have f: "DMA_recv_desc ?s = ?a \<and> dev ?s = dev s \<and>
      (\<forall>i < 64. desc_is ?s ?a i (0x80000000, if i = 63 then 0x03000400 else 0x01000400, RECV_ADDR + word_of_nat i * 1024,
        desc_at ?a (if i = 63 then 0 else i + 1) AND 0x1fffffff)) \<and>
      (\<forall>x. x \<notin> region ?a 1024 \<longrightarrow> load x ?s = load x s)"
    by (rule fill_descs[where own = "\<lambda>_. 0x80000000" and cfg = "\<lambda>i. if i = 63 then 0x03000400 else 0x01000400"
          and bufs = "\<lambda>i. RECV_ADDR + word_of_nat i * 1024" and link = "\<lambda>i. desc_at ?a (if i = 63 then 0 else i + 1) AND 0x1fffffff"])
       (use assms(1) in \<open>simp_all add: PNUM_def\<close>)
  have eq: "recv_desc_init mac s = (mac\<lparr>daddr := RECV_ADDR, daddr_phy := RECV_ADDR_PHY, rd := ?a, rd_phy := ?a AND 0x1fffffff\<rparr>, ?s)"
    by (simp add: recv_desc_init_def Let_def assms(2) PNUM_def cong: if_cong)
  have r: "ring ?s ?a RECV_ADDR" by (rule ringI[of _ _ "\<lambda>_. 0x80000000" "\<lambda>i. if i = 63 then 0x03000400 else 0x01000400"]) (use f in auto)
  have z: "\<forall>i < PNUM. load (desc_at ?a i + tdes0) ?s = 0x80000000" using f by (simp add: desc_is_def PNUM_def)
  have b: "buffer ?s = buffer s" "DMA_send_desc ?s = DMA_send_desc s" by (rule fold_keeps, simp)+
  show thesis by (rule that[OF eq r z]) (use f b in auto)
qed

text \<open>No two of the buffers of the descriptors of two arrays overlap.\<close>

definition buffers_disjoint :: "'d net \<Rightarrow> u32 \<Rightarrow> u32 \<Rightarrow> bool" where
  "buffers_disjoint s a b \<longleftrightarrow>
     (\<forall>i < PNUM. \<forall>j < PNUM. (a = b \<longrightarrow> i \<noteq> j) \<longrightarrow>
        region (load (desc_at a i + tdes2) s) 1024 \<inter> region (load (desc_at b j + tdes2) s) 1024 = {})"

text \<open>
  C26: The descriptors that the tasks set up: both arrays are rings, linked by physical addresses, the
  card owns all receive descriptors and none of the send descriptors, and the 128 buffers of 1024
  bytes are disjoint. The descriptors name their buffers by the virtual addresses of the kernel
  (\<open>SEND_ADDR\<close> and \<open>RECV_ADDR\<close>, in the unmapped segment at 0xa0000000), not by physical ones.
\<close>

theorem descriptor_rings:
  assumes "region (DMA_send_desc s) 1024 \<inter> region (DMA_recv_desc s) 1024 = {}"
    and "unat (DMA_send_desc s) + 1024 \<le> 2 ^ 32" and "unat (DMA_recv_desc s) + 1024 \<le> 2 ^ 32"
  shows "\<exists>mac1 s1 mac2 s2. send_desc_init (task_mac m1) s = (mac1, s1) \<and> recv_desc_init (task_mac m2) s1 = (mac2, s2) \<and>
    ring s2 (DMA_send_desc s) SEND_ADDR \<and> ring s2 (DMA_recv_desc s) RECV_ADDR \<and>
    (\<forall>i < PNUM. load (desc_at (DMA_send_desc s) i + tdes0) s2 = 0 \<and>
       load (desc_at (DMA_recv_desc s) i + tdes0) s2 = 0x80000000) \<and>
    buffers_disjoint s2 (DMA_send_desc s) (DMA_send_desc s) \<and> buffers_disjoint s2 (DMA_recv_desc s) (DMA_recv_desc s) \<and>
    buffers_disjoint s2 (DMA_send_desc s) (DMA_recv_desc s)"
proof -
  let ?S = "DMA_send_desc s" and ?R = "DMA_recv_desc s"
  have p: "psize (task_mac m) = 1024" for m by (simp add: task_mac_def PSIZE_def)
  obtain mac1 s1 where s1: "send_desc_init (task_mac m1) s = (mac1, s1)" "ring s1 ?S SEND_ADDR"
    "\<forall>i < PNUM. load (desc_at ?S i + tdes0) s1 = 0" "DMA_recv_desc s1 = ?R" "DMA_send_desc s1 = ?S"
    using send_ring[OF assms(2) p[of m1]] by metis
  obtain mac2 s2 where s2: "recv_desc_init (task_mac m2) s1 = (mac2, s2)" "ring s2 ?R RECV_ADDR"
    "\<forall>i < PNUM. load (desc_at ?R i + tdes0) s2 = 0x80000000" "\<forall>x. x \<notin> region ?R 1024 \<longrightarrow> load x s2 = load x s1"
    using recv_ring[of s1 "task_mac m2"] assms(3) p[of m2] unfolding s1(4) by metis
  have keep: "load (desc_at ?S i + word_of_nat k) s2 = load (desc_at ?S i + word_of_nat k) s1" if "i < PNUM" "k < 16" for i k
  proof -
    have "desc_at ?S i + word_of_nat k \<in> region ?S 1024"
      unfolding desc_word by (rule mem_region[OF assms(2)]) (use that in \<open>simp add: PNUM_def\<close>)
    then show ?thesis using s2(4) assms(1) by blast
  qed
  have r: "ring s2 ?S SEND_ADDR" 
    using s1(2) keep[of _ 4] keep[of _ 8] keep[of _ 12] by (simp add: ring_def desc_words)
  have z: "\<forall>i < PNUM. load (desc_at ?S i + tdes0) s2 = 0" using s1(3) keep[of _ 0] by (simp add: desc_words)
  have u: "unat (SEND_ADDR + word_of_nat (1024 * i)) = 0xa0830000 + 1024 * i" "unat (RECV_ADDR + word_of_nat (1024 * i)) = 0xa0820000 + 1024 * i"
    if "i < PNUM" for i
    using that unat_offset[of SEND_ADDR "1024 * i"] unat_offset[of RECV_ADDR "1024 * i"]
    by (simp_all add: SEND_ADDR_def RECV_ADDR_def PNUM_def)
  have b: "load (desc_at ?S i + tdes2) s2 = SEND_ADDR + word_of_nat (1024 * i)" "load (desc_at ?R i + tdes2) s2 = RECV_ADDR + word_of_nat (1024 * i)"
    if "i < PNUM" for i using r s2(2) that by (simp_all add: ring_def)
  have d1: "region (SEND_ADDR + word_of_nat (1024 * i)) 1024 \<inter> region (RECV_ADDR + word_of_nat (1024 * j)) 1024 = {}" if "i < PNUM" "j < PNUM" for i j
    using u[OF that(1)] u[OF that(2)] that by (auto simp: region_def PNUM_def)
  have d2: "region (a + word_of_nat (1024 * i)) 1024 \<inter> region (a + word_of_nat (1024 * j)) 1024 = {}"
    if "i < PNUM" "j < PNUM" "i \<noteq> j" "a = SEND_ADDR \<or> a = RECV_ADDR" for i j a
    using u[OF that(1)] u[OF that(2)] that by (auto simp: region_def)
  have "buffers_disjoint s2 ?S ?S" "buffers_disjoint s2 ?R ?R" "buffers_disjoint s2 ?S ?R"
    using b d1 d2 by (auto simp: buffers_disjoint_def)
  then show ?thesis using s1(1) s2(1,2,3) r z by blast
qed

end
