(* ===== verification/Mac_Send.thy ===== *)
theory Mac_Send
  imports Mac
begin

text \<open>
  What the driver of the network card does, for cards that behave as documented: the send task
  and every wait of it, the hardware address, the receive interrupt, and a concrete card.
\<close>

section \<open>Sending\<close>

abbreviation CTL :: u32 where "CTL \<equiv> DMA_BASE_ADDR + 0x18"

lemma ctl_simps [simp]: "GMAC_BASE_ADDR \<noteq> CTL" "CTL \<noteq> GMAC_BASE_ADDR"
  by (simp_all add: GMAC_BASE_ADDR_def DMA_BASE_ADDR_def)

text \<open>The packet of a descriptor: the words of its buffer, as many as its size says.\<close>

definition packet :: "mem \<Rightarrow> u32 \<Rightarrow> u32 list" where
  "packet m d = map (\<lambda>j. m (kseg1 (m (d + tdes2)) + word_of_nat (4 * j))) [0..<unat (m (d + tdes1) AND 0x7ff) div 4]"

lemma shift_own: "drop_bit 31 (w :: u32) = 0 \<longleftrightarrow> \<not> bit w 31"
proof -
  have "bit (drop_bit 31 w) n \<longleftrightarrow> n = 0 \<and> bit w 31" for n
    using bit_imp_le_length[of w "31 + n"] by (cases n) (auto simp: bit_drop_bit_eq)
  then show ?thesis by (metis bit_0_eq bot_apply bot_bool_def bit_eq_iff)
qed

lemma own_cleared: "\<not> bit ((w :: u32) AND 0x7fffffff) 31"
proof -
  have "(0x7fffffff :: u32) = mask 31" by (simp add: mask_eq_exp_minus_1)
  then show ?thesis by (simp add: bit_and_iff bit_mask_iff)
qed

lemma own_set: "bit ((w :: u32) OR 0x80000000) 31"
proof -
  have "(0x80000000 :: u32) = 2 ^ 31" by simp
  then show ?thesis by (simp add: bit_or_iff bit_exp_iff)
qed

text \<open>
  What the driver relies on when it sends. \<open>reg\<close> gives the two control registers, \<open>cur\<close> the
  physical address of the descriptor the transmitter is at, \<open>sent\<close> the packets sent so far and
  \<open>lag\<close> how often the transmitter still idles before it sends. The transmitter is on when the
  transmit bits of both registers are set; when it is on and owns its descriptor it sends the
  packet after a while, gives the descriptor back and goes on to the next one of the chain.
\<close>

locale transmitter =
  fixes N :: "'d nic" and reg :: "'d \<Rightarrow> u32 \<Rightarrow> u32" and cur :: "'d \<Rightarrow> u32"
    and sent :: "'d \<Rightarrow> u32 list list" and lag :: "'d \<Rightarrow> nat"
  assumes read_ctl: "a = GMAC_BASE_ADDR \<or> a = CTL \<Longrightarrow> fst (bus_read N a d) = reg d a"
    and read_keeps: "(a = GMAC_BASE_ADDR \<or> a = CTL \<longrightarrow> reg (snd (bus_read N b d)) a = reg d a) \<and>
      cur (snd (bus_read N b d)) = cur d \<and> sent (snd (bus_read N b d)) = sent d"
    and write_ctl: "b = GMAC_BASE_ADDR \<or> b = CTL \<Longrightarrow> reg (bus_write N a v d) b = (if a = b then v else reg d b)"
    and write_cur: "cur (bus_write N a v d) = (if a = DMA_BASE_ADDR + 0x10 then v else cur d)"
    and write_sent: "sent (bus_write N a v d) = sent d"
    and dma_ctl: "a = GMAC_BASE_ADDR \<or> a = CTL \<Longrightarrow> reg (snd (dma N m d)) a = reg d a"
    and dma_idle: "\<not> (bit (reg d GMAC_BASE_ADDR) 3 \<and> bit (reg d CTL) 13 \<and> bit (m (kseg1 (cur d) + tdes0)) 31) \<or> 0 < lag d \<Longrightarrow>
      fst (dma N m d) = m \<and> cur (snd (dma N m d)) = cur d \<and> sent (snd (dma N m d)) = sent d"
    and dma_lag: "bit (reg d GMAC_BASE_ADDR) 3 \<Longrightarrow> bit (reg d CTL) 13 \<Longrightarrow> bit (m (kseg1 (cur d) + tdes0)) 31 \<Longrightarrow> 0 < lag d \<Longrightarrow>
      lag (snd (dma N m d)) < lag d"
    and dma_sends: "bit (reg d GMAC_BASE_ADDR) 3 \<Longrightarrow> bit (reg d CTL) 13 \<Longrightarrow> bit (m (kseg1 (cur d) + tdes0)) 31 \<Longrightarrow> lag d = 0 \<Longrightarrow>
      fst (dma N m d) = m(kseg1 (cur d) + tdes0 := m (kseg1 (cur d) + tdes0) AND 0x7fffffff) \<and>
      cur (snd (dma N m d)) = m (kseg1 (cur d) + tdes3) \<and> sent (snd (dma N m d)) = sent d @ [packet m (kseg1 (cur d))]"
begin

definition on :: "'d \<Rightarrow> bool" where
  "on d \<longleftrightarrow> bit (reg d GMAC_BASE_ADDR) 3 \<and> bit (reg d CTL) 13"

definition ready :: "mem \<Rightarrow> 'd \<Rightarrow> bool" where
  "ready m d \<longleftrightarrow> on d \<and> bit (m (kseg1 (cur d) + tdes0)) 31"

text \<open>An access to a register while the transmitter has nothing to send.\<close>

lemma write_quiet:
  assumes "s' = reg_write_32 N a v s" and "\<not> ready (kmem (kern s)) (bus_write N a v (dev s))"
  shows "kern s' = kern s" and "cur (dev s') = (if a = DMA_BASE_ADDR + 0x10 then v else cur (dev s))"
    and "sent (dev s') = sent (dev s)" and "DMA_send_desc s' = DMA_send_desc s" and "buffer s' = buffer s"
    and "b = GMAC_BASE_ADDR \<or> b = CTL \<Longrightarrow> reg (dev s') b = (if a = b then v else reg (dev s) b)"
  using assms dma_idle[of "bus_write N a v (dev s)" "kmem (kern s)"] write_cur[of a v "dev s"] write_sent[of a v "dev s"]
    dma_ctl[of b "kmem (kern s)" "bus_write N a v (dev s)"] write_ctl[of b a v "dev s"]
  by (auto simp: reg_write_32_def card_runs_def case_prod_beta ready_def on_def)

lemma or_quiet:
  assumes "s' = reg_or N a v s" and "a = GMAC_BASE_ADDR \<or> a = CTL"
    and "\<not> bit (kmem (kern s) (kseg1 (cur (dev s)) + tdes0)) 31"
  shows "kern s' = kern s" and "cur (dev s') = cur (dev s)" and "sent (dev s') = sent (dev s)"
    and "DMA_send_desc s' = DMA_send_desc s" and "buffer s' = buffer s"
    and "b = GMAC_BASE_ADDR \<or> b = CTL \<Longrightarrow> reg (dev s') b = (if a = b then reg (dev s) b OR v else reg (dev s) b)"
proof -
  let ?t = "s\<lparr>dev := snd (bus_read N a (dev s))\<rparr>" and ?v = "reg (dev s) a OR v"
  have eq: "s' = reg_write_32 N a ?v ?t"
    using assms(1,2) read_ctl[of a "dev s"] by (simp add: reg_or_def reg_read_32_def case_prod_beta Let_def)
  have na: "a \<noteq> DMA_BASE_ADDR + 0x10" using assms(2) by (auto simp: GMAC_BASE_ADDR_def DMA_BASE_ADDR_def)
  have "\<not> ready (kmem (kern ?t)) (bus_write N a ?v (dev ?t))"
    using assms(3) na read_keeps[of a a "dev s"] by (simp add: ready_def write_cur)
  note w = write_quiet[OF eq this]
  show "kern s' = kern s" "cur (dev s') = cur (dev s)" "sent (dev s') = sent (dev s)"
    "DMA_send_desc s' = DMA_send_desc s" "buffer s' = buffer s"
    using w(1-5) na read_keeps[of a a "dev s"] by simp_all
  show "reg (dev s') b = (if a = b then reg (dev s) b OR v else reg (dev s) b)" if "b = GMAC_BASE_ADDR \<or> b = CTL"
    using w(6)[OF that] read_keeps[of b a "dev s"] that by auto
qed

text \<open>The transmitter sends its packet and is at a descriptor it does not own.\<close>

definition transmitted :: "'d net \<Rightarrow> 'd net \<Rightarrow> bool" where
  "transmitted s s' \<longleftrightarrow>
     (let d = kseg1 (cur (dev s)); m = kmem (kern s) in
      kern s' = (kern s)\<lparr>kmem := m(d + tdes0 := m (d + tdes0) AND 0x7fffffff)\<rparr> \<and>
      cur (dev s') = m (d + tdes3) \<and> sent (dev s') = sent (dev s) @ [packet m d] \<and> on (dev s') \<and>
      DMA_send_desc s' = DMA_send_desc s \<and> buffer s' = buffer s)"

lemma runs_cases:
  assumes "ready (kmem (kern s)) (dev s)"
  shows "lag (dev s) = 0 \<and> transmitted s (card_runs N s) \<or>
    (0 < lag (dev s) \<and> kern (card_runs N s) = kern s \<and> cur (dev (card_runs N s)) = cur (dev s) \<and>
     sent (dev (card_runs N s)) = sent (dev s) \<and> on (dev (card_runs N s)) \<and> lag (dev (card_runs N s)) < lag (dev s) \<and>
     DMA_send_desc (card_runs N s) = DMA_send_desc s \<and> buffer (card_runs N s) = buffer s)"
  using assms dma_idle[of "dev s" "kmem (kern s)"] dma_lag[of "dev s" "kmem (kern s)"] dma_sends[of "dev s" "kmem (kern s)"]
    dma_ctl[of GMAC_BASE_ADDR "kmem (kern s)" "dev s"] dma_ctl[of CTL "kmem (kern s)" "dev s"]
  by (cases "lag (dev s) = 0") (auto simp: card_runs_def case_prod_beta ready_def on_def transmitted_def Let_def)

text \<open>The waiting loop ends: when it is entered the transmitter has the descriptor or has already
  given it back.\<close>

lemma own_loop_sends:
  assumes "ready (kmem (kern s)) (dev s)" and "desc = kseg1 (cur (dev s))"
  shows "\<exists>s'. own_loop N desc s = Some s' \<and> transmitted s s'"
  using assms
proof (induction "lag (dev s)" arbitrary: s rule: less_induct)
  case less
  let ?t = "card_runs N s"
  from runs_cases[OF less(2)] show ?case
  proof
    assume a: "lag (dev s) = 0 \<and> transmitted s ?t"
    then have "\<not> bit (load (desc + tdes0) ?t) 31"
      using less(3) own_cleared by (simp add: transmitted_def Let_def load_def)
    then have "own_loop N desc s = Some ?t" by (subst own_loop.simps) (simp add: Let_def shift_own)
    then show ?thesis using a by blast
  next
    assume a: "0 < lag (dev s) \<and> kern ?t = kern s \<and> cur (dev ?t) = cur (dev s) \<and> sent (dev ?t) = sent (dev s) \<and> on (dev ?t) \<and>
      lag (dev ?t) < lag (dev s) \<and> DMA_send_desc ?t = DMA_send_desc s \<and> buffer ?t = buffer s"
    have "bit (load (desc + tdes0) ?t) 31" using less(2,3) a by (simp add: ready_def load_def)
    then have "own_loop N desc s = own_loop N desc ?t" by (subst own_loop.simps) (simp add: Let_def shift_own)
    moreover obtain s' where "own_loop N desc ?t = Some s'" "transmitted ?t s'"
      using less(1)[of ?t] a less(2,3) by (auto simp: ready_def)
    ultimately show ?thesis using a by (auto simp: transmitted_def Let_def)
  qed
qed

lemma own_loop_done:
  assumes "\<not> bit (load (desc + tdes0) s) 31" and "\<not> ready (kmem (kern s)) (dev s)"
  shows "\<exists>s'. own_loop N desc s = Some s' \<and> kern s' = kern s \<and> cur (dev s') = cur (dev s) \<and> sent (dev s') = sent (dev s) \<and>
    (on (dev s) \<longrightarrow> on (dev s')) \<and> DMA_send_desc s' = DMA_send_desc s \<and> buffer s' = buffer s"
proof -
  let ?t = "card_runs N s"
  have t: "kern ?t = kern s" "cur (dev ?t) = cur (dev s)" "sent (dev ?t) = sent (dev s)" "on (dev ?t) = on (dev s)"
    "DMA_send_desc ?t = DMA_send_desc s" "buffer ?t = buffer s"
    using assms(2) dma_idle[of "dev s" "kmem (kern s)"] dma_ctl[of GMAC_BASE_ADDR "kmem (kern s)" "dev s"] dma_ctl[of CTL "kmem (kern s)" "dev s"]
    by (auto simp: card_runs_def case_prod_beta ready_def on_def)
  then have "own_loop N desc s = Some ?t"
    using assms(1) by (subst own_loop.simps) (simp add: Let_def shift_own load_def)
  then show ?thesis using t by blast
qed

end

lemma copy_words_load:
  assumes "unat dst + 4 * n \<le> 2 ^ 32" and "unat src + 4 * n \<le> 2 ^ 32" and "region dst (4 * n) \<inter> region src (4 * n) = {}"
  shows "(\<forall>j < n. load (dst + word_of_nat (4 * j)) (copy_words dst src n s) = load (src + word_of_nat (4 * j)) s) \<and>
    (\<forall>x. x \<notin> region dst (4 * n) \<longrightarrow> load x (copy_words dst src n s) = load x s)"
proof -
  let ?body = "\<lambda>j s. save (dst + 4 * word_of_nat j) (load (src + 4 * word_of_nat j) s) s"
  have "(\<forall>j < k. load (dst + word_of_nat (4 * j)) (fold ?body [0..<k] s) = load (src + word_of_nat (4 * j)) s) \<and>
      (\<forall>x. x \<notin> region dst (4 * n) \<longrightarrow> load x (fold ?body [0..<k] s) = load x s)" if "k \<le> n" for k
    using that
  proof (induction k)
    case (Suc k)
    let ?t = "fold ?body [0..<k] s"
    have t: "\<forall>j < k. load (dst + word_of_nat (4 * j)) ?t = load (src + word_of_nat (4 * j)) s"
      "\<forall>x. x \<notin> region dst (4 * n) \<longrightarrow> load x ?t = load x s" using Suc by simp_all
    have "src + word_of_nat (4 * k) \<in> region src (4 * n)" by (rule mem_region[OF assms(2)]) (use Suc.prems in simp)
    then have v: "load (src + word_of_nat (4 * k)) ?t = load (src + word_of_nat (4 * k)) s" using t(2) assms(3) by blast
    have d: "dst + word_of_nat (4 * k) \<in> region dst (4 * n)" by (rule mem_region[OF assms(1)]) (use Suc.prems in simp)
    have e: "dst + word_of_nat (4 * j) = dst + word_of_nat (4 * k) \<longleftrightarrow> j = k" if "j \<le> k" for j
      using offset_eq[of dst "4 * j" "4 * k"] assms(1) Suc.prems that by simp
    have f: "fold ?body [0..<Suc k] s = save (dst + word_of_nat (4 * k)) (load (src + word_of_nat (4 * k)) s) ?t"
      using v by simp
    show ?case unfolding f
    proof (intro conjI allI impI)
      fix j assume "j < Suc k"
      then show "load (dst + word_of_nat (4 * j)) (save (dst + word_of_nat (4 * k)) (load (src + word_of_nat (4 * k)) s) ?t) =
          load (src + word_of_nat (4 * j)) s"
        using e[of j] t(1) by (auto simp: less_Suc_eq)
    next
      fix x assume "x \<notin> region dst (4 * n)"
      then show "load x (save (dst + word_of_nat (4 * k)) (load (src + word_of_nat (4 * k)) s) ?t) = load x s"
        using d t(2) by auto
    qed
  qed simp
  then show ?thesis unfolding copy_words_def by blast
qed

lemma copy_words_simps [simp]: "dev (copy_words dst src n s) = dev s" "DMA_send_desc (copy_words dst src n s) = DMA_send_desc s"
  "buffer (copy_words dst src n s) = buffer s"
  unfolding copy_words_def by (rule fold_keeps, simp)+

text \<open>Where the arrays of the sender are, and the state in which it can send: no descriptor is owned
  by the card.\<close>

definition send_layout :: "'d net \<Rightarrow> bool" where
  "send_layout s \<longleftrightarrow>
     in_kseg1 (DMA_send_desc s) 1024 \<and> in_kseg1 (buffer s) 1024 \<and>
     region (DMA_send_desc s) 1024 \<inter> region (buffer s) 1024 = {} \<and>
     region (DMA_send_desc s) 1024 \<inter> region SEND_ADDR 0x10000 = {} \<and>
     region (buffer s) 1024 \<inter> region SEND_ADDR 0x10000 = {}"

definition can_send :: "'d net \<Rightarrow> bool" where
  "can_send s \<longleftrightarrow> send_layout s \<and> ring s (DMA_send_desc s) SEND_ADDR \<and>
     (\<forall>i < PNUM. \<not> bit (load (desc_at (DMA_send_desc s) i + tdes0) s) 31)"

definition payload :: "'d net \<Rightarrow> u32 list" where
  "payload s = map (\<lambda>j. load (buffer s + word_of_nat (4 * j)) s) [0..<PSIZE]"

lemma desc_kseg1:
  assumes "in_kseg1 a 1024" and "i < 64"
  shows "kseg1 (desc_at a i AND 0x1fffffff) = desc_at a i" and "unat a + 1024 \<le> 2 ^ 32"
proof -
  have "unat (desc_at a i) = unat a + 16 * i" using unat_offset[of a "16 * i"] assms by (simp add: desc_at_def in_kseg1_def)
  then show "kseg1 (desc_at a i AND 0x1fffffff) = desc_at a i" using assms by (intro kseg1_id(2)) (simp_all add: in_kseg1_def)
  show "unat a + 1024 \<le> 2 ^ 32" using assms(1) by (simp add: in_kseg1_def)
qed

lemma send_buffer:
  assumes "i < 64"
  shows "region (SEND_ADDR + word_of_nat (1024 * i)) 1024 \<subseteq> region SEND_ADDR 0x10000"
    and "kseg1 (SEND_ADDR + word_of_nat (1024 * i)) = SEND_ADDR + word_of_nat (1024 * i)"
    and "unat (SEND_ADDR + word_of_nat (1024 * i)) + 1024 \<le> 2 ^ 32"
proof -
  have u: "unat (SEND_ADDR + word_of_nat (1024 * i)) = 0xa0830000 + 1024 * i"
    using assms unat_offset[of SEND_ADDR "1024 * i"] by (simp add: SEND_ADDR_def)
  show "region (SEND_ADDR + word_of_nat (1024 * i)) 1024 \<subseteq> region SEND_ADDR 0x10000"
    using u assms by (auto simp: region_def) (simp_all add: SEND_ADDR_def)
  show "kseg1 (SEND_ADDR + word_of_nat (1024 * i)) = SEND_ADDR + word_of_nat (1024 * i)"
    by (rule kseg1_id(1)) (use u assms in simp_all)
  show "unat (SEND_ADDR + word_of_nat (1024 * i)) + 1024 \<le> 2 ^ 32" using u assms by simp
qed

text \<open>Memory after the copy of the packet and the hand-over of descriptor \<open>i\<close>.\<close>

definition handed_over :: "nat \<Rightarrow> 'd net \<Rightarrow> 'd net" where
  "handed_over i s =
    (let d = desc_at (DMA_send_desc s) i;
         s = copy_words (load (d + tdes2) s) (buffer s) PSIZE s
     in save (d + tdes0) (load (d + tdes0) s OR 0x80000000) s)"

lemma handed_over_simps [simp]: "dev (handed_over i s) = dev s" "DMA_send_desc (handed_over i s) = DMA_send_desc s"
  "buffer (handed_over i s) = buffer s"
  by (simp_all add: handed_over_def Let_def)

lemma handed_over_load:
  assumes "can_send s" and "i < 64" and "d = desc_at (DMA_send_desc s) i"
  shows "x \<in> region (DMA_send_desc s) 1024 \<union> region (buffer s) 1024 \<Longrightarrow> x \<noteq> d + tdes0 \<Longrightarrow> load x (handed_over i s) = load x s"
    and "bit (load (d + tdes0) (handed_over i s)) 31"
    and "packet (kmem (kern (handed_over i s))) d = payload s"
proof -
  let ?D = "DMA_send_desc s" and ?b = "SEND_ADDR + word_of_nat (1024 * i)"
  have lay: "in_kseg1 ?D 1024" "in_kseg1 (buffer s) 1024" "region ?D 1024 \<inter> region SEND_ADDR 0x10000 = {}"
    "region (buffer s) 1024 \<inter> region SEND_ADDR 0x10000 = {}" and r: "ring s ?D SEND_ADDR"
    using assms(1) by (simp_all add: can_send_def send_layout_def)
  have db: "load (d + tdes2) s = ?b" "load (d + tdes1) s AND 0x7ff = 0x400" using r assms(2,3) by (simp_all add: ring_def PNUM_def)
  let ?t = "copy_words ?b (buffer s) PSIZE s"
  have ho: "handed_over i s = save (d + tdes0) (load (d + tdes0) ?t OR 0x80000000) ?t"
    using db(1) assms(3) by (simp add: handed_over_def Let_def)
  have fits: "unat ?D + 1024 \<le> 2 ^ 32" by (rule desc_kseg1(2)[OF lay(1), of i]) (use assms(2) in simp)
  have bf: "unat (buffer s) + 4 * PSIZE \<le> 2 ^ 32" using lay(2) by (simp add: in_kseg1_def PSIZE_def)
  have c: "\<forall>j < PSIZE. load (?b + word_of_nat (4 * j)) ?t = load (buffer s + word_of_nat (4 * j)) s"
    "\<forall>x. x \<notin> region ?b 1024 \<longrightarrow> load x ?t = load x s"
    using copy_words_load[of ?b PSIZE "buffer s" s] bf send_buffer(1,3)[OF assms(2)] lay(4) by (auto simp: PSIZE_def)
  have fr: "load x (handed_over i s) = load x s" if "x \<in> region ?D 1024 \<union> region (buffer s) 1024" "x \<noteq> d + tdes0" for x
    unfolding ho using c(2) that lay(3,4) send_buffer(1)[OF assms(2)] by auto
  then show "x \<in> region ?D 1024 \<union> region (buffer s) 1024 \<Longrightarrow> x \<noteq> d + tdes0 \<Longrightarrow> load x (handed_over i s) = load x s" .
  show "bit (load (d + tdes0) (handed_over i s)) 31" unfolding ho by (simp add: own_set)
  have dr: "d + word_of_nat k \<in> region ?D 1024" if "k < 16" for k
    unfolding assms(3) desc_word by (rule mem_region[OF fits]) (use that assms(2) in simp)
  have k: "load (d + tdes1) (handed_over i s) = load (d + tdes1) s" "load (d + tdes2) (handed_over i s) = ?b"
    using dr[of 4] dr[of 8] fr[of "d + tdes1"] fr[of "d + tdes2"] db(1) by (simp_all add: layout)
  have w: "load (?b + word_of_nat (4 * j)) (handed_over i s) = load (buffer s + word_of_nat (4 * j)) s" if "j < 256" for j
  proof -
    have "?b + word_of_nat (4 * j) \<in> region SEND_ADDR 0x10000"
      using mem_region[OF send_buffer(3)[OF assms(2)], of "4 * j"] send_buffer(1)[OF assms(2)] that by auto
    then have "?b + word_of_nat (4 * j) \<noteq> d + tdes0" using dr[of 0] lay(3) by (auto simp: layout)
    then show ?thesis unfolding ho using c(1) that by (simp add: PSIZE_def)
  qed
  show "packet (kmem (kern (handed_over i s))) d = payload s"
    using k w db(2) send_buffer(2)[OF assms(2)] by (simp add: packet_def payload_def load_def PSIZE_def)
qed

context transmitter
begin

lemma write_then_wait:
  assumes "ready (kmem (kern s)) (bus_write N a v (dev s))" and "desc = kseg1 (cur (bus_write N a v (dev s)))"
    and "\<not> bit (((kmem (kern s))(desc + tdes0 := kmem (kern s) (desc + tdes0) AND 0x7fffffff)) (kseg1 (kmem (kern s) (desc + tdes3)) + tdes0)) 31"
  shows "\<exists>s'. own_loop N desc (reg_write_32 N a v s) = Some s' \<and> transmitted (s\<lparr>dev := bus_write N a v (dev s)\<rparr>) s'"
proof -
  let ?u = "s\<lparr>dev := bus_write N a v (dev s)\<rparr>"
  let ?t = "card_runs N ?u"
  have w: "reg_write_32 N a v s = ?t" by (simp add: reg_write_32_def)
  have rd: "ready (kmem (kern ?u)) (dev ?u)" using assms(1) by simp
  from runs_cases[OF rd] show ?thesis
  proof
    assume a: "lag (dev ?u) = 0 \<and> transmitted ?u ?t"
    have "\<not> bit (load (desc + tdes0) ?t) 31" "\<not> ready (kmem (kern ?t)) (dev ?t)"
      using a assms(2,3) own_cleared by (simp_all add: transmitted_def Let_def load_def ready_def)
    from own_loop_done[OF this] obtain s' where s': "own_loop N desc ?t = Some s'" "kern s' = kern ?t" "cur (dev s') = cur (dev ?t)"
      "sent (dev s') = sent (dev ?t)" "on (dev ?t) \<longrightarrow> on (dev s')" "DMA_send_desc s' = DMA_send_desc ?t" "buffer s' = buffer ?t" by blast
    then have "transmitted ?u s'" using a by (simp add: transmitted_def Let_def)
    then show ?thesis using s'(1) w by auto
  next
    assume a: "0 < lag (dev ?u) \<and> kern ?t = kern ?u \<and> cur (dev ?t) = cur (dev ?u) \<and> sent (dev ?t) = sent (dev ?u) \<and> on (dev ?t) \<and>
      lag (dev ?t) < lag (dev ?u) \<and> DMA_send_desc ?t = DMA_send_desc ?u \<and> buffer ?t = buffer ?u"
    then have "ready (kmem (kern ?t)) (dev ?t)" "desc = kseg1 (cur (dev ?t))" using rd assms(2) by (simp_all add: ready_def)
    from own_loop_sends[OF this] obtain s' where "own_loop N desc ?t = Some s'" "transmitted ?t s'" by blast
    then show ?thesis using a w by (auto simp: transmitted_def Let_def)
  qed
qed

text \<open>The invariant of the loop of \<open>do_net_send\<close>.\<close>

definition sending :: "u32 \<Rightarrow> u32 \<Rightarrow> u32 list \<Rightarrow> u32 list list \<Rightarrow> nat \<Rightarrow> 'd net \<Rightarrow> bool" where
  "sending D B p ps i s \<longleftrightarrow>
     can_send s \<and> DMA_send_desc s = D \<and> buffer s = B \<and> payload s = p \<and> on (dev s) \<and>
     kseg1 (cur (dev s)) = desc_at D (i mod 64) \<and> sent (dev s) = ps @ replicate i p"

lemma send_one_sends:
  assumes s: "sending D B p ps i s" and i: "i < 64"
  shows "\<exists>s'. send_one N i s = Some s' \<and> sending D B p ps (Suc i) s'"
proof -
  let ?d = "desc_at D i" and ?h = "handed_over i s" and ?a = "DMA_BASE_ADDR + 0x4"
  let ?u = "?h\<lparr>dev := bus_write N ?a 0x01 (dev s)\<rparr>"
  have cs: "can_send s" and D: "DMA_send_desc s = D" and B: "buffer s = B" and p: "payload s = p" and o: "on (dev s)"
    and cur: "kseg1 (cur (dev s)) = ?d" and st: "sent (dev s) = ps @ replicate i p"
    using s i by (simp_all add: sending_def)
  have lay: "in_kseg1 D 1024" "region D 1024 \<inter> region B 1024 = {}" "in_kseg1 B 1024" and r: "ring s D SEND_ADDR"
    using cs D B by (simp_all add: can_send_def send_layout_def)
  have dD: "?d = desc_at (DMA_send_desc s) i" by (simp add: D)
  note ho = handed_over_load[OF cs i dD, unfolded D B]
  have fits: "unat D + 1024 \<le> 2 ^ 32" by (rule desc_kseg1(2)[OF lay(1) i])
  have wd: "desc_at D j + word_of_nat k \<in> region D 1024" if "j < 64" "k < 16" for j k
    unfolding desc_word by (rule mem_region[OF fits]) (use that in simp)
  have neq: "desc_at D j + word_of_nat k \<noteq> ?d + tdes0" if "j < 64" "k < 16" "j \<noteq> i \<or> k \<noteq> 0" for j k
  proof -
    have "16 * j + k \<noteq> 16 * i" using record_split[of 16 j k i 0] that(2,3) by auto
    moreover have "unat D + (16 * j + k) < 2 ^ 32" "unat D + 16 * i < 2 ^ 32" using fits that(1,2) i by simp_all
    ultimately show ?thesis unfolding desc_word tdes_words using offset_eq by blast
  qed
  have keep: "load (desc_at D j + word_of_nat k) ?h = load (desc_at D j + word_of_nat k) s" if "j < 64" "k < 16" "j \<noteq> i \<or> k \<noteq> 0" for j k
    using ho(1)[of "desc_at D j + word_of_nat k"] wd[OF that(1,2)] neq[OF that] by simp
  have bu: "cur (bus_write N ?a 0x01 (dev s)) = cur (dev s)" "sent (bus_write N ?a 0x01 (dev s)) = sent (dev s)" "on (bus_write N ?a 0x01 (dev s))"
    using o write_cur[of ?a "0x01" "dev s"] write_sent[of ?a "0x01" "dev s"] write_ctl[of GMAC_BASE_ADDR ?a "0x01" "dev s"] write_ctl[of CTL ?a "0x01" "dev s"]
    by (simp_all add: on_def GMAC_BASE_ADDR_def DMA_BASE_ADDR_def)
  have nx: "load (?d + tdes3) s = desc_at D (Suc i mod 64) AND 0x1fffffff" using r i by (simp add: ring_def PNUM_def)
  have nx': "load (?d + tdes3) ?h = desc_at D (Suc i mod 64) AND 0x1fffffff" using keep[of i 12] i nx by (simp add: desc_words)
  have kn: "kseg1 (desc_at D (Suc i mod 64) AND 0x1fffffff) = desc_at D (Suc i mod 64)" by (rule desc_kseg1(1)[OF lay(1)]) simp
  have "Suc i mod 64 \<noteq> i" using i by (cases "Suc i = 64") simp_all
  then have nn: "desc_at D (Suc i mod 64) + tdes0 \<noteq> ?d + tdes0" "load (desc_at D (Suc i mod 64) + tdes0) ?h = load (desc_at D (Suc i mod 64) + tdes0) s"
    using neq[of "Suc i mod 64" 0] keep[of "Suc i mod 64" 0] by (simp_all add: layout)
  have free: "\<not> bit (load (desc_at D j + tdes0) s) 31" if "j < 64" for j using cs D that by (simp add: can_send_def PNUM_def)
  obtain s' where s': "own_loop N ?d (reg_write_32 N ?a 0x01 ?h) = Some s'" "transmitted ?u s'"
  proof -
    have 1: "ready (kmem (kern ?h)) (bus_write N ?a 0x01 (dev ?h))" using bu cur ho(2) by (simp add: ready_def load_def)
    have 2: "?d = kseg1 (cur (bus_write N ?a 0x01 (dev ?h)))" using bu cur by simp
    have 3: "\<not> bit (((kmem (kern ?h))(?d + tdes0 := kmem (kern ?h) (?d + tdes0) AND 0x7fffffff)) (kseg1 (kmem (kern ?h) (?d + tdes3)) + tdes0)) 31"
      using nx' kn nn free[of "Suc i mod 64"] by (simp add: load_def)
    show thesis using write_then_wait[OF 1 2 3] that by auto
  qed
  have so: "send_one N i s = Some s'" using s'(1) D by (simp add: send_one_def handed_over_def Let_def)
  have m': "load x s' = (if x = ?d + tdes0 then load x ?h AND 0x7fffffff else load x ?h)" for x
    using s'(2) cur bu by (simp add: transmitted_def Let_def load_def)
  have kp: "load (desc_at D j + word_of_nat k) s' = load (desc_at D j + word_of_nat k) s" if "j < 64" "k < 16" "j \<noteq> i \<or> k \<noteq> 0" for j k
    using keep[OF that] neq[OF that] by (simp add: m')
  have bw: "load (B + word_of_nat (4 * j)) s' = load (B + word_of_nat (4 * j)) s" if "j < 256" for j
  proof -
    have x: "B + word_of_nat (4 * j) \<in> region B 1024" by (rule mem_region) (use lay(3) that in \<open>simp_all add: in_kseg1_def\<close>)
    then have "B + word_of_nat (4 * j) \<noteq> ?d + tdes0" using wd[OF i, of 0] lay(2) by (auto simp: layout)
    then show ?thesis using ho(1)[of "B + word_of_nat (4 * j)"] x by (simp add: m')
  qed
  have same: "DMA_send_desc s' = D" "buffer s' = B" "on (dev s')" "cur (dev s') = load (?d + tdes3) ?h" "sent (dev s') = sent (dev s) @ [payload s]"
    using s'(2) D B bu cur ho(3) by (simp_all add: transmitted_def Let_def load_def)
  have "ring s' D SEND_ADDR"
    using r kp[of _ 4] kp[of _ 8] kp[of _ 12] by (simp add: ring_def PNUM_def desc_words)
  moreover have "\<not> bit (load (desc_at D j + tdes0) s') 31" if "j < 64" for j
  proof (cases "j = i")
    case True
    then show ?thesis by (simp add: m' own_cleared)
  next
    case False
    then show ?thesis using kp[of j 0] free that by (simp add: layout)
  qed
  moreover have "send_layout s'" using cs D B same by (simp add: can_send_def send_layout_def)
  ultimately have "can_send s'" using same(1) by (simp add: can_send_def PNUM_def)
  moreover have "payload s' = p"
  proof -
    have "payload s' = payload s" using bw B same(2) by (simp only: payload_def PSIZE_def) simp
    then show ?thesis using p by simp
  qed
  ultimately have "sending D B p ps (Suc i) s'"
    using same nx' kn st p by (simp add: sending_def replicate_append_same)
  then show ?thesis using so by blast
qed

lemma or_bits: "bit ((w :: u32) OR 0x08) 3" "bit ((w :: u32) OR 0x02202000) 13"
proof -
  have "bit (0x08 :: u32) 3" "bit (0x02202000 :: u32) 13" by (simp_all add: bit_iff_odd)
  then show "bit ((w :: u32) OR 0x08) 3" "bit ((w :: u32) OR 0x02202000) 13" by (simp_all add: bit_or_iff)
qed

lemma net_send:
  assumes s: "can_send s" and t: "t_phy = DMA_send_desc s AND 0x1fffffff"
  shows "\<exists>s'. do_net_send N t t_phy s = Some s' \<and> sent (dev s') = sent (dev s) @ replicate PNUM (payload s) \<and> can_send s' \<and>
    payload s' = payload s \<and> DMA_send_desc s' = DMA_send_desc s \<and> buffer s' = buffer s"
proof -
  let ?D = "DMA_send_desc s"
  have lay: "in_kseg1 ?D 1024" and free: "\<not> bit (load (desc_at ?D 0 + tdes0) s) 31"
    using s by (simp_all add: can_send_def send_layout_def PNUM_def)
  have k0: "kseg1 t_phy = ?D" using desc_kseg1(1)[OF lay, of 0] t by (simp add: desc_at_def)
  have own: "\<not> bit (kmem (kern s) (?D + tdes0)) 31" using free by (simp add: load_def desc_at_def)
  define s1 where "s1 = reg_write_32 N (DMA_BASE_ADDR + 0x10) t_phy s"
  define s2 where "s2 = reg_or N GMAC_BASE_ADDR 0x08 s1"
  define s3 where "s3 = reg_or N CTL 0x02202000 s2"
  define s4 where "s4 = reg_write_32 N (DMA_BASE_ADDR + 0x1c) (0x10001 OR push_bit 6 1) s3"
  have "\<not> ready (kmem (kern s)) (bus_write N (DMA_BASE_ADDR + 0x10) t_phy (dev s))" using own k0 by (simp add: ready_def write_cur)
  note 1 = write_quiet[OF s1_def this]
  have o1: "\<not> bit (kmem (kern s1) (kseg1 (cur (dev s1)) + tdes0)) 31" using 1 own k0 by simp
  note 2 = or_quiet[OF s2_def _ o1, simplified]
  have o2: "\<not> bit (kmem (kern s2) (kseg1 (cur (dev s2)) + tdes0)) 31" using 2 o1 by simp
  note 3 = or_quiet[OF s3_def _ o2, simplified]
  have "\<not> ready (kmem (kern s3)) (bus_write N (DMA_BASE_ADDR + 0x1c) (0x10001 OR push_bit 6 1) (dev s3))"
    using 3 o2 write_cur[of "DMA_BASE_ADDR + 0x1c" "0x10001 OR push_bit 6 1" "dev s3"] by (simp add: ready_def)
  note 4 = write_quiet[OF s4_def this]
  have on4: "on (dev s4)"
    using 4(6)[of GMAC_BASE_ADDR] 4(6)[of CTL] 3(6)[of GMAC_BASE_ADDR] 3(6)[of CTL] 2(6)[of GMAC_BASE_ADDR] or_bits
    by (simp add: on_def GMAC_BASE_ADDR_def DMA_BASE_ADDR_def)
  have same: "kern s4 = kern s" "DMA_send_desc s4 = ?D" "buffer s4 = buffer s" "cur (dev s4) = t_phy" "sent (dev s4) = sent (dev s)"
    using 1 2 3 4 by simp_all
  have ld: "load x s4 = load x s" for x using same(1) by (simp add: load_def)
  have "sending ?D (buffer s) (payload s) (sent (dev s)) 0 s4"
    using s same on4 k0 ld by (simp add: sending_def can_send_def send_layout_def ring_def payload_def desc_at_def)
  from for_each_upt[where P = "sending ?D (buffer s) (payload s) (sent (dev s))" and a = 0 and b = 64 and body = "send_one N", OF _ this]
  obtain s' where "for_each (send_one N) [0..<64] s4 = Some s'" "sending ?D (buffer s) (payload s) (sent (dev s)) 64 s'"
    using send_one_sends by auto
  then show ?thesis
    by (auto simp: do_net_send_def Let_def s1_def s2_def s3_def s4_def sending_def PNUM_def)
qed

end

context transmitter
begin

text \<open>A transmitter that is off stays off and leaves memory alone while the task sets up.\<close>

lemma write_off:
  assumes "s' = reg_write_32 N a v s" and "\<not> bit (reg (dev s) CTL) 13" and "a = CTL \<longrightarrow> \<not> bit v 13"
  shows "kern s' = kern s" and "\<not> bit (reg (dev s') CTL) 13" and "sent (dev s') = sent (dev s)"
    and "DMA_send_desc s' = DMA_send_desc s" and "buffer s' = buffer s"
proof -
  have "\<not> ready (kmem (kern s)) (bus_write N a v (dev s))"
    using assms(2,3) write_ctl[of CTL a v "dev s"] by (auto simp: ready_def on_def)
  from write_quiet[OF assms(1) this] show "kern s' = kern s" "\<not> bit (reg (dev s') CTL) 13" "sent (dev s') = sent (dev s)"
    "DMA_send_desc s' = DMA_send_desc s" "buffer s' = buffer s"
    using assms(2,3) by auto
qed

lemma read_off:
  assumes "reg_read_32 N a s = (v, s')"
  shows "kern s' = kern s" and "reg (dev s') CTL = reg (dev s) CTL" and "sent (dev s') = sent (dev s)"
    and "DMA_send_desc s' = DMA_send_desc s" and "buffer s' = buffer s"
  using assms read_keeps[of CTL a "dev s"] by (auto simp: reg_read_32_def case_prod_beta)

definition quiet :: "'d net \<Rightarrow> 'd net \<Rightarrow> bool" where
  "quiet s s' \<longleftrightarrow> kern s' = kern s \<and> sent (dev s') = sent (dev s) \<and> DMA_send_desc s' = DMA_send_desc s \<and> buffer s' = buffer s \<and>
     \<not> bit (reg (dev s') CTL) 13"

lemma quiet_write: "\<not> bit (reg (dev s) CTL) 13 \<Longrightarrow> a = CTL \<longrightarrow> \<not> bit v 13 \<Longrightarrow> quiet s (reg_write_32 N a v s)"
  using write_off[OF refl, of s a v] by (simp add: quiet_def)

lemma quiet_read: "\<not> bit (reg (dev s) CTL) 13 \<Longrightarrow> reg_read_32 N a s = (v, s') \<Longrightarrow> quiet s s'"
  using read_off[of a s v s'] by (simp add: quiet_def)

lemma quiet_trans: "quiet s t \<Longrightarrow> quiet t u \<Longrightarrow> quiet s u"
  by (simp add: quiet_def)

lemma quiet_off: "quiet s t \<Longrightarrow> \<not> bit (reg (dev t) CTL) 13"
  by (simp add: quiet_def)

lemma quiet_or:
  assumes "\<not> bit (reg (dev s) CTL) 13" and "a \<noteq> CTL"
  shows "quiet s (reg_or N a v s)"
proof -
  obtain w t where t: "reg_read_32 N a s = (w, t)" by (cases "reg_read_32 N a s")
  have "quiet s t" by (rule quiet_read[OF assms(1) t])
  moreover from this have "quiet t (reg_write_32 N a (w OR v) t)" using quiet_off assms(2) by (intro quiet_write) auto
  ultimately show ?thesis using t quiet_trans by (auto simp: reg_or_def)
qed

lemma setup_quiet:
  assumes "\<not> bit (reg (dev s) CTL) 13" and "mac_addr mac = 0xbfe10000" and "dma_addr mac = 0xbfe11000"
  shows "quiet s (task_setup N mac s)"
proof -
  have c: "CTL = 0xbfe11018" by (simp add: DMA_BASE_ADDR_def)
  define s1 where "s1 = dma_control_init N mac (DmaStoreAndForward OR DmaTxSecondFrame OR DmaRxThreshCtrl128) s"
  define s2 where "s2 = clear_interrupt N s1"
  have "\<not> bit (DmaStoreAndForward OR DmaTxSecondFrame OR DmaRxThreshCtrl128) 13"
    by (simp add: DmaStoreAndForward_def DmaTxSecondFrame_def DmaRxThreshCtrl128_def)
  then have 1: "quiet s s1" unfolding s1_def dma_control_init_def by (intro quiet_write[OF assms(1)]) simp
  obtain w t where t: "reg_read_32 N (0xbfe11000 + DmaStatus) s1 = (w, t)" by (cases "reg_read_32 N (0xbfe11000 + DmaStatus) s1")
  have t1: "quiet s1 t" by (rule quiet_read[OF quiet_off[OF 1] t])
  have "quiet t (reg_write_32 N (0xbfe11000 + DmaStatus) w t)"
    by (rule quiet_write[OF quiet_off[OF t1]]) (simp add: c DmaStatus_def)
  then have 2: "quiet s1 s2" using quiet_trans[OF t1] t by (simp add: s2_def clear_interrupt_def)
  have 3: "quiet s2 (mii_dul_force N mac s2)"
  proof -
    have a: "quiet s2 (reg_write_32 N (dma_addr mac) 0 s2)" (is "quiet s2 ?a")
      by (rule quiet_write[OF quiet_off[OF 2]]) (simp add: c assms(3))
    have b: "quiet ?a (reg_or N (mac_addr mac) (0xc800 OR push_bit 8 1) ?a)" (is "quiet ?a ?b")
      by (rule quiet_or[OF quiet_off[OF a]]) (simp add: c assms(2))
    have "quiet ?b (reg_or N (mac_addr mac + 0x4) 0x80000001 ?b)"
      by (rule quiet_or[OF quiet_off[OF b]]) (simp add: c assms(2))
    then show ?thesis using quiet_trans[OF quiet_trans[OF a b]] by (simp add: mii_dul_force_def Let_def)
  qed
  show ?thesis using quiet_trans[OF quiet_trans[OF 1 2] 3] by (simp add: task_setup_def Let_def s1_def s2_def)
qed

lemma task_loop:
  assumes "can_send s" and "td_phy mac = DMA_send_desc s AND 0x1fffffff"
  shows "\<exists>s'. send_task_loop N mac n cnt s log = Some (s', log @ concat (map (\<lambda>i. report (cnt + word_of_nat (64 * Suc i))) [0..<n])) \<and>
    sent (dev s') = sent (dev s) @ replicate (64 * n) (payload s)"
  using assms
proof (induction n arbitrary: cnt s log)
  case (Suc n)
  obtain t where t: "do_net_send N (td mac) (td_phy mac) s = Some t" "sent (dev t) = sent (dev s) @ replicate 64 (payload s)"
    "can_send t" "payload t = payload s" "DMA_send_desc t = DMA_send_desc s"
    using net_send[OF Suc.prems(1,2)] by (auto simp: PNUM_def)
  have "td_phy mac = DMA_send_desc t AND 0x1fffffff" using Suc.prems(2) t(5) by simp
  from Suc.IH[OF t(3) this] obtain s' where
    s': "send_task_loop N mac n (cnt + 64) t (log @ report (cnt + 64)) =
      Some (s', (log @ report (cnt + 64)) @ concat (map (\<lambda>i. report (cnt + 64 + word_of_nat (64 * Suc i))) [0..<n]))"
      "sent (dev s') = sent (dev t) @ replicate (64 * n) (payload t)"
    by blast
  have "report (cnt + 64) @ concat (map (\<lambda>i. report (cnt + 64 + word_of_nat (64 * Suc i))) [0..<n]) = concat (map (\<lambda>i. report (cnt + word_of_nat (64 * Suc i))) [0..<Suc n])"
    by (simp add: upt_rec[of 0 "Suc n"] map_Suc_upt[symmetric] comp_def add_ac del: upt_Suc)
  then show ?case using t s' by (simp add: PNUM_def replicate_add[symmetric] del: upt_Suc)
qed simp

end

text \<open>
  C25: The send task: on a card whose transmitter works and is off, the task sets up its descriptors,
  sends 256 packets, each the contents of \<open>buffer\<close>, and reports 64, 128, 192 and 256; every wait
  for the card ends.
\<close>

theorem send_task_sends:
  assumes "transmitter N reg cur sent lag" and "send_layout s" and "\<not> bit (reg (dev s) (DMA_BASE_ADDR + 0x18)) 13"
  shows "\<exists>s' pre. phy_regs_task1 N test_mac s = Some (s', pre @
      concat (map report [64, 128, 192, 256])) \<and>
    sent (dev s') = sent (dev s) @ replicate 256 (payload s)"
proof -
  let ?D = "DMA_send_desc s"
  have lay: "in_kseg1 ?D 1024" "in_kseg1 (buffer s) 1024" "region ?D 1024 \<inter> region (buffer s) 1024 = {}"
    using assms(2) by (simp_all add: send_layout_def)
  have fits: "unat ?D + 1024 \<le> 2 ^ 32" using lay(1) by (simp add: in_kseg1_def)
  have p: "psize (task_mac test_mac) = 1024" by (simp add: task_mac_def PSIZE_def)
  let ?mac = "(task_mac test_mac)\<lparr>saddr := SEND_ADDR, saddr_phy := SEND_ADDR_PHY, td := ?D, td_phy := ?D AND 0x1fffffff\<rparr>"
  obtain s1 where s1: "send_desc_init (task_mac test_mac) s = (?mac, s1)" "ring s1 ?D SEND_ADDR"
    "\<forall>i < PNUM. load (desc_at ?D i + tdes0) s1 = 0" "\<forall>x. x \<notin> region ?D 1024 \<longrightarrow> load x s1 = load x s" "dev s1 = dev s"
    "DMA_send_desc s1 = ?D" "buffer s1 = buffer s"
    by (rule send_ring[OF fits p]) blast
  let ?t = "task_setup N ?mac s1"
  have q: "transmitter.quiet reg sent s1 ?t"
    by (rule transmitter.setup_quiet[OF assms(1)]) (use assms(3) s1(5) in \<open>simp_all add: task_mac_def\<close>)
  then have t: "kern ?t = kern s1" "sent (dev ?t) = sent (dev s)" "DMA_send_desc ?t = ?D" "buffer ?t = buffer s"
    using s1(5-7) by (simp_all add: transmitter.quiet_def[OF assms(1)])
  have ld: "load x ?t = load x s1" for x using t(1) by (simp add: load_def)
  have cs: "can_send ?t" using assms(2) t s1(2,3) ld by (simp add: can_send_def send_layout_def ring_def)
  have pl: "payload ?t = payload s"
  proof -
    have "load (buffer s + word_of_nat (4 * j)) s1 = load (buffer s + word_of_nat (4 * j)) s" if "j < 256" for j
    proof -
      have "buffer s + word_of_nat (4 * j) \<in> region (buffer s) 1024" by (rule mem_region) (use lay(2) that in \<open>simp_all add: in_kseg1_def\<close>)
      then show ?thesis using s1(4) lay(3) by blast
    qed
    then show ?thesis using t(4) ld by (simp only: payload_def PSIZE_def) simp
  qed
  obtain s' where "send_task_loop N ?mac 4 0 ?t [Move_cursor 1 2, Printf (''> [SEND TASK] start send package.               '' @ newline) []] =
      Some (s', [Move_cursor 1 2, Printf (''> [SEND TASK] start send package.               '' @ newline) []] @
        concat (map (\<lambda>i. report (0 + word_of_nat (64 * Suc i))) [0..<4]))"
      "sent (dev s') = sent (dev ?t) @ replicate (64 * 4) (payload ?t)"
    using transmitter.task_loop[OF assms(1) cs, of ?mac 4 0] t(3) by fastforce
  then show ?thesis
    using s1(1) t(2) pl by (intro exI[of _ s'] exI[of _ "[Move_cursor 1 2, Printf (''> [SEND TASK] start send package.               '' @ newline) []]"])
      (simp add: phy_regs_task1_def upt_rec[of _ 4] upt_rec[of _ "Suc _"])
qed

section \<open>The hardware address\<close>

text \<open>What the driver relies on for the address: the two address registers keep what was written to
  them last.\<close>

abbreviation address_regs :: "u32 set" where
  "address_regs \<equiv> {GMAC_BASE_ADDR + GmacAddr0High, GMAC_BASE_ADDR + GmacAddr0Low}"

locale address_registers =
  fixes N :: "'d nic" and areg :: "'d \<Rightarrow> u32 \<Rightarrow> u32"
  assumes addr_read: "a \<in> address_regs \<Longrightarrow> fst (bus_read N a d) = areg d a"
    and addr_read_keeps: "a \<in> address_regs \<Longrightarrow> areg (snd (bus_read N b d)) a = areg d a"
    and addr_write: "a \<in> address_regs \<Longrightarrow> areg (bus_write N b v d) a = (if b = a then v else areg d a)"
    and addr_dma: "a \<in> address_regs \<Longrightarrow> areg (snd (dma N m d)) a = areg d a"
begin

lemma areg_read: "a \<in> address_regs \<Longrightarrow> areg (dev (snd (reg_read_32 N b s))) a = areg (dev s) a"
  by (simp add: reg_read_32_def case_prod_beta addr_read_keeps)

lemma areg_write: "a \<in> address_regs \<Longrightarrow> areg (dev (reg_write_32 N b v s)) a = (if b = a then v else areg (dev s) a)"
  by (simp add: reg_write_32_def card_runs_def case_prod_beta addr_dma addr_write)

lemma areg_show:
  assumes "a \<in> address_regs"
  shows "areg (dev (fst (show1 N out fmt base r st))) a = areg (dev (fst st)) a"
    and "areg (dev (fst (show2 N out fmt base r q st))) a = areg (dev (fst st)) a"
  using areg_read[OF assms] by (simp_all add: show1_def show2_def read_register_def case_prod_beta Let_def)

lemma get_after_set:
  assumes "mac_addr mac = GMAC_BASE_ADDR" and "\<And>a. a \<in> address_regs \<Longrightarrow> areg (dev t) a = areg (dev (set_mac_addr N mac s)) a"
  shows "fst (gmac_get_mac_addr N t) = MacAddr"
proof -
  let ?h = "GMAC_BASE_ADDR + GmacAddr0High" and ?l = "GMAC_BASE_ADDR + GmacAddr0Low"
  have r: "?h = 0xbfe10040" "?l = 0xbfe10044" "GMAC_BASE_ADDR + 0x40 = 0xbfe10040" "GMAC_BASE_ADDR + 0x44 = 0xbfe10044"
    by (simp_all add: GMAC_BASE_ADDR_def GmacAddr0High_def GmacAddr0Low_def)
  have v: "push_bit 8 (ucast (MacAddr ! 5)) OR ucast (MacAddr ! 4) = (0xf77d :: u32)"
    "push_bit 24 (ucast (MacAddr ! 3)) OR push_bit 16 (ucast (MacAddr ! 2)) OR push_bit 8 (ucast (MacAddr ! 1)) OR ucast (MacAddr ! 0) = (0xb57b5500 :: u32)"
    by (simp_all add: MacAddr_def)
  have "set_mac_addr N mac s = reg_write_32 N 0xbfe10044 0xb57b5500 (reg_write_32 N 0xbfe10040 0xf77d s)"
    by (simp only: set_mac_addr_def Let_def v assms(1) r)
  then have "areg (dev t) ?h = 0xf77d" "areg (dev t) ?l = 0xb57b5500"
    using assms(2)[of ?h] assms(2)[of ?l] areg_write[of ?h] areg_write[of ?l] r by simp_all
  then show ?thesis
    using addr_read[of ?l "dev t"] addr_read[of ?h] addr_read_keeps[of ?h ?l "dev t"]
    by (simp add: gmac_get_mac_addr_def read_register_def reg_read_32_def case_prod_beta Let_def MacAddr_def)
qed

lemma print_after_set:
  assumes "mac_addr mac = GMAC_BASE_ADDR"
  shows "\<exists>pre. snd (print_mac_regs N (set_mac_addr N mac s)) = pre @ [Printk (''  [16-17] Mac Addr : %X:%X:%X:%X:%X:%X'' @ newline) (map ucast MacAddr)]"
proof -
  let ?t = "set_mac_addr N mac s"
  define st where "st = (let B = GMAC_BASE_ADDR;
         st = (?t, [Printk (''>>[MAC Register]'' @ newline) []]);
         st = show1 N Printk ''  [0] Configure : 0x%x, '' B GmacConfig st;
         st = show1 N Printk (''  [1] Frame Filter : 0x%x'' @ newline) B GmacFrameFilter st;
         st = show2 N Printk (''  [2-3] Hash Table High/Low : 0x%x-0x%x'' @ newline) B GmacHashHigh GmacHashLow st;
         st = show1 N Printk ''  [6] Flow Control : 0x%x, '' B GmacFlowControl st;
         st = show1 N Printk (''  [8] Version : 0x%x'' @ newline) B GmacVersion st
     in show2 N Printk (''  [14-15] Interrupt Status/Mask : 0x%x/0x%x'' @ newline) B GmacInterruptStatus GmacInterruptMask st)"
  have "areg (dev (fst st)) a = areg (dev ?t) a" if "a \<in> address_regs" for a
    unfolding st_def Let_def by (simp only: areg_show[OF that] fst_conv)
  then have "fst (gmac_get_mac_addr N (fst st)) = MacAddr" by (rule get_after_set[OF assms])
  moreover have "print_mac_regs N ?t = show_mac_addr N Printk st"
    by (simp add: print_mac_regs_def st_def Let_def)
  ultimately show ?thesis by (simp add: show_mac_addr_def case_prod_beta Let_def)
qed

end

text \<open>
  The hardware address is the one the driver sets: read back from the registers it is \<open>MacAddr\<close>,
  and \<open>print_mac_regs\<close> prints it as its last line.
\<close>

theorem mac_address_round_trip:
  assumes "address_registers N areg" and "mac_addr mac = GMAC_BASE_ADDR"
  shows "fst (gmac_get_mac_addr N (set_mac_addr N mac s)) = MacAddr \<and>
    (\<exists>pre. snd (print_mac_regs N (set_mac_addr N mac s)) =
      pre @ [Printk (''  [16-17] Mac Addr : %X:%X:%X:%X:%X:%X'' @ newline) [0x00, 0x55, 0x7b, 0xb5, 0x7d, 0xf7]])"
  using address_registers.get_after_set[OF assms refl, of s] address_registers.print_after_set[OF assms, of s]
  by (simp add: MacAddr_def)

section \<open>The interrupt\<close>

lemma clear_interrupt_inv:
  assumes inv: "sched_inv (kern s) Q" and W: "\<forall>m d a. a \<notin> W \<longrightarrow> fst (dma N m d) a = m a"
    and out: "\<forall>a \<in> W. outside (pcb (kern s)) a \<and> a \<notin> family_cells (pcb (kern s)) (dom Q)"
  obtains m where "kern (clear_interrupt N s) = (kern s)\<lparr>kmem := m\<rparr>" and "sched_inv ((kern s)\<lparr>kmem := m\<rparr>) Q"
proof -
  define m where "m = kmem (kern (clear_interrupt N s))"
  have m: "m a = kmem (kern s) a" if "a \<notin> W" for a
    using W that by (simp add: m_def clear_interrupt_def reg_write_32_def reg_read_32_def card_runs_def case_prod_beta)
  have "kern (clear_interrupt N s) = (kern s)\<lparr>kmem := m\<rparr>"
    by (simp add: m_def clear_interrupt_def reg_write_32_def reg_read_32_def card_runs_def case_prod_beta)
  moreover have "sched_inv ((kern s)\<lparr>kmem := m\<rparr>) Q"
  proof (rule sched_inv_cong[OF inv])
    show "m a = kmem (kern s) a" if "a \<in> family_cells (pcb (kern s)) (dom Q)" for a using m out that by blast
    show "m (cell x f) = get (kern s) x f" if "x \<in> queued Q" "f \<in> {STATUS, CHAN, HOLDING_HEAD}" for x f
    proof (rule m)
      have "field_ok f" using that(2) by auto
      then show "cell x f \<notin> W" using out outside_cell[OF _ queued_in[OF inv that(1)], of "cell x f" f] by blast
    qed
  qed
  ultimately show thesis by (rule that)
qed

text \<open>
  The interrupt of the card, for a card that writes only words \<open>W\<close> that belong to no process and
  no queue: if the last receive descriptor has been filled, all processes that wait for packets
  are put behind the ready ones in their order and are ready, and no process waits any more;
  otherwise nothing happens. The scheduler stays in order in both cases.
\<close>

theorem irq_mac_wakes:
  assumes "sched_inv (kern s) Q" and "Q (recv_block_queue (kern s)) = Some xs" and "Q (ready_queue (kern s)) = Some rs"
    and "recv_block_queue (kern s) \<noteq> ready_queue (kern s)" and "\<forall>m d a. a \<notin> W \<longrightarrow> fst (dma N m d) a = m a"
    and "\<forall>a \<in> W. outside (pcb (kern s)) a \<and> a \<notin> family_cells (pcb (kern s)) (dom Q)"
  shows "\<exists>s' Q'. irq_mac N s = Some s' \<and> sched_inv (kern s') Q' \<and>
    (if bit (load (desc_at (DMA_recv_desc s) 63 + tdes0) s) 31 then s' = s \<and> Q' = Q
     else Q' = Q(recv_block_queue (kern s) \<mapsto> [], ready_queue (kern s) \<mapsto> rs @ xs) \<and>
       (\<forall>p \<in> set xs. get (kern s') p STATUS = TASK_READY))"
proof (cases "bit (load (desc_at (DMA_recv_desc s) 63 + tdes0) s) 31")
  case True
  then show ?thesis using assms(1) by (simp add: irq_mac_def shift_own)
next
  case False
  let ?t = "clear_interrupt N s" and ?q = "recv_block_queue (kern s)"
  obtain m0 where m0: "kern ?t = (kern s)\<lparr>kmem := m0\<rparr>" and inv: "sched_inv ((kern s)\<lparr>kmem := m0\<rparr>) Q"
    by (rule clear_interrupt_inv[OF assms(1,5,6)])
  let ?k = "(kern s)\<lparr>kmem := m0\<rparr>"
  have ok: "queues_ok (pcb ?k) (kmem ?k) Q" using inv by (simp add: leave_facts)
  have q: "Q ?q = Some xs" "Q (ready_queue ?k) = Some rs" "?q \<noteq> ready_queue ?k" "Q ?q = Some (xs @ [])" using assms(2-4) by simp_all
  obtain m Q' where m: "do_unblock_all ?q ?k = Some (?k\<lparr>kmem := m\<rparr>)" "queues_ok (pcb ?k) m Q'"
    "Q' = Q(?q \<mapsto> [], ready_queue ?k \<mapsto> rs @ xs)" "woke (pcb ?k) (dom Q) (set xs) (kmem ?k) m"
    using do_unblock_all_family[OF ok q(1-3)] by blast
  have "sched_inv (?k\<lparr>kmem := m\<rparr>) Q'" by (rule woke_inv(1)[OF inv q(4,3,2) m(3,2,4)])
  moreover have "irq_mac N s = Some (?t\<lparr>kern := ?k\<lparr>kmem := m\<rparr>\<rparr>)"
    using False m(1) m0 by (simp add: irq_mac_def shift_own Let_def)
  moreover have "\<forall>p \<in> set xs. m (cell p STATUS) = TASK_READY" using m(4) by (simp add: woke_def)
  ultimately show ?thesis using False m(3) by auto
qed

section \<open>A card\<close>

text \<open>A card that keeps what is written to its registers and sends a packet as soon as it can.\<close>

record test_card =
  tregs :: "u32 \<Rightarrow> u32"
  tcur :: u32
  tsent :: "u32 list list"

definition test_nic :: "test_card nic" where
  "test_nic = \<lparr>bus_read = (\<lambda>a d. (tregs d a, d)),
     bus_write = (\<lambda>a v d. d\<lparr>tregs := (tregs d)(a := v), tcur := (if a = DMA_BASE_ADDR + 0x10 then v else tcur d)\<rparr>),
     dma = (\<lambda>m d. let c = kseg1 (tcur d) in
       if bit (tregs d GMAC_BASE_ADDR) 3 \<and> bit (tregs d CTL) 13 \<and> bit (m (c + tdes0)) 31
       then (m(c + tdes0 := m (c + tdes0) AND 0x7fffffff), d\<lparr>tcur := m (c + tdes3), tsent := tsent d @ [packet m c]\<rparr>)
       else (m, d))\<rparr>"

interpretation test_sends: transmitter test_nic tregs tcur tsent "\<lambda>_. 0"
  by unfold_locales (auto simp: test_nic_def Let_def)

interpretation test_address: address_registers test_nic tregs
  by unfold_locales (auto simp: test_nic_def Let_def)

definition test_net :: "kstate \<Rightarrow> test_card net" where
  "test_net k = \<lparr>kern = k, dev = \<lparr>tregs = (\<lambda>_. 0), tcur = 0, tsent = []\<rparr>,
     DMA_recv_desc = 0xa0810000, DMA_send_desc = 0xa0811000, buffer = 0xa0812000\<rparr>"

definition some_mac :: mac where
  "some_mac = \<lparr>psize = 0, pnum = 0, mac_addr = 0xbfe10000, dma_addr = 0, saddr = 0, daddr = 0, saddr_phy = 0, daddr_phy = 0,
     td = 0, rd = 0, td_phy = 0, rd_phy = 0\<rparr>"

lemma test_layout: "send_layout (test_net k)"
  by (auto simp: send_layout_def test_net_def in_kseg1_def region_def SEND_ADDR_def)

theorem send_task_sends_witness:
  "\<exists>s'. map_option fst (phy_regs_task1 test_nic some_mac (test_net sampleB)) = Some s' \<and>
     tsent (dev s') = replicate 256 (payload (test_net sampleB))"
  using send_task_sends[OF test_sends.transmitter_axioms test_layout, of sampleB some_mac] by (auto simp: test_net_def)

theorem descriptor_rings_witness:
  "\<exists>mac1 s1 mac2 s2. send_desc_init (task_mac some_mac) (test_net sampleB) = (mac1, s1) \<and> recv_desc_init (task_mac some_mac) s1 = (mac2, s2) \<and>
     ring s2 0xa0811000 SEND_ADDR \<and> ring s2 0xa0810000 RECV_ADDR"
proof -
  have a: "DMA_send_desc (test_net sampleB) = 0xa0811000" "DMA_recv_desc (test_net sampleB) = 0xa0810000" by (simp_all add: test_net_def)
  have "region 0xa0811000 1024 \<inter> region 0xa0810000 1024 = {}" by (auto simp: region_def)
  then show ?thesis using descriptor_rings[of "test_net sampleB" some_mac some_mac] unfolding a by (simp only:) (simp, blast)
qed

theorem mac_address_round_trip_witness:
  "fst (gmac_get_mac_addr test_nic (set_mac_addr test_nic some_mac (test_net sampleB))) = [0x00, 0x55, 0x7b, 0xb5, 0x7d, 0xf7]"
  using mac_address_round_trip[OF test_address.address_registers_axioms, of some_mac "test_net sampleB"]
  by (simp add: some_mac_def GMAC_BASE_ADDR_def MacAddr_def)

text \<open>Process 4 of the sample kernel waits for packets and the last descriptor has been filled.\<close>

theorem irq_mac_wakes_witness:
  "\<exists>s'. irq_mac (test_nic\<lparr>dma := \<lambda>m d. (m, d)\<rparr>) (test_net (store 0xa08103f0 0 sampleB)) = Some s' \<and>
     get (kern s') (pcb_at 0x1000 4) STATUS = TASK_READY"
proof -
  let ?Q = "sampleQ(0x200 \<mapsto> [] @ [pcb_at 0x1000 4])" and ?s = "test_net (store 0xa08103f0 0 sampleB)"
  have o: "outside 0x1000 0xa08103f0" by (simp add: outside_def sizeof_pcb_def NUM_MAX_TASK_def)
  have b: "pcb sampleB = 0x1000" "recv_block_queue sampleB = 0x200" "ready_queue sampleB = 0x100"
    by (simp_all add: sampleB_def sampleF_def)
  have "0xa08103f0 \<notin> family_cells 0x1000 (dom (sample_queues [pcb_at 0x1000 1, pcb_at 0x1000 2]))"
    by (rule sample_queue_addrs) (use o in simp_all)
  then have "0xa08103f0 \<notin> family_cells 0x1000 (dom ?Q)" by (simp add: sampleQ_def insert_absorb)
  then have inv: "sched_inv (kern ?s) ?Q" using store_inv[OF sampleB_inv, of "0xa08103f0" 0] o b by (simp add: test_net_def)
  have k: "recv_block_queue (kern ?s) = 0x200" "ready_queue (kern ?s) = 0x100" "\<not> bit (load (desc_at (DMA_recv_desc ?s) 63 + tdes0) ?s) 31"
    using b by (simp_all add: test_net_def store_def load_def desc_at_def layout)
  show ?thesis
    using irq_mac_wakes[OF inv, of "[pcb_at 0x1000 4]" "[pcb_at 0x1000 1, pcb_at 0x1000 2]" "{}" "test_nic\<lparr>dma := \<lambda>m d. (m, d)\<rparr>"] k
    by (auto simp: sampleQ_def)
qed

end
