(* ===== verification/Cstring.thy ===== *)
theory Cstring
  imports Prelude
begin

text \<open>
  \<^verbatim>\<open>libs/string.c\<close>. A pointer into a buffer is the list of the bytes from there to the end
  of the buffer, so \<open>None\<close> is an access past the end. The bytes of a C string go up to, and
  do not include, the first zero.
\<close>

section \<open>Operations\<close>

fun strlen :: "u8 list \<Rightarrow> nat option" where
  "strlen [] = None"
| "strlen (c # src) = (if c \<noteq> 0 then do { n \<leftarrow> strlen src; Some (Suc n) } else Some 0)"

fun memcpy :: "u8 list \<Rightarrow> u8 list \<Rightarrow> nat \<Rightarrow> u8 list option" where
  "memcpy dest src 0 = Some dest"
| "memcpy (d # dest) (c # src) (Suc len) = do { dest \<leftarrow> memcpy dest src len; Some (c # dest) }"
| "memcpy _ _ (Suc len) = None"

fun memset :: "u8 list \<Rightarrow> u8 \<Rightarrow> nat \<Rightarrow> u8 list option" where
  "memset dest val 0 = Some dest"
| "memset (d # dest) val (Suc len) = do { dest \<leftarrow> memset dest val len; Some (val # dest) }"
| "memset [] val (Suc len) = None"

definition bzero :: "u8 list \<Rightarrow> nat \<Rightarrow> u8 list option" where
  "bzero dest len = memset dest 0 len"

fun strcmp :: "u8 list \<Rightarrow> u8 list \<Rightarrow> int option" where
  "strcmp (a # str1) (b # str2) =
    (if a \<noteq> 0 \<and> b \<noteq> 0 \<and> a = b then strcmp str1 str2
     else if a = 0 \<and> b = 0 then Some 0
     else if a = 0 then Some (- 1)
     else Some 1)"
| "strcmp _ _ = None"

fun strcpy :: "u8 list \<Rightarrow> u8 list \<Rightarrow> u8 list option" where
  "strcpy (d # dest) (c # src) =
    (if c \<noteq> 0 then do { dest \<leftarrow> strcpy dest src; Some (c # dest) } else Some (0 # dest))"
| "strcpy _ _ = None"

section \<open>Strings\<close>

definition c_string :: "u8 list \<Rightarrow> u8 list" where
  "c_string xs = takeWhile (\<lambda>c. c \<noteq> 0) xs"

text \<open>A string literal or an argument: its characters, a zero, and whatever follows.\<close>

definition is_string :: "u8 list \<Rightarrow> bool" where
  "is_string xs \<longleftrightarrow> 0 \<in> set xs"

definition literal :: "u8 list \<Rightarrow> u8 list" where
  "literal cs = cs @ [0]"

lemma c_string_simps [simp]:
  "c_string [] = []" "c_string (c # xs) = (if c = 0 then [] else c # c_string xs)"
  by (simp_all add: c_string_def)

lemma is_string_simps [simp]:
  "\<not> is_string []" "is_string (c # xs) \<longleftrightarrow> c = 0 \<or> is_string xs"
  by (auto simp: is_string_def)

lemma c_string_no_zero: "0 \<notin> set (c_string xs)"
  by (auto simp: c_string_def dest: set_takeWhileD)

lemma c_string_append: "0 \<notin> set cs \<Longrightarrow> c_string (cs @ 0 # ys) = cs"
  by (induction cs) auto

lemma literal_string [simp]: "0 \<notin> set cs \<Longrightarrow> c_string (literal cs) = cs" "is_string (literal cs)"
  by (auto simp: literal_def c_string_append is_string_def)

lemma strlen_some: "is_string xs \<Longrightarrow> strlen xs = Some (length (c_string xs))"
  by (induction xs) auto

lemma strcmp_some: "is_string xs \<Longrightarrow> is_string ys \<Longrightarrow> \<exists>r. strcmp xs ys = Some r"
  by (induction xs ys rule: strcmp.induct) auto

lemma strcmp_zero:
  "is_string xs \<Longrightarrow> is_string ys \<Longrightarrow> strcmp xs ys = Some 0 \<longleftrightarrow> c_string xs = c_string ys"
  by (induction xs ys rule: strcmp.induct) auto

lemma strcpy_some:
  assumes "is_string src" and "length (c_string src) < length dest"
  shows "strcpy dest src = Some (c_string src @ 0 # drop (Suc (length (c_string src))) dest)"
  using assms by (induction dest src rule: strcpy.induct) auto

lemma strcpy_overrun:
  "is_string src \<Longrightarrow> length dest \<le> length (c_string src) \<Longrightarrow> strcpy dest src = None"
  by (induction dest src rule: strcpy.induct) (auto split: if_splits)

lemma memcpy_some:
  "len \<le> length src \<Longrightarrow> len \<le> length dest \<Longrightarrow> memcpy dest src len = Some (take len src @ drop len dest)"
  by (induction dest src len rule: memcpy.induct) auto

lemma memset_some: "len \<le> length dest \<Longrightarrow> memset dest v len = Some (replicate len v @ drop len dest)"
  by (induction dest v len rule: memset.induct) auto

section \<open>Properties\<close>

text \<open>
  On two strings \<open>strcmp\<close> returns, and it returns 0 exactly when they are equal; it never
  looks past either terminator.
\<close>

theorem strcmp_decides:
  assumes "is_string xs" and "is_string ys"
  shows "\<exists>r. strcmp xs ys = Some r \<and> (r = 0 \<longleftrightarrow> c_string xs = c_string ys)"
  using strcmp_some[OF assms] strcmp_zero[OF assms] by auto

theorem strcmp_decides_witness:
  "\<exists>r. strcmp (literal [0x61, 0x62]) (literal [0x61] @ [7]) = Some r \<and> r \<noteq> 0"
  using strcmp_decides[of "literal [0x61, 0x62]" "literal [0x61] @ [7]"] by (auto simp: literal_def)

text \<open>
  \<open>strcpy\<close> into a buffer that has room leaves the source's string in it, with the
  terminator, and keeps the rest of the buffer; into a buffer without room it runs over the end.
\<close>

theorem strcpy_copies:
  assumes "is_string src"
  shows "(length (c_string src) < length dest \<longrightarrow>
      (\<exists>d. strcpy dest src = Some d \<and> c_string d = c_string src \<and> length d = length dest \<and>
        drop (Suc (length (c_string src))) d = drop (Suc (length (c_string src))) dest)) \<and>
    (length dest \<le> length (c_string src) \<longrightarrow> strcpy dest src = None)"
  using strcpy_some[OF assms, of dest] strcpy_overrun[OF assms, of dest] c_string_no_zero[of src]
  by (auto simp: c_string_append)

theorem strcpy_copies_witness:
  "strcpy [1, 2, 3, 4] (literal [0x61]) = Some [0x61, 0, 3, 4] \<and> strcpy [1] (literal [0x61]) = None"
  using strcpy_copies[of "literal [0x61]" "[1]"] by (simp add: literal_def)

end
