(* ===== verification/Printk.thy ===== *)
theory Printk
  imports Cstring
begin

text \<open>
  \<^verbatim>\<open>libs/printk.c\<close>: the conversion of numbers to text and the formatted output of
  \<open>printk\<close> and \<open>printf\<close>. A pointer into a string is the list of the bytes from there on; a
  buffer is a list of its bytes together with a position. \<open>None\<close> is an access outside a
  string or a buffer, or an argument that is missing or has the wrong type.
\<close>

section \<open>Operations\<close>

text \<open>An argument of a variadic call.\<close>

datatype parg = Num u32 | Str "u8 list"

definition mini_strlen :: "u8 list \<Rightarrow> nat option" where
  "mini_strlen s = strlen s"

definition digit_char :: "bool \<Rightarrow> u32 \<Rightarrow> u8" where
  "digit_char uppercase digit =
    (if digit < 10 then ucast (0x30 + digit) else ucast ((if uppercase then 0x41 else 0x61) + digit - 10))"

text \<open>The loop that writes the digits, least significant first. The value is an \<open>int\<close>; the
  unsigned radix makes its division unsigned.\<close>

partial_function (option) itoa_loop :: "u32 \<Rightarrow> u32 \<Rightarrow> bool \<Rightarrow> u8 list \<Rightarrow> nat \<Rightarrow> (u8 list \<times> nat) option" where
  "itoa_loop value radix uppercase buffer p =
    (if radix = 0 \<or> length buffer \<le> p then None
     else
       let buffer = buffer[p := digit_char uppercase (value mod radix)];
           value = value div radix
       in if 0 < sint value then itoa_loop value radix uppercase buffer (p + 1) else Some (buffer, p + 1))"

declare itoa_loop.simps [code]

definition put_at :: "u8 list \<Rightarrow> nat \<Rightarrow> u8 \<Rightarrow> u8 list option" where
  "put_at buffer p ch = (if p < length buffer then Some (buffer[p := ch]) else None)"

fun pad_loop :: "u8 list \<Rightarrow> nat \<Rightarrow> nat \<Rightarrow> (u8 list \<times> nat) option" where
  "pad_loop buffer p 0 = Some (buffer, p)"
| "pad_loop buffer p (Suc n) = do { buffer \<leftarrow> put_at buffer p 0x30; pad_loop buffer (p + 1) n }"

definition swap_ends :: "nat \<Rightarrow> nat \<Rightarrow> u8 list \<Rightarrow> u8 list" where
  "swap_ends len i buffer =
    (let j = buffer ! i;
         buffer = buffer[i := buffer ! (len - i - 1)]
     in buffer[len - i - 1 := j])"

definition mini_itoa :: "u32 \<Rightarrow> u32 \<Rightarrow> bool \<Rightarrow> bool \<Rightarrow> u8 list \<Rightarrow> nat \<Rightarrow> (nat \<times> u8 list) option" where
  "mini_itoa value radix uppercase unsig buffer zero_pad =
    (if radix > 16 then Some (0, buffer)
     else do {
       let negative = (sint value < 0 \<and> \<not> unsig);
       let value = (if negative then - value else value);
       (buffer, p) \<leftarrow> itoa_loop value radix uppercase buffer 0;
       (buffer, p) \<leftarrow> pad_loop buffer p (zero_pad - p);
       (buffer, p) \<leftarrow> (if negative then do { buffer \<leftarrow> put_at buffer p 0x2d; Some (buffer, p + 1) } else Some (buffer, p));
       buffer \<leftarrow> put_at buffer p 0;
       let len = p;
       Some (len, fold (swap_ends len) [0..<len div 2] buffer)
     })"

record mini_buff =
  buffer :: "u8 list"
  pbuffer :: nat
  buffer_len :: u32

definition mini_putc :: "u8 \<Rightarrow> mini_buff \<Rightarrow> mini_buff option" where
  "mini_putc ch b =
    (if word_of_nat (pbuffer b) + 1 \<ge> buffer_len b then Some b
     else do {
       buf \<leftarrow> put_at (buffer b) (pbuffer b) ch;
       buf \<leftarrow> put_at buf (pbuffer b + 1) 0;
       Some (b\<lparr>buffer := buf, pbuffer := pbuffer b + 1\<rparr>)
     })"

fun copy_loop :: "u8 list \<Rightarrow> nat \<Rightarrow> u8 list \<Rightarrow> nat \<Rightarrow> (u8 list \<times> nat) option" where
  "copy_loop buf p s 0 = Some (buf, p)"
| "copy_loop buf p (c # s) (Suc n) = do { buf \<leftarrow> put_at buf p c; copy_loop buf (p + 1) s n }"
| "copy_loop buf p [] (Suc n) = None"

definition mini_puts :: "u8 list \<Rightarrow> nat \<Rightarrow> mini_buff \<Rightarrow> mini_buff option" where
  "mini_puts s len b = do {
     let room = buffer_len b - word_of_nat (pbuffer b) - 1;
     let len = (if room < word_of_nat len then unat room else len);
     (buf, p) \<leftarrow> copy_loop (buffer b) (pbuffer b) s len;
     buf \<leftarrow> put_at buf p 0;
     Some (b\<lparr>buffer := buf, pbuffer := p\<rparr>)
   }"

text \<open>One directive: the character after the percent sign and the padding, with the arguments.
  The buffer \<open>bf\<close> of 24 bytes is a local, uninitialised variable.\<close>

definition directive :: "u8 list \<Rightarrow> u8 \<Rightarrow> nat \<Rightarrow> parg list \<Rightarrow> mini_buff \<Rightarrow> (parg list \<times> mini_buff) option" where
  "directive bf ch zero_pad va b =
    (if ch = 0x75 \<or> ch = 0x64 then
       (case va of
          Num v # va \<Rightarrow> do {
            (len, bf) \<leftarrow> mini_itoa v 10 False (ch = 0x75) bf zero_pad;
            b \<leftarrow> mini_puts bf len b;
            Some (va, b) }
        | _ \<Rightarrow> None)
     else if ch = 0x78 \<or> ch = 0x58 then
       (case va of
          Num v # va \<Rightarrow> do {
            (len, bf) \<leftarrow> mini_itoa v 16 (ch = 0x58) True bf zero_pad;
            b \<leftarrow> mini_puts bf len b;
            Some (va, b) }
        | _ \<Rightarrow> None)
     else if ch = 0x63 then
       (case va of Num v # va \<Rightarrow> do { b \<leftarrow> mini_putc (ucast v) b; Some (va, b) } | _ \<Rightarrow> None)
     else if ch = 0x73 then
       (case va of
          Str ptr # va \<Rightarrow> do { n \<leftarrow> mini_strlen ptr; b \<leftarrow> mini_puts ptr n b; Some (va, b) }
        | _ \<Rightarrow> None)
     else do { b \<leftarrow> mini_putc ch b; Some (va, b) })"

text \<open>The loop over the format.\<close>

fun vsnprintf_loop :: "u8 list \<Rightarrow> u8 list \<Rightarrow> parg list \<Rightarrow> mini_buff \<Rightarrow> mini_buff option" where
  "vsnprintf_loop bf [] va b = None"
| "vsnprintf_loop bf (ch # fmt) va b =
    (if ch = 0 then Some b
     else if word_of_nat (pbuffer b) + 1 \<ge> buffer_len b then Some b
     else if ch \<noteq> 0x25 then do { b \<leftarrow> mini_putc ch b; vsnprintf_loop bf fmt va b }
     else
       (case fmt of
          [] \<Rightarrow> None
        | c1 # fmt1 \<Rightarrow>
            if c1 = 0x30 then
              (case fmt1 of
                 [] \<Rightarrow> None
               | c2 # fmt2 \<Rightarrow>
                   if c2 = 0 then Some b
                   else
                     (case fmt2 of
                        [] \<Rightarrow> None
                      | c3 # fmt3 \<Rightarrow>
                          if c3 = 0 then Some b
                          else do {
                            (va, b) \<leftarrow> directive bf c3 (if 0x30 \<le> c2 \<and> c2 \<le> 0x39 then unat (c2 - 0x30) else 0) va b;
                            vsnprintf_loop bf fmt3 va b }))
            else if c1 = 0 then Some b
            else do { (va, b) \<leftarrow> directive bf c1 0 va b; vsnprintf_loop bf fmt1 va b }))"

definition mini_vsnprintf :: "u8 list \<Rightarrow> u8 list \<Rightarrow> u32 \<Rightarrow> u8 list \<Rightarrow> parg list \<Rightarrow> (nat \<times> u8 list) option" where
  "mini_vsnprintf bf buf buf_len fmt va = do {
     b \<leftarrow> vsnprintf_loop bf fmt va \<lparr>buffer = buf, pbuffer = 0, buffer_len = buf_len\<rparr>;
     Some (pbuffer b, buffer b)
   }"

text \<open>The body that \<open>printk\<close> and \<open>printf\<close> share: the buffer of 256 bytes that \<open>printk\<close> gives to
  \<open>port_write\<close> and \<open>printf\<close> to the system call \<open>sys_write\<close>. \<open>buff\<close> and \<open>bf\<close> are the former
  contents of the locals.\<close>

definition print_buff :: "u8 list \<Rightarrow> u8 list \<Rightarrow> u8 list \<Rightarrow> parg list \<Rightarrow> (nat \<times> u8 list) option" where
  "print_buff bf buff fmt va = do {
     (ret, buff) \<leftarrow> mini_vsnprintf bf buff 256 fmt va;
     buff \<leftarrow> put_at buff ret 0;
     Some (ret, buff)
   }"

section \<open>Numbers as text\<close>

text \<open>The digits of a number, least significant first, and reading them back.\<close>

lemma div_positive_less: "0 < n div b \<Longrightarrow> \<not> b < 2 \<Longrightarrow> n div b < (n :: nat)"
  by (rule div_less_dividend) (auto intro: ccontr)

function digits_rev :: "nat \<Rightarrow> nat \<Rightarrow> nat list" where
  "digits_rev b n = n mod b # (if n div b = 0 \<or> b < 2 then [] else digits_rev b (n div b))"
  by auto
termination
  by (relation "measure snd") (auto intro: div_positive_less)

declare digits_rev.simps [simp del]

definition dchar :: "bool \<Rightarrow> nat \<Rightarrow> u8" where
  "dchar up d = digit_char up (word_of_nat d)"

definition digit_val :: "u8 \<Rightarrow> nat" where
  "digit_val c = (if 0x30 \<le> c \<and> c \<le> 0x39 then unat c - 0x30
     else if 0x41 \<le> c \<and> c \<le> 0x46 then unat c - 0x37 else unat c - 0x57)"

definition read_nat :: "nat \<Rightarrow> u8 list \<Rightarrow> nat" where
  "read_nat b cs = foldl (\<lambda>a c. b * a + digit_val c) 0 cs"

definition read_int :: "u8 list \<Rightarrow> int" where
  "read_int cs = (if cs \<noteq> [] \<and> hd cs = 0x2d then - int (read_nat 10 (tl cs)) else int (read_nat 10 cs))"

lemma digits_lt: "0 < b \<Longrightarrow> d \<in> set (digits_rev b n) \<Longrightarrow> d < b"
proof (induction b n rule: digits_rev.induct)
  case (1 b n)
  then show ?case by (subst (asm) (2) digits_rev.simps) (auto split: if_splits)
qed

lemma digits_length:
  assumes "2 \<le> b" and "n < b ^ k" and "0 < k"
  shows "length (digits_rev b n) \<le> k"
  using assms
proof (induction b n arbitrary: k rule: digits_rev.induct)
  case (1 b n)
  show ?case
  proof (cases "n div b = 0")
    case True
    then show ?thesis using 1(4) by (subst digits_rev.simps) simp
  next
    case False
    then obtain j where k: "k = Suc j" "0 < j" using 1(2-4) by (cases k; cases "k - 1") auto
    have "n div b < b ^ j" using 1(3) k by (simp add: less_mult_imp_div_less mult.commute)
    then have "length (digits_rev b (n div b)) \<le> j" using 1 False k by auto
    then show ?thesis using False k by (subst digits_rev.simps) simp
  qed
qed

lemma digits_nonempty: "digits_rev b n \<noteq> []"
  by (subst digits_rev.simps) simp

lemma read_digits:
  assumes "2 \<le> b"
  shows "foldr (\<lambda>d a. b * a + d) (digits_rev b n) 0 = n"
  using assms
proof (induction b n rule: digits_rev.induct)
  case (1 b n)
  have "n mod b = n" if "n div b = 0" using that 1(2) by (simp add: div_eq_0_iff)
  then show ?case using 1 by (subst digits_rev.simps) auto
qed

lemma dchar_table:
  "list_all (\<lambda>d. digit_val (dchar True d) = d \<and> dchar True d \<noteq> 0 \<and> dchar True d \<noteq> 0x2d) [0..<16]"
  "list_all (\<lambda>d. digit_val (dchar False d) = d \<and> dchar False d \<noteq> 0 \<and> dchar False d \<noteq> 0x2d) [0..<16]"
  by code_simp+

lemma dchar_cases:
  assumes "d < 16"
  shows "digit_val (dchar up d) = d" and "dchar up d \<noteq> 0" and "dchar up d \<noteq> 0x2d"
  using dchar_table assms by (cases up; simp add: list_all_iff)+

lemma read_nat_digits:
  assumes "2 \<le> b" and "b \<le> 16"
  shows "read_nat b (map (dchar up) (rev (digits_rev b n))) = n"
proof -
  have "foldl (\<lambda>a c. b * a + digit_val c) x (map (dchar up) ds) = foldl (\<lambda>a d. b * a + d) x ds"
    if "\<forall>d \<in> set ds. d < 16" for x ds
    using that by (induction ds arbitrary: x) (simp_all add: dchar_cases)
  moreover have "\<forall>d \<in> set (rev (digits_rev b n)). d < 16" using digits_lt[of b _ n] assms by fastforce
  ultimately show ?thesis
    using read_digits[OF assms(1), of n] by (simp add: read_nat_def foldl_conv_foldr)
qed

lemma read_nat_zeros: "read_nat b (replicate k 0x30 @ cs) = read_nat b cs"
  by (induction k) (simp_all add: read_nat_def digit_val_def)

text \<open>The loop writes the digits.\<close>

lemma put_at_some: "p < length buf \<Longrightarrow> put_at buf p c = Some (buf[p := c])"
  by (simp add: put_at_def)

lemma take_update_append: "p < length buf \<Longrightarrow> take (Suc p) (buf[p := c]) = take p buf @ [c]"
  by (simp add: take_Suc_conv_app_nth)

lemma itoa_loop_digits:
  assumes "2 \<le> unat radix" and "p + length (digits_rev (unat radix) (unat v)) \<le> length buf"
  shows "itoa_loop v radix up buf p =
    Some (take p buf @ map (dchar up) (digits_rev (unat radix) (unat v)) @
      drop (p + length (digits_rev (unat radix) (unat v))) buf, p + length (digits_rev (unat radix) (unat v)))"
  using assms
proof (induction "unat radix" "unat v" arbitrary: v p buf rule: digits_rev.induct)
  case (1 v)
  let ?b = "unat radix" and ?n = "unat v"
  have r0: "radix \<noteq> 0" using 1(2) by auto
  have p: "p < length buf" using 1(3) digits_nonempty[of ?b ?n] by (cases "digits_rev ?b ?n") auto
  have dv: "unat (v div radix) = ?n div ?b" "unat (v mod radix) = ?n mod ?b"
    by (simp_all add: unat_div unat_mod_distrib)
  have small: "unat (v div radix) < 2 ^ 31"
  proof -
    have "?n < 2 ^ LENGTH(32)" by (rule unsigned_less)
    moreover have "?n div ?b \<le> ?n div 2" using 1(2) by (simp add: div_le_mono2)
    ultimately show ?thesis using dv(1) by simp
  qed
  have sx: "sint (v div radix) = int (unat (v div radix))" using sint_word_small[OF small] by simp
  have pos: "0 < sint (v div radix) \<longleftrightarrow> ?n div ?b \<noteq> 0"
    unfolding sx dv(1) by simp
  let ?buf = "buf[p := digit_char up (v mod radix)]"
  have dc: "digit_char up (v mod radix) = dchar up (?n mod ?b)"
    by (simp add: dchar_def flip: dv(2))
  show ?case
  proof (cases "?n div ?b = 0")
    case True
    then have "digits_rev ?b ?n = [?n mod ?b]" by (subst digits_rev.simps) simp
    then show ?thesis
      using True pos r0 p dc
      by (subst itoa_loop.simps) (simp add: Let_def upd_conv_take_nth_drop)
  next
    case False
    then have d: "digits_rev ?b ?n = (?n mod ?b) # digits_rev ?b (?n div ?b)"
      using 1(2) by (subst digits_rev.simps) simp
    have "itoa_loop (v div radix) radix up ?buf (p + 1) =
      Some (take (p + 1) ?buf @ map (dchar up) (digits_rev ?b (unat (v div radix))) @
        drop (p + 1 + length (digits_rev ?b (unat (v div radix)))) ?buf, p + 1 + length (digits_rev ?b (unat (v div radix))))"
      by (rule 1(1)) (use False 1(2,3) d dv in auto)
    then show ?thesis
      using False pos r0 p dc dv d
      by (subst itoa_loop.simps) (simp add: Let_def take_update_append)
  qed
qed

text \<open>Padding, and the reversal of the first \<open>len\<close> bytes.\<close>

lemma pad_loop_some:
  "p + n \<le> length buf \<Longrightarrow> pad_loop buf p n = Some (take p buf @ replicate n 0x30 @ drop (p + n) buf, p + n)"
proof (induction n arbitrary: buf p)
  case (Suc n)
  then show ?case
    by (simp add: put_at_some take_update_append replicate_app_Cons_same)
qed simp

lemma swap_ends_nth:
  assumes "len \<le> length buf" and "i < len div 2" and "k < length buf"
  shows "swap_ends len i buf ! k = (if k = i then buf ! (len - i - 1) else if k = len - i - 1 then buf ! i else buf ! k)"
  using assms by (auto simp: swap_ends_def Let_def nth_list_update)

lemma length_swap_ends [simp]: "length (swap_ends len i buf) = length buf"
  by (simp add: swap_ends_def Let_def)

lemma reverse_loop:
  assumes "len \<le> length buf"
  shows "fold (swap_ends len) [0..<len div 2] buf = rev (take len buf) @ drop len buf"
proof -
  have inv: "length (fold (swap_ends len) [0..<m] buf) = length buf \<and>
      (\<forall>k < length buf. fold (swap_ends len) [0..<m] buf ! k =
        (if k < m \<or> len - m \<le> k \<and> k < len then buf ! (len - 1 - k) else buf ! k))" if "m \<le> len div 2" for m
    using that
  proof (induction m)
    case (Suc m)
    let ?f = "fold (swap_ends len) [0..<m] buf"
    have IH: "length ?f = length buf" "\<And>k. k < length buf \<Longrightarrow>
        ?f ! k = (if k < m \<or> len - m \<le> k \<and> k < len then buf ! (len - 1 - k) else buf ! k)" using Suc by auto
    have m: "m < len div 2" using Suc.prems by simp
    have "swap_ends len m ?f ! k = (if k < Suc m \<or> len - Suc m \<le> k \<and> k < len then buf ! (len - 1 - k) else buf ! k)"
      if k: "k < length buf" for k
    proof -
      have s: "swap_ends len m ?f ! k = (if k = m then ?f ! (len - m - 1) else if k = len - m - 1 then ?f ! m else ?f ! k)"
        by (rule swap_ends_nth) (use assms IH(1) m k in auto)
      consider "k = m" | "k = len - m - 1" "k \<noteq> m" | "k \<noteq> m" "k \<noteq> len - m - 1" by blast
      then show ?thesis
      proof cases
        case 1
        then show ?thesis using s IH(2)[of "len - m - 1"] assms m by auto
      next
        case 2
        then show ?thesis using s IH(2)[of m] assms m by auto
      next
        case 3
        have "k < Suc m \<or> len - Suc m \<le> k \<and> k < len \<longleftrightarrow> k < m \<or> len - m \<le> k \<and> k < len"
          using 3 m by auto
        then show ?thesis using s IH(2)[OF k] 3 by simp
      qed
    qed
    then show ?case using IH(1) by simp
  qed auto
  show ?thesis
  proof (rule nth_equalityI)
    show "length (fold (swap_ends len) [0..<len div 2] buf) = length (rev (take len buf) @ drop len buf)"
      using inv[of "len div 2"] assms by simp
    fix k assume "k < length (fold (swap_ends len) [0..<len div 2] buf)"
    then have k: "k < length buf" using inv[of "len div 2"] by simp
    have "fold (swap_ends len) [0..<len div 2] buf ! k = (if k < len then buf ! (len - 1 - k) else buf ! k)"
    proof (cases "k < len div 2 \<or> len - len div 2 \<le> k")
      case True
      then show ?thesis using inv[of "len div 2"] k by auto
    next
      case False
      then have "k < len" "len - 1 - k = k" by linarith+
      then show ?thesis using inv[of "len div 2"] k False by auto
    qed
    then show "fold (swap_ends len) [0..<len div 2] buf ! k = (rev (take len buf) @ drop len buf) ! k"
      using assms k by (auto simp: nth_append rev_nth)
  qed
qed

text \<open>The text of a number.\<close>

definition num_text :: "nat \<Rightarrow> bool \<Rightarrow> bool \<Rightarrow> nat \<Rightarrow> u32 \<Rightarrow> u8 list" where
  "num_text b up unsig zero_pad v =
    (let neg = (sint v < 0 \<and> \<not> unsig);
         ds = map (dchar up) (rev (digits_rev b (unat (if neg then - v else v))))
     in (if neg then [0x2d] else []) @ replicate (zero_pad - length ds) 0x30 @ ds)"

lemma digits10_length: "length (digits_rev 10 (unat (v :: u32))) \<le> 10"
proof (rule digits_length)
  have "unat v < 2 ^ LENGTH(32)" by (rule unsigned_less)
  then show "unat v < 10 ^ 10" by simp
qed simp_all

lemma digits16_length: "length (digits_rev 16 (unat (v :: u32))) \<le> 8"
proof (rule digits_length)
  have "unat v < 2 ^ LENGTH(32)" by (rule unsigned_less)
  then show "unat v < 16 ^ 8" by simp
qed simp_all

lemma mini_itoa_text:
  assumes "b = 10 \<or> b = 16" and "zero_pad \<le> 9" and "length buf = 24"
  shows "\<exists>buf'. mini_itoa v (word_of_nat b) up unsig buf zero_pad = Some (length (num_text b up unsig zero_pad v), buf') \<and>
    take (length (num_text b up unsig zero_pad v)) buf' = num_text b up unsig zero_pad v \<and>
    length (num_text b up unsig zero_pad v) \<le> 11 \<and> length buf' = 24"
proof -
  define neg where "neg = (sint v < 0 \<and> \<not> unsig)"
  define w where "w = (if neg then - v else v)"
  define ds where "ds = digits_rev b (unat w)"
  have ub: "unat (word_of_nat b :: u32) = b" "\<not> (word_of_nat b :: u32) > 16" using assms(1) by auto
  have ld: "length ds \<le> 10" using assms(1) digits10_length[of w] digits16_length[of w] by (auto simp: ds_def)
  define p where "p = length ds"
  define pad where "pad = zero_pad - p"
  define body where "body = map (dchar up) ds @ replicate pad 0x30"
  have lb: "length body = p + pad" "p + pad \<le> 10" using ld assms(2) by (auto simp: body_def p_def pad_def)
  have 1: "itoa_loop w (word_of_nat b) up buf 0 = Some (map (dchar up) ds @ drop p buf, p)"
    using itoa_loop_digits[of "word_of_nat b" 0 w buf up] ub assms(1,3) ld by (auto simp: ds_def p_def)
  have 2: "pad_loop (map (dchar up) ds @ drop p buf) p pad = Some (body @ drop (p + pad) buf, p + pad)"
    using pad_loop_some[of p pad "map (dchar up) ds @ drop p buf"] lb(2) assms(3)
    by (simp add: p_def body_def add.commute)
  define q where "q = (if neg then p + pad + 1 else p + pad)"
  define tx where "tx = (if neg then body @ [0x2d] else body)"
  have 3: "(if neg then do { buffer \<leftarrow> put_at (body @ drop (p + pad) buf) (p + pad) 0x2d; Some (buffer, p + pad + 1) }
      else Some (body @ drop (p + pad) buf, p + pad)) = Some (tx @ drop q buf, q)"
    using lb assms(3) by (auto simp: put_at_def tx_def q_def list_update_append drop_Cons' Cons_nth_drop_Suc[symmetric])
  have lt: "length tx = q" "q \<le> 11" using lb by (auto simp: tx_def q_def)
  have 4: "put_at (tx @ drop q buf) q 0 = Some (tx @ 0 # drop (Suc q) buf)"
    using lt assms(3) by (simp add: put_at_def list_update_append Cons_nth_drop_Suc[symmetric])
  have 5: "fold (swap_ends q) [0..<q div 2] (tx @ 0 # drop (Suc q) buf) = rev tx @ 0 # drop (Suc q) buf"
    using reverse_loop[of q "tx @ 0 # drop (Suc q) buf"] lt by simp
  have run: "mini_itoa v (word_of_nat b) up unsig buf zero_pad = Some (q, rev tx @ 0 # drop (Suc q) buf)"
    unfolding mini_itoa_def Let_def neg_def[symmetric] w_def[symmetric]
    using 1 2 3 4 5 ub(2) by (simp add: pad_def[symmetric])
  have "num_text b up unsig zero_pad v = rev tx"
    by (simp add: num_text_def Let_def neg_def[symmetric] w_def[symmetric] ds_def[symmetric] tx_def body_def pad_def p_def rev_map)
  then show ?thesis using run lt assms(3) by simp
qed

text \<open>Reading the text gives the number back.\<close>

lemma num_text_unsigned:
  assumes "b = 10 \<or> b = 16"
  shows "read_nat b (num_text b up True zero_pad v) = unat v"
  using assms read_nat_digits[of b up "unat v"] by (auto simp: num_text_def Let_def read_nat_zeros)

lemma num_text_signed: "read_int (num_text 10 up False zero_pad v) = sint v"
proof -
  let ?body = "\<lambda>w :: u32. replicate (zero_pad - length (digits_rev 10 (unat w))) 0x30 @ map (dchar up) (rev (digits_rev 10 (unat w)))"
  have rd: "read_nat 10 (?body w) = unat w" for w using read_nat_digits[of 10 up] by (simp add: read_nat_zeros)
  have hd: "hd (?body w) \<noteq> 0x2d" "?body w \<noteq> []" for w
  proof -
    show ne: "?body w \<noteq> []" using digits_nonempty by simp
    have "c \<noteq> 0x2d" if "c \<in> set (?body w)" for c
      using that digits_lt[of 10 _ "unat w"] dchar_cases(3)[of _ up] by fastforce
    then show "hd (?body w) \<noteq> 0x2d" using hd_in_set[OF ne] by blast
  qed
  show ?thesis
  proof (cases "sint v < 0")
    case True
    then have "int (unat (- v)) = - sint v" by (rule sint_neg)
    then show ?thesis using True rd[of "- v"] by (simp add: num_text_def Let_def read_int_def)
  next
    case False
    then have "int (unat v) = sint v" by (intro sint_nonneg) simp
    then show ?thesis using False rd[of v] hd[of v] by (simp add: num_text_def Let_def read_int_def)
  qed
qed

section \<open>Formatted output\<close>

text \<open>What a directive and a format stand for, without a buffer.\<close>

definition directive_text :: "u8 \<Rightarrow> nat \<Rightarrow> parg list \<Rightarrow> (parg list \<times> u8 list) option" where
  "directive_text ch zero_pad va =
    (if ch = 0x75 \<or> ch = 0x64 then
       (case va of Num v # va \<Rightarrow> Some (va, num_text 10 False (ch = 0x75) zero_pad v) | _ \<Rightarrow> None)
     else if ch = 0x78 \<or> ch = 0x58 then
       (case va of Num v # va \<Rightarrow> Some (va, num_text 16 (ch = 0x58) True zero_pad v) | _ \<Rightarrow> None)
     else if ch = 0x63 then (case va of Num v # va \<Rightarrow> Some (va, [ucast v]) | _ \<Rightarrow> None)
     else if ch = 0x73 then
       (case va of Str p # va \<Rightarrow> if is_string p then Some (va, c_string p) else None | _ \<Rightarrow> None)
     else Some (va, [ch]))"

fun format_text :: "u8 list \<Rightarrow> parg list \<Rightarrow> u8 list option" where
  "format_text [] va = None"
| "format_text (ch # fmt) va =
    (if ch = 0 then Some []
     else if ch \<noteq> 0x25 then map_option (Cons ch) (format_text fmt va)
     else
       (case fmt of
          [] \<Rightarrow> None
        | c1 # fmt1 \<Rightarrow>
            if c1 = 0x30 then
              (case fmt1 of
                 [] \<Rightarrow> None
               | c2 # fmt2 \<Rightarrow>
                   if c2 = 0 then Some []
                   else
                     (case fmt2 of
                        [] \<Rightarrow> None
                      | c3 # fmt3 \<Rightarrow>
                          if c3 = 0 then Some []
                          else do {
                            (va, t) \<leftarrow> directive_text c3 (if 0x30 \<le> c2 \<and> c2 \<le> 0x39 then unat (c2 - 0x30) else 0) va;
                            map_option (append t) (format_text fmt3 va) }))
            else if c1 = 0 then Some []
            else do { (va, t) \<leftarrow> directive_text c1 0 va; map_option (append t) (format_text fmt1 va) }))"

definition arg_ok :: "parg \<Rightarrow> bool" where
  "arg_ok a = (case a of Num v \<Rightarrow> True | Str p \<Rightarrow> length p < 2 ^ 31)"

text \<open>A buffer of \<open>n\<close> bytes that holds the text \<open>out\<close>.\<close>

definition holds :: "nat \<Rightarrow> mini_buff \<Rightarrow> u8 list \<Rightarrow> bool" where
  "holds n b out \<longleftrightarrow> 0 < n \<and> n < 2 ^ 31 \<and> buffer_len b = word_of_nat n \<and> length (buffer b) = n \<and>
    pbuffer b = length out \<and> take (length out) (buffer b) = out \<and> length out < n"

lemma holds_full:
  assumes "holds n b out"
  shows "word_of_nat (pbuffer b) + 1 \<ge> buffer_len b \<longleftrightarrow> length out + 1 = n"
proof -
  have p: "word_of_nat (pbuffer b) + 1 = (word_of_nat (length out + 1) :: u32)" using assms by (simp add: holds_def)
  have n: "length out + 1 < 2 ^ 32" "n < 2 ^ 32" "length out < n" "buffer_len b = word_of_nat n"
    using assms by (simp_all add: holds_def)
  have u: "unat (word_of_nat (length out + 1) :: u32) = length out + 1" "unat (word_of_nat n :: u32) = n"
    by (rule unat_word_small[OF n(1)], rule unat_word_small[OF n(2)])
  show ?thesis unfolding p n(4) word_le_nat_alt u using n(3) by auto
qed

lemma copy_loop_some:
  "len \<le> length s \<Longrightarrow> p + len \<le> length buf \<Longrightarrow>
   copy_loop buf p s len = Some (take p buf @ take len s @ drop (p + len) buf, p + len)"
proof (induction buf p s len rule: copy_loop.induct)
  case (2 buf p c s n)
  then show ?case by (simp add: put_at_some take_update_append)
qed simp_all

lemma mini_puts_holds:
  assumes "holds n b out" and "len \<le> length s" and "len < 2 ^ 31"
  shows "\<exists>b'. mini_puts s len b = Some b' \<and> holds n b' (take (n - 1) (out @ take len s))"
proof -
  let ?p = "length out"
  let ?k = "min len (n - ?p - 1)"
  have h: "0 < n" "n < 2 ^ 31" "length (buffer b) = n" "pbuffer b = ?p" "take ?p (buffer b) = out" "?p < n"
    "buffer_len b = word_of_nat n" using assms(1) by (simp_all add: holds_def)
  have room: "buffer_len b - word_of_nat (pbuffer b) - 1 = (word_of_nat (n - ?p - 1) :: u32)"
    using h(4,6,7) by (simp add: of_nat_diff)
  have u: "unat (word_of_nat (n - ?p - 1) :: u32) = n - ?p - 1" "unat (word_of_nat len :: u32) = len"
    using h(2) assms(3) by (auto intro!: unat_word_small)
  have lt: "(word_of_nat (n - ?p - 1) :: u32) < word_of_nat len \<longleftrightarrow> n - ?p - 1 < len"
    unfolding word_less_nat_alt u ..
  have len: "(if (word_of_nat (n - ?p - 1) :: u32) < word_of_nat len then unat (word_of_nat (n - ?p - 1) :: u32) else len) = ?k"
    unfolding lt u by auto
  have k: "?k \<le> length s" "?p + ?k < n" using assms(2) h(6) by auto
  have c: "copy_loop (buffer b) ?p s ?k = Some (out @ take ?k s @ drop (?p + ?k) (buffer b), ?p + ?k)"
    using copy_loop_some[OF k(1), of ?p "buffer b"] k(2) h(3,5) by simp
  have lk: "length (out @ take ?k s) = ?p + ?k" using k(1) by simp
  have w: "put_at (out @ take ?k s @ drop (?p + ?k) (buffer b)) (?p + ?k) 0 =
      Some (out @ take ?k s @ 0 # drop (Suc (?p + ?k)) (buffer b))"
    using k(2) lk h(3) put_at_some[of "?p + ?k" "(out @ take ?k s) @ drop (?p + ?k) (buffer b)" 0]
    by (simp add: list_update_append Cons_nth_drop_Suc[symmetric] del: length_append) (simp add: list_update_append)
  have tk: "take (n - 1) (out @ take len s) = out @ take ?k s" using h(6) by (simp add: min.commute)
  have "mini_puts s len b = Some (b\<lparr>buffer := out @ take ?k s @ 0 # drop (Suc (?p + ?k)) (buffer b), pbuffer := ?p + ?k\<rparr>)"
    unfolding mini_puts_def Let_def room len using c w h(4) by simp
  moreover have "holds n (b\<lparr>buffer := out @ take ?k s @ 0 # drop (Suc (?p + ?k)) (buffer b), pbuffer := ?p + ?k\<rparr>) (out @ take ?k s)"
    using h k lk by (simp add: holds_def)
  ultimately show ?thesis unfolding tk by blast
qed

lemma mini_putc_holds:
  assumes "holds n b out"
  shows "\<exists>b'. mini_putc c b = Some b' \<and> holds n b' (take (n - 1) (out @ [c]))"
proof (cases "length out + 1 = n")
  case True
  then show ?thesis using assms holds_full[OF assms] by (auto simp: mini_putc_def)
next
  case False
  have h: "length (buffer b) = n" "pbuffer b = length out" "take (length out) (buffer b) = out" "length out < n"
    using assms by (simp_all add: holds_def)
  let ?b = "b\<lparr>buffer := (buffer b)[length out := c, Suc (length out) := 0], pbuffer := length out + 1\<rparr>"
  have "mini_putc c b = Some ?b"
    using False holds_full[OF assms] h by (simp add: mini_putc_def put_at_def)
  moreover have "take (Suc (length out)) ((buffer b)[length out := c, Suc (length out) := 0]) = out @ [c]"
    using h False by (simp add: take_update_append)
  ultimately show ?thesis
    using assms False h by (auto simp: holds_def intro!: exI[of _ ?b])
qed

lemma directive_holds:
  assumes "holds n b out" and "length bf = 24" and "zero_pad \<le> 9" and "list_all arg_ok va"
    and "directive_text ch zero_pad va = Some (va', t)"
  shows "\<exists>b'. directive bf ch zero_pad va b = Some (va', b') \<and> holds n b' (take (n - 1) (out @ t)) \<and> list_all arg_ok va'"
proof -
  have num: "\<exists>b'. (do { (len, bf) \<leftarrow> mini_itoa v (word_of_nat r) up us bf zero_pad; b \<leftarrow> mini_puts bf len b; Some (va', b) }) =
      Some (va', b') \<and> holds n b' (take (n - 1) (out @ num_text r up us zero_pad v))" if r: "r = 10 \<or> r = 16" for v r up us
  proof -
    let ?t = "num_text r up us zero_pad v"
    obtain bf' where i: "mini_itoa v (word_of_nat r) up us bf zero_pad = Some (length ?t, bf')"
      "take (length ?t) bf' = ?t" "length ?t \<le> 11" "length bf' = 24"
      using mini_itoa_text[OF r assms(3,2), of v up us] by blast
    obtain b' where "mini_puts bf' (length ?t) b = Some b'" "holds n b' (take (n - 1) (out @ take (length ?t) bf'))"
      using mini_puts_holds[OF assms(1), of "length ?t" bf'] i(3,4) by auto
    then show ?thesis using i by auto
  qed
  have str: "\<exists>b'. (do { k \<leftarrow> mini_strlen p; b \<leftarrow> mini_puts p k b; Some (va', b) }) = Some (va', b') \<and>
      holds n b' (take (n - 1) (out @ c_string p))" if p: "is_string p" "length p < 2 ^ 31" for p
  proof -
    have l: "length (c_string p) \<le> length p" "take (length (c_string p)) p = c_string p"
      by (simp_all add: c_string_def length_takeWhile_le takeWhile_eq_take[symmetric])
    obtain b' where "mini_puts p (length (c_string p)) b = Some b'"
        "holds n b' (take (n - 1) (out @ take (length (c_string p)) p))"
      using mini_puts_holds[OF assms(1) l(1)] l(1) p(2) by auto
    then show ?thesis using strlen_some[OF p(1)] l(2) by (simp add: mini_strlen_def)
  qed
  have putc: "\<exists>b'. (do { b \<leftarrow> mini_putc c b; Some (va', b) }) = Some (va', b') \<and> holds n b' (take (n - 1) (out @ [c]))" for c
    using mini_putc_holds[OF assms(1), of c] by auto
  have ok: "list_all arg_ok va'"
    using assms(4,5) by (auto simp: directive_text_def split: if_splits list.splits parg.splits)
  consider (dec) "ch = 0x75 \<or> ch = 0x64" | (hex) "ch = 0x78 \<or> ch = 0x58" | (chr) "ch = 0x63" | (st) "ch = 0x73"
    | (other) "\<not> (ch = 0x75 \<or> ch = 0x64)" "\<not> (ch = 0x78 \<or> ch = 0x58)" "ch \<noteq> 0x63" "ch \<noteq> 0x73" by blast
  then show ?thesis
  proof cases
    case dec
    then obtain v where "va = Num v # va'" "t = num_text 10 False (ch = 0x75) zero_pad v"
      using assms(5) by (auto simp: directive_text_def split: list.splits parg.splits)
    then show ?thesis using dec num[of 10 v False "ch = 0x75"] ok by (simp add: directive_def)
  next
    case hex
    then obtain v where "va = Num v # va'" "t = num_text 16 (ch = 0x58) True zero_pad v"
      using assms(5) by (auto simp: directive_text_def split: list.splits parg.splits)
    then show ?thesis using hex num[of 16 v "ch = 0x58" True] ok by (auto simp: directive_def)
  next
    case chr
    then obtain v where "va = Num v # va'" "t = [ucast v]"
      using assms(5) by (auto simp: directive_text_def split: list.splits parg.splits)
    then show ?thesis using chr putc[of "ucast v"] ok by (simp add: directive_def)
  next
    case st
    then obtain p where "va = Str p # va'" "t = c_string p" "is_string p"
      using assms(5) by (auto simp: directive_text_def split: list.splits parg.splits if_splits)
    then show ?thesis using st str[of p] ok assms(4) by (simp add: directive_def arg_ok_def)
  next
    case other
    then have "va' = va" "t = [ch]" using assms(5) by (simp_all add: directive_text_def)
    then show ?thesis using other putc[of ch] ok by (simp add: directive_def)
  qed
qed

text \<open>The loop over the format writes what the format stands for, cut to the room in the buffer.\<close>

lemma take_append_take: "take k (take k xs @ ys) = take k (xs @ ys)"
  by (simp add: min_def)

lemma directive_then:
  assumes "holds n b out" and "length bf = 24" and "zero_pad \<le> 9" and "list_all arg_ok va"
    and "(do { (va, t) \<leftarrow> directive_text c zero_pad va; map_option (append t) (format_text fmt va) }) = Some t"
    and IH: "\<And>va b out t. holds n b out \<Longrightarrow> list_all arg_ok va \<Longrightarrow> format_text fmt va = Some t \<Longrightarrow>
      \<exists>b'. vsnprintf_loop bf fmt va b = Some b' \<and> holds n b' (take (n - 1) (out @ t))"
  shows "\<exists>b'. (do { (va, b) \<leftarrow> directive bf c zero_pad va b; vsnprintf_loop bf fmt va b }) = Some b' \<and>
    holds n b' (take (n - 1) (out @ t))"
proof -
  obtain va' t1 t2 where t: "directive_text c zero_pad va = Some (va', t1)" "format_text fmt va' = Some t2" "t = t1 @ t2"
    using assms(5) by (auto split: bind_splits prod.splits)
  obtain b1 where b1: "directive bf c zero_pad va b = Some (va', b1)" "holds n b1 (take (n - 1) (out @ t1))" "list_all arg_ok va'"
    using directive_holds[OF assms(1-4) t(1)] by blast
  obtain b2 where "vsnprintf_loop bf fmt va' b1 = Some b2" "holds n b2 (take (n - 1) (take (n - 1) (out @ t1) @ t2))"
    using IH[OF b1(2,3) t(2)] by blast
  then show ?thesis using b1(1) t(3) by (auto simp only: take_append_take append_assoc) auto
qed

lemma vsnprintf_loop_text:
  assumes "length bf = 24"
  shows "holds n b out \<Longrightarrow> list_all arg_ok va \<Longrightarrow> format_text fmt va = Some t \<Longrightarrow>
    \<exists>b'. vsnprintf_loop bf fmt va b = Some b' \<and> holds n b' (take (n - 1) (out @ t))"
proof (induction fmt arbitrary: b out va t rule: length_induct)
  case (1 fmt)
  have IH: "\<exists>b'. vsnprintf_loop bf f va b = Some b' \<and> holds n b' (take (n - 1) (out @ t))"
    if "length f < length fmt" "holds n b out" "list_all arg_ok va" "format_text f va = Some t" for f b out va t
    using 1(1) that by blast
  obtain ch f where fmt: "fmt = ch # f" using 1(4) by (cases fmt) auto
  have full: "take (n - 1) (out @ t') = out" if "length out + 1 = n" for t' using that by auto
  have "take (n - 1) out = out" using 1(2) by (auto simp: holds_def)
  then have cut: "holds n b (take (n - 1) (out @ []))" using 1(2) by simp
  have pad: "(if 0x30 \<le> c \<and> c \<le> 0x39 then unat (c - 0x30) else 0) \<le> 9" for c :: u8
  proof -
    have "unat (c - 0x30) \<le> 9" if "0x30 \<le> c" "c \<le> 0x39"
      using that by (simp add: word_le_nat_alt unat_sub)
    then show ?thesis by auto
  qed
  show ?case
  proof (cases "ch = 0 \<or> length out + 1 = n")
    case True
    then show ?thesis using 1(2,4) cut full holds_full[OF 1(2)] by (auto simp: fmt)
  next
    case False
    then have ne: "ch \<noteq> 0" "\<not> (word_of_nat (pbuffer b) + 1 \<ge> buffer_len b)" using holds_full[OF 1(2)] by auto
    show ?thesis
    proof (cases "ch = 0x25")
      case False
      obtain t' where t: "format_text f va = Some t'" "t = ch # t'" using 1(4) ne False by (auto simp: fmt)
      obtain b1 where b1: "mini_putc ch b = Some b1" "holds n b1 (take (n - 1) (out @ [ch]))"
        using mini_putc_holds[OF 1(2)] by blast
      obtain b2 where "vsnprintf_loop bf f va b1 = Some b2" "holds n b2 (take (n - 1) (take (n - 1) (out @ [ch]) @ t'))"
        using IH[OF _ b1(2) 1(3) t(1)] by (auto simp: fmt)
      then show ?thesis using b1(1) t(2) ne False by (auto simp: fmt simp del: take_append) (simp only: take_append_take append_assoc append.simps)
    next
      case True
      obtain c1 f1 where f: "f = c1 # f1" using 1(4) ne True by (cases f) (auto simp: fmt)
      show ?thesis
      proof (cases "c1 = 0x30")
        case False
        show ?thesis
        proof (cases "c1 = 0")
          case True
          then show ?thesis using 1(4) ne cut \<open>ch = 0x25\<close> by (simp add: fmt f)
        next
          case c1: False
          have "(do { (va, t) \<leftarrow> directive_text c1 0 va; map_option (append t) (format_text f1 va) }) = Some t"
            using 1(4) True False c1 by (simp add: fmt f)
          then have "\<exists>b'. (do { (va, b) \<leftarrow> directive bf c1 0 va b; vsnprintf_loop bf f1 va b }) = Some b' \<and>
              holds n b' (take (n - 1) (out @ t))"
            by (rule directive_then[OF 1(2) assms le0 1(3)]) (rule IH, auto simp: fmt f)
          then show ?thesis using ne True False c1 by (simp only: fmt f vsnprintf_loop.simps list.case if_True if_False not_True_eq_False refl)
        qed
      next
        case c1: True
        obtain c2 f2 where f1: "f1 = c2 # f2" using 1(4) ne True c1 by (cases f1) (auto simp: fmt f)
        show ?thesis
        proof (cases "c2 = 0")
          case True
          then show ?thesis using 1(4) ne cut c1 \<open>ch = 0x25\<close> by (simp add: fmt f f1)
        next
          case c2: False
          obtain c3 f3 where f2: "f2 = c3 # f3" using 1(4) ne True c1 c2 by (cases f2) (auto simp: fmt f f1)
          show ?thesis
          proof (cases "c3 = 0")
            case True
            then show ?thesis using 1(4) ne cut c1 c2 \<open>ch = 0x25\<close> by (simp add: fmt f f1 f2)
          next
            case c3: False
            have "(do { (va, t) \<leftarrow> directive_text c3 (if 0x30 \<le> c2 \<and> c2 \<le> 0x39 then unat (c2 - 0x30) else 0) va;
                map_option (append t) (format_text f3 va) }) = Some t"
              using 1(4) ne True c1 c2 c3 by (simp add: fmt f f1 f2)
            then have "\<exists>b'. (do { (va, b) \<leftarrow> directive bf c3 (if 0x30 \<le> c2 \<and> c2 \<le> 0x39 then unat (c2 - 0x30) else 0) va b;
                vsnprintf_loop bf f3 va b }) = Some b' \<and> holds n b' (take (n - 1) (out @ t))"
              by (rule directive_then[OF 1(2) assms pad 1(3)]) (rule IH, auto simp: fmt f f1 f2)
            then show ?thesis
              using ne True c1 c2 c3 by (simp only: fmt f f1 f2 vsnprintf_loop.simps list.case if_True if_False not_True_eq_False refl)
          qed
        qed
      qed
    qed
  qed
qed

lemma print_buff_formats:
  assumes "format_text fmt va = Some t" and "list_all arg_ok va" and "0 \<notin> set t"
    and "length bf = 24" and "length buff = 256"
  shows "\<exists>text. print_buff bf buff fmt va = Some (min (length t) 255, text) \<and>
    length text = 256 \<and> is_string text \<and> c_string text = take 255 t"
proof -
  have "holds 256 \<lparr>buffer = buff, pbuffer = 0, buffer_len = 256\<rparr> []" using assms(5) by (simp add: holds_def)
  from vsnprintf_loop_text[OF assms(4) this assms(2,1)]
  obtain b where b: "vsnprintf_loop bf fmt va \<lparr>buffer = buff, pbuffer = 0, buffer_len = 256\<rparr> = Some b"
    "holds 256 b (take 255 t)" by auto
  let ?p = "length (take 255 t)"
  let ?text = "take 255 t @ 0 # drop (Suc ?p) (buffer b)"
  have p: "pbuffer b = ?p" "take ?p (buffer b) = take 255 t" "length (buffer b) = 256" "?p < 256"
    using b(2) by (simp_all add: holds_def)
  have "put_at (buffer b) ?p 0 = Some ?text"
    using p by (simp only: put_at_some upd_conv_take_nth_drop)
  then have "print_buff bf buff fmt va = Some (min (length t) 255, ?text)"
    using b(1) p(1) by (simp add: print_buff_def mini_vsnprintf_def min.commute)
  moreover have "c_string ?text = take 255 t"
    unfolding c_string_def by (subst takeWhile_append2) (use assms(3) in \<open>auto dest: in_set_takeD\<close>)
  moreover have "length ?text = 256" using p(3) by auto
  ultimately show ?thesis by (auto simp: is_string_def)
qed

lemma itoa_reads_back:
  assumes "zero_pad \<le> 9" and "length bf = 24"
  shows "\<exists>n bf'. mini_itoa v 10 False False bf zero_pad = Some (n, bf') \<and> n \<le> 11 \<and> read_int (take n bf') = sint v"
    and "\<exists>n bf'. mini_itoa v 10 False True bf zero_pad = Some (n, bf') \<and> n \<le> 11 \<and> read_nat 10 (take n bf') = unat v"
    and "\<exists>n bf'. mini_itoa v 16 up True bf zero_pad = Some (n, bf') \<and> n \<le> 11 \<and> read_nat 16 (take n bf') = unat v"
  using mini_itoa_text[OF _ assms, of 10 v False False] num_text_signed[of False zero_pad v]
    mini_itoa_text[OF _ assms, of 10 v False True] num_text_unsigned[of 10 False zero_pad v]
    mini_itoa_text[OF _ assms, of 16 v up True] num_text_unsigned[of 16 up zero_pad v] by auto

text \<open>The number conversion and its reading are inverse: the text \<open>C24: mini_itoa\<close> leaves in a
  buffer of 24 bytes, for a signed or an unsigned decimal number and an unsigned hexadecimal
  one, with any padding a format can ask for, reads back as the number, \<open>INT_MIN\<close> included;
  it never needs more than 11 bytes and the terminator.\<close>

theorem itoa_round_trip:
  assumes "zero_pad \<le> 9" and "length bf = 24"
  shows "(\<exists>n bf'. mini_itoa v 10 False False bf zero_pad = Some (n, bf') \<and> n \<le> 11 \<and> read_int (take n bf') = sint v) \<and>
    (\<exists>n bf'. mini_itoa v 10 False True bf zero_pad = Some (n, bf') \<and> n \<le> 11 \<and> read_nat 10 (take n bf') = unat v) \<and>
    (\<exists>n bf'. mini_itoa v 16 up True bf zero_pad = Some (n, bf') \<and> n \<le> 11 \<and> read_nat 16 (take n bf') = unat v)"
  using itoa_reads_back[OF assms] by blast

theorem itoa_round_trip_witness:
  "\<exists>n bf'. mini_itoa 0x80000000 10 False False (replicate 24 0) 0 = Some (n, bf') \<and> n \<le> 11 \<and>
     read_int (take n bf') = - 2147483648"
proof -
  have "sint (0x80000000 :: u32) = - 2147483648" by code_simp
  then show ?thesis using itoa_round_trip[of 0 "replicate 24 0" "0x80000000"] by simp
qed

text \<open>C23: \<open>printk\<close> and \<open>printf\<close> print what their format stands for, cut to 255 bytes, whatever the
  256 bytes of the buffer held before: every write of the loop stays inside the buffer, and the
  count they return is the length of the text.\<close>

theorem print_formats:
  assumes "format_text fmt va = Some t" and "list_all arg_ok va" and "0 \<notin> set t"
    and "length bf = 24" and "length buff = 256"
  shows "\<exists>text. print_buff bf buff fmt va = Some (min (length t) 255, text) \<and>
    length text = 256 \<and> is_string text \<and> c_string text = take 255 t"
  by (rule print_buff_formats[OF assms])

theorem print_formats_witness:
  "\<exists>text. print_buff (replicate 24 7) (replicate 256 9) [0x25, 0x30, 0x34, 0x78, 0x20, 0x25, 0x73, 0x21, 0]
     [Num 0x2a, Str [0x6f, 0x6b, 0]] = Some (8, text) \<and> length text = 256 \<and> is_string text \<and>
     c_string text = [0x30, 0x30, 0x32, 0x61, 0x20, 0x6f, 0x6b, 0x21]"
proof -
  have "format_text [0x25, 0x30, 0x34, 0x78, 0x20, 0x25, 0x73, 0x21, 0] [Num 0x2a, Str [0x6f, 0x6b, 0]] =
      Some [0x30, 0x30, 0x32, 0x61, 0x20, 0x6f, 0x6b, 0x21]" by code_simp
  then have "\<exists>text. print_buff (replicate 24 7) (replicate 256 9) [0x25, 0x30, 0x34, 0x78, 0x20, 0x25, 0x73, 0x21, 0]
      [Num 0x2a, Str [0x6f, 0x6b, 0]] = Some (min (length [0x30, 0x30, 0x32, 0x61, 0x20, 0x6f, 0x6b, 0x21 :: u8]) 255, text) \<and>
      length text = 256 \<and> is_string text \<and> c_string text = take 255 [0x30, 0x30, 0x32, 0x61, 0x20, 0x6f, 0x6b, 0x21]"
    by (rule print_formats) (simp_all add: arg_ok_def)
  moreover have "min (length [0x30, 0x30, 0x32, 0x61, 0x20, 0x6f, 0x6b, 0x21 :: u8]) 255 = 8" by code_simp
  moreover have "take 255 [0x30, 0x30, 0x32, 0x61, 0x20, 0x6f, 0x6b, 0x21 :: u8] = [0x30, 0x30, 0x32, 0x61, 0x20, 0x6f, 0x6b, 0x21]"
    by simp
  ultimately show ?thesis by (simp only:)
qed

end
