(* ===== verification/Screen.thy ===== *)
theory Screen
  imports Printk
begin

text \<open>
  \<^verbatim>\<open>drivers/screen.c\<close>, the port functions of \<^verbatim>\<open>arch/mips/pmon/common.c\<close> and the two
  printing functions of \<^verbatim>\<open>libs/printk.c\<close>. The driver keeps two images of the screen, the
  wanted one and the one that was sent, and sends the differences to a VT100 terminal. The
  serial port is driven by \<open>printch\<close> and \<open>printstr\<close> of the firmware, which are not part of
  the sources: they are a parameter, and the locale \<open>serial_port\<close> says what they send.
  \<open>None\<close> is an access outside the two images.
\<close>

section \<open>State\<close>

definition SCREEN_WIDTH :: nat where "SCREEN_WIDTH = 80"
definition SCREEN_HEIGHT :: nat where "SCREEN_HEIGHT = 30"

text \<open>The firmware's serial port. \<open>stack_junk\<close> stands for the uninitialised locals \<open>bf\<close> and
  \<open>buff\<close> of \<open>mini_vsnprintf\<close> and \<open>printk\<close>.\<close>

record 'p pmon =
  printch :: "u8 \<Rightarrow> 'p \<Rightarrow> 'p"
  printstr :: "u8 list \<Rightarrow> 'p \<Rightarrow> 'p"
  stack_junk :: "'p \<Rightarrow> u8 list \<times> u8 list"

record 'p screen =
  screen_cursor_x :: u32
  screen_cursor_y :: u32
  new_screen :: "u8 list"
  old_screen :: "u8 list"
  port :: 'p

section \<open>Operations\<close>

definition port_write_ch :: "'p pmon \<Rightarrow> u8 \<Rightarrow> 'p \<Rightarrow> 'p" where
  "port_write_ch P ch p = printch P ch p"

definition port_write :: "'p pmon \<Rightarrow> u8 list \<Rightarrow> 'p \<Rightarrow> 'p" where
  "port_write P str p = printstr P str p"

definition printk :: "'p pmon \<Rightarrow> u8 list \<Rightarrow> parg list \<Rightarrow> 'p \<Rightarrow> (nat \<times> 'p) option" where
  "printk P fmt va p = do {
     let (bf, buff) = stack_junk P p;
     (ret, buff) \<leftarrow> print_buff bf buff fmt va;
     Some (ret, port_write P buff p)
   }"

text \<open>The formats \<^verbatim>\<open>"%c[%d;%dH"\<close>, \<^verbatim>\<open>"%c[2J"\<close> and \<^verbatim>\<open>"%c[?25l"\<close>.\<close>

definition vt100_move_cursor :: "'p pmon \<Rightarrow> u32 \<Rightarrow> u32 \<Rightarrow> 'p \<Rightarrow> 'p option" where
  "vt100_move_cursor P x y p = do {
     (_, p) \<leftarrow> printk P (literal [0x25, 0x63, 0x5b, 0x25, 0x64, 0x3b, 0x25, 0x64, 0x48]) [Num 27, Num y, Num x] p;
     Some p
   }"

definition vt100_clear :: "'p pmon \<Rightarrow> 'p \<Rightarrow> 'p option" where
  "vt100_clear P p = do { (_, p) \<leftarrow> printk P (literal [0x25, 0x63, 0x5b, 0x32, 0x4a]) [Num 27] p; Some p }"

definition vt100_hidden_cursor :: "'p pmon \<Rightarrow> 'p \<Rightarrow> 'p option" where
  "vt100_hidden_cursor P p =
    do { (_, p) \<leftarrow> printk P (literal [0x25, 0x63, 0x5b, 0x3f, 0x32, 0x35, 0x6c]) [Num 27] p; Some p }"

text \<open>An element of an array at a signed index.\<close>

definition set_new :: "int \<Rightarrow> u8 \<Rightarrow> 'p screen \<Rightarrow> 'p screen option" where
  "set_new k ch s =
    (if 0 \<le> k \<and> nat k < length (new_screen s) then Some (s\<lparr>new_screen := (new_screen s)[nat k := ch]\<rparr>) else None)"

definition get_new :: "int \<Rightarrow> 'p screen \<Rightarrow> u8 option" where
  "get_new k s = (if 0 \<le> k \<and> nat k < length (new_screen s) then Some (new_screen s ! nat k) else None)"

definition set_old :: "int \<Rightarrow> u8 \<Rightarrow> 'p screen \<Rightarrow> 'p screen option" where
  "set_old k ch s =
    (if 0 \<le> k \<and> nat k < length (old_screen s) then Some (s\<lparr>old_screen := (old_screen s)[nat k := ch]\<rparr>) else None)"

definition get_old :: "int \<Rightarrow> 'p screen \<Rightarrow> u8 option" where
  "get_old k s = (if 0 \<le> k \<and> nat k < length (old_screen s) then Some (old_screen s ! nat k) else None)"

definition screen_scroll :: "nat \<Rightarrow> nat \<Rightarrow> 'p screen \<Rightarrow> 'p screen option" where
  "screen_scroll line1 line2 s = do {
     s \<leftarrow> for_each (\<lambda>i. for_each (\<lambda>j. set_old (int (i * SCREEN_WIDTH + j)) 0) [0..<SCREEN_WIDTH]) [line1..<line2 + 1] s;
     for_each (\<lambda>i. for_each (\<lambda>j s.
       if i = line2 then set_new (int (i * SCREEN_WIDTH + j)) 0x20 s
       else do {
         ch \<leftarrow> get_new (int ((i + 1) * SCREEN_WIDTH + j)) s;
         set_new (int (i * SCREEN_WIDTH + j)) ch s
       }) [0..<SCREEN_WIDTH]) [line1..<line2 + 1] s
   }"

text \<open>The position of the cursor in an image.\<close>

definition cursor_index :: "'p screen \<Rightarrow> int" where
  "cursor_index s = sint (screen_cursor_y s * word_of_nat SCREEN_WIDTH + screen_cursor_x s)"

text \<open>The tests on the cursor that end \<open>screen_write_ch\<close>.\<close>

definition screen_settle :: "'p screen \<Rightarrow> 'p screen option" where
  "screen_settle s = do {
     let s = (if sint (screen_cursor_x s) < 0 then s\<lparr>screen_cursor_x := 0\<rparr> else s);
     let s = (if sint (screen_cursor_x s) \<ge> int SCREEN_WIDTH
              then s\<lparr>screen_cursor_y := screen_cursor_y s + 1, screen_cursor_x := 0\<rparr> else s);
     let s = (if sint (screen_cursor_y s) < 0 then s\<lparr>screen_cursor_y := 0\<rparr> else s);
     if sint (screen_cursor_y s) \<ge> int SCREEN_HEIGHT then do {
       s \<leftarrow> screen_scroll (SCREEN_HEIGHT div 2 + 1) (SCREEN_HEIGHT - 1) s;
       Some (s\<lparr>screen_cursor_x := 0, screen_cursor_y := word_of_nat (SCREEN_HEIGHT - 1)\<rparr>)
     } else Some s
   }"

definition screen_write_ch :: "u8 \<Rightarrow> 'p screen \<Rightarrow> 'p screen option" where
  "screen_write_ch ch s = do {
     s \<leftarrow>
       (if ch = 0x0a then Some (s\<lparr>screen_cursor_x := 0, screen_cursor_y := screen_cursor_y s + 1\<rparr>)
        else if ch = 8 then
          (if 0 < sint (screen_cursor_x s) then
             let s = s\<lparr>screen_cursor_x := screen_cursor_x s - 1\<rparr>
             in set_new (cursor_index s) 0x20 s
           else Some s)
        else if ch = 13 then Some (s\<lparr>screen_cursor_x := 0, screen_cursor_y := screen_cursor_y s + 1\<rparr>)
        else do {
          s \<leftarrow> set_new (cursor_index s) ch s;
          Some (s\<lparr>screen_cursor_x := screen_cursor_x s + 1\<rparr>)
        });
     screen_settle s
   }"

definition screen_reflush :: "'p pmon \<Rightarrow> 'p screen \<Rightarrow> 'p screen option" where
  "screen_reflush P s = do {
     s \<leftarrow> for_each (\<lambda>i. for_each (\<lambda>j s. do {
       ch \<leftarrow> get_new (int (i * SCREEN_WIDTH + j)) s;
       old \<leftarrow> get_old (int (i * SCREEN_WIDTH + j)) s;
       if ch \<noteq> old then do {
         p \<leftarrow> vt100_move_cursor P (word_of_nat (j + 1)) (word_of_nat (i + 1)) (port s);
         set_old (int (i * SCREEN_WIDTH + j)) ch (s\<lparr>port := port_write_ch P ch p\<rparr>)
       } else Some s
     }) [0..<SCREEN_WIDTH]) [0..<SCREEN_HEIGHT] s;
     p \<leftarrow> vt100_move_cursor P (screen_cursor_x s) (screen_cursor_y s) (port s);
     Some (s\<lparr>port := p\<rparr>)
   }"

definition screen_clear :: "'p pmon \<Rightarrow> u32 \<Rightarrow> u32 \<Rightarrow> 'p screen \<Rightarrow> 'p screen option" where
  "screen_clear P line1 line2 s = do {
     s \<leftarrow> for_each (\<lambda>i. for_each (\<lambda>j s. do {
       s \<leftarrow> set_new (int (i * SCREEN_WIDTH + j)) 0x20 s;
       set_old (int (i * SCREEN_WIDTH + j)) 0 s
     }) [0..<SCREEN_WIDTH]) [0..<SCREEN_HEIGHT] s;
     screen_reflush P (s\<lparr>screen_cursor_x := 0, screen_cursor_y := 0\<rparr>)
   }"

definition init_screen :: "'p pmon \<Rightarrow> 'p screen \<Rightarrow> 'p screen option" where
  "init_screen P s = do {
     p \<leftarrow> vt100_hidden_cursor P (port s);
     p \<leftarrow> vt100_clear P p;
     screen_clear P 0 (word_of_nat (SCREEN_HEIGHT - 1)) (s\<lparr>port := p\<rparr>)
   }"

definition screen_move_cursor :: "u32 \<Rightarrow> u32 \<Rightarrow> 'p screen \<Rightarrow> 'p screen" where
  "screen_move_cursor x y s = s\<lparr>screen_cursor_x := x, screen_cursor_y := y\<rparr>"

definition screen_write :: "u8 list \<Rightarrow> 'p screen \<Rightarrow> 'p screen option" where
  "screen_write buff s = do {
     l \<leftarrow> strlen buff;
     for_each (\<lambda>i. screen_write_ch (buff ! i)) [0..<l] s
   }"

definition command_clear :: "'p pmon \<Rightarrow> 'p screen \<Rightarrow> 'p screen option" where
  "command_clear P s = screen_clear P 0 0 s"

text \<open>\<open>printf\<close>: the system call \<open>sys_write\<close> is served by \<open>screen_write\<close>.\<close>

definition printf_screen :: "u8 list \<Rightarrow> u8 list \<Rightarrow> u8 list \<Rightarrow> parg list \<Rightarrow> 'p screen \<Rightarrow> (nat \<times> 'p screen) option" where
  "printf_screen bf buff fmt va s = do {
     (ret, buff) \<leftarrow> print_buff bf buff fmt va;
     s \<leftarrow> screen_write buff s;
     Some (ret, s)
   }"

section \<open>The terminal\<close>

text \<open>What the driver assumes of a VT100: a byte stream that moves the cursor (\<^verbatim>\<open>ESC [ y ; x H\<close>,
  counted from 1), clears the screen (\<^verbatim>\<open>ESC [ 2 J\<close>) or puts a printable character at the
  cursor. Other control sequences do not change what is displayed.\<close>

datatype vmode = Ground | Escape | Control "u8 list"

record vt =
  vmode :: vmode
  vrow :: nat
  vcol :: nat
  vcell :: "nat \<Rightarrow> nat \<Rightarrow> u8"

definition vt_param :: "u8 list \<Rightarrow> nat" where
  "vt_param ps = (let n = read_nat 10 ps in if n = 0 then 1 else n)"

definition vt_control :: "u8 list \<Rightarrow> u8 \<Rightarrow> vt \<Rightarrow> vt" where
  "vt_control args c t =
    (if c = 0x48 then
       t\<lparr>vrow := vt_param (takeWhile (\<lambda>c. c \<noteq> 0x3b) args), vcol := vt_param (tl (dropWhile (\<lambda>c. c \<noteq> 0x3b) args))\<rparr>
     else if c = 0x4a \<and> args = [0x32] then t\<lparr>vcell := (\<lambda>i j. 0x20)\<rparr>
     else t)"

definition printable :: "u8 \<Rightarrow> bool" where
  "printable c \<longleftrightarrow> 0x20 \<le> c \<and> c < 0x7f"

definition vt_byte :: "u8 \<Rightarrow> vt \<Rightarrow> vt" where
  "vt_byte c t =
    (case vmode t of
       Ground \<Rightarrow>
         if c = 0x1b then t\<lparr>vmode := Escape\<rparr>
         else if printable c then
           t\<lparr>vcell := (vcell t)(vrow t := (vcell t (vrow t))(vcol t := c)), vcol := vcol t + 1\<rparr>
         else t
     | Escape \<Rightarrow> if c = 0x5b then t\<lparr>vmode := Control []\<rparr> else t\<lparr>vmode := Ground\<rparr>
     | Control args \<Rightarrow>
         if 0x40 \<le> c \<and> c \<le> 0x7e then (vt_control args c t)\<lparr>vmode := Ground\<rparr>
         else t\<lparr>vmode := Control (args @ [c])\<rparr>)"

definition vt_run :: "u8 list \<Rightarrow> vt \<Rightarrow> vt" where
  "vt_run bs t = fold vt_byte bs t"

lemma vt_run_simps [simp]: "vt_run [] t = t" "vt_run (c # bs) t = vt_run bs (vt_byte c t)"
  "vt_run (as @ bs) t = vt_run bs (vt_run as t)"
  by (simp_all add: vt_run_def)

lemma vt_run_params:
  assumes "\<forall>c \<in> set bs. \<not> (0x40 \<le> c \<and> c \<le> 0x7e)"
  shows "vt_run bs (t\<lparr>vmode := Control args\<rparr>) = t\<lparr>vmode := Control (args @ bs)\<rparr>"
  using assms
proof (induction bs arbitrary: args)
  case (Cons c bs)
  then have "vt_byte c (t\<lparr>vmode := Control args\<rparr>) = t\<lparr>vmode := Control (args @ [c])\<rparr>"
    by (auto simp: vt_byte_def)
  then show ?case using Cons by simp
qed simp

text \<open>The numbers that the driver prints are parameters.\<close>

lemma dchar_digit:
  assumes "d < 10"
  shows "0x30 \<le> dchar up d" and "dchar up d \<le> 0x39"
proof -
  have "list_all (\<lambda>d. 0x30 \<le> dchar True d \<and> dchar True d \<le> 0x39 \<and> 0x30 \<le> dchar False d \<and> dchar False d \<le> 0x39) [0..<10]"
    by code_simp
  then show "0x30 \<le> dchar up d" and "dchar up d \<le> 0x39" using assms by (cases up; simp add: list_all_iff)+
qed

definition decimal :: "nat \<Rightarrow> u8 list" where
  "decimal n = num_text 10 False False 0 (word_of_nat n)"

lemma decimal_eq: "n < 2 ^ 31 \<Longrightarrow> decimal n = map (dchar False) (rev (digits_rev 10 n))"
  by (simp add: decimal_def num_text_def sint_word_small unat_word_small)

lemma decimal_chars: "n < 2 ^ 31 \<Longrightarrow> c \<in> set (decimal n) \<Longrightarrow> 0x30 \<le> c \<and> c \<le> 0x39"
  using digits_lt[of 10 _ n] by (auto simp: decimal_eq dchar_digit)

lemma decimal_read: "n < 2 ^ 31 \<Longrightarrow> read_nat 10 (decimal n) = n"
  by (simp add: decimal_eq read_nat_digits)

lemma decimal_length: "n < 2 ^ 31 \<Longrightarrow> length (decimal n) \<le> 10"
  using digits10_length[of "word_of_nat n"] by (simp add: decimal_eq unat_word_small)

definition move_bytes :: "nat \<Rightarrow> nat \<Rightarrow> u8 list" where
  "move_bytes x y = [0x1b, 0x5b] @ decimal y @ [0x3b] @ decimal x @ [0x48]"

lemma decimal_other:
  assumes "n < 2 ^ 31" and "c \<in> set (decimal n)"
  shows "\<not> 0x40 \<le> c" and "c \<noteq> 0x3b" and "c \<noteq> 0"
  using decimal_chars[OF assms] by (auto simp: word_le_nat_alt)

lemma vt_run_move:
  assumes "vmode t = Ground" and "x < 2 ^ 31" and "y < 2 ^ 31"
  shows "vt_run (move_bytes x y) t = t\<lparr>vrow := max 1 y, vcol := max 1 x\<rparr>"
proof -
  let ?args = "decimal y @ [0x3b] @ decimal x"
  have p: "\<forall>c \<in> set ?args. \<not> (0x40 \<le> c \<and> c \<le> 0x7e)"
    using decimal_other(1)[OF assms(2)] decimal_other(1)[OF assms(3)] by auto
  have "vt_run (move_bytes x y) t = vt_byte 0x48 (vt_run ?args (t\<lparr>vmode := Control []\<rparr>))"
    using assms(1) by (simp add: move_bytes_def vt_byte_def)
  also have "\<dots> = vt_byte 0x48 (t\<lparr>vmode := Control ?args\<rparr>)"
    using vt_run_params[OF p, of "[]" t] by (simp only: append.simps)
  also have "\<dots> = (vt_control ?args 0x48 (t\<lparr>vmode := Control ?args\<rparr>))\<lparr>vmode := Ground\<rparr>"
    by (simp add: vt_byte_def)
  also have "\<dots> = t\<lparr>vrow := max 1 y, vcol := max 1 x\<rparr>"
  proof -
    have "takeWhile (\<lambda>c. c \<noteq> 0x3b) ?args = decimal y" "tl (dropWhile (\<lambda>c. c \<noteq> 0x3b) ?args) = decimal x"
      using decimal_other(2)[OF assms(3)] by (simp_all add: takeWhile_append2 dropWhile_append2)
    then show ?thesis
      using assms(1) by (simp add: vt_control_def vt_param_def decimal_read[OF assms(2)] decimal_read[OF assms(3)])
  qed
  finally show ?thesis .
qed

section \<open>The serial port\<close>

locale serial_port =
  fixes P :: "'p pmon" and sent :: "'p \<Rightarrow> u8 list"
  assumes sent_printch: "sent (printch P c p) = sent p @ [c]"
    and sent_printstr: "is_string str \<Longrightarrow> sent (printstr P str p) = sent p @ c_string str"
    and junk_sizes: "length (fst (stack_junk P p)) = 24" "length (snd (stack_junk P p)) = 256"
begin

lemma printk_sends:
  assumes "format_text fmt va = Some t" and "list_all arg_ok va" and "0 \<notin> set t" and "length t \<le> 255"
  shows "\<exists>p'. printk P fmt va p = Some (length t, p') \<and> sent p' = sent p @ t"
proof -
  obtain bf buff where j: "stack_junk P p = (bf, buff)" by (cases "stack_junk P p")
  then have "length bf = 24" "length buff = 256" using junk_sizes[of p] by auto
  from print_buff_formats[OF assms(1-3) this] obtain tx where
    "print_buff bf buff fmt va = Some (min (length t) 255, tx)" "is_string tx" "c_string tx = take 255 t" by auto
  then show ?thesis using j assms(4) sent_printstr[of tx p] by (simp add: printk_def port_write_def)
qed

lemma move_cursor_sends:
  assumes "x < 2 ^ 31" and "y < 2 ^ 31"
  shows "\<exists>p'. vt100_move_cursor P (word_of_nat x) (word_of_nat y) p = Some p' \<and> sent p' = sent p @ move_bytes x y"
proof -
  have f: "format_text (literal [0x25, 0x63, 0x5b, 0x25, 0x64, 0x3b, 0x25, 0x64, 0x48])
      [Num 27, Num (word_of_nat y), Num (word_of_nat x)] = Some (move_bytes x y)"
    by (simp add: literal_def directive_text_def move_bytes_def decimal_def)
  have "0 \<notin> set (move_bytes x y)"
    using decimal_other(3)[OF assms(1)] decimal_other(3)[OF assms(2)] by (auto simp: move_bytes_def)
  moreover have "length (move_bytes x y) \<le> 255"
    using decimal_length[OF assms(1)] decimal_length[OF assms(2)] by (simp add: move_bytes_def)
  ultimately obtain p' where "printk P (literal [0x25, 0x63, 0x5b, 0x25, 0x64, 0x3b, 0x25, 0x64, 0x48])
      [Num 27, Num (word_of_nat y), Num (word_of_nat x)] p = Some (length (move_bytes x y), p')"
      "sent p' = sent p @ move_bytes x y"
    using printk_sends[OF f] by (auto simp: arg_ok_def)
  then show ?thesis by (auto simp: vt100_move_cursor_def)
qed

end

text \<open>A port that keeps what was sent, which shows that the laws can hold.\<close>

definition console :: "u8 list pmon" where
  "console = \<lparr>printch = (\<lambda>c p. p @ [c]), printstr = (\<lambda>str p. p @ c_string str),
     stack_junk = (\<lambda>p. (replicate 24 0, replicate 256 0))\<rparr>"

interpretation console: serial_port console "\<lambda>p. p"
  by unfold_locales (simp_all add: console_def)

section \<open>The images\<close>

definition screen_wf :: "'p screen \<Rightarrow> bool" where
  "screen_wf s \<longleftrightarrow> length (new_screen s) = 2400 \<and> length (old_screen s) = 2400 \<and>
    unat (screen_cursor_x s) < 80 \<and> unat (screen_cursor_y s) < 30"

declare upt_rec_numeral [simp del]

lemma images:
  "k < length (new_screen s) \<Longrightarrow> set_new (int k) c s = Some (s\<lparr>new_screen := (new_screen s)[k := c]\<rparr>)"
  "k < length (new_screen s) \<Longrightarrow> get_new (int k) s = Some (new_screen s ! k)"
  "k < length (old_screen s) \<Longrightarrow> set_old (int k) c s = Some (s\<lparr>old_screen := (old_screen s)[k := c]\<rparr>)"
  "k < length (old_screen s) \<Longrightarrow> get_old (int k) s = Some (old_screen s ! k)"
  by (simp_all add: set_new_def get_new_def set_old_def get_old_def)

lemma replace_tail:
  assumes "length ys = length xs" and "\<forall>m < length xs. ys ! m = (if m < a then xs ! m else f m)" and "a \<le> length xs"
  shows "ys = take a xs @ map f [a..<length xs]"
  using assms by (auto intro!: nth_equalityI simp: nth_append)

lemma scroll_old:
  assumes "length (old_screen s) = 2400"
  shows "for_each (\<lambda>i. for_each (\<lambda>j. set_old (int (i * 80 + j)) 0) [0..<80]) [16..<30] s =
    Some (s\<lparr>old_screen := take 1280 (old_screen s) @ replicate 1120 0\<rparr>)"
proof -
  let ?I = "\<lambda>k s'. \<exists>l. s' = s\<lparr>old_screen := l\<rparr> \<and> length l = 2400 \<and>
    (\<forall>m < 2400. l ! m = (if m < 1280 then old_screen s ! m else if m < k then 0 else old_screen s ! m))"
  have "\<exists>s'. for_each (\<lambda>k. set_old (int k) 0) [1280..<2400] s = Some s' \<and> ?I 2400 s'"
  proof (rule for_each_upt[where P = ?I])
    show "?I 1280 s" using assms by (intro exI[of _ "old_screen s"]) simp
    fix k s' assume k: "1280 \<le> k" "k < 2400" and I: "?I k s'"
    then obtain l where l: "s' = s\<lparr>old_screen := l\<rparr>" "length l = 2400"
      "\<forall>m < 2400. l ! m = (if m < 1280 then old_screen s ! m else if m < k then 0 else old_screen s ! m)" by blast
    then have "set_old (int k) 0 s' = Some (s\<lparr>old_screen := l[k := 0]\<rparr>)" using k by (simp add: images)
    moreover have "?I (Suc k) (s\<lparr>old_screen := l[k := 0]\<rparr>)"
      using l(2,3) k by (intro exI[of _ "l[k := 0]"]) (auto simp: nth_list_update less_Suc_eq)
    ultimately show "\<exists>s''. set_old (int k) 0 s' = Some s'' \<and> ?I (Suc k) s''" by blast
  qed simp
  then obtain l where l: "for_each (\<lambda>k. set_old (int k) 0) [1280..<2400] s = Some (s\<lparr>old_screen := l\<rparr>)" "length l = 2400"
    "\<forall>m < 2400. l ! m = (if m < 1280 then old_screen s ! m else 0)" by auto
  have "l = take 1280 (old_screen s) @ map (\<lambda>_. 0) [1280..<length (old_screen s)]"
    by (rule replace_tail) (use l assms in auto)
  then have "l = take 1280 (old_screen s) @ replicate 1120 0" using assms by (simp only: map_replicate_const length_upt) simp
  then show ?thesis using l(1) for_each_rows[of 80 "\<lambda>i j. set_old (int (i * 80 + j)) 0" 16 30 s]
    by (simp del: of_nat_add of_nat_mult)
qed

lemma scroll_new:
  assumes "length (new_screen s) = 2400"
  shows "for_each (\<lambda>i. for_each (\<lambda>j s. if i = 29 then set_new (int (i * 80 + j)) 0x20 s
      else do { ch \<leftarrow> get_new (int ((i + 1) * 80 + j)) s; set_new (int (i * 80 + j)) ch s }) [0..<80]) [16..<30] s =
    Some (s\<lparr>new_screen := take 1280 (new_screen s) @ drop 1360 (new_screen s) @ replicate 80 0x20\<rparr>)"
proof -
  let ?f = "\<lambda>i j s. if i = 29 then set_new (int (i * 80 + j)) 0x20 s
      else do { ch \<leftarrow> get_new (int ((i + 1) * 80 + j)) s; set_new (int (i * 80 + j)) ch s }"
  let ?n = "new_screen s"
  let ?g = "\<lambda>m. if m < 2320 then ?n ! (m + 80) else 0x20"
  let ?I = "\<lambda>k s'. \<exists>l. s' = s\<lparr>new_screen := l\<rparr> \<and> length l = 2400 \<and>
    (\<forall>m < 2400. l ! m = (if m < 1280 then ?n ! m else if m < k then ?g m else ?n ! m))"
  have step: "?f (k div 80) (k mod 80) (s\<lparr>new_screen := l\<rparr>) =
      Some (s\<lparr>new_screen := l[k := if k < 2320 then l ! (k + 80) else 0x20]\<rparr>)"
    if "k < 2400" "length l = 2400" for k and l
  proof -
    have k: "k div 80 * 80 + k mod 80 = k" "(k div 80 + 1) * 80 + k mod 80 = k + 80" by simp_all
    have "k div 80 = 29 \<longleftrightarrow> \<not> k < 2320" using that(1) by auto
    then show ?thesis
      using that images(1)[of k "s\<lparr>new_screen := l\<rparr>"] images(2)[of "k + 80" "s\<lparr>new_screen := l\<rparr>"] unfolding k by auto
  qed
  have "\<exists>s'. for_each (\<lambda>k. ?f (k div 80) (k mod 80)) [1280..<2400] s = Some s' \<and> ?I 2400 s'"
  proof (rule for_each_upt[where P = ?I])
    show "?I 1280 s" using assms by (intro exI[of _ ?n]) simp
    fix k s' assume k: "1280 \<le> k" "k < 2400" and I: "?I k s'"
    then obtain l where l: "s' = s\<lparr>new_screen := l\<rparr>" "length l = 2400"
      "\<forall>m < 2400. l ! m = (if m < 1280 then ?n ! m else if m < k then ?g m else ?n ! m)" by blast
    let ?l = "l[k := if k < 2320 then l ! (k + 80) else 0x20]"
    have "\<forall>m < 2400. ?l ! m = (if m < 1280 then ?n ! m else if m < Suc k then ?g m else ?n ! m)"
      using l(2,3) k by (simp add: nth_list_update less_Suc_eq)
    then have "?I (Suc k) (s\<lparr>new_screen := ?l\<rparr>)" using l(2) by (intro exI[of _ ?l]) simp
    then show "\<exists>s''. ?f (k div 80) (k mod 80) s' = Some s'' \<and> ?I (Suc k) s''"
      unfolding l(1) step[OF k(2) l(2)] by blast
  qed simp
  then obtain l where l: "for_each (\<lambda>k. ?f (k div 80) (k mod 80)) [1280..<2400] s = Some (s\<lparr>new_screen := l\<rparr>)"
    "length l = 2400" "\<forall>m < 2400. l ! m = (if m < 1280 then ?n ! m else ?g m)" by auto
  have "l = take 1280 ?n @ map ?g [1280..<length ?n]"
    by (rule replace_tail) (use l assms in auto)
  also have "map ?g [1280..<length ?n] = drop 1360 ?n @ replicate 80 0x20"
    using assms by (auto intro!: nth_equalityI simp: nth_append add.commute)
  finally show ?thesis
    using l(1) for_each_rows[of 80 ?f 16 30 s] by simp
qed

text \<open>Scrolling moves the lines 17 to 29 up and leaves the upper half.\<close>

lemma screen_scroll_eq:
  assumes "length (new_screen s) = 2400" and "length (old_screen s) = 2400"
  shows "screen_scroll 16 29 s = Some (s\<lparr>old_screen := take 1280 (old_screen s) @ replicate 1120 0,
    new_screen := take 1280 (new_screen s) @ drop 1360 (new_screen s) @ replicate 80 0x20\<rparr>)"
proof -
  have e: "(29 :: nat) + 1 = 30" by simp
  show ?thesis
    unfolding screen_scroll_def SCREEN_WIDTH_def e scroll_old[OF assms(2)]
    using scroll_new[of "s\<lparr>old_screen := take 1280 (old_screen s) @ replicate 1120 0\<rparr>"] assms(1)
    by (simp del: upt_rec_numeral of_nat_add of_nat_mult)
qed

section \<open>Writing\<close>

lemma sint_small_word: "unat (w :: u32) < 2 ^ 31 \<Longrightarrow> sint w = int (unat w)"
  using sint_word_small[of "unat w"] by simp

lemma unat_Suc_small: "unat (w :: u32) < 2 ^ 31 \<Longrightarrow> unat (w + 1) = unat w + 1"
proof -
  assume "unat w < 2 ^ 31"
  then have "unat (word_of_nat (unat w + 1) :: u32) = unat w + 1" by (intro unat_word_small) simp
  then show ?thesis by (simp add: add.commute)
qed

lemma sint_small_tests:
  assumes "unat (w :: u32) < 2 ^ 31"
  shows "\<not> sint w < 0" and "int SCREEN_WIDTH \<le> sint w \<longleftrightarrow> 80 \<le> unat w"
    and "int SCREEN_HEIGHT \<le> sint w \<longleftrightarrow> 30 \<le> unat w" and "0 < sint w \<longleftrightarrow> w \<noteq> 0"
proof -
  define n where "n = unat w"
  have s: "sint w = int n" using sint_small_word[OF assms] by (simp add: n_def)
  show "\<not> sint w < 0" and "int SCREEN_WIDTH \<le> sint w \<longleftrightarrow> 80 \<le> unat w" and "int SCREEN_HEIGHT \<le> sint w \<longleftrightarrow> 30 \<le> unat w"
    by (simp_all add: s n_def[symmetric] SCREEN_WIDTH_def SCREEN_HEIGHT_def)
  have "w \<noteq> 0 \<longleftrightarrow> 0 < n" unfolding n_def by (rule unat_gt_0[symmetric])
  then show "0 < sint w \<longleftrightarrow> w \<noteq> 0" by (simp add: s)
qed

text \<open>The index of the cursor.\<close>

lemma cursor_index_nat:
  assumes "unat (screen_cursor_x s) < 2 ^ 16" and "unat (screen_cursor_y s) < 2 ^ 16"
  shows "cursor_index s = int (unat (screen_cursor_y s) * 80 + unat (screen_cursor_x s))"
proof -
  have "screen_cursor_y s * word_of_nat SCREEN_WIDTH + screen_cursor_x s =
      word_of_nat (unat (screen_cursor_y s) * 80 + unat (screen_cursor_x s))"
    by (simp add: SCREEN_WIDTH_def)
  moreover have "unat (screen_cursor_y s) * 80 + unat (screen_cursor_x s) < 2 ^ 31" using assms by simp
  ultimately show ?thesis unfolding cursor_index_def by (simp only: sint_word_small)
qed

text \<open>What the four tests after the \<open>switch\<close> of \<open>screen_write_ch\<close> do.\<close>

definition settle :: "'p screen \<Rightarrow> 'p screen" where
  "settle s =
    (let s = (if unat (screen_cursor_x s) = 80 then s\<lparr>screen_cursor_y := screen_cursor_y s + 1, screen_cursor_x := 0\<rparr> else s)
     in if unat (screen_cursor_y s) = 30 then
          s\<lparr>old_screen := take 1280 (old_screen s) @ replicate 1120 0,
            new_screen := take 1280 (new_screen s) @ drop 1360 (new_screen s) @ replicate 80 0x20,
            screen_cursor_x := 0, screen_cursor_y := 29\<rparr>
        else s)"

lemma settle_eq:
  assumes "length (new_screen s) = 2400" and "length (old_screen s) = 2400"
    and "unat (screen_cursor_x s) \<le> 80" and "unat (screen_cursor_y s) \<le> 30"
    and "unat (screen_cursor_x s) = 80 \<Longrightarrow> unat (screen_cursor_y s) < 30"
  shows "screen_settle s = Some (settle s)"
proof -
  have u: "unat (screen_cursor_y s + 1) = unat (screen_cursor_y s) + 1" using assms(4) by (intro unat_Suc_small) simp
  have b: "unat (screen_cursor_x s) < 2 ^ 31" "unat (screen_cursor_y s) < 2 ^ 31" "unat (screen_cursor_y s + 1) < 2 ^ 31"
    using assms(3,4) u by simp_all
  have h: "SCREEN_HEIGHT div 2 + 1 = 16" "SCREEN_HEIGHT - 1 = 29" by (simp_all add: SCREEN_HEIGHT_def)
  show ?thesis
    unfolding screen_settle_def Let_def h using assms u
    by (auto simp: settle_def Let_def sint_small_tests[OF b(1)] sint_small_tests[OF b(2)] sint_small_tests[OF b(3)] screen_scroll_eq)
qed

lemma write_ch_eq:
  assumes "screen_wf s"
  shows "screen_write_ch ch s = Some (settle
    (if ch = 0x0a \<or> ch = 13 then s\<lparr>screen_cursor_x := 0, screen_cursor_y := screen_cursor_y s + 1\<rparr>
     else if ch = 8 then
       (if screen_cursor_x s = 0 then s
        else s\<lparr>screen_cursor_x := screen_cursor_x s - 1,
               new_screen := (new_screen s)[unat (screen_cursor_y s) * 80 + unat (screen_cursor_x s) - 1 := 0x20]\<rparr>)
     else s\<lparr>new_screen := (new_screen s)[unat (screen_cursor_y s) * 80 + unat (screen_cursor_x s) := ch],
            screen_cursor_x := screen_cursor_x s + 1\<rparr>))"
proof -
  let ?x = "screen_cursor_x s" and ?y = "screen_cursor_y s"
  have w: "length (new_screen s) = 2400" "length (old_screen s) = 2400" "unat ?x < 80" "unat ?y < 30"
    using assms by (simp_all add: screen_wf_def)
  have ux: "unat (?x + 1) = unat ?x + 1" "unat (?y + 1) = unat ?y + 1" using w by (simp_all add: unat_Suc_small)
  have pos: "0 < sint ?x \<longleftrightarrow> ?x \<noteq> 0" using w by (intro sint_small_tests) simp
  consider "ch = 0x0a \<or> ch = 13" | (bs) "ch = 8" "?x = 0" | (bs1) "ch = 8" "?x \<noteq> 0" | (put) "ch \<notin> {0x0a, 13, 8}" by blast
  then show ?thesis
  proof cases
    case 1
    have "screen_settle (s\<lparr>screen_cursor_x := 0, screen_cursor_y := ?y + 1\<rparr>) =
        Some (settle (s\<lparr>screen_cursor_x := 0, screen_cursor_y := ?y + 1\<rparr>))"
      by (rule settle_eq) (use w ux in auto)
    then show ?thesis using 1 by (auto simp: screen_write_ch_def)
  next
    case bs
    have "screen_settle s = Some (settle s)" by (rule settle_eq) (use w in auto)
    then show ?thesis using bs pos by (simp add: screen_write_ch_def)
  next
    case bs1
    let ?k = "unat ?y * 80 + unat ?x - 1"
    let ?s = "s\<lparr>screen_cursor_x := ?x - 1, new_screen := (new_screen s)[?k := 0x20]\<rparr>"
    have d: "unat (?x - 1) = unat ?x - 1" "0 < unat ?x" using bs1(2) by (simp_all add: unat_minus_one unat_gt_0)
    have c: "cursor_index (s\<lparr>screen_cursor_x := ?x - 1\<rparr>) = int ?k"
      using cursor_index_nat[of "s\<lparr>screen_cursor_x := ?x - 1\<rparr>"] w d by simp
    have "?k < 2400" using w d by simp
    then have "set_new (int ?k) 0x20 (s\<lparr>screen_cursor_x := ?x - 1\<rparr>) = Some ?s" using w(1) by (simp add: images del: of_nat_add of_nat_mult of_nat_diff)
    moreover have "screen_settle ?s = Some (settle ?s)" by (rule settle_eq) (use w d in auto)
    ultimately show ?thesis using bs1 pos by (simp add: screen_write_ch_def Let_def c del: of_nat_add of_nat_mult)
  next
    case put
    let ?k = "unat ?y * 80 + unat ?x"
    let ?s = "s\<lparr>new_screen := (new_screen s)[?k := ch], screen_cursor_x := ?x + 1\<rparr>"
    have c: "cursor_index s = int ?k" using cursor_index_nat[of s] w by simp
    have "?k < 2400" using w by simp
    then have "set_new (int ?k) ch s = Some (s\<lparr>new_screen := (new_screen s)[?k := ch]\<rparr>)" using w(1) by (simp add: images del: of_nat_add of_nat_mult)
    moreover have "screen_settle ?s = Some (settle ?s)" by (rule settle_eq) (use w ux in auto)
    ultimately show ?thesis using put by (simp add: screen_write_ch_def c del: of_nat_add of_nat_mult)
  qed
qed

text \<open>A character that the driver can put on the terminal.\<close>

definition typeable :: "u8 \<Rightarrow> bool" where
  "typeable c \<longleftrightarrow> printable c \<or> c = 0x0a \<or> c = 13 \<or> c = 8"

definition screen_ok :: "'p screen \<Rightarrow> bool" where
  "screen_ok s \<longleftrightarrow> screen_wf s \<and> list_all printable (new_screen s)"

text \<open>\<open>older s s'\<close>: the image that was sent lost some of its entries and gained none.\<close>

definition older :: "'p screen \<Rightarrow> 'p screen \<Rightarrow> bool" where
  "older s s' \<longleftrightarrow> port s' = port s \<and> (\<forall>k < 2400. old_screen s' ! k = old_screen s ! k \<or> old_screen s' ! k = 0)"

lemma older_trans: "older s s' \<Longrightarrow> older s' s'' \<Longrightarrow> older s s''"
  by (fastforce simp: older_def)

lemma printable_space [simp]: "printable 0x20"
  by (simp add: printable_def)

lemma settle_keeps:
  assumes "length (new_screen s) = 2400" and "length (old_screen s) = 2400"
    and "unat (screen_cursor_x s) < 80 \<and> unat (screen_cursor_y s) \<le> 30 \<or> unat (screen_cursor_x s) \<le> 80 \<and> unat (screen_cursor_y s) < 30"
  shows "screen_wf (settle s)" and "older s (settle s)"
    and "list_all printable (new_screen s) \<Longrightarrow> list_all printable (new_screen (settle s))"
proof -
  have "unat (screen_cursor_y s + 1) = unat (screen_cursor_y s) + 1" using assms(3) by (intro unat_Suc_small) auto
  then show "screen_wf (settle s)" using assms by (auto simp: settle_def Let_def screen_wf_def)
  show "older s (settle s)" using assms(2) by (auto simp: settle_def Let_def older_def nth_append)
  show "list_all printable (new_screen (settle s))" if "list_all printable (new_screen s)"
    using that by (auto simp: settle_def Let_def list_all_iff dest: in_set_takeD in_set_dropD)
qed

lemma write_ch_keeps:
  assumes "screen_wf s"
  shows "\<exists>s'. screen_write_ch ch s = Some s' \<and> screen_wf s' \<and> older s s' \<and>
    (list_all printable (new_screen s) \<longrightarrow> typeable ch \<longrightarrow> list_all printable (new_screen s'))"
proof -
  let ?x = "screen_cursor_x s" and ?y = "screen_cursor_y s"
  let ?s = "if ch = 0x0a \<or> ch = 13 then s\<lparr>screen_cursor_x := 0, screen_cursor_y := ?y + 1\<rparr>
     else if ch = 8 then
       (if ?x = 0 then s
        else s\<lparr>screen_cursor_x := ?x - 1, new_screen := (new_screen s)[unat ?y * 80 + unat ?x - 1 := 0x20]\<rparr>)
     else s\<lparr>new_screen := (new_screen s)[unat ?y * 80 + unat ?x := ch], screen_cursor_x := ?x + 1\<rparr>"
  have w: "length (new_screen s) = 2400" "length (old_screen s) = 2400" "unat ?x < 80" "unat ?y < 30"
    using assms by (simp_all add: screen_wf_def)
  have u: "unat (?x + 1) = unat ?x + 1" "unat (?y + 1) = unat ?y + 1" "?x \<noteq> 0 \<Longrightarrow> unat (?x - 1) = unat ?x - 1"
    using w by (simp_all add: unat_Suc_small unat_minus_one)
  have k: "length (new_screen ?s) = 2400" "length (old_screen ?s) = 2400"
    "unat (screen_cursor_x ?s) < 80 \<and> unat (screen_cursor_y ?s) \<le> 30 \<or> unat (screen_cursor_x ?s) \<le> 80 \<and> unat (screen_cursor_y ?s) < 30"
    using w u by auto
  have "older s ?s" by (simp add: older_def)
  moreover have "list_all printable (new_screen ?s)" if "list_all printable (new_screen s)" "typeable ch"
    using that by (auto simp: list_all_iff typeable_def dest!: set_update_subset_insert[THEN subsetD])
  ultimately show ?thesis
    using write_ch_eq[OF assms, of ch] settle_keeps[OF k] older_trans by blast
qed

lemma screen_write_keeps:
  assumes "screen_wf s" and "is_string buff"
  shows "\<exists>s'. screen_write buff s = Some s' \<and> screen_wf s' \<and> older s s' \<and>
    (list_all printable (new_screen s) \<longrightarrow> list_all typeable (c_string buff) \<longrightarrow> list_all printable (new_screen s'))"
proof -
  let ?l = "length (c_string buff)"
  let ?I = "\<lambda>k s'. screen_wf s' \<and> older s s' \<and>
    (list_all printable (new_screen s) \<longrightarrow> list_all typeable (c_string buff) \<longrightarrow> list_all printable (new_screen s'))"
  have n: "c_string buff ! i = buff ! i" if "i < ?l" for i
    using that by (simp add: c_string_def takeWhile_nth)
  have "\<exists>s'. for_each (\<lambda>i. screen_write_ch (buff ! i)) [0..<?l] s = Some s' \<and> ?I ?l s'"
  proof (rule for_each_upt[where P = ?I])
    show "?I 0 s" using assms(1) by (simp add: older_def)
    fix k s' assume k: "k < ?l" and I: "?I k s'"
    obtain s'' where "screen_write_ch (buff ! k) s' = Some s''" "screen_wf s''" "older s' s''"
      "list_all printable (new_screen s') \<longrightarrow> typeable (buff ! k) \<longrightarrow> list_all printable (new_screen s'')"
      using write_ch_keeps[of s' "buff ! k"] I by blast
    moreover have "list_all typeable (c_string buff) \<longrightarrow> typeable (buff ! k)"
      using k n[OF k] by (metis list_all_length)
    ultimately show "\<exists>s''. screen_write_ch (buff ! k) s' = Some s'' \<and> ?I (Suc k) s''"
      using I older_trans by blast
  qed simp
  then show ?thesis using strlen_some[OF assms(2)] by (simp add: screen_write_def)
qed

section \<open>Sending the differences\<close>

text \<open>The terminal shows every entry of the image that was sent; zero stands for an unknown
  entry.\<close>

definition shown :: "u8 list \<Rightarrow> vt \<Rightarrow> bool" where
  "shown img t \<longleftrightarrow> vmode t = Ground \<and>
    (\<forall>k < 2400. img ! k \<noteq> 0 \<longrightarrow> vcell t (k div 80 + 1) (k mod 80 + 1) = img ! k)"

lemma shown_older: "shown (old_screen s) t \<Longrightarrow> older s s' \<Longrightarrow> shown (old_screen s') t"
  unfolding shown_def older_def by metis

lemma shown_put:
  assumes "shown img t" and "k < 2400" and "length img = 2400" and "printable c"
  shows "shown (img[k := c]) (vt_run (move_bytes (k mod 80 + 1) (k div 80 + 1) @ [c]) t)"
proof -
  have g: "vmode t = Ground" using assms(1) by (simp add: shown_def)
  have e: "c \<noteq> 0x1b" using assms(4) by (auto simp: printable_def)
  have "vt_run (move_bytes (k mod 80 + 1) (k div 80 + 1)) t = t\<lparr>vrow := k div 80 + 1, vcol := k mod 80 + 1\<rparr>"
    using vt_run_move[OF g, of "k mod 80 + 1" "k div 80 + 1"] assms(2) by simp
  then have r: "vt_run (move_bytes (k mod 80 + 1) (k div 80 + 1) @ [c]) t =
      t\<lparr>vrow := k div 80 + 1, vcol := k mod 80 + 2,
        vcell := (vcell t)(k div 80 + 1 := (vcell t (k div 80 + 1))(k mod 80 + 1 := c))\<rparr>"
    using g e assms(4) by (simp add: vt_byte_def)
  have ne: "m div 80 \<noteq> k div 80 \<or> m mod 80 \<noteq> k mod 80" if "m \<noteq> k" for m
    using that by (metis div_mult_mod_eq)
  have "vcell (t\<lparr>vrow := k div 80 + 1, vcol := k mod 80 + 2,
        vcell := (vcell t)(k div 80 + 1 := (vcell t (k div 80 + 1))(k mod 80 + 1 := c))\<rparr>) (m div 80 + 1) (m mod 80 + 1) = img[k := c] ! m"
    if "m < 2400" "img[k := c] ! m \<noteq> 0" for m
    using that assms(1,3) ne[of m] by (cases "m = k") (auto simp: shown_def)
  then show ?thesis unfolding r using g by (simp add: shown_def)
qed

text \<open>What the terminal shows after all the bytes that were sent through the port.\<close>

context serial_port
begin

lemma reflush_step:
  assumes "length (new_screen s) = 2400" and "length (old_screen s) = 2400" and "list_all printable (new_screen s)"
    and "k < 2400" and "shown (old_screen s) (vt_run (sent (port s)) t)"
  shows "\<exists>s'. (do {
       ch \<leftarrow> get_new (int k) s;
       old \<leftarrow> get_old (int k) s;
       if ch \<noteq> old then do {
         p \<leftarrow> vt100_move_cursor P (word_of_nat (k mod 80 + 1)) (word_of_nat (k div 80 + 1)) (port s);
         set_old (int k) ch (s\<lparr>port := port_write_ch P ch p\<rparr>)
       } else Some s }) = Some s' \<and>
    (\<exists>p. s' = s\<lparr>old_screen := (old_screen s)[k := new_screen s ! k], port := p\<rparr>) \<and>
    shown (old_screen s') (vt_run (sent (port s')) t)"
proof (cases "new_screen s ! k = old_screen s ! k")
  case True
  then have "s = s\<lparr>old_screen := (old_screen s)[k := new_screen s ! k], port := port s\<rparr>" by simp
  then show ?thesis using True assms by (auto simp: images intro: exI[of _ "port s"])
next
  case False
  let ?c = "new_screen s ! k"
  have small: "k mod 80 + 1 < 2 ^ 31" "k div 80 + 1 < 2 ^ 31" using assms(4) by simp_all
  obtain p where p: "vt100_move_cursor P (word_of_nat (k mod 80 + 1)) (word_of_nat (k div 80 + 1)) (port s) = Some p"
    "sent p = sent (port s) @ move_bytes (k mod 80 + 1) (k div 80 + 1)"
    using move_cursor_sends[of "k mod 80 + 1" "k div 80 + 1" "port s"] small by blast
  let ?s = "s\<lparr>old_screen := (old_screen s)[k := ?c], port := printch P ?c p\<rparr>"
  have "printable ?c" using assms(1,3,4) by (simp add: list_all_length)
  then have "shown (old_screen ?s) (vt_run (sent (port ?s)) t)"
    using shown_put[OF assms(5,4,2)] p(2) by (simp add: sent_printch)
  moreover have "set_old (int k) ?c (s\<lparr>port := port_write_ch P ?c p\<rparr>) = Some ?s"
    using assms(2,4) by (simp add: images port_write_ch_def)
  ultimately show ?thesis using False p(1) assms(1,2,4) by (auto simp: images)
qed

lemma reflush_shows:
  assumes "screen_ok s" and "shown (old_screen s) (vt_run (sent (port s)) t)"
  shows "\<exists>p. screen_reflush P s = Some (s\<lparr>old_screen := new_screen s, port := p\<rparr>) \<and>
    shown (new_screen s) (vt_run (sent p) t)"
proof -
  let ?f = "\<lambda>i j s. do {
       ch \<leftarrow> get_new (int (i * 80 + j)) s;
       old \<leftarrow> get_old (int (i * 80 + j)) s;
       if ch \<noteq> old then do {
         p \<leftarrow> vt100_move_cursor P (word_of_nat (j + 1)) (word_of_nat (i + 1)) (port s);
         set_old (int (i * 80 + j)) ch (s\<lparr>port := port_write_ch P ch p\<rparr>)
       } else Some s }"
  let ?n = "new_screen s"
  have w: "length ?n = 2400" "length (old_screen s) = 2400" "list_all printable ?n"
    "unat (screen_cursor_x s) < 2 ^ 31" "unat (screen_cursor_y s) < 2 ^ 31"
    using assms(1) by (simp_all add: screen_ok_def screen_wf_def)
  let ?I = "\<lambda>k s'. \<exists>l p. s' = s\<lparr>old_screen := l, port := p\<rparr> \<and> length l = 2400 \<and> (\<forall>m < k. l ! m = ?n ! m) \<and>
    shown l (vt_run (sent p) t)"
  have "\<exists>s'. for_each (\<lambda>k. ?f (k div 80) (k mod 80)) [0..<2400] s = Some s' \<and> ?I 2400 s'"
  proof (rule for_each_upt[where P = ?I])
    show "?I 0 s" using assms(2) w(2) by (intro exI[of _ "old_screen s"] exI[of _ "port s"]) simp
    fix k s' assume k: "k < 2400" and I: "?I k s'"
    then obtain l p where l: "s' = s\<lparr>old_screen := l, port := p\<rparr>" "length l = 2400" "\<forall>m < k. l ! m = ?n ! m"
      "shown l (vt_run (sent p) t)" by blast
    have dm: "k div 80 * 80 + k mod 80 = k" by simp
    obtain q where "?f (k div 80) (k mod 80) s' = Some (s\<lparr>old_screen := l[k := ?n ! k], port := q\<rparr>)"
      "shown (l[k := ?n ! k]) (vt_run (sent q) t)"
      using reflush_step[of s' k t] k l w unfolding dm by auto
    moreover have "\<forall>m < Suc k. l[k := ?n ! k] ! m = ?n ! m" using l(2,3) k by (simp add: nth_list_update less_Suc_eq)
    ultimately show "\<exists>s''. ?f (k div 80) (k mod 80) s' = Some s'' \<and> ?I (Suc k) s''"
      using l(2) by (intro exI[of _ "s\<lparr>old_screen := l[k := ?n ! k], port := q\<rparr>"] conjI exI[of _ "l[k := ?n ! k]"] exI[of _ q]) simp_all
  qed simp
  then obtain l p where l: "for_each (\<lambda>k. ?f (k div 80) (k mod 80)) [0..<2400] s = Some (s\<lparr>old_screen := l, port := p\<rparr>)"
    "length l = 2400" "\<forall>m < 2400. l ! m = ?n ! m" "shown l (vt_run (sent p) t)" by blast
  have "l = ?n" using l(2,3) w(1) by (simp add: nth_equalityI)
  moreover obtain q where q: "vt100_move_cursor P (screen_cursor_x s) (screen_cursor_y s) p = Some q"
    "sent q = sent p @ move_bytes (unat (screen_cursor_x s)) (unat (screen_cursor_y s))"
    using move_cursor_sends[OF w(4,5), of p] by auto
  moreover have "vmode (vt_run (sent p) t) = Ground" using l(4) by (simp add: shown_def)
  ultimately have "shown ?n (vt_run (sent q) t)"
    using l(4) vt_run_move[OF _ w(4,5)] by (simp add: shown_def)
  moreover have "screen_reflush P s = Some (s\<lparr>old_screen := ?n, port := q\<rparr>)"
    unfolding screen_reflush_def SCREEN_WIDTH_def SCREEN_HEIGHT_def
    using l(1) \<open>l = ?n\<close> q(1) for_each_rows[of 80 ?f 0 30 s] by (simp del: of_nat_add of_nat_mult)
  ultimately show ?thesis by blast
qed

end

section \<open>Clearing\<close>

lemma clear_loop:
  assumes "length (new_screen s) = 2400" and "length (old_screen s) = 2400"
  shows "for_each (\<lambda>i. for_each (\<lambda>j s. do { s \<leftarrow> set_new (int (i * 80 + j)) 0x20 s; set_old (int (i * 80 + j)) 0 s }) [0..<80]) [0..<30] s =
    Some (s\<lparr>new_screen := replicate 2400 0x20, old_screen := replicate 2400 0\<rparr>)"
proof -
  let ?f = "\<lambda>i j s. do { s \<leftarrow> set_new (int (i * 80 + j)) 0x20 s; set_old (int (i * 80 + j)) 0 s }"
  let ?I = "\<lambda>k s'. \<exists>n l. s' = s\<lparr>new_screen := n, old_screen := l\<rparr> \<and> length n = 2400 \<and> length l = 2400 \<and>
    (\<forall>m < k. n ! m = 0x20 \<and> l ! m = 0)"
  have "\<exists>s'. for_each (\<lambda>k. ?f (k div 80) (k mod 80)) [0..<2400] s = Some s' \<and> ?I 2400 s'"
  proof (rule for_each_upt[where P = ?I])
    show "?I 0 s" using assms by (intro exI[of _ "new_screen s"] exI[of _ "old_screen s"]) simp
    fix k s' assume k: "k < 2400" and I: "?I k s'"
    then obtain n l where l: "s' = s\<lparr>new_screen := n, old_screen := l\<rparr>" "length n = 2400" "length l = 2400"
      "\<forall>m < k. n ! m = 0x20 \<and> l ! m = 0" by blast
    have dm: "k div 80 * 80 + k mod 80 = k" by simp
    have "?f (k div 80) (k mod 80) s' = Some (s\<lparr>new_screen := n[k := 0x20], old_screen := l[k := 0]\<rparr>)"
      unfolding dm using l k by (simp add: images)
    moreover have "?I (Suc k) (s\<lparr>new_screen := n[k := 0x20], old_screen := l[k := 0]\<rparr>)"
      using l k by (intro exI[of _ "n[k := 0x20]"] exI[of _ "l[k := 0]"]) (simp add: nth_list_update less_Suc_eq)
    ultimately show "\<exists>s''. ?f (k div 80) (k mod 80) s' = Some s'' \<and> ?I (Suc k) s''" by blast
  qed simp
  then obtain n l where l: "for_each (\<lambda>k. ?f (k div 80) (k mod 80)) [0..<2400] s = Some (s\<lparr>new_screen := n, old_screen := l\<rparr>)"
    "length n = 2400" "length l = 2400" "\<forall>m < 2400. n ! m = 0x20 \<and> l ! m = 0" by blast
  have "n = replicate 2400 0x20" "l = replicate 2400 0" using l by (simp_all add: list_eq_iff_nth_eq)
  then show ?thesis
    using l(1) for_each_rows[of 80 ?f 0 30 s] by (simp del: of_nat_add of_nat_mult)
qed

lemma shown_unknown: "vmode t = Ground \<Longrightarrow> shown (replicate 2400 0) t"
  by (simp add: shown_def)

context serial_port
begin

lemma screen_clear_shows:
  assumes "length (new_screen s) = 2400" and "length (old_screen s) = 2400" and "vmode (vt_run (sent (port s)) t) = Ground"
  shows "\<exists>p. screen_clear P line1 line2 s = Some (s\<lparr>new_screen := replicate 2400 0x20, screen_cursor_x := 0,
      screen_cursor_y := 0, old_screen := replicate 2400 0x20, port := p\<rparr>) \<and> shown (replicate 2400 0x20) (vt_run (sent p) t)"
proof -
  let ?s = "s\<lparr>new_screen := replicate 2400 0x20, old_screen := replicate 2400 0, screen_cursor_x := 0, screen_cursor_y := 0\<rparr>"
  have "screen_ok ?s" by (simp add: screen_ok_def screen_wf_def list_all_iff)
  moreover have "shown (old_screen ?s) (vt_run (sent (port ?s)) t)" using assms(3) shown_unknown by simp
  ultimately obtain p where "screen_reflush P ?s = Some (?s\<lparr>old_screen := new_screen ?s, port := p\<rparr>)"
    "shown (new_screen ?s) (vt_run (sent p) t)" using reflush_shows by blast
  then show ?thesis
    unfolding screen_clear_def SCREEN_WIDTH_def SCREEN_HEIGHT_def using clear_loop[OF assms(1,2)]
    by (auto simp del: of_nat_add of_nat_mult)
qed

lemma init_sends:
  shows "\<exists>p'. vt100_hidden_cursor P p = Some p' \<and> sent p' = sent p @ [0x1b, 0x5b, 0x3f, 0x32, 0x35, 0x6c]"
    and "\<exists>p'. vt100_clear P p = Some p' \<and> sent p' = sent p @ [0x1b, 0x5b, 0x32, 0x4a]"
proof -
  have "format_text (literal [0x25, 0x63, 0x5b, 0x3f, 0x32, 0x35, 0x6c]) [Num 27] = Some [0x1b, 0x5b, 0x3f, 0x32, 0x35, 0x6c]"
    and "format_text (literal [0x25, 0x63, 0x5b, 0x32, 0x4a]) [Num 27] = Some [0x1b, 0x5b, 0x32, 0x4a]"
    by (simp_all add: literal_def directive_text_def)
  from printk_sends[OF this(1), of p] printk_sends[OF this(2), of p]
  show "\<exists>p'. vt100_hidden_cursor P p = Some p' \<and> sent p' = sent p @ [0x1b, 0x5b, 0x3f, 0x32, 0x35, 0x6c]"
    and "\<exists>p'. vt100_clear P p = Some p' \<and> sent p' = sent p @ [0x1b, 0x5b, 0x32, 0x4a]"
    by (auto simp: vt100_hidden_cursor_def vt100_clear_def arg_ok_def)
qed

lemma init_screen_shows:
  assumes "length (new_screen s) = 2400" and "length (old_screen s) = 2400" and "vmode (vt_run (sent (port s)) t) = Ground"
  shows "\<exists>p. init_screen P s = Some (s\<lparr>new_screen := replicate 2400 0x20, screen_cursor_x := 0,
      screen_cursor_y := 0, old_screen := replicate 2400 0x20, port := p\<rparr>) \<and> shown (replicate 2400 0x20) (vt_run (sent p) t)"
proof -
  obtain p1 where p1: "vt100_hidden_cursor P (port s) = Some p1" "sent p1 = sent (port s) @ [0x1b, 0x5b, 0x3f, 0x32, 0x35, 0x6c]"
    using init_sends(1) by blast
  obtain p2 where p2: "vt100_clear P p1 = Some p2" "sent p2 = sent p1 @ [0x1b, 0x5b, 0x32, 0x4a]"
    using init_sends(2) by blast
  have "vmode (vt_run (sent p2) t) = Ground" using assms(3) p1(2) p2(2) by (simp add: vt_byte_def vt_control_def)
  with screen_clear_shows[of "s\<lparr>port := p2\<rparr>" t] assms(1,2) p1(1) p2(1) show ?thesis
    by (simp add: init_screen_def)
qed

end

section \<open>A line of text\<close>

definition at_cursor :: "'p screen \<Rightarrow> nat" where
  "at_cursor s = unat (screen_cursor_y s) * 80 + unat (screen_cursor_x s)"

lemma write_line:
  assumes "screen_wf s" and "is_string buff" and "list_all printable (c_string buff)"
    and "unat (screen_cursor_x s) + length (c_string buff) < 80"
  shows "screen_write buff s = Some (s\<lparr>new_screen := take (at_cursor s) (new_screen s) @ c_string buff @
      drop (at_cursor s + length (c_string buff)) (new_screen s),
    screen_cursor_x := screen_cursor_x s + word_of_nat (length (c_string buff))\<rparr>)"
proof -
  let ?l = "length (c_string buff)" and ?k = "at_cursor s" and ?n = "new_screen s"
  have w: "length ?n = 2400" "length (old_screen s) = 2400" "unat (screen_cursor_x s) < 80" "unat (screen_cursor_y s) < 30"
    using assms(1) by (simp_all add: screen_wf_def)
  have kl: "?k + ?l < 2400" using w assms(4) by (simp add: at_cursor_def)
  let ?s = "\<lambda>i. s\<lparr>new_screen := take ?k ?n @ take i (c_string buff) @ drop (?k + i) ?n,
    screen_cursor_x := screen_cursor_x s + word_of_nat i\<rparr>"
  have "\<exists>s'. for_each (\<lambda>i. screen_write_ch (buff ! i)) [0..<?l] s = Some s' \<and> s' = ?s ?l"
  proof (rule for_each_upt[where P = "\<lambda>i s'. s' = ?s i"])
    fix i s' assume i: "i < ?l" and s': "s' = ?s i"
    let ?c = "c_string buff ! i"
    have c: "?c = buff ! i" using i by (simp add: c_string_def takeWhile_nth)
    have "printable ?c" using assms(3) i by (simp add: list_all_length)
    then have nc: "?c \<noteq> 0x0a \<and> ?c \<noteq> 13 \<and> ?c \<noteq> 8" by (auto simp: printable_def)
    have xi: "unat (screen_cursor_x s + word_of_nat i) = unat (screen_cursor_x s) + i" if "i < 80" for i
      using unat_word_small[of "unat (screen_cursor_x s) + i"] w(3) that by simp
    have x: "unat (screen_cursor_x s + word_of_nat i) = unat (screen_cursor_x s) + i"
      "unat (screen_cursor_x s + word_of_nat i + 1) = unat (screen_cursor_x s) + i + 1"
      using xi[of i] xi[of "i + 1"] i assms(4) by (simp_all add: add.assoc add.commute[of 1])
    have "screen_wf (?s i)" using w x i assms(4) kl by (simp add: screen_wf_def)
    from write_ch_eq[OF this, of ?c] nc
    have "screen_write_ch ?c (?s i) = Some (settle (s\<lparr>new_screen := (take ?k ?n @ take i (c_string buff) @ drop (?k + i) ?n)[?k + i := ?c],
        screen_cursor_x := screen_cursor_x s + word_of_nat i + 1\<rparr>))"
      by (simp add: x at_cursor_def add.assoc)
    also have "(take ?k ?n @ take i (c_string buff) @ drop (?k + i) ?n)[?k + i := ?c] =
        take ?k ?n @ take (Suc i) (c_string buff) @ drop (?k + Suc i) ?n"
      using kl i w(1) by (simp add: list_update_append take_Suc_conv_app_nth Cons_nth_drop_Suc[symmetric])
    also have "settle (s\<lparr>new_screen := take ?k ?n @ take (Suc i) (c_string buff) @ drop (?k + Suc i) ?n,
        screen_cursor_x := screen_cursor_x s + word_of_nat i + 1\<rparr>) = ?s (Suc i)"
      using x(2) i assms(4) w(4) by (simp add: settle_def Let_def add.assoc add.commute[of 1])
    finally show "\<exists>s''. screen_write_ch (buff ! i) s' = Some s'' \<and> s'' = ?s (Suc i)" by (simp add: s' c)
  qed simp_all
  then show ?thesis using strlen_some[OF assms(2)] by (simp add: screen_write_def)
qed

section \<open>Properties\<close>

text \<open>The picture on the terminal, line by line.\<close>

definition displays :: "vt \<Rightarrow> u8 list \<Rightarrow> bool" where
  "displays t img \<longleftrightarrow> (\<forall>i < 30. \<forall>j < 80. vcell t (i + 1) (j + 1) = img ! (i * 80 + j))"

lemma displays_all:
  assumes "shown img t" and "length img = 2400" and "list_all printable img"
  shows "displays t img"
proof -
  have "vcell t (i + 1) (j + 1) = img ! (i * 80 + j)" if "i < 30" "j < 80" for i j
  proof -
    have k: "i * 80 + j < 2400" "(i * 80 + j) div 80 = i" "(i * 80 + j) mod 80 = j" using that by simp_all
    then have "printable (img ! (i * 80 + j))" using assms(2,3) by (simp add: list_all_length)
    then have "img ! (i * 80 + j) \<noteq> 0" by (auto simp: printable_def)
    then show ?thesis using assms(1) k unfolding shown_def by metis
  qed
  then show ?thesis by (simp add: displays_def)
qed

text \<open>C21: A terminal that shows what the driver believes it shows displays the whole wanted image
  after any text of printable characters, new lines and backspaces is written and the screen
  refreshed, and the driver's belief is again right: the differences that \<open>screen_reflush\<close> sends
  through the firmware are enough, and scrolling invalidates what it moves.\<close>

theorem write_then_reflush:
  assumes "serial_port P sent" and "screen_ok s" and "shown (old_screen s) (vt_run (sent (port s)) t)"
    and "is_string buff" and "list_all typeable (c_string buff)"
  shows "\<exists>s' s''. screen_write buff s = Some s' \<and> screen_reflush P s' = Some s'' \<and> screen_ok s'' \<and>
    new_screen s'' = new_screen s' \<and> displays (vt_run (sent (port s'')) t) (new_screen s') \<and>
    shown (old_screen s'') (vt_run (sent (port s'')) t)"
proof -
  have "screen_wf s" "list_all printable (new_screen s)" using assms(2) by (simp_all add: screen_ok_def)
  with screen_write_keeps[of s buff] assms(4,5) obtain s' where
    s': "screen_write buff s = Some s'" "screen_wf s'" "older s s'" "list_all printable (new_screen s')" by auto
  have ok: "screen_ok s'" using s'(2,4) by (simp add: screen_ok_def)
  have "shown (old_screen s') (vt_run (sent (port s')) t)"
    using shown_older[OF assms(3) s'(3)] s'(3) by (simp add: older_def)
  from serial_port.reflush_shows[OF assms(1) ok this] obtain p where
    r: "screen_reflush P s' = Some (s'\<lparr>old_screen := new_screen s', port := p\<rparr>)" "shown (new_screen s') (vt_run (sent p) t)" by blast
  moreover have "displays (vt_run (sent p) t) (new_screen s')"
    using displays_all[OF r(2)] s'(2,4) by (simp add: screen_wf_def)
  ultimately show ?thesis using s'(1) ok by (auto simp: screen_ok_def screen_wf_def)
qed

definition blank_screen :: "u8 list screen" where
  "blank_screen = \<lparr>screen_cursor_x = 0, screen_cursor_y = 0, new_screen = replicate 2400 0x20,
     old_screen = replicate 2400 0, port = []\<rparr>"

definition blank_vt :: vt where
  "blank_vt = \<lparr>vmode = Ground, vrow = 1, vcol = 1, vcell = (\<lambda>i j. 0)\<rparr>"

lemma blank_screen_ok: "screen_ok blank_screen" "screen_wf blank_screen"
  "shown (old_screen blank_screen) (vt_run (port blank_screen) blank_vt)"
  by (simp_all add: blank_screen_def blank_vt_def screen_ok_def screen_wf_def shown_def list_all_iff)

theorem write_then_reflush_witness:
  "\<exists>s' s''. screen_write [0x48, 0x69, 0x0a, 0] blank_screen = Some s' \<and> screen_reflush console s' = Some s'' \<and> screen_ok s'' \<and>
    new_screen s'' = new_screen s' \<and> displays (vt_run (port s'') blank_vt) (new_screen s') \<and>
    shown (old_screen s'') (vt_run (port s'') blank_vt)"
  by (rule write_then_reflush[OF console.serial_port_axioms blank_screen_ok(1,3)])
    (simp_all add: typeable_def printable_def)

text \<open>A formatted line that fits behind the cursor appears on the terminal behind the cursor,
  and every other position of the screen keeps what it had.\<close>

theorem printf_line_displayed:
  assumes "serial_port P sent" and "screen_ok s" and "shown (old_screen s) (vt_run (sent (port s)) t)"
    and "format_text fmt va = Some tx" and "list_all arg_ok va" and "list_all printable tx"
    and "unat (screen_cursor_x s) + length tx < 80" and "length bf = 24" and "length buff = 256"
  shows "\<exists>s' s''. printf_screen bf buff fmt va s = Some (length tx, s') \<and> screen_reflush P s' = Some s'' \<and>
    unat (screen_cursor_x s'') = unat (screen_cursor_x s) + length tx \<and> screen_cursor_y s'' = screen_cursor_y s \<and>
    displays (vt_run (sent (port s'')) t)
      (take (at_cursor s) (new_screen s) @ tx @ drop (at_cursor s + length tx) (new_screen s))"
proof -
  have w: "screen_wf s" "list_all printable (new_screen s)" using assms(2) by (simp_all add: screen_ok_def)
  have "0 \<notin> set tx" using assms(6) by (auto simp: list_all_iff printable_def)
  from print_buff_formats[OF assms(4,5) this assms(8,9)] assms(7) obtain bt where
    b: "print_buff bf buff fmt va = Some (length tx, bt)" "is_string bt" "c_string bt = tx" by auto
  let ?n = "take (at_cursor s) (new_screen s) @ tx @ drop (at_cursor s + length tx) (new_screen s)"
  let ?s = "s\<lparr>new_screen := ?n, screen_cursor_x := screen_cursor_x s + word_of_nat (length tx)\<rparr>"
  have wr: "screen_write bt s = Some ?s" using write_line[OF w(1) b(2)] b(3) assms(6,7) by simp
  have x: "unat (screen_cursor_x s + word_of_nat (length tx)) = unat (screen_cursor_x s) + length tx"
    using unat_word_small[of "unat (screen_cursor_x s) + length tx"] assms(7) by simp
  have len: "length ?n = 2400" using w(1) assms(7) by (simp add: screen_wf_def at_cursor_def)
  have pr: "list_all printable ?n" using w(2) assms(6) by (auto simp: list_all_iff dest: in_set_takeD in_set_dropD)
  have ok: "screen_ok ?s" using w(1) x assms(7) len pr by (simp add: screen_ok_def screen_wf_def)
  have "shown (old_screen ?s) (vt_run (sent (port ?s)) t)" using assms(3) by simp
  from serial_port.reflush_shows[OF assms(1) ok this] obtain p where
    r: "screen_reflush P ?s = Some (?s\<lparr>old_screen := ?n, port := p\<rparr>)" "shown ?n (vt_run (sent p) t)" by auto
  have "displays (vt_run (sent p) t) ?n" by (rule displays_all[OF r(2) len pr])
  then show ?thesis using b(1) wr r(1) x by (auto simp: printf_screen_def)
qed

text \<open>C22: Every string can be written from every well-formed state, and the state stays
  well formed: the cursor never leaves the screen by writing, and no access leaves the images.\<close>

theorem screen_write_typed:
  assumes "screen_wf s" and "is_string buff"
  shows "\<exists>s'. screen_write buff s = Some s' \<and> screen_wf s' \<and> port s' = port s"
  using screen_write_keeps[OF assms] by (auto simp: older_def)

theorem screen_write_typed_witness:
  "\<exists>s'. screen_write [8, 0xff, 0x0a, 0] blank_screen = Some s' \<and> screen_wf s' \<and> port s' = port blank_screen"
  by (rule screen_write_typed[OF blank_screen_ok(2)]) simp

text \<open>Whatever the two images and the terminal held, \<open>init_screen\<close> leaves a blank terminal and
  images that agree with it; the lines given to \<open>screen_clear\<close> do not matter.\<close>

theorem init_screen_clears:
  assumes "serial_port P sent" and "length (new_screen s) = 2400" and "length (old_screen s) = 2400"
    and "vmode (vt_run (sent (port s)) t) = Ground"
  shows "\<exists>s'. init_screen P s = Some s' \<and> screen_ok s' \<and> displays (vt_run (sent (port s')) t) (replicate 2400 0x20) \<and>
      shown (old_screen s') (vt_run (sent (port s')) t)"
    and "screen_clear P line1 line2 s = command_clear P s"
proof -
  from serial_port.init_screen_shows[OF assms] obtain p where
    i: "init_screen P s = Some (s\<lparr>new_screen := replicate 2400 0x20, screen_cursor_x := 0,
      screen_cursor_y := 0, old_screen := replicate 2400 0x20, port := p\<rparr>)" "shown (replicate 2400 0x20) (vt_run (sent p) t)" by blast
  have "displays (vt_run (sent p) t) (replicate 2400 0x20)" by (rule displays_all[OF i(2)]) (simp_all add: list_all_iff)
  then show "\<exists>s'. init_screen P s = Some s' \<and> screen_ok s' \<and> displays (vt_run (sent (port s')) t) (replicate 2400 0x20) \<and>
      shown (old_screen s') (vt_run (sent (port s')) t)"
    using i by (simp add: screen_ok_def screen_wf_def list_all_iff)
  show "screen_clear P line1 line2 s = command_clear P s" by (simp add: command_clear_def screen_clear_def)
qed

theorem init_screen_clears_witness:
  "\<exists>s'. init_screen console blank_screen = Some s' \<and> screen_ok s' \<and> displays (vt_run (port s') blank_vt) (replicate 2400 0x20) \<and>
    shown (old_screen s') (vt_run (port s') blank_vt)"
  by (rule init_screen_clears(1)[OF console.serial_port_axioms]) (simp_all add: blank_screen_def blank_vt_def)

theorem printf_line_displayed_witness:
  "\<exists>s' s''. printf_screen (replicate 24 0) (replicate 256 0) (literal [0x25, 0x64]) [Num 42] blank_screen = Some (length [0x34, 0x32 :: u8], s') \<and>
    screen_reflush console s' = Some s'' \<and>
    unat (screen_cursor_x s'') = unat (screen_cursor_x blank_screen) + length [0x34, 0x32 :: u8] \<and> screen_cursor_y s'' = screen_cursor_y blank_screen \<and>
    displays (vt_run (port s'') blank_vt)
      (take (at_cursor blank_screen) (new_screen blank_screen) @ [0x34, 0x32] @
        drop (at_cursor blank_screen + length [0x34, 0x32 :: u8]) (new_screen blank_screen))"
proof -
  have "format_text (literal [0x25, 0x64]) [Num 42] = Some [0x34, 0x32]" by code_simp
  then show ?thesis
    by (rule printf_line_displayed[OF console.serial_port_axioms blank_screen_ok(1,3)])
      (simp_all add: printable_def arg_ok_def blank_screen_def)
qed

lemma below_screen_chars:
  assumes "screen_wf s" and "unat x < 80" and "30 \<le> unat y" and "unat y < 2 ^ 16"
  shows "printable ch \<Longrightarrow> screen_write_ch ch (screen_move_cursor x y s) = None"
    and "\<exists>s'. screen_write_ch 0x0a (screen_move_cursor x y s) = Some s' \<and> screen_wf s'"
proof -
  let ?s = "screen_move_cursor x y s"
  have w: "length (new_screen s) = 2400" "length (old_screen s) = 2400" using assms(1) by (simp_all add: screen_wf_def)
  have c: "cursor_index ?s = int (unat y * 80 + unat x)"
    using cursor_index_nat[of ?s] assms(2,4) by (simp add: screen_move_cursor_def)
  show "screen_write_ch ch ?s = None" if "printable ch"
  proof -
    have "ch \<noteq> 0x0a" "ch \<noteq> 8" "ch \<noteq> 13" using that by (auto simp: printable_def)
    moreover have "set_new (cursor_index ?s) ch ?s = None"
      unfolding c set_new_def nat_int using w assms(3) by (simp add: screen_move_cursor_def)
    ultimately show ?thesis by (simp add: screen_write_ch_def)
  qed
  have u: "unat (y + 1) = unat y + 1" using assms(4) by (intro unat_Suc_small) simp
  have b: "unat (0 :: u32) < 2 ^ 31" "unat (y + 1) < 2 ^ 31" using u assms(4) by simp_all
  have h: "SCREEN_HEIGHT div 2 + 1 = 16" "SCREEN_HEIGHT - 1 = 29" by (simp_all add: SCREEN_HEIGHT_def)
  have wd: "SCREEN_WIDTH \<noteq> 0" by (simp add: SCREEN_WIDTH_def)
  let ?s1 = "s\<lparr>screen_cursor_x := 0, screen_cursor_y := y + 1\<rparr>"
  have "screen_write_ch 0x0a ?s = screen_settle ?s1" by (simp add: screen_write_ch_def screen_move_cursor_def)
  also have "\<dots> = Some (?s1\<lparr>old_screen := take 1280 (old_screen s) @ replicate 1120 0,
      new_screen := take 1280 (new_screen s) @ drop 1360 (new_screen s) @ replicate 80 0x20, screen_cursor_x := 0, screen_cursor_y := 29\<rparr>)"
    unfolding screen_settle_def Let_def h using u w assms(3)
    by (simp add: sint_small_tests[OF b(2)] screen_scroll_eq wd)
  finally show "\<exists>s'. screen_write_ch 0x0a ?s = Some s' \<and> screen_wf s'" using w by (simp add: screen_wf_def)
qed

text \<open>\<open>screen_move_cursor\<close> takes any position. From a line below the screen an ordinary character is
  stored outside the image, and a new line brings the cursor back to the last line.\<close>

theorem cursor_below_screen:
  assumes "screen_wf s" and "unat x < 80" and "30 \<le> unat y" and "unat y < 2 ^ 16" and "printable ch"
  shows "screen_write_ch ch (screen_move_cursor x y s) = None \<and>
    (\<exists>s'. screen_write_ch 0x0a (screen_move_cursor x y s) = Some s' \<and> screen_wf s')"
  using below_screen_chars[OF assms(1-4)] assms(5) by blast

theorem cursor_below_screen_witness:
  "screen_write_ch 0x41 (screen_move_cursor 0 30 blank_screen) = None"
  using cursor_below_screen[OF blank_screen_ok(2), of 0 30 "0x41"] by (simp add: printable_def)

end
