(* ===== verification/Mm.thy ===== *)
theory Mm
  imports Prelude
begin

text \<open>
  \<^verbatim>\<open>kernel/mm/memory.c\<close>, \<^verbatim>\<open>include/os/mm.h\<close> and \<open>init_page_table\<close> of
  \<^verbatim>\<open>init/main.c\<close>: the page table, which all processes share, allocation of physical frames on
  first use, and the refill of the TLB. An access outside the table is \<open>None\<close>.
\<close>

unbundle bit_operations_syntax

section \<open>Operations\<close>

definition TLB_ENTRY_NUMBER :: nat where "TLB_ENTRY_NUMBER = 32"
definition PAGE_ENTRY_NUMBER :: nat where "PAGE_ENTRY_NUMBER = 0x2000"
definition PTE_VALID :: u32 where "PTE_VALID = 0xb"
definition GLOBAL_ASID :: u32 where "GLOBAL_ASID = 1"

text \<open>
  The page table, the counter of \<open>do_page_fault\<close> (a static variable), the coprocessor registers
  that describe a TLB entry, and the TLB. \<open>cp0_random\<close> is the index that the processor chooses
  for \<open>tlbwr\<close>.
\<close>

record mm =
  page_entrys :: "u32 list"
  pf_count :: u32
  cp0_entryhi :: u32
  cp0_entrylo0 :: u32
  cp0_entrylo1 :: u32
  cp0_pagemask :: u32
  cp0_random :: nat
  tlb :: "nat \<Rightarrow> u32 \<times> u32 \<times> u32 \<times> u32"
  mm_log :: "string list"

definition init_page_table :: "mm \<Rightarrow> mm" where
  "init_page_table s = fold (\<lambda>i s. s\<lparr>page_entrys := (page_entrys s)[i := 0x0]\<rparr>) [0..<PAGE_ENTRY_NUMBER] s"

definition do_page_fault :: "u32 \<Rightarrow> mm \<Rightarrow> mm option" where
  "do_page_fault vpn s =
    (let s = (if sint (pf_count s) > 0xfff then s\<lparr>mm_log := mm_log s @ [''physical memory is full!!!'' @ [CHR 0x0a]]\<rparr> else s)
     in if unat vpn < length (page_entrys s)
        then Some (s\<lparr>page_entrys := (page_entrys s)[unat vpn := 0xb0001000 + pf_count s], pf_count := pf_count s + 1\<rparr>)
        else None)"

definition read_pte :: "mm \<Rightarrow> u32 \<Rightarrow> u32 option" where
  "read_pte s vpn = (if unat vpn < length (page_entrys s) then Some (page_entrys s ! unat vpn) else None)"

definition asm_tlbwr :: "mm \<Rightarrow> mm" where
  "asm_tlbwr s = s\<lparr>tlb := (tlb s)(cp0_random s := (cp0_entryhi s, cp0_entrylo0 s, cp0_entrylo1 s, cp0_pagemask s))\<rparr>"

text \<open>The value of an \<open>EntryLo\<close> register for a frame.\<close>

definition entrylo :: "u32 \<Rightarrow> u32" where
  "entrylo pfn = push_bit 6 pfn OR push_bit 3 2 OR push_bit 2 1 OR push_bit 1 1 OR GLOBAL_ASID"

definition fault_if_invalid :: "u32 \<Rightarrow> mm \<Rightarrow> mm option" where
  "fault_if_invalid vpn s = do {
     e \<leftarrow> read_pte s vpn;
     if drop_bit 28 e \<noteq> PTE_VALID then do_page_fault vpn s else Some s
   }"

definition do_TLB_Refill :: "u32 \<Rightarrow> u32 \<Rightarrow> mm \<Rightarrow> mm option" where
  "do_TLB_Refill badvaddr pid s = do {
     let vpn = drop_bit 12 badvaddr;
     let vpn2 = drop_bit 1 vpn;
     s \<leftarrow> fault_if_invalid (vpn2 * 2) s;
     s \<leftarrow> fault_if_invalid (vpn2 * 2 + 1) s;
     e0 \<leftarrow> read_pte s (vpn2 * 2);
     e1 \<leftarrow> read_pte s (vpn2 * 2 + 1);
     let pfn0 = e0 AND 0x1fff;
     let pfn1 = e1 AND 0x1fff;
     let s = s\<lparr>cp0_entryhi := push_bit 13 vpn2 OR (pid AND 0xff)\<rparr>;
     let s = s\<lparr>cp0_entrylo0 := entrylo pfn0\<rparr>;
     let s = s\<lparr>cp0_entrylo1 := entrylo pfn1\<rparr>;
     let s = s\<lparr>cp0_pagemask := 0\<rparr>;
     Some (asm_tlbwr s)
   }"

section \<open>The page table invariant\<close>

text \<open>
  Every entry is empty or holds one of the frames handed out so far, and no frame is held twice.
  The frames are 0x1000 and up; 0x1000 of them fit in the 13 bits of a frame number.
\<close>

definition frame :: "nat \<Rightarrow> u32" where
  "frame c = 0xb0001000 + word_of_nat c"

definition mm_inv :: "mm \<Rightarrow> bool" where
  "mm_inv s \<longleftrightarrow> length (page_entrys s) = 0x2000 \<and> unat (pf_count s) \<le> 0x1000 \<and>
    (\<forall>v < 0x2000. page_entrys s ! v = 0 \<or> (\<exists>c < unat (pf_count s). page_entrys s ! v = frame c)) \<and>
    (\<forall>v < 0x2000. \<forall>w < 0x2000. v \<noteq> w \<and> page_entrys s ! v = page_entrys s ! w \<longrightarrow> page_entrys s ! v = 0)"

lemma frame_word: "c \<le> 0x1000 \<Longrightarrow> unat (frame c) = 0xb0001000 + c"
proof -
  assume c: "c \<le> 0x1000"
  have "frame c = word_of_nat (0xb0001000 + c)" by (simp add: frame_def)
  then show ?thesis using c unat_word_small[of "0xb0001000 + c"] by (simp only:) simp
qed

lemma frame_inj: "c \<le> 0x1000 \<Longrightarrow> d \<le> 0x1000 \<Longrightarrow> frame c = frame d \<longleftrightarrow> c = d"
  by (metis add_left_cancel frame_word)

lemma frame_nonzero: "c \<le> 0x1000 \<Longrightarrow> frame c \<noteq> 0"
  using frame_word[of c] by (metis add_is_0 unat_0 zero_neq_numeral)

lemma frame_valid: "c \<le> 0x1000 \<Longrightarrow> drop_bit 28 (frame c) = PTE_VALID"
proof -
  assume c: "c \<le> 0x1000"
  have "unat (drop_bit 28 (frame c)) = drop_bit 28 (unat (frame c))" by (rule unat_drop_bit_eq)
  also have "\<dots> = (0xb0001000 + c) div 2 ^ 28" unfolding frame_word[OF c] drop_bit_eq_div ..
  also have "\<dots> = 0xb" using c by simp
  finally show ?thesis by (simp only: PTE_VALID_def word_unat_eq_iff) simp
qed

lemma frame_number: "c \<le> 0x1000 \<Longrightarrow> unat (frame c AND 0x1fff) = (0x1000 + c) mod 0x2000"
proof -
  assume c: "c \<le> 0x1000"
  have "(0x1fff :: u32) = mask 13" by (simp add: mask_eq_exp_minus_1)
  then have "unat (frame c AND 0x1fff) = unat (take_bit 13 (frame c))" by (simp only: take_bit_eq_mask)
  also have "\<dots> = take_bit 13 (unat (frame c))" by (rule unsigned_take_bit_eq)
  also have "\<dots> = (0xb0001000 + c) mod 2 ^ 13" unfolding frame_word[OF c] take_bit_eq_mod ..
  also have "0xb0001000 + c = (0x1000 + c) + 0x58000 * 2 ^ 13" by simp
  also have "\<dots> mod 2 ^ 13 = (0x1000 + c) mod 2 ^ 13" by (rule mod_mult_self1)
  also have "\<dots> = (0x1000 + c) mod 0x2000" by simp
  finally show ?thesis .
qed

lemma frame_number_small: "c < 0x1000 \<Longrightarrow> unat (frame c AND 0x1fff) = 0x1000 + c"
  using frame_number[of c] by simp

text \<open>The frame numbers of different pages are different, and none is in the first 16 MB.\<close>

definition pte_frame :: "mm \<Rightarrow> nat \<Rightarrow> u32" where
  "pte_frame s v = page_entrys s ! v AND 0x1fff"

lemma mm_inv_frames:
  assumes "mm_inv s" and "v < 0x2000" and "page_entrys s ! v \<noteq> 0"
  obtains c where "c < 0x1000" "page_entrys s ! v = frame c" "unat (pte_frame s v) = 0x1000 + c"
proof -
  obtain c where c: "c < unat (pf_count s)" "page_entrys s ! v = frame c"
    using assms by (auto simp: mm_inv_def)
  then have "c < 0x1000" using assms(1) by (simp add: mm_inv_def)
  then show thesis using that c(2) frame_number_small by (simp add: pte_frame_def)
qed

lemma mm_inv_distinct:
  assumes "mm_inv s" and "v < 0x2000" and "w < 0x2000" and "v \<noteq> w"
    and "page_entrys s ! v \<noteq> 0" and "page_entrys s ! w \<noteq> 0"
  shows "pte_frame s v \<noteq> pte_frame s w"
proof -
  obtain c where c: "page_entrys s ! v = frame c" "unat (pte_frame s v) = 0x1000 + c"
    by (rule mm_inv_frames[OF assms(1,2,5)])
  obtain d where d: "page_entrys s ! w = frame d" "unat (pte_frame s w) = 0x1000 + d"
    by (rule mm_inv_frames[OF assms(1,3,6)])
  have "page_entrys s ! v \<noteq> page_entrys s ! w" using assms by (auto simp: mm_inv_def)
  with c d show ?thesis by auto
qed

lemma sint_small: "unat (w :: u32) < 0x1000 \<Longrightarrow> \<not> sint w > 0xfff"
proof -
  assume w: "unat w < 0x1000"
  then have "sint w = uint w" using sint_word_small[of "unat w"] by simp
  moreover have "uint w = int (unat w)" by simp
  ultimately show ?thesis using w by linarith
qed

text \<open>A fault on a page without a frame.\<close>

lemma do_page_fault_ok:
  assumes "mm_inv s" and "v < 0x2000" and "page_entrys s ! v = 0" and "unat (pf_count s) < 0x1000"
  obtains s' where "do_page_fault (word_of_nat v) s = Some s'" "mm_inv s'"
    "s' = s\<lparr>page_entrys := (page_entrys s)[v := frame (unat (pf_count s))], pf_count := pf_count s + 1\<rparr>"
proof -
  let ?n = "unat (pf_count s)"
  let ?s = "s\<lparr>page_entrys := (page_entrys s)[v := frame ?n], pf_count := pf_count s + 1\<rparr>"
  have len: "length (page_entrys s) = 0x2000" using assms(1) by (simp add: mm_inv_def)
  have u: "unat (word_of_nat v :: u32) = v" using assms(2) by (simp add: unat_word_small)
  have eq: "do_page_fault (word_of_nat v) s = Some ?s"
    using assms(2) len u sint_small[OF assms(4)] by (simp add: do_page_fault_def Let_def frame_def)
  have n1: "unat (pf_count s + 1) = ?n + 1"
    using assms(4) by (simp add: unat_word_ariths)
  have new: "frame ?n \<noteq> frame c" if "c < ?n" for c
    using frame_inj[of ?n c] that assms(4) by simp
  have old: "page_entrys s ! w = 0 \<or> (\<exists>c < ?n. page_entrys s ! w = frame c)" if "w < 0x2000" for w
    using assms(1) that by (simp add: mm_inv_def)
  have "mm_inv ?s"
    unfolding mm_inv_def
  proof (intro conjI allI impI)
    show "length (page_entrys ?s) = 0x2000" "unat (pf_count ?s) \<le> 0x1000" using len n1 assms(4) by simp_all
    fix w :: nat assume w: "w < 0x2000"
    show "page_entrys ?s ! w = 0 \<or> (\<exists>c < unat (pf_count ?s). page_entrys ?s ! w = frame c)"
      using old[OF w] w len n1 by (cases "w = v") (auto simp: less_Suc_eq)
    fix x :: nat assume x: "x < 0x2000" "w \<noteq> x \<and> page_entrys ?s ! w = page_entrys ?s ! x"
    then show "page_entrys ?s ! w = 0"
      using old[OF w] old[OF x(1)] new w len assms(1) frame_nonzero[of ?n] assms(4)
      by (cases "w = v"; cases "x = v") (auto simp: mm_inv_def)
  qed
  then show thesis using that eq by blast
qed

lemma fault_if_invalid_ok:
  assumes "mm_inv s" and "v < 0x2000" and "unat (pf_count s) < 0x1000"
  obtains s' where "fault_if_invalid (word_of_nat v) s = Some s'" "mm_inv s'" "page_entrys s' ! v \<noteq> 0"
    "unat (pf_count s') \<le> unat (pf_count s) + 1" "\<forall>w. page_entrys s ! w \<noteq> 0 \<longrightarrow> page_entrys s' ! w = page_entrys s ! w"
    "s' = s\<lparr>page_entrys := page_entrys s', pf_count := pf_count s'\<rparr>"
proof (cases "page_entrys s ! v = 0")
  case True
  have v: "unat (word_of_nat v :: u32) < length (page_entrys s)"
    using assms(1,2) by (simp add: mm_inv_def unat_word_small)
  obtain s' where s': "do_page_fault (word_of_nat v) s = Some s'" "mm_inv s'"
    "s' = s\<lparr>page_entrys := (page_entrys s)[v := frame (unat (pf_count s))], pf_count := pf_count s + 1\<rparr>"
    by (rule do_page_fault_ok[OF assms(1,2) True assms(3)])
  have "fault_if_invalid (word_of_nat v) s = Some s'"
    using True v assms(2) s'(1) by (simp add: fault_if_invalid_def read_pte_def PTE_VALID_def unat_word_small)
  moreover have "unat (pf_count s + 1) = unat (pf_count s) + 1" using assms(3) by (simp add: unat_word_ariths)
  moreover have "page_entrys s' ! v = frame (unat (pf_count s))" using v assms(2) s'(3) by (simp add: unat_word_small)
  moreover have "page_entrys s' ! w = page_entrys s ! w" if "w \<noteq> v" for w using s'(3) that by simp
  then have "\<forall>w. page_entrys s ! w \<noteq> 0 \<longrightarrow> page_entrys s' ! w = page_entrys s ! w" using True by metis
  ultimately show thesis
    using that[of s'] s'(2,3) frame_nonzero[of "unat (pf_count s)"] assms(3) by simp
next
  case False
  obtain c where "c < 0x1000" "page_entrys s ! v = frame c" by (rule mm_inv_frames[OF assms(1,2) False])
  then have "fault_if_invalid (word_of_nat v) s = Some s"
    using assms(1,2) frame_valid[of c] by (simp add: fault_if_invalid_def read_pte_def mm_inv_def unat_word_small)
  then show thesis using that[of s] assms(1) False by simp
qed

text \<open>The pair of pages that a refill serves.\<close>

definition even_page :: "u32 \<Rightarrow> nat" where
  "even_page badvaddr = 2 * (unat badvaddr div 0x2000)"

lemma even_page_word: "drop_bit 1 (drop_bit 12 badvaddr) * 2 = word_of_nat (even_page badvaddr)"
proof -
  have d: "drop_bit 1 (drop_bit 12 badvaddr) = drop_bit 13 badvaddr" by (simp only: drop_bit_drop_bit) simp
  have "unat (drop_bit 13 badvaddr) = drop_bit 13 (unat badvaddr)" by (rule unat_drop_bit_eq)
  also have "\<dots> = unat badvaddr div 2 ^ 13" unfolding drop_bit_eq_div ..
  finally have u: "unat (drop_bit 13 badvaddr) = unat badvaddr div 0x2000" by simp
  have "drop_bit 13 badvaddr = word_of_nat (unat (drop_bit 13 badvaddr))" by simp
  then have "drop_bit 13 badvaddr = word_of_nat (unat badvaddr div 0x2000)" unfolding u .
  then show ?thesis by (simp add: d even_page_def)
qed

section \<open>Properties\<close>

lemma refill_runs:
  assumes "mm_inv s" and "unat badvaddr < 0x2000000" and "unat (pf_count s) + 2 \<le> 0x1000"
  shows "\<exists>s'. do_TLB_Refill badvaddr pid s = Some s' \<and> mm_inv s' \<and>
    (let v = even_page badvaddr in page_entrys s' ! v \<noteq> 0 \<and> page_entrys s' ! (v + 1) \<noteq> 0 \<and>
      0x1000 \<le> unat (pte_frame s' v) \<and> 0x1000 \<le> unat (pte_frame s' (v + 1)) \<and>
      tlb s' = (tlb s)(cp0_random s := (push_bit 13 (drop_bit 13 badvaddr) OR (pid AND 0xff),
        entrylo (pte_frame s' v), entrylo (pte_frame s' (v + 1)), 0))) \<and>
    (\<forall>w. page_entrys s ! w \<noteq> 0 \<longrightarrow> page_entrys s' ! w = page_entrys s ! w) \<and>
    (\<forall>v < 0x2000. \<forall>w < 0x2000. v \<noteq> w \<and> page_entrys s' ! v \<noteq> 0 \<and> page_entrys s' ! w \<noteq> 0 \<longrightarrow>
      pte_frame s' v \<noteq> pte_frame s' w)"
proof -
  let ?v = "even_page badvaddr"
  have "unat badvaddr div 0x2000 < 0x1000" using assms(2) by (simp add: less_mult_imp_div_less)
  then have v: "?v + 1 < 0x2000" unfolding even_page_def by linarith
  have d: "drop_bit 1 (drop_bit 12 badvaddr) = drop_bit 13 badvaddr" by (simp only: drop_bit_drop_bit) simp
  have w0: "drop_bit 13 badvaddr * 2 = word_of_nat ?v" using even_page_word[of badvaddr] unfolding d .
  have w1: "word_of_nat ?v + 1 = (word_of_nat (?v + 1) :: u32)" by simp
  obtain s1 where s1: "fault_if_invalid (word_of_nat ?v) s = Some s1" "mm_inv s1" "page_entrys s1 ! ?v \<noteq> 0"
    "unat (pf_count s1) \<le> unat (pf_count s) + 1" "\<forall>w. page_entrys s ! w \<noteq> 0 \<longrightarrow> page_entrys s1 ! w = page_entrys s ! w"
    "s1 = s\<lparr>page_entrys := page_entrys s1, pf_count := pf_count s1\<rparr>"
    by (rule fault_if_invalid_ok[OF assms(1), of ?v]) (use v assms(3) in auto)
  obtain s2 where s2: "fault_if_invalid (word_of_nat (?v + 1)) s1 = Some s2" "mm_inv s2" "page_entrys s2 ! (?v + 1) \<noteq> 0"
    "\<forall>w. page_entrys s1 ! w \<noteq> 0 \<longrightarrow> page_entrys s2 ! w = page_entrys s1 ! w"
    "s2 = s1\<lparr>page_entrys := page_entrys s2, pf_count := pf_count s2\<rparr>"
    by (rule fault_if_invalid_ok[OF s1(2), of "?v + 1"]) (use v assms(3) s1(4) in auto)
  have len: "length (page_entrys s2) = 0x2000" using s2(2) by (simp add: mm_inv_def)
  have rd: "read_pte s2 (word_of_nat w) = Some (page_entrys s2 ! w)" if "w < 0x2000" for w
    using len that by (simp add: read_pte_def unat_word_small)
  define s' where "s' = asm_tlbwr (s2\<lparr>cp0_entryhi := push_bit 13 (drop_bit 13 badvaddr) OR (pid AND 0xff),
    cp0_entrylo0 := entrylo (pte_frame s2 ?v), cp0_entrylo1 := entrylo (pte_frame s2 (?v + 1)), cp0_pagemask := 0\<rparr>)"
  have r0: "read_pte s2 (word_of_nat ?v) = Some (page_entrys s2 ! ?v)" using rd v by simp
  have r: "do_TLB_Refill badvaddr pid s = Some s'"
    unfolding do_TLB_Refill_def Let_def d w0 w1 s1(1) bind.bind_lunit s2(1) r0 rd[OF v] s'_def pte_frame_def ..
  have pe: "page_entrys s' = page_entrys s2" "pte_frame s' = pte_frame s2" "mm_inv s' = mm_inv s2"
    by (simp_all add: s'_def asm_tlbwr_def pte_frame_def fun_eq_iff mm_inv_def)
  have tl: "tlb s2 = tlb s" "cp0_random s2 = cp0_random s"
    by (subst s2(5), subst s1(6), simp)+
  have v0: "page_entrys s2 ! ?v \<noteq> 0" using s1(3) s2(4) by metis
  have fr: "0x1000 \<le> unat (pte_frame s2 w)" if "w < 0x2000" "page_entrys s2 ! w \<noteq> 0" for w
    using mm_inv_frames[OF s2(2) that] by (metis le_add1)
  have "tlb s' = (tlb s)(cp0_random s := (push_bit 13 (drop_bit 13 badvaddr) OR (pid AND 0xff),
      entrylo (pte_frame s' ?v), entrylo (pte_frame s' (?v + 1)), 0))"
    unfolding pe by (simp add: s'_def asm_tlbwr_def tl)
  then show ?thesis
    using r s2(2,3) v0 fr[of ?v] fr[of "?v + 1"] v s1(5) s2(4) mm_inv_distinct[OF s2(2)]
    by (intro exI[of _ s']) (simp add: Let_def pe del: fun_upd_apply)
qed

text \<open>
  C20: A refill for an address below 32 MB returns as long as two frames are left. Both pages of
  the pair then have frames, at or above 16 MB, that no other page has; frames given out before
  stay; and one TLB entry is replaced, by the pair of pages tagged with the process. The frames
  do not depend on the process: all processes see the same memory.
\<close>

theorem refill_maps_pages:
  assumes "mm_inv s" and "unat badvaddr < 0x2000000" and "unat (pf_count s) + 2 \<le> 0x1000"
  shows "\<exists>s'. do_TLB_Refill badvaddr pid s = Some s' \<and> mm_inv s' \<and>
    (let v = even_page badvaddr in page_entrys s' ! v \<noteq> 0 \<and> page_entrys s' ! (v + 1) \<noteq> 0 \<and>
      0x1000 \<le> unat (pte_frame s' v) \<and> 0x1000 \<le> unat (pte_frame s' (v + 1)) \<and>
      tlb s' = (tlb s)(cp0_random s := (push_bit 13 (drop_bit 13 badvaddr) OR (pid AND 0xff),
        entrylo (pte_frame s' v), entrylo (pte_frame s' (v + 1)), 0))) \<and>
    (\<forall>w. page_entrys s ! w \<noteq> 0 \<longrightarrow> page_entrys s' ! w = page_entrys s ! w) \<and>
    (\<forall>v < 0x2000. \<forall>w < 0x2000. v \<noteq> w \<and> page_entrys s' ! v \<noteq> 0 \<and> page_entrys s' ! w \<noteq> 0 \<longrightarrow>
      pte_frame s' v \<noteq> pte_frame s' w)"
  using assms by (rule refill_runs)

definition sample_mm :: mm where
  "sample_mm = \<lparr>page_entrys = replicate 0x2000 0, pf_count = 0, cp0_entryhi = 0, cp0_entrylo0 = 0, cp0_entrylo1 = 0,
     cp0_pagemask = 0, cp0_random = 3, tlb = (\<lambda>_. (0, 0, 0, 0)), mm_log = []\<rparr>"

lemma sample_mm_inv: "mm_inv sample_mm"
  by (simp add: mm_inv_def sample_mm_def)

theorem refill_maps_pages_witness:
  "\<exists>s'. do_TLB_Refill 0x3ffffc 1 sample_mm = Some s' \<and> page_entrys s' ! 0x3fe \<noteq> 0"
  using refill_maps_pages[OF sample_mm_inv, of "0x3ffffc" 1]
  by (auto simp: even_page_def Let_def sample_mm_def)

text \<open>
  \<open>init_page_table\<close> establishes the invariant of the page table, whatever the table held
  before, as long as no frame was given out.
\<close>

theorem init_page_table_inv:
  assumes "length (page_entrys s) = 0x2000" and "pf_count s = 0"
  shows "mm_inv (init_page_table s)"
proof -
  have "fold (\<lambda>i s. s\<lparr>page_entrys := (page_entrys s)[i := 0x0]\<rparr>) [0..<n] s =
      s\<lparr>page_entrys := replicate n 0 @ drop n (page_entrys s)\<rparr>" if "n \<le> 0x2000" for n
    using that
  proof (induction n)
    case (Suc n)
    then have "drop n (page_entrys s) = page_entrys s ! n # drop (Suc n) (page_entrys s)"
      using assms(1) by (simp add: Cons_nth_drop_Suc)
    with Suc show ?case by (simp add: list_update_append replicate_append_same[symmetric] del: replicate_append_same)
  qed simp
  from this[of "0x2000"] show ?thesis
    using assms by (simp add: init_page_table_def PAGE_ENTRY_NUMBER_def mm_inv_def del: upt_Suc)
qed

theorem init_page_table_inv_witness:
  "mm_inv (init_page_table (sample_mm\<lparr>page_entrys := replicate 0x2000 7\<rparr>))"
  using init_page_table_inv[of "sample_mm\<lparr>page_entrys := replicate 0x2000 7\<rparr>"] by (simp add: sample_mm_def)

text \<open>
  The table has entries for 32 MB only: a refill for an address above reads outside it. The
  initial stack pointers of the ninth and later processes lie there.
\<close>

theorem refill_out_of_range:
  assumes "mm_inv s" and "0x2000000 \<le> unat badvaddr"
  shows "do_TLB_Refill badvaddr pid s = None"
proof -
  have d: "drop_bit 1 (drop_bit 12 badvaddr) = drop_bit 13 badvaddr" by (simp only: drop_bit_drop_bit) simp
  have w0: "drop_bit 13 badvaddr * 2 = word_of_nat (even_page badvaddr)" using even_page_word[of badvaddr] unfolding d .
  have "unat badvaddr < 2 ^ LENGTH(32)" by (rule unsigned_less)
  then have "unat badvaddr div 0x2000 < 0x80000" by (simp add: less_mult_imp_div_less)
  then have b: "even_page badvaddr < 2 ^ 32" "\<not> even_page badvaddr < 0x2000"
    using div_le_mono[OF assms(2), of "0x2000"] by (auto simp: even_page_def)
  have "read_pte s (word_of_nat (even_page badvaddr)) = None"
    using assms(1) b unat_word_small[OF b(1)] by (simp add: read_pte_def mm_inv_def)
  then have "fault_if_invalid (word_of_nat (even_page badvaddr)) s = None" by (simp add: fault_if_invalid_def)
  then show ?thesis by (simp only: do_TLB_Refill_def Let_def d w0) simp
qed

theorem refill_out_of_range_witness: "do_TLB_Refill 0x23ffffc 9 sample_mm = None"
  using refill_out_of_range[OF sample_mm_inv, of "0x23ffffc" 9] by simp

text \<open>
  When all 0x1000 frames are used, a page fault prints a message and goes on: the page gets
  frame number 0, the physical memory that holds the exception vectors.
\<close>

theorem full_memory_maps_frame_zero:
  assumes "length (page_entrys s) = 0x2000" and "pf_count s = 0x1000" and "v < 0x2000"
  shows "\<exists>s'. do_page_fault (word_of_nat v) s = Some s' \<and> pte_frame s' v = 0 \<and>
    drop_bit 28 (page_entrys s' ! v) = PTE_VALID \<and> length (mm_log s') = length (mm_log s) + 1"
proof -
  let ?s = "s\<lparr>mm_log := mm_log s @ [''physical memory is full!!!'' @ [CHR 0x0a]],
    page_entrys := (page_entrys s)[v := frame 0x1000], pf_count := 0x1001\<rparr>"
  have f: "0xb0001000 + 0x1000 = frame 0x1000" by (simp add: frame_def)
  have "do_page_fault (word_of_nat v) s = Some ?s"
    using assms f by (simp add: do_page_fault_def Let_def unat_word_small)
  moreover have "frame 0x1000 AND 0x1fff = 0" using frame_number[of "0x1000"] by (simp add: unat_eq_0)
  ultimately show ?thesis
    using assms frame_valid[of "0x1000"] by (intro exI[of _ ?s]) (simp add: pte_frame_def)
qed

theorem full_memory_maps_frame_zero_witness:
  "\<exists>s'. do_page_fault (word_of_nat 5) (sample_mm\<lparr>pf_count := 0x1000\<rparr>) = Some s' \<and> pte_frame s' 5 = 0"
  using full_memory_maps_frame_zero[of "sample_mm\<lparr>pf_count := 0x1000\<rparr>" 5] by (auto simp: sample_mm_def)

end
