(* ===== verification/Trap.thy ===== *)
theory Trap
  imports Mutex Mac_Send Screen Mm
begin

text \<open>
  \<^verbatim>\<open>kernel/irq/irq.c\<close>, \<^verbatim>\<open>kernel/syscall/syscall.c\<close>, \<^verbatim>\<open>include/sys/syscall.h\<close>, the
  exception entries of \<^verbatim>\<open>arch/mips/kernel/entry.S\<close> and \<open>_start\<close> of \<^verbatim>\<open>init/main.c\<close>: how
  a running process enters the kernel, which component serves it, and how the kernel returns to
  a process. This is where the scheduler, the locks, the screen, the network card and the memory
  are put together.
\<close>

unbundle bit_operations_syntax

section \<open>The system\<close>

text \<open>
  What the sources do not determine: the network card, the firmware, and what compiled C code
  has in the general registers when it calls one of the assembler routines (only a context
  switch looks at them).
\<close>

record ('d, 'p) platform =
  nic_hw :: "'d nic"
  firmware :: "'p pmon"
  code_regs :: "kstate \<Rightarrow> nat \<Rightarrow> u32"

text \<open>The functions that \<open>init_syscall\<close> stores in the table of system calls.\<close>

datatype (plugins only: code) handler =
    Do_sleep | Spawn | Kill | Wait | Exit | Getpid | Do_block | Do_unblock_one | Do_unblock_all
  | Screen_write | Screen_move_cursor | Screen_reflush | Command_clear
  | Do_mutex_lock_init | Do_mutex_lock_acquire | Do_mutex_lock_release
  | Do_condition_init | Do_condition_wait | Do_condition_signal | Do_condition_broadcast
  | Do_semaphore_init | Do_semaphore_up | Do_semaphore_down | Do_barrier_init | Do_barrier_wait
  | Do_init_mac | Do_net_recv | Do_net_send | Do_wait_recv_package

text \<open>
  The system: the kernel with the card, the screen, the memory management, for each process the
  statements it still has to execute in the kernel, the table of system calls (\<open>None\<close> is a null
  pointer), and the registers that only \<open>asm_start\<close> sets. The variables \<open>screen_cursor_x\<close> and
  \<open>screen_cursor_y\<close> and the register EntryHi are those of the kernel state; the copies in the
  states of the screen and of the memory are filled in when an operation of theirs is called.
\<close>

record ('d, 'p) system =
  net :: "'d net"
  scr :: "'p screen"
  vm :: mm
  prog :: "u32 \<Rightarrow> kop list"
  syscall :: "handler option list"
  cp0_watchlo :: u32
  cp0_watchhi :: u32
  cp0_config :: u32

abbreviation ker :: "('d, 'p) system \<Rightarrow> kstate" where
  "ker S \<equiv> kern (net S)"

definition set_ker :: "kstate \<Rightarrow> ('d, 'p) system \<Rightarrow> ('d, 'p) system" where
  "set_ker k S = S\<lparr>net := (net S)\<lparr>kern := k\<rparr>\<rparr>"

definition on_ker :: "(kstate \<Rightarrow> kstate option) \<Rightarrow> ('d, 'p) system \<Rightarrow> ('d, 'p) system option" where
  "on_ker f S = do { k \<leftarrow> f (ker S); Some (set_ker k S) }"

definition on_net :: "('d net \<Rightarrow> 'd net option) \<Rightarrow> ('d, 'p) system \<Rightarrow> ('d, 'p) system option" where
  "on_net f S = do { n \<leftarrow> f (net S); Some (S\<lparr>net := n\<rparr>) }"

definition screen_of :: "('d, 'p) system \<Rightarrow> 'p screen" where
  "screen_of S = (scr S)\<lparr>screen_cursor_x := kstate.screen_cursor_x (ker S), screen_cursor_y := kstate.screen_cursor_y (ker S)\<rparr>"

definition on_screen :: "('p screen \<Rightarrow> 'p screen option) \<Rightarrow> ('d, 'p) system \<Rightarrow> ('d, 'p) system option" where
  "on_screen f S = do {
     s \<leftarrow> f (screen_of S);
     Some (set_ker ((ker S)\<lparr>kstate.screen_cursor_x := screen_cursor_x s, kstate.screen_cursor_y := screen_cursor_y s\<rparr>)
       (S\<lparr>scr := s\<rparr>))
   }"

definition on_vm :: "(mm \<Rightarrow> mm option) \<Rightarrow> ('d, 'p) system \<Rightarrow> ('d, 'p) system option" where
  "on_vm f S = do {
     s \<leftarrow> f ((vm S)\<lparr>mm.cp0_entryhi := kstate.cp0_entryhi (ker S)\<rparr>);
     Some (set_ker ((ker S)\<lparr>kstate.cp0_entryhi := mm.cp0_entryhi s\<rparr>) (S\<lparr>vm := s\<rparr>))
   }"

text \<open>A \<open>printk\<close> with one number.\<close>

definition say :: "('d, 'p) platform \<Rightarrow> string \<Rightarrow> u32 list \<Rightarrow> ('d, 'p) system \<Rightarrow> ('d, 'p) system option" where
  "say H fmt va S = do {
     (_, p) \<leftarrow> Screen.printk (firmware H) (literal (map of_char fmt)) (map Num va) (port (scr S));
     Some (S\<lparr>scr := (scr S)\<lparr>port := p\<rparr>\<rparr>)
   }"

section \<open>Assembler macros and routines\<close>

definition CLI :: "kstate \<Rightarrow> kstate" where
  "CLI s = (let t0 = cp0_status s AND 0xfffe in s\<lparr>gpr := (gpr s)(8 := t0), cp0_status := t0\<rparr>)"

definition STI :: "kstate \<Rightarrow> kstate" where
  "STI s = (let t0 = cp0_status s OR 0x01 in s\<lparr>gpr := (gpr s)(8 := t0), cp0_status := t0\<rparr>)"

definition SWTCH_TO_K :: "kstate \<Rightarrow> kstate" where
  "SWTCH_TO_K s =
    (let cur = current_running s in s\<lparr>gpr := (gpr s)(26 := cur, 29 := get s cur KERNEL_STACK_TOP)\<rparr>)"

text \<open>The processor: an exception sets the bit EXL of Status (bit 1), EPC and Cause; \<open>eret\<close> clears
  EXL and goes on at EPC.\<close>

definition take_exception :: "u32 \<Rightarrow> u32 \<Rightarrow> kstate \<Rightarrow> kstate" where
  "take_exception cause pc s = s\<lparr>cp0_cause := cause, cp0_epc := pc, cp0_status := cp0_status s OR 0x02\<rparr>"

definition eret :: "kstate \<Rightarrow> kstate" where
  "eret s = s\<lparr>cp0_status := cp0_status s AND NOT 0x02\<rparr>"

definition run_embryo_start :: "kstate \<Rightarrow> kstate" where
  "run_embryo_start s = eret (STI (restore_context USER_CONTEXT s))"

definition user_epc_plus4 :: "kstate \<Rightarrow> kstate" where
  "user_epc_plus4 s =
    (let cur = current_running s; k1 = get s cur (USER_CONTEXT CTX_EPC) + 4
     in put cur (USER_CONTEXT CTX_EPC) k1 (s\<lparr>gpr := (gpr s)(26 := cur, 27 := k1)\<rparr>))"

definition fire :: "kstate \<Rightarrow> kstate" where
  "fire s = (let s = rst_clk (s\<lparr>gpr := (gpr s)(8 := 0x10000)\<rparr>) in s\<lparr>gpr := (gpr s)(26 := 0xff01), cp0_status := 0xff01\<rparr>)"

definition asm_start :: "('d, 'p) system \<Rightarrow> ('d, 'p) system" where
  "asm_start S =
    (let k = ker S;
         k = k\<lparr>gpr := (gpr k)(26 := 0xfc00), cp0_status := 0xfc00\<rparr>;
         S = S\<lparr>cp0_watchlo := 0, cp0_watchhi := 0\<rparr>;
         k = rst_clk (k\<lparr>gpr := (gpr k)(8 := 0x10000)\<rparr>);
         t0 = (cp0_config S AND NOT 0x7) OR 0x2
     in set_ker (k\<lparr>gpr := (gpr k)(8 := t0)\<rparr>) (S\<lparr>cp0_config := t0\<rparr>))"

section \<open>System calls\<close>

definition IGNORE :: u32 where "IGNORE = 0"
definition NUM_SYSCALLS :: nat where "NUM_SYSCALLS = 64"
definition SYSCALL_SLEEP :: u32 where "SYSCALL_SLEEP = 2"
definition SYSCALL_SPAWN :: u32 where "SYSCALL_SPAWN = 3"
definition SYSCALL_KILL :: u32 where "SYSCALL_KILL = 4"
definition SYSCALL_WAIT :: u32 where "SYSCALL_WAIT = 5"
definition SYSCALL_EXIT :: u32 where "SYSCALL_EXIT = 6"
definition SYSCALL_GETPID :: u32 where "SYSCALL_GETPID = 7"
definition SYSCALL_BLOCK :: u32 where "SYSCALL_BLOCK = 10"
definition SYSCALL_UNBLOCK_ONE :: u32 where "SYSCALL_UNBLOCK_ONE = 11"
definition SYSCALL_UNBLOCK_ALL :: u32 where "SYSCALL_UNBLOCK_ALL = 12"
definition SYSCALL_WRITE :: u32 where "SYSCALL_WRITE = 20"
definition SYSCALL_CURSOR :: u32 where "SYSCALL_CURSOR = 22"
definition SYSCALL_REFLUSH :: u32 where "SYSCALL_REFLUSH = 23"
definition SYSCALL_CLEAR :: u32 where "SYSCALL_CLEAR = 24"
definition SYSCALL_MUTEX_LOCK_INIT :: u32 where "SYSCALL_MUTEX_LOCK_INIT = 30"
definition SYSCALL_MUTEX_LOCK_ACQUIRE :: u32 where "SYSCALL_MUTEX_LOCK_ACQUIRE = 31"
definition SYSCALL_MUTEX_LOCK_RELEASE :: u32 where "SYSCALL_MUTEX_LOCK_RELEASE = 32"
definition SYSCALL_COND_INIT :: u32 where "SYSCALL_COND_INIT = 33"
definition SYSCALL_COND_WAIT :: u32 where "SYSCALL_COND_WAIT = 34"
definition SYSCALL_COND_SIGNAL :: u32 where "SYSCALL_COND_SIGNAL = 35"
definition SYSCALL_COND_BROADCAST :: u32 where "SYSCALL_COND_BROADCAST = 36"
definition SYSCALL_SEM_INIT :: u32 where "SYSCALL_SEM_INIT = 37"
definition SYSCALL_SEM_UP :: u32 where "SYSCALL_SEM_UP = 38"
definition SYSCALL_SEM_DOWN :: u32 where "SYSCALL_SEM_DOWN = 39"
definition SYSCALL_BARRIER_INIT :: u32 where "SYSCALL_BARRIER_INIT = 40"
definition SYSCALL_BARRIER_WATI :: u32 where "SYSCALL_BARRIER_WATI = 41"
definition SYSCALL_INIT_MAC :: u32 where "SYSCALL_INIT_MAC = 50"
definition SYSCALL_NET_RECV :: u32 where "SYSCALL_NET_RECV = 51"
definition SYSCALL_NET_SEND :: u32 where "SYSCALL_NET_SEND = 52"
definition SYSCALL_WAIT_RECV_PACKAGE :: u32 where "SYSCALL_WAIT_RECV_PACKAGE = 53"

lemmas syscall_numbers = SYSCALL_SLEEP_def SYSCALL_SPAWN_def SYSCALL_KILL_def SYSCALL_WAIT_def SYSCALL_EXIT_def
  SYSCALL_GETPID_def SYSCALL_BLOCK_def SYSCALL_UNBLOCK_ONE_def SYSCALL_UNBLOCK_ALL_def SYSCALL_WRITE_def
  SYSCALL_CURSOR_def SYSCALL_REFLUSH_def SYSCALL_CLEAR_def SYSCALL_MUTEX_LOCK_INIT_def SYSCALL_MUTEX_LOCK_ACQUIRE_def
  SYSCALL_MUTEX_LOCK_RELEASE_def SYSCALL_COND_INIT_def SYSCALL_COND_WAIT_def SYSCALL_COND_SIGNAL_def
  SYSCALL_COND_BROADCAST_def SYSCALL_SEM_INIT_def SYSCALL_SEM_UP_def SYSCALL_SEM_DOWN_def SYSCALL_BARRIER_INIT_def
  SYSCALL_BARRIER_WATI_def SYSCALL_INIT_MAC_def SYSCALL_NET_RECV_def SYSCALL_NET_SEND_def SYSCALL_WAIT_RECV_PACKAGE_def

definition set_handler :: "u32 \<Rightarrow> handler \<Rightarrow> ('d, 'p) system \<Rightarrow> ('d, 'p) system" where
  "set_handler fn h S = S\<lparr>syscall := (syscall S)[unat fn := Some h]\<rparr>"

text \<open>The assignments of \<open>init_syscall\<close>, in their order. (What the table then holds is stated entry by
  entry in \<open>syscall_table\<close> of the next theory.)\<close>

definition call_list :: "(u32 \<times> handler) list" where
  "call_list =
    [(SYSCALL_SLEEP, Do_sleep), (SYSCALL_SPAWN, Spawn), (SYSCALL_KILL, Kill), (SYSCALL_WAIT, Wait), (SYSCALL_EXIT, Exit),
     (SYSCALL_GETPID, Getpid), (SYSCALL_BLOCK, Do_block), (SYSCALL_UNBLOCK_ONE, Do_unblock_one),
     (SYSCALL_UNBLOCK_ALL, Do_unblock_all), (SYSCALL_WRITE, Screen_write), (SYSCALL_CURSOR, Screen_move_cursor),
     (SYSCALL_REFLUSH, Screen_reflush), (SYSCALL_CLEAR, Command_clear),
     (SYSCALL_MUTEX_LOCK_INIT, Do_mutex_lock_init), (SYSCALL_MUTEX_LOCK_ACQUIRE, Do_mutex_lock_acquire),
     (SYSCALL_MUTEX_LOCK_RELEASE, Do_mutex_lock_release), (SYSCALL_COND_INIT, Do_condition_init),
     (SYSCALL_COND_WAIT, Do_condition_wait), (SYSCALL_COND_SIGNAL, Do_condition_signal),
     (SYSCALL_COND_BROADCAST, Do_condition_broadcast), (SYSCALL_SEM_INIT, Do_semaphore_init),
     (SYSCALL_SEM_DOWN, Do_semaphore_down), (SYSCALL_SEM_UP, Do_semaphore_up),
     (SYSCALL_BARRIER_INIT, Do_barrier_init), (SYSCALL_BARRIER_WATI, Do_barrier_wait),
     (SYSCALL_INIT_MAC, Do_init_mac), (SYSCALL_NET_RECV, Do_net_recv), (SYSCALL_NET_SEND, Do_net_send),
     (SYSCALL_WAIT_RECV_PACKAGE, Do_wait_recv_package)]"

definition init_syscall :: "('d, 'p) system \<Rightarrow> ('d, 'p) system" where
  "init_syscall S = fold (\<lambda>(fn, h). set_handler fn h) call_list S"

text \<open>The bytes of memory (little endian) and the string at an address.\<close>

definition byte_at :: "mem \<Rightarrow> u32 \<Rightarrow> u8" where
  "byte_at m a = ucast (drop_bit (8 * unat (a AND 3)) (m (a AND NOT 3)))"

partial_function (option) string_at :: "mem \<Rightarrow> u32 \<Rightarrow> u8 list option" where
  "string_at m a =
    (let c = byte_at m a in if c = 0 then Some [0] else do { s \<leftarrow> string_at m (a + 1); Some (c # s) })"

text \<open>A handler that may give the processor away in the middle becomes the program of the
  running process.\<close>

definition start :: "kop list \<Rightarrow> ('d, 'p) system \<Rightarrow> ('d, 'p) system option" where
  "start p S = Some (S\<lparr>prog := (prog S)(current_running (ker S) := p)\<rparr>)"

text \<open>\<open>test_mac\<close> of \<open>do_init_mac\<close> is a local variable that is not initialised; the fields it does
  not set are not read.\<close>

definition stack_mac :: mac where
  "stack_mac = \<lparr>psize = 0, pnum = 0, mac_addr = 0, dma_addr = 0, saddr = 0, daddr = 0, saddr_phy = 0, daddr_phy = 0,
     td = 0, rd = 0, td_phy = 0, rd_phy = 0\<rparr>"

fun call_handler :: "('d, 'p) platform \<Rightarrow> handler \<Rightarrow> u32 \<Rightarrow> u32 \<Rightarrow> u32 \<Rightarrow> ('d, 'p) system \<Rightarrow> ('d, 'p) system option" where
  "call_handler H Do_sleep a b c = on_ker (do_sleep a)"
| "call_handler H Spawn a b c = on_ker (\<lambda>s. Some (spawn a s))"
| "call_handler H Kill a b c = on_ker (\<lambda>s. Some (kill a s))"
| "call_handler H Wait a b c = on_ker (wait a)"
| "call_handler H Exit a b c = on_ker exit"
| "call_handler H Getpid a b c = on_ker (\<lambda>s. Some (snd (getpid s)))"
| "call_handler H Do_block a b c = on_ker (do_block a)"
| "call_handler H Do_unblock_one a b c = on_ker (\<lambda>s. Some (do_unblock_one a s))"
| "call_handler H Do_unblock_all a b c = on_ker (do_unblock_all a)"
| "call_handler H Screen_write a b c = (\<lambda>S. do { str \<leftarrow> string_at (kmem (ker S)) a; on_screen (screen_write str) S })"
| "call_handler H Screen_move_cursor a b c = on_screen (\<lambda>s. Some (screen_move_cursor a b s))"
| "call_handler H Screen_reflush a b c = on_screen (screen_reflush (firmware H))"
| "call_handler H Command_clear a b c = on_screen (command_clear (firmware H))"
| "call_handler H Do_mutex_lock_init a b c = on_ker (\<lambda>s. Some (do_mutex_lock_init a s))"
| "call_handler H Do_mutex_lock_acquire a b c = start (do_mutex_lock_acquire a)"
| "call_handler H Do_mutex_lock_release a b c = on_ker (do_mutex_lock_release a)"
| "call_handler H Do_condition_init a b c = on_ker (\<lambda>s. Some (do_condition_init a s))"
| "call_handler H Do_condition_wait a b c = start (do_condition_wait a b)"
| "call_handler H Do_condition_signal a b c = start (do_condition_signal a)"
| "call_handler H Do_condition_broadcast a b c = start (do_condition_broadcast a)"
| "call_handler H Do_semaphore_init a b c = on_ker (\<lambda>s. Some (do_semaphore_init a b s))"
| "call_handler H Do_semaphore_up a b c = start (do_semaphore_up a)"
| "call_handler H Do_semaphore_down a b c = start (do_semaphore_down a)"
| "call_handler H Do_barrier_init a b c = on_ker (\<lambda>s. Some (do_barrier_init a b s))"
| "call_handler H Do_barrier_wait a b c = start (do_barrier_wait a)"
| "call_handler H Do_init_mac a b c = on_net (do_init_mac (nic_hw H) stack_mac)"
| "call_handler H Do_net_recv a b c = on_net (\<lambda>s. Some (do_net_recv (nic_hw H) a b c s))"
| "call_handler H Do_net_send a b c = on_net (do_net_send (nic_hw H) a b)"
| "call_handler H Do_wait_recv_package a b c = on_net do_wait_recv_package"

text \<open>\<open>syscall[fn](arg1, arg2, arg3)\<close>: nothing checks \<open>fn\<close>, so a call outside the table or through
  a null pointer has no defined result.\<close>

definition system_call_helper :: "('d, 'p) platform \<Rightarrow> u32 \<Rightarrow> u32 \<Rightarrow> u32 \<Rightarrow> u32 \<Rightarrow> ('d, 'p) system \<Rightarrow> ('d, 'p) system option" where
  "system_call_helper H fn a b c S =
    (if unat fn < length (syscall S) then
       case syscall S ! unat fn of Some h \<Rightarrow> call_handler H h a b c S | None \<Rightarrow> None
     else None)"

section \<open>Interrupts and exceptions\<close>

definition ExcCode :: u32 where "ExcCode = 0x7c"
definition INT_code :: u32 where "INT_code = 0"
definition TLBL :: u32 where "TLBL = 2"
definition TLBS :: u32 where "TLBS = 3"
definition SYS :: u32 where "SYS = 8"

definition exccode_of :: "u32 \<Rightarrow> u32" where
  "exccode_of cause = drop_bit 2 (cause AND ExcCode)"

definition irq_timer :: "('d, 'p) platform \<Rightarrow> ('d, 'p) system \<Rightarrow> ('d, 'p) system option" where
  "irq_timer H S = do {
     S \<leftarrow> on_screen (screen_reflush (firmware H)) S;
     on_ker do_scheduler S
   }"

definition interrupt_helper :: "('d, 'p) platform \<Rightarrow> u32 \<Rightarrow> u32 \<Rightarrow> ('d, 'p) system \<Rightarrow> ('d, 'p) system option" where
  "interrupt_helper H status cause S =
    (let cos = drop_bit 8 cause AND 0xff in
     if cos AND 0x08 \<noteq> 0 then
       let (sr, n) = reg_read_32 (nic_hw H) INT1_SR_ADDR (net S); S = S\<lparr>net := n\<rparr>
       in if sr AND 0x08 \<noteq> 0 then on_net (irq_mac (nic_hw H)) S else Some S
     else if cos AND 0x80 \<noteq> 0 then irq_timer H S
     else say H (''other interrupts, IP7~0 is: %x'' @ newline) [cos] S)"

definition other_exception_handler :: "('d, 'p) platform \<Rightarrow> ('d, 'p) system \<Rightarrow> ('d, 'p) system option" where
  "other_exception_handler H S =
    say H (''other exceptions, exception code is: %x'' @ newline) [exccode_of (cp0_cause (ker S))] S"

definition tlb_refill :: "('d, 'p) system \<Rightarrow> ('d, 'p) system option" where
  "tlb_refill S = on_vm (do_TLB_Refill (cp0_badvaddr (ker S)) (get (ker S) (current_running (ker S)) PID)) S"

definition exception_handler :: "('d, 'p) platform \<Rightarrow> u32 \<Rightarrow> u32 \<Rightarrow> u32 \<Rightarrow> u32 \<Rightarrow> ('d, 'p) system \<Rightarrow> ('d, 'p) system option" where
  "exception_handler H fn a b c S =
    (let cause = cp0_cause (ker S);
         status = cp0_status (ker S);
         exccode = exccode_of cause
     in if exccode = INT_code then interrupt_helper H status cause S
        else if exccode = TLBL \<or> exccode = TLBS then tlb_refill S
        else if exccode = SYS then system_call_helper H fn a b c (set_ker (user_epc_plus4 (ker S)) S)
        else other_exception_handler H S)"

definition other_TLB_handler :: "('d, 'p) platform \<Rightarrow> ('d, 'p) system \<Rightarrow> ('d, 'p) system option" where
  "other_TLB_handler H S =
    say H (''other TLB exceptions, exception code is: %x'' @ newline) [exccode_of (cp0_cause (ker S))] S"

definition TLB_handler :: "('d, 'p) platform \<Rightarrow> ('d, 'p) system \<Rightarrow> ('d, 'p) system option" where
  "TLB_handler H S =
    (let exccode = exccode_of (cp0_cause (ker S))
     in if exccode = TLBL \<or> exccode = TLBS then tlb_refill S else other_TLB_handler H S)"

section \<open>Entering and leaving the kernel\<close>

text \<open>The registers while C code runs are those of \<open>code_regs\<close>.\<close>

definition enter_C :: "('d, 'p) platform \<Rightarrow> ('d, 'p) system \<Rightarrow> ('d, 'p) system" where
  "enter_C H S = set_ker ((ker S)\<lparr>gpr := code_regs H (ker S)\<rparr>) S"

text \<open>Statements until the running process has none left: when a process blocks, the process that
  is entered goes on where it was.\<close>

definition prog_step :: "('d, 'p) platform \<Rightarrow> ('d, 'p) system \<Rightarrow> ('d, 'p) system option" where
  "prog_step H S = do {
     K \<leftarrow> kstep \<lparr>ks = ker (enter_C H S), todo = prog S\<rparr>;
     Some (set_ker (ks K) (S\<lparr>prog := todo K\<rparr>))
   }"

partial_function (option) run_progs :: "('d, 'p) platform \<Rightarrow> ('d, 'p) system \<Rightarrow> ('d, 'p) system option" where
  "run_progs H S =
    (if prog S (current_running (ker S)) = [] then Some S
     else do { S \<leftarrow> prog_step H S; run_progs H S })"

text \<open>In front of the call of the handler: the registers are saved in the user context of the
  running process and its kernel stack is taken.\<close>

definition enter_kernel :: "kstate \<Rightarrow> kstate" where
  "enter_kernel s =
    (let s = save_context USER_CONTEXT (CLI s);
         k1 = kstate.cp0_entryhi s;
         s = put (current_running s) (USER_CONTEXT CTX_ENTRYHI) k1 (s\<lparr>gpr := (gpr s)(27 := k1)\<rparr>)
     in SWTCH_TO_K s)"

text \<open>Behind the call of the handler: a process that has never run was entered with the address
  of \<open>embryo_start\<close> in \<open>ra\<close>; any other returns to the entry code of the exception.\<close>

definition leave_kernel :: "kstate \<Rightarrow> kstate" where
  "leave_kernel s =
    (if gpr s 31 = embryo_start s then run_embryo_start s
     else
       let s = restore_context USER_CONTEXT s;
           k1 = get s (current_running s) (USER_CONTEXT CTX_ENTRYHI);
           s = s\<lparr>gpr := (gpr s)(27 := k1), kstate.cp0_entryhi := k1\<rparr>
       in eret (STI s))"

definition exception_handler_entry :: "('d, 'p) platform \<Rightarrow> ('d, 'p) system \<Rightarrow> ('d, 'p) system option" where
  "exception_handler_entry H S =
    (let k = ker S;
         fn = gpr k 4; a = gpr k 5; b = gpr k 6; c = gpr k 7;
         S = enter_C H (set_ker (enter_kernel k) S)
     in do {
       S \<leftarrow> exception_handler H fn a b c S;
       S \<leftarrow> run_progs H S;
       Some (set_ker (leave_kernel (ker S)) S)
     })"

definition TLBexception_handler_entry :: "('d, 'p) platform \<Rightarrow> ('d, 'p) system \<Rightarrow> ('d, 'p) system option" where
  "TLBexception_handler_entry H S =
    (let k = SWTCH_TO_K (save_context USER_CONTEXT (CLI (ker S)));
         S = enter_C H (set_ker k S)
     in do {
       S \<leftarrow> TLB_handler H S;
       Some (set_ker (eret (STI (restore_context USER_CONTEXT (ker S)))) S)
     })"

text \<open>\<open>invoke_syscall\<close>: the instruction \<open>syscall\<close> at the address \<open>pc\<close>, with the arguments in
  \<open>a0\<close> to \<open>a3\<close>.\<close>

definition invoke_syscall :: "('d, 'p) platform \<Rightarrow> u32 \<Rightarrow> u32 \<Rightarrow> u32 \<Rightarrow> u32 \<Rightarrow> u32 \<Rightarrow> ('d, 'p) system \<Rightarrow> ('d, 'p) system option" where
  "invoke_syscall H pc fn a b c S =
    (let k = ker S;
         k = k\<lparr>gpr := (gpr k)(4 := fn, 5 := a, 6 := b, 7 := c)\<rparr>
     in exception_handler_entry H (set_ker (take_exception (push_bit 2 SYS) pc k) S))"

section \<open>The functions that user programs call\<close>

type_synonym ('d, 'p) user_call = "('d, 'p) platform \<Rightarrow> u32 \<Rightarrow> ('d, 'p) system \<Rightarrow> ('d, 'p) system option"

definition sys_sleep :: "u32 \<Rightarrow> ('d, 'p) user_call" where
  "sys_sleep time H pc = invoke_syscall H pc SYSCALL_SLEEP time IGNORE IGNORE"
definition sys_spawn :: "u32 \<Rightarrow> ('d, 'p) user_call" where
  "sys_spawn task H pc = invoke_syscall H pc SYSCALL_SPAWN task IGNORE IGNORE"
definition sys_kill :: "u32 \<Rightarrow> ('d, 'p) user_call" where
  "sys_kill pid H pc = invoke_syscall H pc SYSCALL_KILL pid IGNORE IGNORE"
definition sys_waitpid :: "u32 \<Rightarrow> ('d, 'p) user_call" where
  "sys_waitpid pid H pc = invoke_syscall H pc SYSCALL_WAIT pid IGNORE IGNORE"
definition sys_getpid :: "('d, 'p) user_call" where
  "sys_getpid H pc = invoke_syscall H pc SYSCALL_GETPID IGNORE IGNORE IGNORE"
definition sys_exit :: "('d, 'p) user_call" where
  "sys_exit H pc = invoke_syscall H pc SYSCALL_EXIT IGNORE IGNORE IGNORE"
definition sys_block :: "u32 \<Rightarrow> ('d, 'p) user_call" where
  "sys_block queue H pc = invoke_syscall H pc SYSCALL_BLOCK queue IGNORE IGNORE"
definition sys_unblock_one :: "u32 \<Rightarrow> ('d, 'p) user_call" where
  "sys_unblock_one queue H pc = invoke_syscall H pc SYSCALL_UNBLOCK_ONE queue IGNORE IGNORE"
definition sys_unblock_all :: "u32 \<Rightarrow> ('d, 'p) user_call" where
  "sys_unblock_all queue H pc = invoke_syscall H pc SYSCALL_UNBLOCK_ALL queue IGNORE IGNORE"
definition sys_write :: "u32 \<Rightarrow> ('d, 'p) user_call" where
  "sys_write buff H pc = invoke_syscall H pc SYSCALL_WRITE buff IGNORE IGNORE"
definition sys_reflush :: "('d, 'p) user_call" where
  "sys_reflush H pc = invoke_syscall H pc SYSCALL_REFLUSH IGNORE IGNORE IGNORE"
definition sys_move_cursor :: "u32 \<Rightarrow> u32 \<Rightarrow> ('d, 'p) user_call" where
  "sys_move_cursor x y H pc = invoke_syscall H pc SYSCALL_CURSOR x y IGNORE"
definition sys_clear :: "('d, 'p) user_call" where
  "sys_clear H pc = invoke_syscall H pc SYSCALL_CLEAR IGNORE IGNORE IGNORE"
definition mutex_lock_init :: "u32 \<Rightarrow> ('d, 'p) user_call" where
  "mutex_lock_init lock H pc = invoke_syscall H pc SYSCALL_MUTEX_LOCK_INIT lock IGNORE IGNORE"
definition mutex_lock_acquire :: "u32 \<Rightarrow> ('d, 'p) user_call" where
  "mutex_lock_acquire lock H pc = invoke_syscall H pc SYSCALL_MUTEX_LOCK_ACQUIRE lock IGNORE IGNORE"
definition mutex_lock_release :: "u32 \<Rightarrow> ('d, 'p) user_call" where
  "mutex_lock_release lock H pc = invoke_syscall H pc SYSCALL_MUTEX_LOCK_RELEASE lock IGNORE IGNORE"
definition condition_init :: "u32 \<Rightarrow> ('d, 'p) user_call" where
  "condition_init cond H pc = invoke_syscall H pc SYSCALL_COND_INIT cond IGNORE IGNORE"
definition condition_wait :: "u32 \<Rightarrow> u32 \<Rightarrow> ('d, 'p) user_call" where
  "condition_wait lock condition H pc = invoke_syscall H pc SYSCALL_COND_WAIT lock condition IGNORE"
definition condition_signal :: "u32 \<Rightarrow> ('d, 'p) user_call" where
  "condition_signal condition H pc = invoke_syscall H pc SYSCALL_COND_SIGNAL condition IGNORE IGNORE"
definition condition_broadcast :: "u32 \<Rightarrow> ('d, 'p) user_call" where
  "condition_broadcast condition H pc = invoke_syscall H pc SYSCALL_COND_BROADCAST condition IGNORE IGNORE"
definition semaphore_init :: "u32 \<Rightarrow> u32 \<Rightarrow> ('d, 'p) user_call" where
  "semaphore_init sem val H pc = invoke_syscall H pc SYSCALL_SEM_INIT sem val IGNORE"
definition semaphore_up :: "u32 \<Rightarrow> ('d, 'p) user_call" where
  "semaphore_up sem H pc = invoke_syscall H pc SYSCALL_SEM_UP sem IGNORE IGNORE"
definition semaphore_down :: "u32 \<Rightarrow> ('d, 'p) user_call" where
  "semaphore_down sem H pc = invoke_syscall H pc SYSCALL_SEM_DOWN sem IGNORE IGNORE"
definition barrier_init :: "u32 \<Rightarrow> u32 \<Rightarrow> ('d, 'p) user_call" where
  "barrier_init barrier val H pc = invoke_syscall H pc SYSCALL_BARRIER_INIT barrier val IGNORE"
definition barrier_wait :: "u32 \<Rightarrow> ('d, 'p) user_call" where
  "barrier_wait barrier H pc = invoke_syscall H pc SYSCALL_BARRIER_WATI barrier IGNORE IGNORE"
definition sys_init_mac :: "('d, 'p) user_call" where
  "sys_init_mac H pc = invoke_syscall H pc SYSCALL_INIT_MAC IGNORE IGNORE IGNORE"
definition sys_net_recv :: "u32 \<Rightarrow> u32 \<Rightarrow> u32 \<Rightarrow> ('d, 'p) user_call" where
  "sys_net_recv r r_phy d H pc = invoke_syscall H pc SYSCALL_NET_RECV r r_phy d"
definition sys_net_send :: "u32 \<Rightarrow> u32 \<Rightarrow> ('d, 'p) user_call" where
  "sys_net_send t t_phy H pc = invoke_syscall H pc SYSCALL_NET_SEND t t_phy IGNORE"
definition sys_wait_recv_package :: "('d, 'p) user_call" where
  "sys_wait_recv_package H pc = invoke_syscall H pc SYSCALL_WAIT_RECV_PACKAGE IGNORE IGNORE IGNORE"

lemmas user_calls = sys_sleep_def sys_spawn_def sys_kill_def sys_waitpid_def sys_getpid_def sys_exit_def sys_block_def
  sys_unblock_one_def sys_unblock_all_def sys_write_def sys_reflush_def sys_move_cursor_def sys_clear_def
  mutex_lock_init_def mutex_lock_acquire_def mutex_lock_release_def condition_init_def condition_wait_def
  condition_signal_def condition_broadcast_def semaphore_init_def semaphore_up_def semaphore_down_def
  barrier_init_def barrier_wait_def sys_init_mac_def sys_net_recv_def sys_net_send_def sys_wait_recv_package_def

section \<open>Start-up\<close>

text \<open>The addresses of the code that \<open>init_exception_handler\<close> copies, which the linker chooses.\<close>

record vectors =
  exception_handler_begin :: u32
  exception_handler_end :: u32
  TLBexception_handler_begin :: u32
  TLBexception_handler_end :: u32

definition init_memory :: "('d, 'p) system \<Rightarrow> ('d, 'p) system" where
  "init_memory S = S\<lparr>vm := init_page_table (vm S)\<rparr>"

definition init_exception_handler :: "vectors \<Rightarrow> ('d, 'p) system \<Rightarrow> ('d, 'p) system" where
  "init_exception_handler V S =
    (let n = copy_words 0x80000180 (exception_handler_begin V)
               (unat (exception_handler_end V - exception_handler_begin V) div 4) (net S);
         n = copy_words 0x80000000 (TLBexception_handler_begin V)
               (unat (TLBexception_handler_end V - TLBexception_handler_begin V) div 4) n
     in S\<lparr>net := n\<rparr>)"

definition init_exception :: "vectors \<Rightarrow> ('d, 'p) system \<Rightarrow> ('d, 'p) system" where
  "init_exception V S = init_exception_handler V S"

text \<open>\<open>_start\<close> up to the loop that calls the shell.\<close>

definition kernel_start :: "('d, 'p) platform \<Rightarrow> vectors \<Rightarrow> u32 \<Rightarrow> ('d, 'p) system \<Rightarrow> ('d, 'p) system option" where
  "kernel_start H V shell S = do {
     let S = asm_start S;
     S \<leftarrow> say H (''Hello, Tina 0.2'' @ newline) [] S;
     let S = set_ker (init_variables (ker S)) S;
     let S = init_exception V S;
     let S = init_memory S;
     let S = init_syscall S;
     let S = set_ker (init_pcb shell (ker S)) S;
     S \<leftarrow> on_screen (init_screen (firmware H)) S;
     Some (set_ker (fire (ker S)) S)
   }"

definition printint :: "('d, 'p) platform \<Rightarrow> u32 \<Rightarrow> ('d, 'p) system \<Rightarrow> ('d, 'p) system option" where
  "printint H a S = say H (''%x'' @ newline) [a] S"

end
