(* ===== verification/Trap_Run.thy ===== *)
theory Trap_Run
  imports Trap
begin

text \<open>
  From the entry of an exception to the return to a user program: what the entry code saves and
  what the exit code loads, the timer interrupt, system calls and TLB misses as a whole, and a
  concrete system for the witnesses.
\<close>

section \<open>What the scheduler never changes\<close>

text \<open>The addresses that the linker chose.\<close>

definition addresses :: "kstate \<Rightarrow> u32 \<times> u32 \<times> u32 \<times> u32" where
  "addresses s = (pcb s, ready_queue s, recv_block_queue s, embryo_start s)"

named_theorems fixed_addresses

lemma addresses_put [simp]: "addresses (put p f v s) = addresses s"
  by (simp add: addresses_def put_def)

lemma addresses_upd [simp]:
  "addresses (s\<lparr>kmem := m\<rparr>) = addresses s" "addresses (s\<lparr>current_running := p\<rparr>) = addresses s"
  "addresses (s\<lparr>gpr := g\<rparr>) = addresses s" "addresses (Kernel.printk x s) = addresses s"
  by (simp_all add: addresses_def Kernel.printk_def)

lemma addresses_unblock_first [simp]: "addresses (unblock_first q s) = addresses s"
  by (simp add: unblock_first_def case_prod_beta Let_def)

lemma addresses_unblock_all [fixed_addresses]: "do_unblock_all q s = Some s' \<Longrightarrow> addresses s' = addresses s"
proof (rule do_unblock_all.raw_induct[where P = "\<lambda>q s s'. addresses s' = addresses s"])
  fix f q s s'
  assume IH: "\<And>q s s'. f q s = Some s' \<Longrightarrow> addresses s' = addresses s"
    and "(if \<not> queue_is_empty (kmem s) q then f q (unblock_first q s) else Some s) = Some s'"
  then show "addresses s' = addresses s" by (auto dest: IH split: if_splits)
qed

lemma addresses_release [fixed_addresses]: "do_mutex_lock_release l s = Some s' \<Longrightarrow> addresses s' = addresses s"
  by (auto simp: do_mutex_lock_release_def Let_def bind_eq_Some_conv dest!: addresses_unblock_all split: if_splits)

lemma addresses_release_holding [fixed_addresses]: "release_holding s = Some s' \<Longrightarrow> addresses s' = addresses s"
proof (rule release_holding.raw_induct[where P = "\<lambda>s s'. addresses s' = addresses s"])
  fix f s s'
  assume IH: "\<And>s s'. f s = Some s' \<Longrightarrow> addresses s' = addresses s"
    and "(if \<not> queue_is_empty (kmem s) (holding (current_running s)) then
       let lk = fst (queue_dequeue (kmem s) (holding (current_running s)));
           s = s\<lparr>kmem := snd (queue_dequeue (kmem s) (holding (current_running s)))\<rparr>
       in do_mutex_lock_release lk s \<bind> f
     else Some s) = Some s'"
  then show "addresses s' = addresses s" by (auto dest!: IH addresses_release simp: Let_def bind_eq_Some_conv split: if_splits)
qed

lemma addresses_exited [fixed_addresses]: "sched_exited s = Some s' \<Longrightarrow> addresses s' = addresses s"
  by (auto simp: sched_exited_def bind_eq_Some_conv dest!: fixed_addresses)

lemma addresses_consider [fixed_addresses]: "sched_consider s = Some s' \<Longrightarrow> addresses s' = addresses s"
  by (auto simp: sched_consider_def Let_def dest!: addresses_exited split: if_splits)

lemma addresses_take [simp]: "addresses (sched_take s) = addresses s"
  by (simp add: sched_take_def check_sleeping_def case_prod_beta Let_def)

lemma addresses_loop [fixed_addresses]: "sched_loop s = Some s' \<Longrightarrow> addresses s' = addresses s"
proof (rule sched_loop.raw_induct[where P = "\<lambda>s s'. addresses s' = addresses s"])
  fix f s s'
  assume IH: "\<And>s s'. f s = Some s' \<Longrightarrow> addresses s' = addresses s"
    and "sched_consider (sched_take s) \<bind>
      (\<lambda>s. if get s (current_running s) STATUS \<noteq> TASK_READY then f s else Some s) = Some s'"
  then show "addresses s' = addresses s" by (auto simp: bind_eq_Some_conv dest!: IH addresses_consider split: if_splits)
qed

lemma addresses_leave [fixed_addresses]: "sched_leave a st s = Some s' \<Longrightarrow> addresses s' = addresses s"
  by (auto simp: sched_leave_def Let_def dest!: addresses_exited split: if_splits)

lemma addresses_scheduler: "scheduler a st s = Some s' \<Longrightarrow> addresses s' = addresses s"
  by (auto simp: scheduler_def Let_def bind_eq_Some_conv sched_enter_def set_timer_def rst_clk_def dest!: addresses_leave addresses_loop)
    (simp add: addresses_def put_def)

lemma addresses_save: "addresses (save_context ctx s) = addresses s"
proof -
  obtain m where "fold (\<lambda>i. put (current_running s) (ctx i) (gpr s i)) saved_regs s = s\<lparr>kmem := m\<rparr>"
    using fold_put_other by blast
  then show ?thesis by (simp add: save_context_def Let_def)
qed

lemma addresses_switch: "switch_sched a st s = Some s' \<Longrightarrow> addresses s' = addresses s"
  by (auto simp: switch_sched_def bind_eq_Some_conv restore_context_def Let_def addresses_save dest!: addresses_scheduler)
    (simp add: addresses_def)

lemma addresses_do_scheduler: "do_scheduler s = Some s' \<Longrightarrow> addresses s' = addresses s"
  by (simp add: do_scheduler_def addresses_switch)

section \<open>Saving and loading the registers of user programs\<close>

lemma set_ker_simps [simp]:
  "ker (set_ker k S) = k" "scr (set_ker k S) = scr S" "vm (set_ker k S) = vm S" "prog (set_ker k S) = prog S"
  "syscall (set_ker k S) = syscall S" "set_ker k (set_ker k' S) = set_ker k S" "set_ker (ker S) S = S"
  by (simp_all add: set_ker_def)

text \<open>The user context of process \<open>p\<close> in memory is what the registers of \<open>s\<close> hold; \<open>t0\<close> is not
  part of it, because the entry code destroys it before it saves it.\<close>

definition context_is :: "kstate \<Rightarrow> u32 \<Rightarrow> kstate \<Rightarrow> bool" where
  "context_is m p s \<longleftrightarrow>
     (\<forall>i \<in> set saved_regs - {8}. get m p (USER_CONTEXT i) = gpr s i) \<and>
     get m p (USER_CONTEXT CTX_HI) = reg_hi s \<and> get m p (USER_CONTEXT CTX_LO) = reg_lo s \<and>
     get m p (USER_CONTEXT CTX_EPC) = cp0_epc s"

lemma context_is_cong:
  "(\<And>i. i < 39 \<Longrightarrow> get m' p (USER_CONTEXT i) = get m p (USER_CONTEXT i)) \<Longrightarrow> context_is m' p s = context_is m p s"
  by (simp add: context_is_def saved_reg_bounds CTX_HI_def CTX_LO_def CTX_EPC_def)

text \<open>A process whose context was saved from \<open>s\<close> and is loaded into \<open>s'\<close> has its registers back.\<close>

lemma context_is_unique:
  "context_is m p s \<Longrightarrow> context_is m p s' \<Longrightarrow>
   (\<forall>i \<in> set saved_regs - {8}. gpr s' i = gpr s i) \<and> reg_hi s' = reg_hi s \<and> reg_lo s' = reg_lo s \<and> cp0_epc s' = cp0_epc s"
  by (simp add: context_is_def)

lemma sched_inv_regs:
  assumes "sched_inv s Q" and "kmem t = kmem s" "pcb t = pcb s" "ready_queue t = ready_queue s"
    "current_running t = current_running s"
  shows "sched_inv t Q"
  by (rule sched_inv_ctx(1)[OF assms(1)]) (use assms in simp_all)

text \<open>The common beginning of both entries.\<close>

lemma cli_save_facts:
  assumes inv: "sched_inv s Q"
  defines "c \<equiv> current_running s" and "t \<equiv> save_context USER_CONTEXT (CLI s)"
  shows "t = s\<lparr>kmem := kmem t, gpr := gpr t, cp0_status := cp0_status s AND 0xfffe\<rparr>"
    and "context_is t c s" and "get t c (USER_CONTEXT CTX_STATUS) = cp0_status s AND 0xfffe"
    and "\<forall>i < 39. a \<noteq> cell c (USER_CONTEXT i) \<Longrightarrow> kmem t a = kmem s a"
proof -
  define k where "k = CLI s"
  have k: "k = s\<lparr>gpr := (gpr s)(8 := cp0_status s AND 0xfffe), cp0_status := cp0_status s AND 0xfffe\<rparr>"
    by (simp add: k_def CLI_def Let_def)
  have kc: "current_running k = c" "current_running k \<in> pcbs (pcb s)" using inv by (simp_all add: k c_def leave_facts)
  have tk: "t = save_context USER_CONTEXT k" by (simp add: t_def k_def)
  note sv = save_cells[OF ctx_kinds(2) kc(2), folded tk]
  obtain m g where "t = k\<lparr>kmem := m, gpr := g\<rparr>" using sv(7) by blast
  then show "t = s\<lparr>kmem := kmem t, gpr := gpr t, cp0_status := cp0_status s AND 0xfffe\<rparr>" by (simp add: k)
  have "get t c (USER_CONTEXT i) = gpr s i" if "i \<in> set saved_regs" "i \<noteq> 8" for i
    using sv(1)[OF that(1)] that unfolding kc by (simp add: k)
  then show "context_is t c s" using sv(3-5) unfolding kc by (simp add: context_is_def k)
  show "get t c (USER_CONTEXT CTX_STATUS) = cp0_status s AND 0xfffe" using sv(2) unfolding kc by (simp add: k)
  show "kmem t a = kmem s a" if "\<forall>i < 39. a \<noteq> cell c (USER_CONTEXT i)" for a
    using sv(6)[of a] that unfolding kc by (simp add: k)
qed

lemma user_ctx_inv:
  assumes inv: "sched_inv s Q" and fr: "\<And>a. \<forall>i < 39. a \<noteq> cell (current_running s) (USER_CONTEXT i) \<Longrightarrow> kmem e a = kmem s a"
    and e: "pcb e = pcb s" "ready_queue e = ready_queue s" "current_running e = current_running s"
  shows "sched_inv e Q" and "x \<in> pcbs (pcb s) \<Longrightarrow> time_elapsed e = time_elapsed s \<Longrightarrow> runnable e x = runnable s x"
proof -
  have "current_running s \<in> pcbs (pcb s)" using inv by (simp add: leave_facts)
  then have "kmem e a = kmem s a" if "a \<notin> ctx_cells (pcb s)" for a
    using that by (intro fr) (auto simp: ctx_cells_def)
  from sched_inv_ctx[OF inv this e] show "sched_inv e Q"
    and "x \<in> pcbs (pcb s) \<Longrightarrow> time_elapsed e = time_elapsed s \<Longrightarrow> runnable e x = runnable s x" by auto
qed

lemma enter_kernel_facts:
  assumes inv: "sched_inv s Q"
  defines "c \<equiv> current_running s" and "e \<equiv> enter_kernel s"
  shows "e = s\<lparr>kmem := kmem e, gpr := gpr e, cp0_status := cp0_status s AND 0xfffe\<rparr>"
    and "sched_inv e Q" and "x \<in> pcbs (pcb s) \<Longrightarrow> runnable e x = runnable s x"
    and "context_is e c s" and "get e c (USER_CONTEXT CTX_STATUS) = cp0_status s AND 0xfffe"
    and "get e c (USER_CONTEXT CTX_ENTRYHI) = kstate.cp0_entryhi s"
    and "\<forall>i < 39. a \<noteq> cell c (USER_CONTEXT i) \<Longrightarrow> kmem e a = kmem s a"
proof -
  define t where "t = save_context USER_CONTEXT (CLI s)"
  note tf = cli_save_facts[OF inv, folded t_def c_def]
  have c: "c \<in> pcbs (pcb s)" using inv by (simp add: leave_facts c_def)
  note ds = e_def enter_kernel_def t_def[symmetric] Let_def put_def SWTCH_TO_K_def
  show e: "e = s\<lparr>kmem := kmem e, gpr := gpr e, cp0_status := cp0_status s AND 0xfffe\<rparr>"
  proof -
    obtain m g where "e = t\<lparr>kmem := m, gpr := g\<rparr>" by (simp add: ds)
    then show ?thesis by (subst (asm) tf(1)) simp
  qed
  have ct: "current_running t = c" "kstate.cp0_entryhi t = kstate.cp0_entryhi s" by (subst tf(1), simp add: c_def)+
  have km: "kmem e = (kmem t)(cell c (USER_CONTEXT CTX_ENTRYHI) := kstate.cp0_entryhi s)" by (simp add: ds ct)
  have g: "get e c (USER_CONTEXT i) = get t c (USER_CONTEXT i)" if "i < 38" for i
    using cell_inj[OF c c, of "USER_CONTEXT i" "USER_CONTEXT 38"] that by (simp add: km CTX_ENTRYHI_def)
  show "context_is e c s" "get e c (USER_CONTEXT CTX_STATUS) = cp0_status s AND 0xfffe"
    using tf(2,3) by (simp_all add: context_is_def g saved_regs_props CTX_STATUS_def CTX_HI_def CTX_LO_def CTX_EPC_def)
  show "get e c (USER_CONTEXT CTX_ENTRYHI) = kstate.cp0_entryhi s" by (simp add: km)
  show fr: "kmem e a = kmem s a" if "\<forall>i < 39. a \<noteq> cell c (USER_CONTEXT i)" for a
    using tf(4)[OF that] that by (simp add: km CTX_ENTRYHI_def)
  have f: "pcb e = pcb s" "ready_queue e = ready_queue s" "current_running e = current_running s" "time_elapsed e = time_elapsed s"
    by (subst e, simp)+
  show "sched_inv e Q" "x \<in> pcbs (pcb s) \<Longrightarrow> runnable e x = runnable s x"
    using user_ctx_inv[OF inv fr[unfolded c_def] f(1-3)] f(4) by auto
qed

lemma leave_kernel_facts:
  fixes s :: kstate
  defines "r \<equiv> leave_kernel s" and "c \<equiv> current_running s"
  shows "kmem r = kmem s" "pcb r = pcb s" "ready_queue r = ready_queue s" "current_running r = c"
    and "context_is s c r" and "gpr r 8 = get s c (USER_CONTEXT CTX_STATUS) OR 1"
    and "cp0_status r = (get s c (USER_CONTEXT CTX_STATUS) OR 1) AND NOT 2"
    and "gpr s 31 \<noteq> embryo_start s \<Longrightarrow> kstate.cp0_entryhi r = get s c (USER_CONTEXT CTX_ENTRYHI)"
    and "kstate.screen_cursor_x r = kstate.screen_cursor_x s" "kstate.screen_cursor_y r = kstate.screen_cursor_y s"
proof -
  note ds = r_def c_def leave_kernel_def run_embryo_start_def eret_def STI_def restore_context_def Let_def
  show "kmem r = kmem s" "pcb r = pcb s" "ready_queue r = ready_queue s" "current_running r = c"
    "gpr r 8 = get s c (USER_CONTEXT CTX_STATUS) OR 1"
    "cp0_status r = (get s c (USER_CONTEXT CTX_STATUS) OR 1) AND NOT 2"
    "gpr s 31 \<noteq> embryo_start s \<Longrightarrow> kstate.cp0_entryhi r = get s c (USER_CONTEXT CTX_ENTRYHI)"
    "kstate.screen_cursor_x r = kstate.screen_cursor_x s" "kstate.screen_cursor_y r = kstate.screen_cursor_y s"
    by (simp_all add: ds)
  show "context_is s c r"
    unfolding context_is_def using saved_reg_bounds by (auto simp: ds)
qed

section \<open>The timer interrupt\<close>

lemma run_progs_idle: "prog S (current_running (ker S)) = [] \<Longrightarrow> run_progs H S = Some S"
  by (simp add: run_progs.simps)

lemma screen_of_set_ker:
  "kstate.screen_cursor_x k = kstate.screen_cursor_x (ker S) \<Longrightarrow>
   kstate.screen_cursor_y k = kstate.screen_cursor_y (ker S) \<Longrightarrow> screen_of (set_ker k S) = screen_of S"
  by (simp add: screen_of_def)

text \<open>Refreshing the screen does not move the cursor, so the kernel state stays as it is.\<close>

lemma reflush_system:
  assumes "serial_port (firmware H) sent" and "screen_ok (screen_of S)"
    and "shown (old_screen (scr S)) (vt_run (sent (port (scr S))) t)"
  obtains s where "on_screen (screen_reflush (firmware H)) S = Some (S\<lparr>scr := s\<rparr>)"
    and "new_screen s = new_screen (scr S)" and "old_screen s = new_screen (scr S)"
    and "shown (new_screen (scr S)) (vt_run (sent (port s)) t)"
proof -
  have sh: "shown (old_screen (screen_of S)) (vt_run (sent (port (screen_of S))) t)"
    using assms(3) by (simp add: screen_of_def)
  obtain p where p: "screen_reflush (firmware H) (screen_of S) = Some ((screen_of S)\<lparr>old_screen := new_screen (screen_of S), port := p\<rparr>)"
    "shown (new_screen (screen_of S)) (vt_run (sent p) t)"
    using serial_port.reflush_shows[OF assms(1,2) sh] by blast
  let ?s = "(screen_of S)\<lparr>old_screen := new_screen (screen_of S), port := p\<rparr>"
  have "on_screen (screen_reflush (firmware H)) S = Some (S\<lparr>scr := ?s\<rparr>)"
    using p(1) by (simp add: on_screen_def screen_of_def set_ker_def)
  then show thesis by (rule that) (use p(2) in \<open>simp_all add: screen_of_def\<close>)
qed

text \<open>The cause of an interrupt of the timer alone: code 0, IP7 pending, IP3 not.\<close>

definition timer_cause :: "u32 \<Rightarrow> bool" where
  "timer_cause cause \<longleftrightarrow> exccode_of cause = INT_code \<and> (drop_bit 8 cause AND 0xff) AND 0x08 = 0 \<and>
     (drop_bit 8 cause AND 0xff) AND 0x80 \<noteq> 0"

definition next_process :: "kstate \<Rightarrow> u32 list \<Rightarrow> u32" where
  "next_process s rs = (case find (runnable s) rs of Some p \<Rightarrow> p | None \<Rightarrow> current_running s)"

lemma timer_runs:
  assumes port: "serial_port (firmware H) sent" and so: "screen_ok (screen_of S)"
    and sh: "shown (old_screen (scr S)) (vt_run (sent (port (scr S))) t)"
    and inv: "sched_inv (ker S) Q" and rq: "Q (ready_queue (ker S)) = Some rs"
    and cause: "timer_cause (cp0_cause (ker S))"
    and p: "p = next_process (ker S) rs" and idle: "prog S p = []"
  defines "c \<equiv> current_running (ker S)"
  obtains S' Q' where "exception_handler_entry H S = Some S'" and "sched_inv (ker S') Q'" and "dom Q' = dom Q"
    and "pcb (ker S') = pcb (ker S)" and "ready_queue (ker S') = ready_queue (ker S)" and "current_running (ker S') = p"
    and "context_is (ker S') c (ker S)" and "context_is (ker S') p (ker S')"
    and "p \<noteq> c \<Longrightarrow> context_is (ker S) p (ker S')"
    and "gpr (ker S') 8 = get (ker S') p (USER_CONTEXT CTX_STATUS) OR 1"
    and "get (ker S') c (USER_CONTEXT CTX_STATUS) = cp0_status (ker S) AND 0xfffe"
    and "cp0_status (ker S') = (get (ker S') p (USER_CONTEXT CTX_STATUS) OR 1) AND NOT 2"
    and "p \<noteq> c \<Longrightarrow> get (ker S) p (KERNEL_CONTEXT 31) \<noteq> embryo_start (ker S) \<Longrightarrow>
      kstate.cp0_entryhi (ker S') = get (ker S) p (USER_CONTEXT CTX_ENTRYHI)"
    and "shown (new_screen (scr S)) (vt_run (sent (port (scr S'))) t)" and "prog S' = prog S" and "syscall S' = syscall S"
    and "new_screen (scr S') = new_screen (scr S)" and "old_screen (scr S') = new_screen (scr S)"
    and "p \<noteq> c \<Longrightarrow> kstate.screen_cursor_x (ker S') = get (ker S) p CURSOR_X \<and> kstate.screen_cursor_y (ker S') = get (ker S) p CURSOR_Y"
    and "p \<noteq> c \<Longrightarrow> get (ker S') c STATUS = TASK_READY"
    and "p \<noteq> c \<Longrightarrow> get (ker S') p (USER_CONTEXT CTX_STATUS) = get (ker S) p (USER_CONTEXT CTX_STATUS)"
    and "\<exists>x \<in> set rs. runnable (ker S) x \<Longrightarrow> \<exists>ys. Q' (ready_queue (ker S)) = Some (tl (left_over (ker S) rs) @ [c] @ ys)"
proof -
  let ?k = "ker S"
  define e where "e = enter_kernel ?k"
  note ef = enter_kernel_facts[OF inv, folded e_def c_def]
  define f where "f = e\<lparr>gpr := code_regs H e\<rparr>"
  have ee: "e = ?k\<lparr>kmem := kmem e, gpr := gpr e, cp0_status := cp0_status ?k AND 0xfffe\<rparr>" by (rule ef(1))
  have ff: "pcb f = pcb ?k" "ready_queue f = ready_queue ?k" "current_running f = c" "kmem f = kmem e"
    "cp0_cause f = cp0_cause ?k" "kstate.screen_cursor_x f = kstate.screen_cursor_x ?k"
    "kstate.screen_cursor_y f = kstate.screen_cursor_y ?k" "time_elapsed f = time_elapsed ?k" "embryo_start f = embryo_start ?k"
    unfolding f_def c_def by (subst ee, simp)+
  have finv: "sched_inv f Q" by (rule sched_inv_regs[OF ef(2)]) (simp_all add: f_def)
  have rs: "set rs \<subseteq> pcbs (pcb ?k)" using inv queues_okD(2)[of "pcb ?k" "kmem ?k" Q "ready_queue ?k" rs] rq by (simp add: leave_facts)
  have run: "runnable f x = runnable ?k x" if "x \<in> set rs" for x
    using ef(3)[of x] that rs by (auto simp: f_def runnable_def get_timer_def)
  have frq: "Q (ready_queue f) = Some rs" using rq ff(2) by simp
  have np: "(case find (runnable f) rs of Some p \<Rightarrow> p | None \<Rightarrow> current_running f) = p"
    using find_runnable_cong[of rs f ?k] run ff(3) by (simp add: p next_process_def c_def cong: option.case_cong)
  let ?S0 = "enter_C H (set_ker e S)"
  have S0: "?S0 = set_ker f S" by (simp add: enter_C_def f_def)
  have sc: "screen_of (set_ker f S) = screen_of S" by (rule screen_of_set_ker) (simp_all add: ff)
  obtain s where s: "on_screen (screen_reflush (firmware H)) (set_ker f S) = Some ((set_ker f S)\<lparr>scr := s\<rparr>)"
    "new_screen s = new_screen (scr S)" "old_screen s = new_screen (scr S)" "shown (new_screen (scr S)) (vt_run (sent (port s)) t)"
    using reflush_system[OF port, of "set_ker f S" t] so sh sc by auto
  obtain g Q' where g: "do_scheduler f = Some g" "sched_inv g Q'" "pcb g = pcb f" "ready_queue g = ready_queue f" "dom Q' = dom Q"
    "current_running g = p" "p \<in> pcbs (pcb f)"
    "\<And>x fd. x \<in> pcbs (pcb f) \<Longrightarrow> kept_field fd \<Longrightarrow> \<forall>i. fd \<noteq> KERNEL_CONTEXT i \<Longrightarrow> get g x fd = get f x fd"
    "\<And>i. i \<in> set saved_regs \<Longrightarrow> gpr g i = (if p = current_running f then gpr f i else get f p (KERNEL_CONTEXT i))"
    "p \<noteq> current_running f \<Longrightarrow> get g (current_running f) STATUS = TASK_READY"
    "\<exists>x \<in> set rs. runnable f x \<Longrightarrow> \<exists>ys. Q' (ready_queue g) = Some (tl (left_over f rs) @ [current_running f] @ ys)"
    "p \<noteq> current_running f \<Longrightarrow> kstate.screen_cursor_x g = get f p CURSOR_X \<and> kstate.screen_cursor_y g = get f p CURSOR_Y"
    by (rule do_scheduler_switch[OF finv frq, unfolded np]) blast
  have emb: "embryo_start g = embryo_start f" using addresses_do_scheduler[OF g(1)] by (simp add: addresses_def)
  have c: "c \<in> pcbs (pcb ?k)" using inv by (simp add: leave_facts c_def)
  have pk: "p \<in> pcbs (pcb ?k)" using g(7) ff(1) by simp
  have ug: "get g x (USER_CONTEXT i) = get e x (USER_CONTEXT i)" if "x \<in> pcbs (pcb ?k)" "i < 39" for x i
    using g(8)[of x "USER_CONTEXT i"] that ff(1,4) by (simp add: kept_contexts)
  have ue: "get e x (USER_CONTEXT i) = get ?k x (USER_CONTEXT i)" if "x \<in> pcbs (pcb ?k)" "x \<noteq> c" "i < 39" for x i
    using that c by (intro ef(7)) (auto simp: cell_inj)
  have ke: "get e x (KERNEL_CONTEXT i) = get ?k x (KERNEL_CONTEXT i)" if "x \<in> pcbs (pcb ?k)" "i < 39" for x i
    using that c by (intro ef(7)) (auto simp: cell_inj)
  have ce: "get e x fd = get ?k x fd" if "x \<in> pcbs (pcb ?k)" "fd \<in> {CURSOR_X, CURSOR_Y}" for x fd
    using that c by (intro ef(7)) (auto simp: cell_inj)
  have lo: "left_over f rs = left_over ?k rs" using run by (auto simp: left_over_def intro!: dropWhile_cong)
  define l where "l = leave_kernel g"
  note lf = leave_kernel_facts[of g, folded l_def, unfolded g(6)]
  let ?S' = "set_ker l (S\<lparr>scr := s\<rparr>)"
  have scrp: "(set_ker f S)\<lparr>scr := s\<rparr> = set_ker f (S\<lparr>scr := s\<rparr>)" by (simp add: set_ker_def)
  have ex: "exception_handler H fn a b d (set_ker f S) = Some (set_ker g (S\<lparr>scr := s\<rparr>))" for fn a b d
    using cause s(1) g(1)
    by (simp add: exception_handler_def interrupt_helper_def irq_timer_def timer_cause_def ff Let_def scrp on_ker_def)
  have res: "exception_handler_entry H S = Some ?S'"
    using idle g(6) by (simp add: exception_handler_entry_def e_def[symmetric] S0 ex run_progs_idle l_def Let_def)
  show thesis
  proof (rule that[OF res])
    show "sched_inv (ker ?S') Q'" by (simp, rule sched_inv_regs[OF g(2)]) (simp_all add: lf g(6))
    have cm: "context_is l x r = context_is e x r" if "x \<in> pcbs (pcb ?k)" for x r
      by (rule context_is_cong) (use ug that lf(1) in simp)
    show "context_is (ker ?S') c (ker S)" using cm[OF c] ef(4) by simp
    show "context_is (ker ?S') p (ker ?S')"
      using lf(5) context_is_cong[of l p g l] lf(1) by simp
    show "context_is (ker S) p (ker ?S')" if "p \<noteq> c"
      using lf(5) context_is_cong[of g p ?k l] ug[OF pk] ue[OF pk that] by simp
    show "gpr (ker ?S') 8 = get (ker ?S') p (USER_CONTEXT CTX_STATUS) OR 1"
      "cp0_status (ker ?S') = (get (ker ?S') p (USER_CONTEXT CTX_STATUS) OR 1) AND NOT 2"
      using lf by simp_all
    show "get (ker ?S') c (USER_CONTEXT CTX_STATUS) = cp0_status ?k AND 0xfffe"
      using ef(5) ug[OF c] lf(1) by (simp add: CTX_STATUS_def)
    show "kstate.cp0_entryhi (ker ?S') = get ?k p (USER_CONTEXT CTX_ENTRYHI)"
      if "p \<noteq> c" "get ?k p (KERNEL_CONTEXT 31) \<noteq> embryo_start ?k"
    proof -
      have "gpr g 31 = get ?k p (KERNEL_CONTEXT 31)" using g(9)[of 31] that(1) ff(3,4) ke[OF pk] by (simp add: saved_regs_def)
      then show ?thesis using lf(8) that emb ff(9) ug[OF pk] ue[OF pk that(1)] by (simp add: CTX_ENTRYHI_def)
    qed
    show "kstate.screen_cursor_x (ker ?S') = get ?k p CURSOR_X \<and> kstate.screen_cursor_y (ker ?S') = get ?k p CURSOR_Y" if "p \<noteq> c"
      using g(12) that ff(3,4) ce[OF pk] lf(9,10) by simp
    show "get (ker ?S') p (USER_CONTEXT CTX_STATUS) = get ?k p (USER_CONTEXT CTX_STATUS)" if "p \<noteq> c"
      using ug[OF pk] ue[OF pk that] lf(1) by (simp add: CTX_STATUS_def)
    show "\<exists>ys. Q' (ready_queue ?k) = Some (tl (left_over ?k rs) @ [c] @ ys)" if "\<exists>x \<in> set rs. runnable ?k x"
      using g(4,11) that run ff(2,3) lo by auto
  qed (use lf g(3-7,10) ff s in simp_all)
qed

text \<open>The screen can be refreshed, and the terminal shows what was sent to it.\<close>

definition screen_ready :: "('p \<Rightarrow> u8 list) \<Rightarrow> vt \<Rightarrow> ('d, 'p) system \<Rightarrow> bool" where
  "screen_ready sent t S \<longleftrightarrow> screen_ok (screen_of S) \<and> shown (old_screen (scr S)) (vt_run (sent (port (scr S))) t)"

section \<open>System calls\<close>

lemma set_handlers:
  "length (syscall (fold (\<lambda>(fn, h). set_handler fn h) hs S)) = length (syscall S)"
  "net (fold (\<lambda>(fn, h). set_handler fn h) hs S) = net S" "scr (fold (\<lambda>(fn, h). set_handler fn h) hs S) = scr S"
  "vm (fold (\<lambda>(fn, h). set_handler fn h) hs S) = vm S" "prog (fold (\<lambda>(fn, h). set_handler fn h) hs S) = prog S"
  by (induction hs arbitrary: S) (auto simp: set_handler_def)

lemma set_handlers_nth:
  assumes "distinct (map (unat \<circ> fst) hs)" and "\<forall>fn \<in> fst ` set hs. unat fn < length (syscall S)" and "n < length (syscall S)"
  shows "syscall (fold (\<lambda>(fn, h). set_handler fn h) hs S) ! n =
    (case map_of (map (\<lambda>(fn, h). (unat fn, h)) hs) n of Some h \<Rightarrow> Some h | None \<Rightarrow> syscall S ! n)"
  using assms
proof (induction hs arbitrary: S)
  case (Cons x hs)
  obtain fn h where x: "x = (fn, h)" by (cases x)
  have "map_of (map (\<lambda>(fn, h). (unat fn, h)) hs) (unat fn) = None"
    using Cons.prems(1) by (force simp: map_of_eq_None_iff x)
  then show ?case using Cons.IH[of "set_handler fn h S"] Cons.prems by (auto simp: x set_handler_def split: option.splits)
qed simp

text \<open>The table after start-up, entry by entry, with the numbers of \<^verbatim>\<open>include/sys/syscall.h\<close>: 2 to 7
  processes, 10 to 12 queues, 20 to 24 the screen (21, reading, was never written), 30 to 41 locks,
  50 to 53 the network card.\<close>

definition syscall_table :: "handler option list" where
  "syscall_table =
    replicate 2 None @ map Some [Do_sleep, Spawn, Kill, Wait, Exit, Getpid] @
    replicate 2 None @ map Some [Do_block, Do_unblock_one, Do_unblock_all] @
    replicate 7 None @ [Some Screen_write, None, Some Screen_move_cursor, Some Screen_reflush, Some Command_clear] @
    replicate 5 None @ map Some [Do_mutex_lock_init, Do_mutex_lock_acquire, Do_mutex_lock_release, Do_condition_init,
      Do_condition_wait, Do_condition_signal, Do_condition_broadcast, Do_semaphore_init, Do_semaphore_up,
      Do_semaphore_down, Do_barrier_init, Do_barrier_wait] @
    replicate 8 None @ map Some [Do_init_mac, Do_net_recv, Do_net_send, Do_wait_recv_package] @
    replicate 10 None"

definition table_ready :: "('d, 'p) system \<Rightarrow> bool" where
  "table_ready S \<longleftrightarrow> syscall S = syscall_table"

lemma length_syscall_table: "length syscall_table = NUM_SYSCALLS"
  by (simp add: syscall_table_def NUM_SYSCALLS_def)

lemma table_entries:
  "syscall_table ! 2 = Some Do_sleep" "syscall_table ! 3 = Some Spawn" "syscall_table ! 4 = Some Kill"
  "syscall_table ! 5 = Some Wait" "syscall_table ! 6 = Some Exit" "syscall_table ! 7 = Some Getpid"
  "syscall_table ! 10 = Some Do_block" "syscall_table ! 11 = Some Do_unblock_one" "syscall_table ! 12 = Some Do_unblock_all"
  "syscall_table ! 20 = Some Screen_write" "syscall_table ! 22 = Some Screen_move_cursor" "syscall_table ! 23 = Some Screen_reflush"
  "syscall_table ! 24 = Some Command_clear" "syscall_table ! 30 = Some Do_mutex_lock_init" "syscall_table ! 31 = Some Do_mutex_lock_acquire"
  "syscall_table ! 32 = Some Do_mutex_lock_release" "syscall_table ! 33 = Some Do_condition_init" "syscall_table ! 34 = Some Do_condition_wait"
  "syscall_table ! 35 = Some Do_condition_signal" "syscall_table ! 36 = Some Do_condition_broadcast" "syscall_table ! 37 = Some Do_semaphore_init"
  "syscall_table ! 38 = Some Do_semaphore_up" "syscall_table ! 39 = Some Do_semaphore_down" "syscall_table ! 40 = Some Do_barrier_init"
  "syscall_table ! 41 = Some Do_barrier_wait" "syscall_table ! 50 = Some Do_init_mac" "syscall_table ! 51 = Some Do_net_recv"
  "syscall_table ! 52 = Some Do_net_send" "syscall_table ! 53 = Some Do_wait_recv_package"
  by code_simp+

lemma call_list_table:
  "list_all (\<lambda>n. syscall_table ! n = map_of (map (\<lambda>(fn, h). (unat fn, h)) call_list) n) [0..<NUM_SYSCALLS]"
  by code_simp

lemma init_syscall_table:
  assumes "syscall S = replicate NUM_SYSCALLS None"
  shows "table_ready (init_syscall S)"
proof -
  have d: "distinct (map (unat \<circ> fst) call_list)" "\<forall>fn \<in> fst ` set call_list. unat fn < length (syscall S)"
    using assms by (simp_all add: call_list_def syscall_numbers NUM_SYSCALLS_def)
  have l: "length (syscall (init_syscall S)) = NUM_SYSCALLS" using assms by (simp add: init_syscall_def set_handlers)
  have "syscall (init_syscall S) ! n = syscall_table ! n" if "n < NUM_SYSCALLS" for n
    using set_handlers_nth[OF d] call_list_table assms that
    by (auto simp: init_syscall_def set_handlers list_all_iff split: option.splits)
  then show ?thesis unfolding table_ready_def
    using l length_syscall_table by (intro nth_equalityI) simp_all
qed

text \<open>A system call whose number has an entry, and one whose number has none.\<close>

lemma helper_calls:
  assumes "table_ready S"
  shows "unat fn < NUM_SYSCALLS \<Longrightarrow> syscall_table ! unat fn = Some h \<Longrightarrow> system_call_helper H fn a b c S = call_handler H h a b c S"
    and "\<not> (unat fn < NUM_SYSCALLS \<and> syscall_table ! unat fn \<noteq> None) \<Longrightarrow> system_call_helper H fn a b c S = None"
  using assms length_syscall_table by (auto simp: system_call_helper_def table_ready_def)

text \<open>The kernel state in which the handler of a system call runs.\<close>

definition in_call :: "('d, 'p) platform \<Rightarrow> u32 \<Rightarrow> u32 \<Rightarrow> u32 \<Rightarrow> u32 \<Rightarrow> u32 \<Rightarrow> kstate \<Rightarrow> kstate" where
  "in_call H pc fn a b d s =
    (let e = enter_kernel (take_exception (push_bit 2 SYS) pc (s\<lparr>gpr := (gpr s)(4 := fn, 5 := a, 6 := b, 7 := d)\<rparr>))
     in user_epc_plus4 (e\<lparr>gpr := code_regs H e\<rparr>))"

lemma enter_kernel_simps [simp]: "cp0_cause (enter_kernel s) = cp0_cause s"
proof -
  obtain m where "fold (\<lambda>i. put (current_running s) (USER_CONTEXT i) (gpr (CLI s) i)) saved_regs (CLI s) = (CLI s)\<lparr>kmem := m\<rparr>"
    using fold_put_other by blast
  then show ?thesis by (simp add: enter_kernel_def save_context_def SWTCH_TO_K_def put_def Let_def CLI_def)
qed

lemma invoke_syscall_eq:
  "invoke_syscall H pc fn a b d S = do {
     S \<leftarrow> system_call_helper H fn a b d (set_ker (in_call H pc fn a b d (ker S)) S);
     S \<leftarrow> run_progs H S;
     Some (set_ker (leave_kernel (ker S)) S)
   }"
  by (simp add: invoke_syscall_def exception_handler_entry_def in_call_def enter_C_def exception_handler_def Let_def
      exccode_of_def ExcCode_def INT_code_def TLBL_def TLBS_def SYS_def take_exception_def)

text \<open>A system call whose handler does \<open>f\<close>: the entry code, the handler, the statements that it or the
  process entered by it still has to execute, and the exit code.\<close>

definition served :: "('d, 'p) platform \<Rightarrow> u32 \<Rightarrow> u32 \<Rightarrow> u32 \<Rightarrow> u32 \<Rightarrow> u32 \<Rightarrow> (('d, 'p) system \<Rightarrow> ('d, 'p) system option) \<Rightarrow>
    ('d, 'p) system \<Rightarrow> ('d, 'p) system option" where
  "served H pc fn a b d f S = do {
     S \<leftarrow> f (set_ker (in_call H pc fn a b d (ker S)) S);
     S \<leftarrow> run_progs H S;
     Some (set_ker (leave_kernel (ker S)) S)
   }"

lemma invoke_reaches:
  assumes "table_ready S"
  shows "unat fn < NUM_SYSCALLS \<Longrightarrow> syscall_table ! unat fn = Some h \<Longrightarrow>
      invoke_syscall H pc fn a b d S = served H pc fn a b d (call_handler H h a b d) S"
    and "\<not> (unat fn < NUM_SYSCALLS \<and> syscall_table ! unat fn \<noteq> None) \<Longrightarrow> invoke_syscall H pc fn a b d S = None"
proof -
  have t: "table_ready (set_ker k S)" for k using assms by (simp add: table_ready_def)
  show "unat fn < NUM_SYSCALLS \<Longrightarrow> syscall_table ! unat fn = Some h \<Longrightarrow>
      invoke_syscall H pc fn a b d S = served H pc fn a b d (call_handler H h a b d) S"
    by (simp add: invoke_syscall_eq helper_calls(1)[OF t] served_def)
  show "invoke_syscall H pc fn a b d S = None" if n: "\<not> (unat fn < NUM_SYSCALLS \<and> syscall_table ! unat fn \<noteq> None)"
    unfolding invoke_syscall_eq helper_calls(2)[OF t n] by simp
qed

lemma free_numbers:
  "list_all (\<lambda>n. (syscall_table ! n = None) = (n \<notin> {2..7} \<union> {10..12} \<union> {20, 22, 23, 24} \<union> {30..41} \<union> {50..53})) [0..<64]"
  by code_simp

text \<open>
  C31: The functions that user programs call reach the kernel functions of their names, through the
  entry of the exception, the number, and the table as \<open>init_syscall\<close> fills it; the other numbers
  (35 of the 64, and everything outside the table, negative numbers too) make the kernel call
  through a null pointer or through whatever is stored behind the table.
\<close>

theorem system_calls_reach_handlers:
  assumes "syscall S0 = replicate NUM_SYSCALLS None" and "syscall S = syscall (init_syscall S0)"
  shows "sys_sleep a H pc S = served H pc 2 a 0 0 (on_ker (do_sleep a)) S \<and>
    sys_spawn a H pc S = served H pc 3 a 0 0 (on_ker (\<lambda>s. Some (spawn a s))) S \<and>
    sys_kill a H pc S = served H pc 4 a 0 0 (on_ker (\<lambda>s. Some (kill a s))) S \<and>
    sys_waitpid a H pc S = served H pc 5 a 0 0 (on_ker (wait a)) S \<and>
    sys_exit H pc S = served H pc 6 0 0 0 (on_ker exit) S \<and>
    sys_getpid H pc S = served H pc 7 0 0 0 (on_ker (\<lambda>s. Some (snd (getpid s)))) S \<and>
    sys_block a H pc S = served H pc 10 a 0 0 (on_ker (do_block a)) S \<and>
    sys_unblock_one a H pc S = served H pc 11 a 0 0 (on_ker (\<lambda>s. Some (do_unblock_one a s))) S \<and>
    sys_unblock_all a H pc S = served H pc 12 a 0 0 (on_ker (do_unblock_all a)) S \<and>
    sys_write a H pc S = served H pc 20 a 0 0 (\<lambda>S. string_at (kmem (ker S)) a \<bind> (\<lambda>str. on_screen (screen_write str) S)) S \<and>
    sys_move_cursor a b H pc S = served H pc 22 a b 0 (on_screen (\<lambda>s. Some (screen_move_cursor a b s))) S \<and>
    sys_reflush H pc S = served H pc 23 0 0 0 (on_screen (screen_reflush (firmware H))) S \<and>
    sys_clear H pc S = served H pc 24 0 0 0 (on_screen (command_clear (firmware H))) S \<and>
    mutex_lock_init a H pc S = served H pc 30 a 0 0 (on_ker (\<lambda>s. Some (do_mutex_lock_init a s))) S \<and>
    mutex_lock_acquire a H pc S = served H pc 31 a 0 0 (start (do_mutex_lock_acquire a)) S \<and>
    mutex_lock_release a H pc S = served H pc 32 a 0 0 (on_ker (do_mutex_lock_release a)) S \<and>
    condition_init a H pc S = served H pc 33 a 0 0 (on_ker (\<lambda>s. Some (do_condition_init a s))) S \<and>
    condition_wait a b H pc S = served H pc 34 a b 0 (start (do_condition_wait a b)) S \<and>
    condition_signal a H pc S = served H pc 35 a 0 0 (start (do_condition_signal a)) S \<and>
    condition_broadcast a H pc S = served H pc 36 a 0 0 (start (do_condition_broadcast a)) S \<and>
    semaphore_init a b H pc S = served H pc 37 a b 0 (on_ker (\<lambda>s. Some (do_semaphore_init a b s))) S \<and>
    semaphore_up a H pc S = served H pc 38 a 0 0 (start (do_semaphore_up a)) S \<and>
    semaphore_down a H pc S = served H pc 39 a 0 0 (start (do_semaphore_down a)) S \<and>
    barrier_init a b H pc S = served H pc 40 a b 0 (on_ker (\<lambda>s. Some (do_barrier_init a b s))) S \<and>
    barrier_wait a H pc S = served H pc 41 a 0 0 (start (do_barrier_wait a)) S \<and>
    sys_init_mac H pc S = served H pc 50 0 0 0 (on_net (do_init_mac (nic_hw H) stack_mac)) S \<and>
    sys_net_recv a b d H pc S = served H pc 51 a b d (on_net (\<lambda>s. Some (do_net_recv (nic_hw H) a b d s))) S \<and>
    sys_net_send a b H pc S = served H pc 52 a b 0 (on_net (do_net_send (nic_hw H) a b)) S \<and>
    sys_wait_recv_package H pc S = served H pc 53 0 0 0 (on_net do_wait_recv_package) S \<and>
    (unat fn \<notin> {2..7} \<union> {10..12} \<union> {20, 22, 23, 24} \<union> {30..41} \<union> {50..53} \<longrightarrow> invoke_syscall H pc fn a b d S = None)"
proof -
  have t: "table_ready S" using init_syscall_table[OF assms(1)] assms(2) by (simp add: table_ready_def)
  have "invoke_syscall H pc fn a b d S = None"
    if "unat fn \<notin> {2..7} \<union> {10..12} \<union> {20, 22, 23, 24} \<union> {30..41} \<union> {50..53}"
    by (rule invoke_reaches(2)[OF t]) (use free_numbers that in \<open>auto simp: list_all_iff NUM_SYSCALLS_def\<close>)
  then show ?thesis
    by (intro conjI impI)
      (simp_all add: user_calls syscall_numbers IGNORE_def invoke_reaches(1)[OF t] NUM_SYSCALLS_def table_entries)
qed

lemma in_call_facts:
  fixes H :: "('d, 'p) platform" and pc fn a b d :: u32
  assumes inv: "sched_inv s Q"
  defines "c \<equiv> current_running s" and "f \<equiv> in_call H pc fn a b d s"
  shows "sched_inv f Q" and "current_running f = c" "pcb f = pcb s" "ready_queue f = ready_queue s"
    and "i \<in> set saved_regs - {4, 5, 6, 7, 8} \<Longrightarrow> get f c (USER_CONTEXT i) = gpr s i"
    and "get f c (USER_CONTEXT CTX_HI) = reg_hi s" "get f c (USER_CONTEXT CTX_LO) = reg_lo s"
    and "get f c (USER_CONTEXT CTX_EPC) = pc + 4" "get f c (USER_CONTEXT CTX_ENTRYHI) = kstate.cp0_entryhi s"
    and "\<forall>i < 39. x \<noteq> cell c (USER_CONTEXT i) \<Longrightarrow> kmem f x = kmem s x"
    and "\<forall>t. code_regs H t 31 \<noteq> embryo_start t \<Longrightarrow> gpr f 31 \<noteq> embryo_start f"
proof -
  define k where "k = take_exception (push_bit 2 SYS) pc (s\<lparr>gpr := (gpr s)(4 := fn, 5 := a, 6 := b, 7 := d)\<rparr>)"
  have kk: "kmem k = kmem s" "pcb k = pcb s" "ready_queue k = ready_queue s" "current_running k = c" "cp0_epc k = pc"
    "reg_hi k = reg_hi s" "reg_lo k = reg_lo s" "kstate.cp0_entryhi k = kstate.cp0_entryhi s"
    "gpr k = (gpr s)(4 := fn, 5 := a, 6 := b, 7 := d)"
    by (simp_all add: k_def take_exception_def c_def)
  have kinv: "sched_inv k Q" by (rule sched_inv_regs[OF inv]) (simp_all add: kk c_def)
  define e where "e = enter_kernel k"
  note ef = enter_kernel_facts[OF kinv, folded e_def, unfolded kk(4)]
  have ce: "current_running e = c" "pcb e = pcb s" "ready_queue e = ready_queue s" by (subst ef(1), simp add: kk)+
  have f: "f = user_epc_plus4 (e\<lparr>gpr := code_regs H e\<rparr>)" by (simp add: f_def in_call_def k_def[symmetric] e_def Let_def)
  have fm: "kmem f = (kmem e)(cell c (USER_CONTEXT CTX_EPC) := pc + 4)"
    using ef(4) by (simp add: f user_epc_plus4_def Let_def put_def ce context_is_def kk)
  show ff: "current_running f = c" "pcb f = pcb s" "ready_queue f = ready_queue s"
    by (simp_all add: f user_epc_plus4_def Let_def put_def ce)
  have c: "c \<in> pcbs (pcb s)" using inv by (simp add: leave_facts c_def)
  have uf: "get f c (USER_CONTEXT i) = (if i = CTX_EPC then pc + 4 else get e c (USER_CONTEXT i))" if "i < 39" for i
    using cell_inj[OF c c, of "USER_CONTEXT i" "USER_CONTEXT CTX_EPC"] that by (simp add: fm CTX_EPC_def)
  show "get f c (USER_CONTEXT i) = gpr s i" if "i \<in> set saved_regs - {4, 5, 6, 7, 8}" for i
    using uf[of i] ef(4) that by (auto simp: context_is_def kk saved_regs_props CTX_EPC_def)
  show "get f c (USER_CONTEXT CTX_HI) = reg_hi s" "get f c (USER_CONTEXT CTX_LO) = reg_lo s" "get f c (USER_CONTEXT CTX_EPC) = pc + 4"
    using uf[of CTX_HI] uf[of CTX_LO] uf[of CTX_EPC] ef(4) by (simp_all add: context_is_def kk CTX_HI_def CTX_LO_def CTX_EPC_def)
  show "get f c (USER_CONTEXT CTX_ENTRYHI) = kstate.cp0_entryhi s"
    using uf[of CTX_ENTRYHI] ef(6) by (simp add: kk CTX_ENTRYHI_def CTX_EPC_def)
  show fr: "kmem f x = kmem s x" if "\<forall>i < 39. x \<noteq> cell c (USER_CONTEXT i)" for x
    using ef(7)[OF that] that by (simp add: fm kk CTX_EPC_def)
  show "sched_inv f Q" by (rule user_ctx_inv(1)[OF inv]) (use fr ff c_def in simp_all)
  show "gpr f 31 \<noteq> embryo_start f" if "\<forall>t. code_regs H t 31 \<noteq> embryo_start t"
    using that by (simp add: f user_epc_plus4_def Let_def put_def)
qed

text \<open>
  C29: \<open>sys_getpid\<close>, from the instruction in the user program back to it: the process goes on
  behind the instruction with its own id in \<open>v0\<close> and all other registers as they were, except
  \<open>t0\<close> and the registers that carried the arguments.
\<close>

theorem getpid_returns_pid:
  assumes "sched_inv (ker S) Q" and "table_ready S" and "prog S (current_running (ker S)) = []"
    and "\<forall>s. code_regs H s 31 \<noteq> embryo_start s"
  shows "\<exists>S'. sys_getpid H pc S = Some S' \<and> sched_inv (ker S') Q \<and> current_running (ker S') = current_running (ker S) \<and>
    gpr (ker S') 2 = get (ker S) (current_running (ker S)) PID \<and> cp0_epc (ker S') = pc + 4 \<and>
    (\<forall>i \<in> set saved_regs - {2, 4, 5, 6, 7, 8}. gpr (ker S') i = gpr (ker S) i) \<and>
    reg_hi (ker S') = reg_hi (ker S) \<and> reg_lo (ker S') = reg_lo (ker S) \<and>
    kstate.cp0_entryhi (ker S') = kstate.cp0_entryhi (ker S)"
proof -
  let ?k = "ker S" and ?c = "current_running (ker S)"
  define f where "f = in_call H pc SYSCALL_GETPID IGNORE IGNORE IGNORE ?k"
  note ff = in_call_facts[OF assms(1), where H = H and pc = pc and fn = SYSCALL_GETPID and a = IGNORE and b = IGNORE and d = IGNORE, folded f_def]
  have c: "?c \<in> pcbs (pcb ?k)" using assms(1) by (simp add: leave_facts)
  have pid: "get f ?c PID = get ?k ?c PID" by (rule ff(10)) (simp add: cell_inj[OF c c])
  define g where "g = snd (getpid f)"
  have g: "g = f\<lparr>kmem := (kmem f)(cell ?c (USER_CONTEXT 2) := get ?k ?c PID)\<rparr>"
    by (simp add: g_def getpid_def return_int32_def Let_def put_def ff(2) pid)
  have ug: "get g ?c (USER_CONTEXT i) = (if i = 2 then get ?k ?c PID else get f ?c (USER_CONTEXT i))" if "i < 39" for i
    using cell_inj[OF c c, of "USER_CONTEXT i" "USER_CONTEXT 2"] that by (simp add: g)
  have ginv: "sched_inv g Q"
    by (rule sched_inv_ctx(1)[OF ff(1)]) (use c ff(3) in \<open>auto simp: g ctx_cells_def\<close>)
  define l where "l = leave_kernel g"
  have gc: "current_running g = ?c" "gpr g = gpr f" "embryo_start g = embryo_start f" by (simp_all add: g ff(2))
  note lf = leave_kernel_facts[of g, folded l_def, unfolded gc]
  have m: "unat SYSCALL_GETPID < NUM_SYSCALLS" "syscall_table ! unat SYSCALL_GETPID = Some Getpid"
    by (simp_all add: table_entries syscall_numbers NUM_SYSCALLS_def)
  then have "system_call_helper H SYSCALL_GETPID IGNORE IGNORE IGNORE (set_ker f S) = Some (set_ker g S)"
    using helper_calls(1)[of "set_ker f S", OF _ m] assms(2) by (simp add: table_ready_def on_ker_def g_def)
  then have "sys_getpid H pc S = Some (set_ker l S)"
    using assms(3) gc(1) by (simp add: sys_getpid_def invoke_syscall_eq f_def[symmetric] run_progs_idle l_def)
  moreover have "sched_inv l Q" by (rule sched_inv_regs[OF ginv]) (simp_all add: lf gc)
  moreover have "gpr l i = (if i = 2 then get ?k ?c PID else gpr ?k i)" if "i \<in> set saved_regs - {4, 5, 6, 7, 8}" for i
    using lf(5) ff(5)[OF that] ug[of i] that by (auto simp: context_is_def saved_regs_props)
  moreover have "cp0_epc l = pc + 4" "reg_hi l = reg_hi ?k" "reg_lo l = reg_lo ?k"
    using lf(5) ff(6-8) ug[of CTX_EPC] ug[of CTX_HI] ug[of CTX_LO] by (simp_all add: context_is_def CTX_HI_def CTX_LO_def CTX_EPC_def)
  moreover have "kstate.cp0_entryhi l = kstate.cp0_entryhi ?k"
    using lf(8) ff(11)[OF assms(4)] ug[of CTX_ENTRYHI] ff(9) by (simp add: CTX_ENTRYHI_def)
  ultimately show ?thesis
    using lf(4) by (intro exI[of _ "set_ker l S"]) (simp add: saved_regs_props)
qed

section \<open>TLB refills\<close>

definition refill_cause :: "u32 \<Rightarrow> bool" where
  "refill_cause cause \<longleftrightarrow> exccode_of cause = TLBL \<or> exccode_of cause = TLBS"

lemma tlb_entry_saves:
  assumes inv: "sched_inv s Q"
  defines "c \<equiv> current_running s" and "e \<equiv> SWTCH_TO_K (save_context USER_CONTEXT (CLI s))"
  shows "e = s\<lparr>kmem := kmem e, gpr := gpr e, cp0_status := cp0_status s AND 0xfffe\<rparr>"
    and "sched_inv e Q" and "context_is e c s" and "get e c PID = get s c PID"
proof -
  define t where "t = save_context USER_CONTEXT (CLI s)"
  note tf = cli_save_facts[OF inv, folded t_def c_def]
  have c: "c \<in> pcbs (pcb s)" using inv by (simp add: leave_facts c_def)
  obtain g where e: "e = t\<lparr>gpr := g\<rparr>" by (simp add: e_def SWTCH_TO_K_def Let_def t_def)
  then have km: "kmem e = kmem t" by simp
  show ee: "e = s\<lparr>kmem := kmem e, gpr := gpr e, cp0_status := cp0_status s AND 0xfffe\<rparr>"
    unfolding e by (subst tf(1)) simp
  show "context_is e c s" using tf(2) context_is_cong[of e c t s] km by simp
  show "get e c PID = get s c PID" unfolding km by (rule tf(4)) (simp add: cell_inj[OF c c])
  have ef: "pcb e = pcb s" "ready_queue e = ready_queue s" "current_running e = current_running s" by (subst ee, simp)+
  show "sched_inv e Q" by (rule user_ctx_inv(1)[OF inv _ ef]) (use tf(4) km c_def in simp)
qed

text \<open>
  C30: A TLB miss below 32 MB, from the entry of the exception to the return, while two frames
  are left: both pages of the pair are mapped, the mapping is in the TLB, and the process goes
  on at the instruction that missed with all its registers except \<open>t0\<close>. Whatever the user
  context of the process held before, it now holds these registers.
\<close>

theorem tlb_miss_served:
  assumes "sched_inv (ker S) Q" and "mm_inv (vm S)" and "refill_cause (cp0_cause (ker S))"
    and "unat (cp0_badvaddr (ker S)) < 0x2000000" and "unat (pf_count (vm S)) + 2 \<le> 0x1000"
  shows "\<exists>S'. TLBexception_handler_entry H S = Some S' \<and> sched_inv (ker S') Q \<and> mm_inv (vm S') \<and>
    (let v = even_page (cp0_badvaddr (ker S)) in
      page_entrys (vm S') ! v \<noteq> 0 \<and> page_entrys (vm S') ! (v + 1) \<noteq> 0 \<and>
      tlb (vm S') (cp0_random (vm S)) =
        (push_bit 13 (drop_bit 13 (cp0_badvaddr (ker S))) OR (get (ker S) (current_running (ker S)) PID AND 0xff),
         entrylo (pte_frame (vm S') v), entrylo (pte_frame (vm S') (v + 1)), 0)) \<and>
    (\<forall>i \<in> set saved_regs - {8}. gpr (ker S') i = gpr (ker S) i) \<and>
    reg_hi (ker S') = reg_hi (ker S) \<and> reg_lo (ker S') = reg_lo (ker S) \<and> cp0_epc (ker S') = cp0_epc (ker S) \<and>
    context_is (ker S') (current_running (ker S)) (ker S)"
proof -
  let ?k = "ker S" and ?c = "current_running (ker S)"
  define e where "e = SWTCH_TO_K (save_context USER_CONTEXT (CLI ?k))"
  note ef = tlb_entry_saves[OF assms(1), folded e_def]
  define f where "f = e\<lparr>gpr := code_regs H e\<rparr>"
  have ff: "pcb f = pcb ?k" "ready_queue f = ready_queue ?k" "current_running f = ?c" "cp0_cause f = cp0_cause ?k"
    "cp0_badvaddr f = cp0_badvaddr ?k" unfolding f_def by (subst ef(1), simp)+
  have ce: "cp0_cause e = cp0_cause ?k" "cp0_badvaddr e = cp0_badvaddr ?k" "current_running e = ?c" by (subst ef(1), simp)+
  have fk: "kmem f = kmem e" by (simp add: f_def)
  define v where "v = (vm S)\<lparr>mm.cp0_entryhi := kstate.cp0_entryhi f\<rparr>"
  have v: "mm_inv v" "unat (pf_count v) + 2 \<le> 0x1000" "cp0_random v = cp0_random (vm S)"
    using assms(2,5) by (simp_all add: v_def mm_inv_def)
  obtain w where w: "do_TLB_Refill (cp0_badvaddr ?k) (get ?k ?c PID) v = Some w" "mm_inv w"
    "let n = even_page (cp0_badvaddr ?k) in page_entrys w ! n \<noteq> 0 \<and> page_entrys w ! (n + 1) \<noteq> 0 \<and>
      tlb w = (tlb v)(cp0_random v := (push_bit 13 (drop_bit 13 (cp0_badvaddr ?k)) OR (get ?k ?c PID AND 0xff),
        entrylo (pte_frame w n), entrylo (pte_frame w (n + 1)), 0))"
    using refill_runs[OF v(1) assms(4) v(2), of "get ?k ?c PID"] by (auto simp: Let_def)
  define g where "g = f\<lparr>kstate.cp0_entryhi := mm.cp0_entryhi w\<rparr>"
  define l where "l = eret (STI (restore_context USER_CONTEXT g))"
  have lf: "kmem l = kmem e" "pcb l = pcb ?k" "ready_queue l = ready_queue ?k" "current_running l = ?c"
    by (simp_all add: l_def eret_def STI_def Let_def g_def ff fk)
  have "context_is g ?c l"
    unfolding context_is_def using saved_reg_bounds
    by (auto simp: l_def eret_def STI_def Let_def restore_context_def g_def ff)
  moreover have "kmem g = kmem e" by (simp add: g_def fk)
  ultimately have "context_is e ?c l" using context_is_cong[of g ?c e l] by simp
  from context_is_unique[OF ef(3) this] have regs:
    "\<forall>i \<in> set saved_regs - {8}. gpr l i = gpr ?k i" "reg_hi l = reg_hi ?k" "reg_lo l = reg_lo ?k" "cp0_epc l = cp0_epc ?k" by blast+
  have "context_is l ?c ?k" using ef(3) context_is_cong[of l ?c e ?k] lf(1) by simp
  moreover have "sched_inv l Q"
    by (rule sched_inv_regs[OF ef(2)]) (use lf in \<open>simp_all, (subst ef(1), simp)+\<close>)
  moreover have "TLBexception_handler_entry H S = Some (set_ker l (S\<lparr>vm := w\<rparr>))"
    using assms(3) w(1) ef(4)
    by (simp add: TLBexception_handler_entry_def e_def[symmetric] enter_C_def f_def[symmetric] TLB_handler_def refill_cause_def
        ff ce tlb_refill_def on_vm_def v_def[symmetric] fk g_def[symmetric] l_def Let_def)
      (simp add: set_ker_def)
  ultimately show ?thesis
    using w(2,3) v(3) regs by (intro exI[of _ "set_ker l (S\<lparr>vm := w\<rparr>)"]) (simp add: Let_def)
qed

section \<open>A concrete system\<close>

definition sample_platform :: "(test_card, u8 list) platform" where
  "sample_platform = \<lparr>nic_hw = test_nic, firmware = console, code_regs = (\<lambda>s i. embryo_start s + 4)\<rparr>"

definition sample_system :: "kstate \<Rightarrow> (test_card, u8 list) system" where
  "sample_system k = \<lparr>net = test_net k, scr = blank_screen, vm = sample_mm, prog = (\<lambda>_. []),
     syscall = replicate NUM_SYSCALLS None, cp0_watchlo = 0, cp0_watchhi = 0, cp0_config = 0\<rparr>"

lemma sample_system_simps [simp]:
  "ker (sample_system k) = k" "scr (sample_system k) = blank_screen" "vm (sample_system k) = sample_mm"
  "prog (sample_system k) = (\<lambda>_. [])" "syscall (sample_system k) = replicate NUM_SYSCALLS None"
  by (simp_all add: sample_system_def test_net_def)

lemma sample_port: "serial_port (firmware sample_platform) (\<lambda>p. p)"
  using console.serial_port_axioms by (simp add: sample_platform_def)

lemma sample_table: "table_ready (init_syscall (sample_system k))"
  by (rule init_syscall_table) simp

lemma init_syscall_simps: "net (init_syscall S) = net S" "prog (init_syscall S) = prog S" "scr (init_syscall S) = scr S"
  by (simp_all add: init_syscall_def set_handlers)

theorem system_calls_reach_handlers_witness:
  "sys_sleep 9 sample_platform 0x400 (init_syscall (sample_system sample)) =
     served sample_platform 0x400 2 9 0 0 (on_ker (do_sleep 9)) (init_syscall (sample_system sample)) \<and>
   invoke_syscall sample_platform 0x400 21 0 0 0 (init_syscall (sample_system sample)) = None"
  using system_calls_reach_handlers[of "sample_system sample" "init_syscall (sample_system sample)" 9 sample_platform "0x400" 0 0 21]
    system_calls_reach_handlers[of "sample_system sample" "init_syscall (sample_system sample)" 0 sample_platform "0x400" 0 0 21]
  by simp

theorem getpid_returns_pid_witness:
  "\<exists>S'. sys_getpid sample_platform 0x400 (init_syscall (sample_system sample)) = Some S' \<and>
     gpr (ker S') 2 = 0 \<and> gpr (ker S') 29 = 29 \<and> cp0_epc (ker S') = 0x404"
  using getpid_returns_pid[OF _ sample_table, of sample sampleQ sample_platform "0x400"] sample_two_inv sample_get[of 0 PID]
  by (auto simp: init_syscall_simps sample_platform_def saved_regs_def sample_two_def cell_inj_idx NUM_MAX_TASK_def)

theorem tlb_miss_served_witness:
  "\<exists>S'. TLBexception_handler_entry sample_platform (sample_system (sample\<lparr>cp0_cause := 8, cp0_badvaddr := 0x3ffffc\<rparr>)) = Some S' \<and>
     page_entrys (vm S') ! 0x3fe \<noteq> 0 \<and> gpr (ker S') 29 = 29"
proof -
  have "sched_inv (sample\<lparr>cp0_cause := 8, cp0_badvaddr := 0x3ffffc\<rparr>) sampleQ" by (rule sched_inv_regs[OF sample_two_inv]) simp_all
  then show ?thesis
    using tlb_miss_served[of "sample_system (sample\<lparr>cp0_cause := 8, cp0_badvaddr := 0x3ffffc\<rparr>)" sampleQ sample_platform] sample_mm_inv
    by (auto simp: refill_cause_def exccode_of_def ExcCode_def TLBL_def even_page_def Let_def sample_mm_def saved_regs_def)
qed

end
