(* ===== verification/Bytes.thy ===== *)
theory Bytes
  imports Prelude
begin

text \<open>
  Byte views of the structures that the file system keeps on disk: little-endian words, slices
  of a buffer, and arrays of words.
\<close>

unbundle bit_operations_syntax

section \<open>Little-endian words\<close>

definition le32 :: "u32 \<Rightarrow> u8 list" where
  "le32 v = [ucast v, ucast (drop_bit 8 v), ucast (drop_bit 16 v), ucast (drop_bit 24 v)]"

fun of_le32 :: "u8 list \<Rightarrow> u32" where
  "of_le32 [b0, b1, b2, b3] =
    ucast b0 OR push_bit 8 (ucast b1) OR push_bit 16 (ucast b2) OR push_bit 24 (ucast b3)"
| "of_le32 _ = 0"

lemma length_le32 [simp]: "length (le32 v) = 4"
  by (simp add: le32_def)

lemma bit_drop: "bit (drop_bit k v) n \<longleftrightarrow> bit (v :: u32) (k + n)"
  by (simp add: bit_drop_bit_eq)

lemma bit_le32_byte: "bit (ucast (drop_bit k v) :: u8) n \<longleftrightarrow> n < 8 \<and> bit (v :: u32) (k + n)"
  by (auto simp: bit_ucast_iff bit_drop_bit_eq)

lemma bit_of_byte: "bit (push_bit k (ucast b) :: u32) n \<longleftrightarrow> k \<le> n \<and> n < 32 \<and> bit (b :: u8) (n - k)"
  by (auto simp: bit_push_bit_iff bit_ucast_iff dest: bit_imp_le_length)

lemma of_le32_le32 [simp]: "of_le32 (le32 v) = v"
proof (rule bit_word_eqI)
  fix n assume "n < LENGTH(32)"
  then have "n < 8 \<or> 8 \<le> n \<and> n < 16 \<or> 16 \<le> n \<and> n < 24 \<or> 24 \<le> n \<and> n < 32" by auto
  then show "bit (of_le32 (le32 v)) n = bit v n"
    by (auto simp: le32_def bit_or_iff bit_of_byte bit_le32_byte bit_ucast_iff bit_drop)
qed

lemma le32_of_le32 [simp]:
  assumes "length bs = 4"
  shows "le32 (of_le32 bs) = bs"
proof -
  obtain b0 b1 b2 b3 where bs: "bs = [b0, b1, b2, b3]"
    using assms by (auto simp: length_Suc_conv numeral_eq_Suc)
  have "ucast (drop_bit k (of_le32 bs)) = (b :: u8)" if "(k, b) \<in> {(0, b0), (8, b1), (16, b2), (24, b3)}" for k b
    by (rule bit_word_eqI)
       (use that in \<open>auto simp: bs bit_le32_byte bit_or_iff bit_of_byte bit_ucast_iff bit_drop dest: bit_imp_le_length\<close>)
  from this[of 0 b0] this[of 8 b1] this[of 16 b2] this[of 24 b3] show ?thesis
    by (simp add: le32_def bs)
qed

section \<open>Slices\<close>

definition get_bytes :: "u8 list \<Rightarrow> nat \<Rightarrow> nat \<Rightarrow> u8 list" where
  "get_bytes buf off n = take n (drop off buf)"

definition put_bytes :: "u8 list \<Rightarrow> nat \<Rightarrow> u8 list \<Rightarrow> u8 list" where
  "put_bytes buf off bs = take off buf @ bs @ drop (off + length bs) buf"

definition get32 :: "u8 list \<Rightarrow> nat \<Rightarrow> u32" where
  "get32 buf off = of_le32 (get_bytes buf off 4)"

definition put32 :: "u8 list \<Rightarrow> nat \<Rightarrow> u32 \<Rightarrow> u8 list" where
  "put32 buf off v = put_bytes buf off (le32 v)"

lemma length_put_bytes [simp]:
  "off + length bs \<le> length buf \<Longrightarrow> length (put_bytes buf off bs) = length buf"
  by (simp add: put_bytes_def)

lemma length_put32 [simp]: "off + 4 \<le> length buf \<Longrightarrow> length (put32 buf off v) = length buf"
  by (simp add: put32_def)

lemma length_get_bytes [simp]: "off + n \<le> length buf \<Longrightarrow> length (get_bytes buf off n) = n"
  by (simp add: get_bytes_def)

lemma nth_put_bytes:
  assumes "off + length bs \<le> length buf" and "i < length buf"
  shows "put_bytes buf off bs ! i = (if off \<le> i \<and> i < off + length bs then bs ! (i - off) else buf ! i)"
  using assms by (auto simp: put_bytes_def nth_append min_def)

lemma nth_get_bytes: "off + n \<le> length buf \<Longrightarrow> i < n \<Longrightarrow> get_bytes buf off n ! i = buf ! (off + i)"
  by (simp add: get_bytes_def)

lemma get_put_bytes [simp]:
  "off + length bs \<le> length buf \<Longrightarrow> n = length bs \<Longrightarrow> get_bytes (put_bytes buf off bs) off n = bs"
  by (simp add: get_bytes_def put_bytes_def)

lemma get_put_other:
  assumes "off + length bs \<le> length buf" and "o' + n \<le> length buf" and "o' + n \<le> off \<or> off + length bs \<le> o'"
  shows "get_bytes (put_bytes buf off bs) o' n = get_bytes buf o' n"
proof (rule nth_equalityI)
  show "length (get_bytes (put_bytes buf off bs) o' n) = length (get_bytes buf o' n)"
    using assms by simp
  show "get_bytes (put_bytes buf off bs) o' n ! i = get_bytes buf o' n ! i"
    if "i < length (get_bytes (put_bytes buf off bs) o' n)" for i
    using assms that by (auto simp: nth_get_bytes nth_put_bytes)
qed

lemma put_get_bytes: "off + n \<le> length buf \<Longrightarrow> put_bytes buf off (get_bytes buf off n) = buf"
  by (rule nth_equalityI) (auto simp: nth_put_bytes nth_get_bytes)

lemma get32_put32 [simp]: "off + 4 \<le> length buf \<Longrightarrow> get32 (put32 buf off v) off = v"
  by (simp add: get32_def put32_def)

lemma get32_put32_other:
  "off + 4 \<le> length buf \<Longrightarrow> o' + 4 \<le> length buf \<Longrightarrow> o' + 4 \<le> off \<or> off + 4 \<le> o' \<Longrightarrow>
   get32 (put32 buf off v) o' = get32 buf o'"
  by (simp add: get32_def put32_def get_put_other)

lemma get_bytes_get_bytes:
  "o' + n' \<le> n \<Longrightarrow> get_bytes (get_bytes buf off n) o' n' = get_bytes buf (off + o') n'"
  by (simp add: get_bytes_def drop_take min_def add.commute)

section \<open>Arrays of words\<close>

fun words_of :: "u8 list \<Rightarrow> u32 list" where
  "words_of (b0 # b1 # b2 # b3 # bs) = of_le32 [b0, b1, b2, b3] # words_of bs"
| "words_of _ = []"

definition bytes_of :: "u32 list \<Rightarrow> u8 list" where
  "bytes_of ws = concat (map le32 ws)"

lemma bytes_of_simps [simp]: "bytes_of [] = []" "bytes_of (w # ws) = le32 w @ bytes_of ws"
  "bytes_of (ws @ vs) = bytes_of ws @ bytes_of vs"
  by (simp_all add: bytes_of_def)

lemma length_bytes_of [simp]: "length (bytes_of ws) = 4 * length ws"
  by (induction ws) auto

lemma words_of_append_le32: "words_of (le32 w @ bs) = w # words_of bs"
  using of_le32_le32[of w] by (simp add: le32_def)

lemma words_of_bytes_of [simp]: "words_of (bytes_of ws) = ws"
  by (induction ws) (auto simp: words_of_append_le32)

lemma length_words_of [simp]: "length (words_of bs) = length bs div 4"
  by (induction bs rule: words_of.induct) auto

lemma bytes_of_words_of: "4 dvd length bs \<Longrightarrow> bytes_of (words_of bs) = bs"
proof (induction bs rule: words_of.induct)
  case (1 b0 b1 b2 b3 bs)
  then have "bytes_of (words_of bs) = bs" by (simp add: dvd_eq_mod_eq_0)
  then show ?case using le32_of_le32[of "[b0, b1, b2, b3]"] by simp
qed (auto simp: dvd_eq_mod_eq_0)

lemma words_of_take: "words_of (take (4 * n) bs) = take n (words_of bs)"
proof (induction n arbitrary: bs)
  case (Suc n)
  have n: "4 * Suc n = Suc (Suc (Suc (Suc (4 * n))))" by simp
  show ?case unfolding n by (cases bs rule: words_of.cases) (simp_all add: Suc)
qed simp

end
