(* ===== verification/Createimage.thy ===== *)
theory Createimage
  imports Bytes
begin

text \<open>
  \<^verbatim>\<open>tools/createimage.c\<close>, the program that puts the boot block and the kernel, two ELF files,
  into the disk image, and \<^verbatim>\<open>arch/mips/boot/bootblock.S\<close>, the program in the first sector
  that loads the kernel from the disk. The files are lists of bytes with a position; the
  structures of \<^verbatim>\<open>elf.h\<close> are read from the bytes.
\<close>

section \<open>Failures\<close>

text \<open>The ways in which the tool ends early: \<open>exit(EXIT_FAILURE)\<close>, a failed \<open>assert\<close>, and a read
  outside an array, which C leaves undefined.\<close>

datatype failure = Exit_failure | Assertion | Out_of_bounds

definition bindE :: "failure + 'a \<Rightarrow> ('a \<Rightarrow> failure + 'b) \<Rightarrow> failure + 'b" where
  "bindE m f = (case m of Inl e \<Rightarrow> Inl e | Inr x \<Rightarrow> f x)"

definition assertE :: "bool \<Rightarrow> failure + unit" where
  "assertE b = (if b then Inr () else Inl Assertion)"

definition index :: "'a list \<Rightarrow> nat \<Rightarrow> failure + 'a" where
  "index xs i = (if i < length xs then Inr (xs ! i) else Inl Out_of_bounds)"

lemma bindE_simps [simp]: "bindE (Inl e) f = Inl e" "bindE (Inr x) f = f x"
  by (simp_all add: bindE_def)

lemma assertE_simps [simp]: "assertE True = Inr ()" "assertE False = Inl Assertion"
  by (simp_all add: assertE_def)

section \<open>Files\<close>

record FILE =
  contents :: "u8 list"
  fpos :: nat

definition fseek :: "nat \<Rightarrow> FILE \<Rightarrow> FILE" where
  "fseek off f = f\<lparr>fpos := off\<rparr>"

definition fread :: "nat \<Rightarrow> FILE \<Rightarrow> u8 list \<times> FILE" where
  "fread n f = (let bs = get_bytes (contents f) (fpos f) n in (bs, f\<lparr>fpos := fpos f + length bs\<rparr>))"

text \<open>A write behind the end of the file fills the gap with zeros.\<close>

definition fwrite :: "u8 list \<Rightarrow> FILE \<Rightarrow> FILE" where
  "fwrite bs f =
    (if bs = [] then f
     else f\<lparr>contents := put_bytes (contents f @ replicate (fpos f - length (contents f)) 0) (fpos f) bs,
            fpos := fpos f + length bs\<rparr>)"

definition fputc :: "u8 \<Rightarrow> FILE \<Rightarrow> FILE" where
  "fputc c f = fwrite [c] f"

section \<open>ELF\<close>

definition get16 :: "u8 list \<Rightarrow> nat \<Rightarrow> 16 word" where
  "get16 buf off = ucast (buf ! off) OR push_bit 8 (ucast (buf ! (off + 1)))"

record Elf32_Ehdr =
  e_phoff :: u32
  e_phentsize :: "16 word"
  e_phnum :: "16 word"

record Elf32_Phdr =
  p_offset :: u32
  p_vaddr :: u32
  p_filesz :: u32
  p_memsz :: u32

definition sizeof_Ehdr :: nat where "sizeof_Ehdr = 52"
definition sizeof_Phdr :: nat where "sizeof_Phdr = 32"
definition IMAGE_SECTOR_SIZE :: nat where "IMAGE_SECTOR_SIZE = 512"
definition BOOTLOADER_SIG_OFFSET :: nat where "BOOTLOADER_SIG_OFFSET = 0x1fe"
definition KERNEL_SECTOR_OFFSET :: nat where "KERNEL_SECTOR_OFFSET = 0x1e0"

definition ehdr_of :: "u8 list \<Rightarrow> Elf32_Ehdr" where
  "ehdr_of bs = \<lparr>e_phoff = get32 bs 28, e_phentsize = get16 bs 42, e_phnum = get16 bs 44\<rparr>"

definition phdr_of :: "u8 list \<Rightarrow> Elf32_Phdr" where
  "phdr_of bs = \<lparr>p_offset = get32 bs 4, p_vaddr = get32 bs 8, p_filesz = get32 bs 16, p_memsz = get32 bs 20\<rparr>"

section \<open>The tool\<close>

text \<open>\<open>num_phdr\<close> and \<open>numread\<close> are \<open>uint8_t\<close>: the number of program headers is cut to eight bits.\<close>

definition read_exec_file :: "u8 list option \<Rightarrow> failure + FILE \<times> Elf32_Ehdr \<times> Elf32_Phdr list" where
  "read_exec_file opened =
    (case opened of
       None \<Rightarrow> Inl Exit_failure
     | Some bytes \<Rightarrow>
       let execfile = \<lparr>contents = bytes, fpos = 0\<rparr>;
           (buf, execfile) = fread sizeof_Ehdr execfile
       in bindE (assertE (length buf = sizeof_Ehdr)) (\<lambda>_.
          let ehdr = ehdr_of buf;
              num_phdr = unat (ucast (e_phnum ehdr) :: u8)
          in bindE (assertE (unat (e_phentsize ehdr) = sizeof_Phdr)) (\<lambda>_.
             let execfile = fseek (unat (e_phoff ehdr)) execfile;
                 (buf, execfile) = fread (sizeof_Phdr * num_phdr) execfile
             in bindE (assertE (length buf div sizeof_Phdr = num_phdr)) (\<lambda>_.
                Inr (execfile, ehdr, map (\<lambda>i. phdr_of (get_bytes buf (i * sizeof_Phdr) sizeof_Phdr)) [0..<num_phdr])))))"

text \<open>\<open>while(numremaining > 0)\<close>: the file part of a segment, sector by sector.\<close>

function sector_loop :: "nat \<Rightarrow> u32 \<Rightarrow> FILE \<Rightarrow> FILE \<Rightarrow> failure + u32 \<times> FILE \<times> FILE" where
  "sector_loop numremaining totalread readfile imagefile =
    (if numremaining = 0 then Inr (totalread, readfile, imagefile)
     else
       let num2read = (if numremaining < IMAGE_SECTOR_SIZE then numremaining else IMAGE_SECTOR_SIZE);
           (buffer, readfile) = fread num2read readfile
       in if length buffer \<noteq> num2read then Inl Assertion
          else sector_loop (numremaining - num2read) (totalread + word_of_nat num2read) readfile (fwrite buffer imagefile))"
  by pat_completeness auto
termination
  by (relation "measure (\<lambda>(n, _). n)") (auto simp: IMAGE_SECTOR_SIZE_def)

text \<open>\<open>while(required_padding > 0)\<close>.\<close>

fun padding_loop :: "nat \<Rightarrow> FILE \<Rightarrow> FILE" where
  "padding_loop 0 imagefile = imagefile"
| "padding_loop (Suc n) imagefile = padding_loop n (fputc 0 imagefile)"

definition write_segment :: "Elf32_Phdr \<Rightarrow> u32 \<times> FILE \<times> FILE \<Rightarrow> failure + u32 \<times> FILE \<times> FILE" where
  "write_segment ph st =
    (let (totalread, readfile, imagefile) = st;
         required_padding = p_memsz ph - p_filesz ph
     in bindE (sector_loop (unat (p_filesz ph)) totalread (fseek (unat (p_offset ph)) readfile) imagefile)
          (\<lambda>(totalread, readfile, imagefile).
             Inr (totalread + required_padding, readfile, padding_loop (unat required_padding) imagefile)))"

fun segments_loop :: "Elf32_Phdr list \<Rightarrow> nat list \<Rightarrow> u32 \<times> FILE \<times> FILE \<Rightarrow> failure + u32 \<times> FILE \<times> FILE" where
  "segments_loop prog_hdr [] st = Inr st"
| "segments_loop prog_hdr (pidx # is) st =
    bindE (index prog_hdr pidx) (\<lambda>ph. bindE (write_segment ph st) (segments_loop prog_hdr is))"

definition write_to_image :: "FILE \<Rightarrow> FILE \<Rightarrow> Elf32_Ehdr \<Rightarrow> Elf32_Phdr list \<Rightarrow> failure + FILE" where
  "write_to_image imagefile readfile elf_hdr prog_hdr =
    bindE (segments_loop prog_hdr [0..<unat (e_phnum elf_hdr)] (0, readfile, imagefile))
      (\<lambda>(totalread, readfile, imagefile).
         let required_padding = (word_of_nat IMAGE_SECTOR_SIZE - totalread) mod word_of_nat IMAGE_SECTOR_SIZE
         in Inr (padding_loop (unat required_padding) imagefile))"

definition write_bootblock :: "FILE \<Rightarrow> FILE \<Rightarrow> Elf32_Ehdr \<Rightarrow> Elf32_Phdr list \<Rightarrow> failure + FILE" where
  "write_bootblock imagefile bootfile boot_header boot_phdr =
    bindE (write_to_image (fseek 0 imagefile) bootfile boot_header boot_phdr)
      (\<lambda>imagefile. Inr (fputc 0xAA (fputc 0x55 (fseek BOOTLOADER_SIG_OFFSET imagefile))))"

definition write_kernel :: "FILE \<Rightarrow> FILE \<Rightarrow> Elf32_Ehdr \<Rightarrow> Elf32_Phdr list \<Rightarrow> failure + FILE" where
  "write_kernel imagefile kernelfile kernel_header kernel_phdr =
    write_to_image (fseek IMAGE_SECTOR_SIZE imagefile) kernelfile kernel_header kernel_phdr"

text \<open>C's division of \<open>int\<close>s truncates towards zero.\<close>

definition c_div :: "int \<Rightarrow> int \<Rightarrow> int" where
  "c_div a b = sgn a * sgn b * (\<bar>a\<bar> div \<bar>b\<bar>)"

fun kernel_size_loop :: "Elf32_Phdr list \<Rightarrow> nat list \<Rightarrow> u32 \<Rightarrow> failure + u32" where
  "kernel_size_loop kernel_phdr [] kernel_size = Inr kernel_size"
| "kernel_size_loop kernel_phdr (pidx # is) kernel_size =
    bindE (index kernel_phdr pidx) (\<lambda>ph. kernel_size_loop kernel_phdr is (kernel_size + p_memsz ph))"

definition count_kernel_sectors :: "Elf32_Ehdr \<Rightarrow> Elf32_Phdr list \<Rightarrow> failure + u32" where
  "count_kernel_sectors kernel_header kernel_phdr =
    bindE (kernel_size_loop kernel_phdr [0..<unat (e_phnum kernel_header)] 0)
      (\<lambda>kernel_size. Inr (word_of_int (c_div (sint kernel_size) (int IMAGE_SECTOR_SIZE)) +
         (if kernel_size mod word_of_nat IMAGE_SECTOR_SIZE = 0 then 0 else 1)))"

definition record_kernel_sectors :: "FILE \<Rightarrow> u32 \<Rightarrow> FILE" where
  "record_kernel_sectors imagefile num_sec = fwrite (le32 num_sec) (fseek KERNEL_SECTOR_OFFSET imagefile)"

text \<open>What \<open>extended_opt\<close> prints: the format of every call of \<open>printf\<close> and its numbers. The file
  names \<open>boot_fname\<close> and \<open>kernel_fname\<close> are constants and are put into the format.\<close>

type_synonym printed = "string \<times> u32 list"

definition sectors_up :: "u32 \<Rightarrow> u32" where
  "sectors_up n = ((n - 1) div word_of_nat IMAGE_SECTOR_SIZE + 1) * word_of_nat IMAGE_SECTOR_SIZE"

definition print_segment :: "nat \<Rightarrow> Elf32_Phdr \<Rightarrow> printed list" where
  "print_segment pidx ph =
    [(''segment %d'', [word_of_nat pidx]),
     ('' offset 0x%4x vaddr 0x%4x'', [p_offset ph, p_vaddr ph]),
     ('' filesz 0x%4x memsz 0x%4x'', [p_filesz ph, p_memsz ph]),
     ('' writing 0x%4x bytes'', [p_filesz ph])]"

fun extended_loop :: "nat \<Rightarrow> Elf32_Phdr list \<Rightarrow> nat list \<Rightarrow> u32 \<Rightarrow> printed list \<Rightarrow> failure + printed list" where
  "extended_loop k_phnum kph [] sim_address printed = Inr printed"
| "extended_loop k_phnum kph (pidx # is) sim_address printed =
    bindE (index kph pidx) (\<lambda>ph.
      let sim_address = sim_address + p_memsz ph;
          sim_address = (if pidx = k_phnum - 1 then sectors_up sim_address else sim_address)
      in extended_loop k_phnum kph is sim_address
           (printed @ print_segment pidx ph @ [('' padding up to 0x%4x'', [sim_address])]))"

definition extended_opt :: "Elf32_Phdr list \<Rightarrow> nat \<Rightarrow> Elf32_Phdr list \<Rightarrow> u32 \<Rightarrow> failure + printed list" where
  "extended_opt bph k_phnum kph num_sec =
    bindE (index bph 0) (\<lambda>b. bindE (index kph 0) (\<lambda>k.
      let sim_address = sectors_up (p_memsz b);
          printed = [(''image_size: %d sectors'', [num_sec]), (''0x%4x: ./bootblock'', [p_vaddr b])] @
            print_segment 0 b @ [('' padding up to 0x%4x'', [sim_address]), (''0x%4x: ./kernel'', [p_vaddr k])]
      in bindE (extended_loop k_phnum kph [0..<k_phnum] sim_address printed)
           (\<lambda>printed. Inr (printed @ [(''os_size: %d sectors'', [num_sec - 1])]))))"

text \<open>\<open>main\<close>: \<open>files\<close> are the files that can be opened for reading, \<open>writable\<close> says whether the
  image can be created. The result is the image and what \<open>--extended\<close> prints; the progress
  messages are left out.\<close>

definition createimage :: "(string \<Rightarrow> u8 list option) \<Rightarrow> bool \<Rightarrow> string list \<Rightarrow> failure + u8 list \<times> printed list" where
  "createimage files writable argv =
    (let argc = length argv in
     if argc \<noteq> 3 \<and> argc \<noteq> 4 then Inl Exit_failure
     else if \<not> writable then Inl Exit_failure
     else
       let imagefile = \<lparr>contents = [], fpos = 0\<rparr> in
       bindE (read_exec_file (files (argv ! (argc - 2)))) (\<lambda>(bootfile, boot_header, boot_phdr).
       bindE (write_bootblock imagefile bootfile boot_header boot_phdr) (\<lambda>imagefile.
       bindE (read_exec_file (files (argv ! (argc - 1)))) (\<lambda>(kernelfile, kernel_header, kernel_phdr).
       bindE (write_kernel imagefile kernelfile kernel_header kernel_phdr) (\<lambda>imagefile.
       bindE (count_kernel_sectors kernel_header kernel_phdr) (\<lambda>num_sectors.
       bindE (index kernel_phdr 0) (\<lambda>_.
       let imagefile = record_kernel_sectors imagefile num_sectors in
       bindE (if argv ! 1 = ''--extended''
              then extended_opt boot_phdr (unat (e_phnum kernel_header)) kernel_phdr (num_sectors + 1)
              else Inr [])
         (\<lambda>printed. Inr (contents imagefile, printed)))))))))"

section \<open>The boot block\<close>

text \<open>\<^verbatim>\<open>bootblock.S\<close>: the firmware has put the first sector at \<open>0xa0800000\<close>. The number of
  sectors is read from it, the sectors behind it are read with the firmware's \<open>read_sd_card\<close>
  (address, offset on the card, number of bytes), and the kernel is entered.\<close>

type_synonym bytemem = "u32 \<Rightarrow> u8"

definition load_word :: "bytemem \<Rightarrow> u32 \<Rightarrow> u32" where
  "load_word m a = of_le32 [m a, m (a + 1), m (a + 2), m (a + 3)]"

definition bootblock_main :: "(u32 \<Rightarrow> u32 \<Rightarrow> u32 \<Rightarrow> bytemem \<Rightarrow> bytemem) \<Rightarrow> bytemem \<Rightarrow> u32 \<times> bytemem" where
  "bootblock_main read_sd_card m =
    (let a2 = load_word m 0xa08001e0;
         a2 = a2 * 0x200
     in (0xa0800200, read_sd_card 0xa0800200 0x200 a2 m))"

section \<open>Writing a file\<close>

text \<open>A file whose position is not behind its end.\<close>

definition in_file :: "FILE \<Rightarrow> bool" where
  "in_file f \<longleftrightarrow> fpos f \<le> length (contents f)"

lemma fwrite_in_file:
  assumes "in_file f"
  shows "fwrite bs f = f\<lparr>contents := put_bytes (contents f) (fpos f) bs, fpos := fpos f + length bs\<rparr>"
  using assms by (cases bs) (auto simp: in_file_def fwrite_def put_bytes_def)

lemma in_file_fwrite [simp]: "in_file f \<Longrightarrow> in_file (fwrite bs f)"
  by (simp add: fwrite_in_file in_file_def put_bytes_def)

lemma fwrite_nil [simp]: "fwrite [] f = f"
  by (simp add: fwrite_def)

lemma fwrite_append:
  assumes "in_file f"
  shows "fwrite (a @ b) f = fwrite b (fwrite a f)"
proof -
  have "fwrite b (fwrite a f) = (fwrite a f)\<lparr>contents := put_bytes (contents (fwrite a f)) (fpos (fwrite a f)) b,
      fpos := fpos (fwrite a f) + length b\<rparr>"
    by (rule fwrite_in_file[OF in_file_fwrite[OF assms]])
  then show ?thesis using assms by (simp add: fwrite_in_file put_bytes_def in_file_def add.assoc)
      (simp add: ac_simps)
qed

lemma padding_loop_eq: "in_file f \<Longrightarrow> padding_loop n f = fwrite (replicate n 0) f"
proof (induction n arbitrary: f)
  case (Suc n)
  then have "padding_loop (Suc n) f = fwrite (replicate n 0) (fwrite [0] f)" by (simp add: fputc_def)
  also have "\<dots> = fwrite (replicate (Suc n) 0) f"
    using fwrite_append[OF Suc.prems, of "[0]" "replicate n 0"] by simp
  finally show ?case .
qed simp

lemma sector_loop_eq:
  assumes "fpos r + n \<le> length (contents r)" and "in_file im"
  shows "sector_loop n t r im =
    Inr (t + word_of_nat n, r\<lparr>fpos := fpos r + n\<rparr>, fwrite (get_bytes (contents r) (fpos r) n) im)"
  using assms
proof (induction n t r im rule: sector_loop.induct)
  case (1 n t r im)
  let ?k = "if n < IMAGE_SECTOR_SIZE then n else IMAGE_SECTOR_SIZE"
  let ?b = "get_bytes (contents r) (fpos r) ?k" and ?r = "r\<lparr>fpos := fpos r + ?k\<rparr>"
  show ?case
  proof (cases "n = 0")
    case False
    have len: "length ?b = ?k" using 1(2) by (intro length_get_bytes) auto
    have rd: "fread ?k r = (?b, ?r)" using len by (simp add: fread_def Let_def)
    have sp: "get_bytes (contents r) (fpos r) n = ?b @ get_bytes (contents r) (fpos r + ?k) (n - ?k)"
      using take_add[of ?k "n - ?k" "drop (fpos r) (contents r)"] by (simp add: get_bytes_def add.commute)
    have "sector_loop n t r im = sector_loop (n - ?k) (t + word_of_nat ?k) ?r (fwrite ?b im)"
      using False len rd by (subst sector_loop.simps) (simp add: Let_def)
    also have "\<dots> = Inr (t + word_of_nat ?k + word_of_nat (n - ?k), ?r\<lparr>fpos := fpos ?r + (n - ?k)\<rparr>,
        fwrite (get_bytes (contents ?r) (fpos ?r) (n - ?k)) (fwrite ?b im))"
      by (rule 1(1)[OF False refl rd[symmetric] refl]) (use len 1(2,3) in auto)
    also have "fwrite (get_bytes (contents ?r) (fpos ?r) (n - ?k)) (fwrite ?b im) = fwrite (get_bytes (contents r) (fpos r) n) im"
      using fwrite_append[OF 1(3)] sp by simp
    also have "t + word_of_nat ?k + word_of_nat (n - ?k) = t + word_of_nat n"
      by (simp add: add.assoc of_nat_add[symmetric] del: of_nat_add)
    finally show ?thesis by (simp add: add.assoc)
  qed (simp add: get_bytes_def)
qed

section \<open>What the program writes\<close>

text \<open>A segment in memory, and in the image: its bytes of the file and then zeros.\<close>

definition seg_bytes :: "u8 list \<Rightarrow> Elf32_Phdr \<Rightarrow> u8 list" where
  "seg_bytes bytes ph =
    get_bytes bytes (unat (p_offset ph)) (unat (p_filesz ph)) @ replicate (unat (p_memsz ph) - unat (p_filesz ph)) 0"

definition seg_ok :: "u8 list \<Rightarrow> Elf32_Phdr \<Rightarrow> bool" where
  "seg_ok bytes ph \<longleftrightarrow>
    unat (p_offset ph) + unat (p_filesz ph) \<le> length bytes \<and> unat (p_filesz ph) \<le> unat (p_memsz ph)"

lemma length_seg_bytes: "seg_ok bytes ph \<Longrightarrow> length (seg_bytes bytes ph) = unat (p_memsz ph)"
  by (simp add: seg_bytes_def seg_ok_def)

lemma write_segment_eq:
  assumes "seg_ok (contents r) ph" and "in_file im"
  shows "\<exists>r'. write_segment ph (t, r, im) =
    Inr (t + word_of_nat (length (seg_bytes (contents r) ph)), r', fwrite (seg_bytes (contents r) ph) im) \<and> contents r' = contents r"
proof -
  let ?r = "fseek (unat (p_offset ph)) r" and ?n = "unat (p_filesz ph)"
  have sz: "?n \<le> unat (p_memsz ph)" "fpos ?r + ?n \<le> length (contents ?r)"
    using assms(1) by (simp_all add: seg_ok_def fseek_def)
  have u: "unat (p_memsz ph - p_filesz ph) = unat (p_memsz ph) - ?n"
    using sz(1) by (simp add: unat_sub word_le_nat_alt)
  have l: "word_of_nat (length (seg_bytes (contents r) ph)) = p_memsz ph" using length_seg_bytes[OF assms(1)] by simp
  show ?thesis
    using sector_loop_eq[OF sz(2) assms(2), of t] fwrite_append[OF assms(2)]
    by (simp add: write_segment_def Let_def fseek_def padding_loop_eq assms(2) u l)
       (simp add: seg_bytes_def)
qed

lemma segments_loop_eq:
  assumes "\<forall>i \<in> set is. i < length phs \<and> seg_ok (contents r) (phs ! i)" and "in_file im"
  shows "\<exists>r'. segments_loop phs is (t, r, im) =
    Inr (t + word_of_nat (length (concat (map (\<lambda>i. seg_bytes (contents r) (phs ! i)) is))), r',
         fwrite (concat (map (\<lambda>i. seg_bytes (contents r) (phs ! i)) is)) im)"
  using assms
proof (induction "is" arbitrary: t r im)
  case (Cons i "is")
  let ?b = "seg_bytes (contents r) (phs ! i)"
  obtain r1 where r1: "write_segment (phs ! i) (t, r, im) = Inr (t + word_of_nat (length ?b), r1, fwrite ?b im)" "contents r1 = contents r"
    using write_segment_eq[of r "phs ! i" im t] Cons.prems by auto
  obtain r2 where "segments_loop phs is (t + word_of_nat (length ?b), r1, fwrite ?b im) =
      Inr (t + word_of_nat (length ?b) + word_of_nat (length (concat (map (\<lambda>i. seg_bytes (contents r1) (phs ! i)) is))), r2,
        fwrite (concat (map (\<lambda>i. seg_bytes (contents r1) (phs ! i)) is)) (fwrite ?b im))"
    using Cons.IH[of r1 "fwrite ?b im" "t + word_of_nat (length ?b)"] Cons.prems r1(2) by auto
  then show ?case
    using r1 Cons.prems fwrite_append[OF Cons.prems(2)] by (simp add: index_def add.assoc)
qed simp

text \<open>Zeros up to the next sector.\<close>

definition pad_sector :: "u8 list \<Rightarrow> u8 list" where
  "pad_sector bs = bs @ replicate ((IMAGE_SECTOR_SIZE - length bs mod IMAGE_SECTOR_SIZE) mod IMAGE_SECTOR_SIZE) 0"

lemma round_up:
  fixes k m :: nat
  assumes "0 < m"
  shows "k + (m - k mod m) mod m = (k + (m - 1)) div m * m"
proof (cases "k mod m = 0")
  case True
  then obtain q where "k = q * m" by (metis mod_0_imp_dvd dvd_def mult.commute)
  moreover have "(q * m + (m - 1)) div m = q" using assms by (subst div_mult_self3) simp_all
  ultimately show ?thesis by simp
next
  case False
  have k: "k = k div m * m + k mod m" by simp
  have "0 < k" using False by (cases k) auto
  then have "(k + (m - 1)) = (k div m + 1) * m + (k mod m - 1)"
    using False assms by (subst k) (simp add: algebra_simps)
  moreover have "k mod m - 1 < m" using mod_less_divisor[OF assms, of k] by simp
  ultimately have "(k + (m - 1)) div m = k div m + 1"
    using div_mult_self3[of m "k div m + 1" "k mod m - 1"] assms by simp
  moreover have "(m - k mod m) mod m = m - k mod m" using False assms by simp
  moreover have "k + (m - k mod m) = k div m * m + m" using mod_less_divisor[OF assms, of k] k by linarith
  ultimately show ?thesis by simp
qed

lemma length_pad_sector: "length (pad_sector bs) = (length bs + 511) div 512 * 512"
  using round_up[of 512 "length bs"] by (simp add: pad_sector_def IMAGE_SECTOR_SIZE_def)

lemma sector_padding: "unat ((word_of_nat IMAGE_SECTOR_SIZE - word_of_nat n) mod word_of_nat IMAGE_SECTOR_SIZE :: u32) = (IMAGE_SECTOR_SIZE - n mod IMAGE_SECTOR_SIZE) mod IMAGE_SECTOR_SIZE"
proof -
  define m where "m = n mod 2 ^ 32"
  have m: "m < 2 ^ 32" "n mod 512 = m mod 512" by (simp_all add: m_def mod_mod_cancel)
  have "(if m \<le> 512 then 512 - m else 512 + 2 ^ 32 - m) mod 512 = (512 - m mod 512) mod 512"
  proof (cases "m < 512")
    case False
    have dm: "m = 512 * (m div 512) + m mod 512" by simp
    have q: "m div 512 < 2 ^ 23" using m(1) by (simp add: less_mult_imp_div_less)
    then have "512 + 2 ^ 32 - m = 512 * (2 ^ 23 - m div 512) + (512 - m mod 512)"
      using mod_less_divisor[of 512 m] by (subst dm) (simp add: diff_mult_distrib2)
    moreover have "(512 * c + d) mod 512 = d mod (512 :: nat)" for c d by simp
    ultimately have "(512 + 2 ^ 32 - m) mod 512 = (512 - m mod 512) mod 512" by metis
    then show ?thesis using False by (cases "m = 512") simp_all
  qed simp
  moreover have "unat (512 - word_of_nat n :: u32) = (if m \<le> 512 then 512 - m else 512 + 2 ^ 32 - m)"
    using unat_sub_if_size[of "512 :: u32" "word_of_nat n"] by (simp add: unat_of_nat take_bit_eq_mod m_def word_size)
  ultimately have "unat (512 - word_of_nat n :: u32) mod 512 = (512 - n mod 512) mod 512" by (simp only: m(2))
  then show ?thesis by (simp add: IMAGE_SECTOR_SIZE_def unat_mod_distrib)
qed

lemma write_to_image_eq:
  assumes "unat (e_phnum h) = length phs" and "\<forall>ph \<in> set phs. seg_ok (contents r) ph" and "in_file im"
  shows "write_to_image im r h phs = Inr (fwrite (pad_sector (concat (map (seg_bytes (contents r)) phs))) im)"
proof -
  have m: "map (\<lambda>i. seg_bytes (contents r) (phs ! i)) [0..<length phs] = map (seg_bytes (contents r)) phs"
    by (rule nth_equalityI) simp_all
  let ?d = "concat (map (seg_bytes (contents r)) phs)"
  obtain r' where "segments_loop phs [0..<length phs] (0, r, im) = Inr (word_of_nat (length ?d), r', fwrite ?d im)"
    using segments_loop_eq[of "[0..<length phs]" phs r im 0] assms(2,3) unfolding m by auto
  then show ?thesis
    using sector_padding[of "length ?d"]
    by (simp add: write_to_image_def assms(1) Let_def padding_loop_eq assms(3) fwrite_append[OF assms(3)] pad_sector_def)
qed

section \<open>Well-formed ELF files\<close>

definition header :: "u8 list \<Rightarrow> Elf32_Ehdr" where
  "header bytes = ehdr_of (get_bytes bytes 0 sizeof_Ehdr)"

definition program_headers :: "u8 list \<Rightarrow> Elf32_Phdr list" where
  "program_headers bytes =
    map (\<lambda>i. phdr_of (get_bytes bytes (unat (e_phoff (header bytes)) + i * sizeof_Phdr) sizeof_Phdr))
      [0..<unat (e_phnum (header bytes))]"

definition program_image :: "u8 list \<Rightarrow> u8 list" where
  "program_image bytes = concat (map (seg_bytes bytes) (program_headers bytes))"

definition elf_ok :: "u8 list \<Rightarrow> bool" where
  "elf_ok bytes \<longleftrightarrow>
     sizeof_Ehdr \<le> length bytes \<and> unat (e_phentsize (header bytes)) = sizeof_Phdr \<and>
     unat (e_phnum (header bytes)) < 256 \<and> program_headers bytes \<noteq> [] \<and>
     unat (e_phoff (header bytes)) + sizeof_Phdr * unat (e_phnum (header bytes)) \<le> length bytes \<and>
     list_all (seg_ok bytes) (program_headers bytes) \<and> length (program_image bytes) < 2 ^ 31"

lemma read_exec_file_ok:
  assumes "elf_ok bytes"
  shows "\<exists>f. read_exec_file (Some bytes) = Inr (f, header bytes, program_headers bytes) \<and> contents f = bytes"
proof -
  let ?h = "header bytes" and ?n = "unat (e_phnum (header bytes))" and ?off = "unat (e_phoff (header bytes))"
  let ?buf = "get_bytes bytes ?off (sizeof_Phdr * ?n)"
  have n: "unat (ucast (e_phnum ?h) :: u8) = ?n"
    using assms by (simp add: elf_ok_def unsigned_ucast_eq take_bit_nat_eq_self)
  have l: "length (get_bytes bytes 0 sizeof_Ehdr) = sizeof_Ehdr" "length ?buf = sizeof_Phdr * ?n"
    using assms by (simp_all add: elf_ok_def)
  have "get_bytes ?buf (i * sizeof_Phdr) sizeof_Phdr = get_bytes bytes (?off + i * sizeof_Phdr) sizeof_Phdr" if "i < ?n" for i
  proof -
    have "Suc i * sizeof_Phdr \<le> ?n * sizeof_Phdr" using that by (intro mult_le_mono1) simp
    then show ?thesis by (intro get_bytes_get_bytes) (simp add: mult.commute)
  qed
  then have "map (\<lambda>i. phdr_of (get_bytes ?buf (i * sizeof_Phdr) sizeof_Phdr)) [0..<?n] = program_headers bytes"
    unfolding program_headers_def by (intro map_cong) auto
  then show ?thesis
    using l n assms
    by (simp add: read_exec_file_def fread_def fseek_def Let_def header_def[symmetric] elf_ok_def) (simp add: sizeof_Phdr_def)
qed

lemma elf_segments:
  assumes "elf_ok bytes"
  shows "unat (e_phnum (header bytes)) = length (program_headers bytes)"
    and "\<forall>ph \<in> set (program_headers bytes). seg_ok bytes ph"
  using assms by (simp_all add: program_headers_def elf_ok_def list_all_iff)

lemma elf_write:
  assumes "elf_ok bytes" and "contents f = bytes" and "in_file im"
  shows "write_to_image im f (header bytes) (program_headers bytes) = Inr (fwrite (pad_sector (program_image bytes)) im)"
  using write_to_image_eq[OF elf_segments(1)[OF assms(1)] _ assms(3), of f] elf_segments(2)[OF assms(1)] assms(2)
  by (simp add: program_image_def)

section \<open>The number of sectors\<close>

definition kernel_sectors :: "u8 list \<Rightarrow> nat" where
  "kernel_sectors bytes = length (pad_sector (program_image bytes)) div IMAGE_SECTOR_SIZE"

lemma kernel_size_loop_eq:
  assumes "\<forall>i \<in> set is. i < length phs \<and> seg_ok bytes (phs ! i)"
  shows "kernel_size_loop phs is n = Inr (n + word_of_nat (length (concat (map (\<lambda>i. seg_bytes bytes (phs ! i)) is))))"
  using assms by (induction "is" arbitrary: n) (simp_all add: index_def length_seg_bytes add.assoc)

lemma count_kernel_sectors_eq:
  assumes "elf_ok bytes"
  shows "count_kernel_sectors (header bytes) (program_headers bytes) = Inr (word_of_nat (kernel_sectors bytes))"
proof -
  let ?phs = "program_headers bytes" and ?n = "length (program_image bytes)"
  have m: "map (\<lambda>i. seg_bytes bytes (?phs ! i)) [0..<length ?phs] = map (seg_bytes bytes) ?phs"
    by (rule nth_equalityI) simp_all
  have n: "?n < 2 ^ 31" using assms by (simp add: elf_ok_def)
  have s: "kernel_size_loop ?phs [0..<length ?phs] 0 = Inr (word_of_nat ?n)"
    using kernel_size_loop_eq[of "[0..<length ?phs]" ?phs bytes 0] elf_segments(2)[OF assms] unfolding m by (simp add: program_image_def)
  have d: "c_div (sint (word_of_nat ?n :: u32)) 512 = int (?n div 512)"
    using sint_word_small[OF n] by (simp add: c_div_def zdiv_int sgn_if)
  have r: "(word_of_nat ?n mod 512 = (0 :: u32)) \<longleftrightarrow> ?n mod 512 = 0"
    using n by (simp add: word_unat_eq_iff unat_mod_distrib unat_word_small)
  have "kernel_sectors bytes = ?n div 512 + (if ?n mod 512 = 0 then 0 else 1)"
  proof -
    have "(k + 511) div 512 = k div 512 + (if k mod 512 = 0 then 0 else (1 :: nat))" for k
    proof -
      have "k = k div 512 * 512 + k mod 512" by simp
      then obtain q b where k: "k = q * 512 + b" "b < 512" by (metis mod_less_divisor zero_less_numeral)
      have "(q * 512 + b + 511) div 512 = q + (b + 511) div 512" using div_mult_self3[of 512 q "b + 511"] by (simp add: add.assoc)
      moreover have "(b + 511) div 512 = (if b = 0 then 0 else 1)" using k(2) by (auto intro: div_nat_eqI)
      ultimately show ?thesis using k by simp
    qed
    then show ?thesis by (simp add: kernel_sectors_def length_pad_sector IMAGE_SECTOR_SIZE_def)
  qed
  then show ?thesis
    using elf_segments(1)[OF assms] by (simp add: count_kernel_sectors_def s IMAGE_SECTOR_SIZE_def d r)
qed

section \<open>The image\<close>

text \<open>The first sector: the boot block with the number of sectors of the kernel and the signature.\<close>

definition boot_sector :: "u8 list \<Rightarrow> nat \<Rightarrow> u8 list" where
  "boot_sector boot n =
    put_bytes (put_bytes (pad_sector (program_image boot)) 0x1fe [0x55, 0xAA]) 0x1e0 (le32 (word_of_nat n))"

lemma boot_length:
  assumes "0 < length (program_image boot)" and "length (program_image boot) \<le> 512"
  shows "length (pad_sector (program_image boot)) = 512"
proof -
  have "(length (program_image boot) + 511) div 512 = 1" by (rule div_nat_eqI) (use assms in \<open>simp_all add: Suc_le_eq\<close>)
  then show ?thesis by (simp add: length_pad_sector)
qed

lemma write_bootblock_eq:
  assumes "elf_ok boot" and "contents f = boot" and "0 < length (program_image boot)" and "length (program_image boot) \<le> 512"
  shows "\<exists>im. write_bootblock \<lparr>contents = [], fpos = 0\<rparr> f (header boot) (program_headers boot) = Inr im \<and>
    contents im = put_bytes (pad_sector (program_image boot)) 0x1fe [0x55, 0xAA]"
proof -
  let ?b = "pad_sector (program_image boot)" and ?e = "\<lparr>contents = [], fpos = 0\<rparr>"
  have e: "in_file ?e" "fseek 0 ?e = ?e" by (simp_all add: in_file_def fseek_def)
  have b: "length ?b = 512" by (rule boot_length[OF assms(3,4)])
  have 1: "fwrite ?b ?e = \<lparr>contents = ?b, fpos = 512\<rparr>" using b by (simp add: fwrite_in_file[OF e(1)] put_bytes_def)
  let ?i = "\<lparr>contents = ?b, fpos = 0x1fe\<rparr>"
  have i: "in_file ?i" using b by (simp add: in_file_def)
  have "fputc 0xAA (fputc 0x55 ?i) = fwrite [0x55, 0xAA] ?i" using fwrite_append[OF i, of "[0x55]" "[0xAA]"] by (simp add: fputc_def)
  also have "\<dots> = \<lparr>contents = put_bytes ?b 0x1fe [0x55, 0xAA], fpos = 512\<rparr>" by (simp add: fwrite_in_file[OF i])
  finally show ?thesis
    using elf_write[OF assms(1,2) e(1)] 1 e(2) by (simp add: write_bootblock_def fseek_def BOOTLOADER_SIG_OFFSET_def)
qed

lemma put_bytes_front: "off + length bs \<le> length a \<Longrightarrow> put_bytes (a @ b) off bs = put_bytes a off bs @ b"
  by (simp add: put_bytes_def)

lemma kernel_written:
  assumes "elf_ok kern" and "contents f = kern" and "length (contents im) = 512"
  shows "\<exists>im'. write_kernel im f (header kern) (program_headers kern) = Inr im' \<and>
    contents (record_kernel_sectors im' n) = put_bytes (contents im) 0x1e0 (le32 n) @ pad_sector (program_image kern)"
proof -
  let ?i = "fseek IMAGE_SECTOR_SIZE im" and ?k = "pad_sector (program_image kern)"
  have i: "in_file ?i" using assms(3) by (simp add: in_file_def fseek_def IMAGE_SECTOR_SIZE_def)
  have c: "contents (fwrite ?k ?i) = contents im @ ?k"
    using assms(3) by (simp add: fwrite_in_file[OF i] put_bytes_def) (simp add: fseek_def IMAGE_SECTOR_SIZE_def)
  let ?j = "fseek KERNEL_SECTOR_OFFSET (fwrite ?k ?i)"
  have "in_file ?j" using c assms(3) by (simp add: in_file_def fseek_def KERNEL_SECTOR_OFFSET_def)
  then have "contents (record_kernel_sectors (fwrite ?k ?i) n) = put_bytes (contents im @ ?k) 0x1e0 (le32 n)"
    using c by (simp add: record_kernel_sectors_def fwrite_in_file) (simp add: fseek_def KERNEL_SECTOR_OFFSET_def)
  then show ?thesis
    using elf_write[OF assms(1,2) i] assms(3) by (simp add: write_kernel_def put_bytes_front)
qed

section \<open>What \<open>--extended\<close> prints\<close>

lemma extended_loop_runs:
  assumes "\<forall>i \<in> set is. i < length phs \<and> i \<noteq> n - 1"
  shows "\<exists>out. extended_loop n phs (is @ js) a pr =
    extended_loop n phs js (a + word_of_nat (\<Sum>i\<leftarrow>is. unat (p_memsz (phs ! i)))) (pr @ out)"
  using assms
proof (induction "is" arbitrary: a pr)
  case (Cons i "is")
  let ?a = "a + p_memsz (phs ! i)"
  let ?o = "print_segment i (phs ! i) @ [('' padding up to 0x%4x'', [?a])]"
  obtain out where "extended_loop n phs (is @ js) ?a (pr @ ?o) =
      extended_loop n phs js (?a + word_of_nat (\<Sum>i\<leftarrow>is. unat (p_memsz (phs ! i)))) ((pr @ ?o) @ out)"
    using Cons.IH[of ?a "pr @ ?o"] Cons.prems by (auto simp del: append_assoc)
  then show ?case using Cons.prems
    by (intro exI[of _ "?o @ out"]) (simp add: index_def Let_def add.assoc)
qed (auto intro: exI[of _ "[]"])

lemma word_of_unat: "unat (w :: u32) = n \<Longrightarrow> word_of_nat n = w"
  by auto

lemma total_size:
  assumes "\<forall>ph \<in> set phs. seg_ok bytes ph"
  shows "(\<Sum>ph\<leftarrow>phs. unat (p_memsz ph)) = length (concat (map (seg_bytes bytes) phs))"
  using assms by (induction phs) (simp_all add: length_seg_bytes)

lemma extended_loop_last:
  assumes "phs \<noteq> []" and "\<forall>ph \<in> set phs. seg_ok bytes ph"
  shows "\<exists>out. extended_loop (length phs) phs [0..<length phs] a pr =
    Inr (pr @ out @ [('' padding up to 0x%4x'', [sectors_up (a + word_of_nat (length (concat (map (seg_bytes bytes) phs))))])])"
proof -
  obtain qs p where phs: "phs = qs @ [p]" using assms(1) by (metis rev_exhaust)
  let ?n = "length qs"
  have m: "map (\<lambda>i. unat (p_memsz (phs ! i))) [0..<?n] = map (\<lambda>ph. unat (p_memsz ph)) qs"
    by (rule nth_equalityI) (simp_all add: phs nth_append)
  obtain out where "extended_loop (length phs) phs ([0..<?n] @ [?n]) a pr =
      extended_loop (length phs) phs [?n] (a + word_of_nat (\<Sum>i\<leftarrow>[0..<?n]. unat (p_memsz (phs ! i)))) (pr @ out)"
    using extended_loop_runs[of "[0..<?n]" phs "length phs" "[?n]" a pr] by (auto simp: phs)
  moreover have "(\<Sum>ph\<leftarrow>phs. unat (p_memsz ph)) = length (concat (map (seg_bytes bytes) phs))" by (rule total_size[OF assms(2)])
  then have "word_of_nat (length (concat (map (seg_bytes bytes) phs))) = (word_of_nat ((\<Sum>ph\<leftarrow>qs. unat (p_memsz ph)) + unat (p_memsz p)) :: u32)"
    by (simp only: phs map_append sum_list_append) simp
  then have "word_of_nat (\<Sum>i\<leftarrow>[0..<?n]. unat (p_memsz (phs ! i))) + p_memsz p = (word_of_nat (length (concat (map (seg_bytes bytes) phs))) :: u32)"
    by (simp only: m of_nat_add) simp
  ultimately show ?thesis
    by (intro exI[of _ "out @ print_segment ?n p"]) (simp add: phs index_def Let_def nth_append add.assoc)
qed

lemma sectors_up_small:
  assumes "0 < n" and "n < 2 ^ 32"
  shows "sectors_up (word_of_nat n) = word_of_nat ((n + 511) div 512 * 512)"
proof -
  have "(word_of_nat n - 1 :: u32) = word_of_nat (n - 1)" using assms(1) by (simp add: of_nat_diff)
  moreover have "(word_of_nat (n - 1) :: u32) div 512 = word_of_nat ((n - 1) div 512)"
  proof -
    have "unat (word_of_nat (n - 1) :: u32) = n - 1" by (rule unat_word_small) (use assms in simp)
    moreover have "unat (word_of_nat ((n - 1) div 512) :: u32) = (n - 1) div 512"
      by (rule unat_word_small) (use assms(2) div_le_dividend[of "n - 1" 512] in linarith)
    ultimately show ?thesis by (simp only: word_unat_eq_iff unat_div unsigned_numeral) simp
  qed
  moreover have "(n + 511) div 512 = (n - 1) div 512 + 1"
    using div_add_self2[of 512 "n - 1"] assms(1) by (simp add: algebra_simps)
  ultimately show ?thesis by (simp add: sectors_up_def IMAGE_SECTOR_SIZE_def)
qed

lemma extended_opt_last:
  assumes "phs \<noteq> []" and "\<forall>ph \<in> set phs. seg_ok bytes ph" and "bph = b # bs"
  shows "\<exists>out. extended_opt bph (length phs) phs n = Inr (out @
    [('' padding up to 0x%4x'', [sectors_up (sectors_up (p_memsz b) + word_of_nat (length (concat (map (seg_bytes bytes) phs))))]),
     (''os_size: %d sectors'', [n - 1])])"
proof -
  let ?a = "sectors_up (p_memsz b)"
  let ?pr = "[(''image_size: %d sectors'', [n]), (''0x%4x: ./bootblock'', [p_vaddr b])] @
    print_segment 0 b @ [('' padding up to 0x%4x'', [?a]), (''0x%4x: ./kernel'', [p_vaddr (phs ! 0)])]"
  obtain out where "extended_loop (length phs) phs [0..<length phs] ?a ?pr =
      Inr (?pr @ out @ [('' padding up to 0x%4x'', [sectors_up (?a + word_of_nat (length (concat (map (seg_bytes bytes) phs))))])])"
    using extended_loop_last[OF assms(1,2), of ?a ?pr] by blast
  then show ?thesis
    using assms(1) by (intro exI[of _ "?pr @ out"]) (simp add: extended_opt_def assms(3) index_def Let_def)
qed

text \<open>The image: the first sector, then the kernel.\<close>

definition disk_image :: "u8 list \<Rightarrow> u8 list \<Rightarrow> u8 list" where
  "disk_image boot kern = boot_sector boot (kernel_sectors kern) @ pad_sector (program_image kern)"

definition inputs_ok :: "(string \<Rightarrow> u8 list option) \<Rightarrow> string list \<Rightarrow> u8 list \<Rightarrow> u8 list \<Rightarrow> bool" where
  "inputs_ok files argv boot kern \<longleftrightarrow>
     (length argv = 3 \<or> length argv = 4) \<and>
     files (argv ! (length argv - 2)) = Some boot \<and> files (argv ! (length argv - 1)) = Some kern \<and>
     elf_ok boot \<and> elf_ok kern \<and>
     0 < length (program_image boot) \<and> length (program_image boot) \<le> IMAGE_SECTOR_SIZE"

lemma kernel_sectors_length:
  assumes "0 < length (program_image boot)" and "length (program_image boot) \<le> IMAGE_SECTOR_SIZE"
  shows "length (disk_image boot kern) = IMAGE_SECTOR_SIZE * (1 + kernel_sectors kern)"
    and "length (pad_sector (program_image kern)) = IMAGE_SECTOR_SIZE * kernel_sectors kern"
proof -
  have "512 dvd length (pad_sector (program_image kern))" by (simp add: length_pad_sector)
  then show "length (pad_sector (program_image kern)) = IMAGE_SECTOR_SIZE * kernel_sectors kern"
    by (simp add: kernel_sectors_def IMAGE_SECTOR_SIZE_def)
  then show "length (disk_image boot kern) = IMAGE_SECTOR_SIZE * (1 + kernel_sectors kern)"
    using boot_length[of boot] assms by (simp add: disk_image_def boot_sector_def IMAGE_SECTOR_SIZE_def)
qed

lemma createimage_written:
  assumes "inputs_ok files argv boot kern"
  shows "\<exists>printed. createimage files True argv = Inr (disk_image boot kern, printed) \<and>
    (if argv ! 1 = ''--extended''
     then extended_opt (program_headers boot) (length (program_headers kern)) (program_headers kern) (word_of_nat (kernel_sectors kern) + 1) = Inr printed
     else printed = [])"
proof -
  have ok: "elf_ok boot" "elf_ok kern" "0 < length (program_image boot)" and bl: "length (program_image boot) \<le> 512"
    using assms by (simp_all add: inputs_ok_def IMAGE_SECTOR_SIZE_def)
  obtain fb where fb: "read_exec_file (Some boot) = Inr (fb, header boot, program_headers boot)" "contents fb = boot"
    using read_exec_file_ok[OF ok(1)] by blast
  obtain fk where fk: "read_exec_file (Some kern) = Inr (fk, header kern, program_headers kern)" "contents fk = kern"
    using read_exec_file_ok[OF ok(2)] by blast
  obtain i1 where i1: "write_bootblock \<lparr>contents = [], fpos = 0\<rparr> fb (header boot) (program_headers boot) = Inr i1"
    "contents i1 = put_bytes (pad_sector (program_image boot)) 0x1fe [0x55, 0xAA]"
    using write_bootblock_eq[OF ok(1) fb(2) ok(3) bl] by blast
  have l1: "length (contents i1) = 512" using i1(2) boot_length[OF ok(3) bl] by simp
  obtain i2 where i2: "write_kernel i1 fk (header kern) (program_headers kern) = Inr i2"
    "contents (record_kernel_sectors i2 (word_of_nat (kernel_sectors kern))) = disk_image boot kern"
    using kernel_written[OF ok(2) fk(2) l1] i1(2) by (auto simp: boot_sector_def disk_image_def)
  have ne: "program_headers kern \<noteq> []" "program_headers boot \<noteq> []" using ok by (simp_all add: elf_ok_def)
  let ?x = "extended_opt (program_headers boot) (length (program_headers kern)) (program_headers kern) (word_of_nat (kernel_sectors kern) + 1)"
  obtain b bs where "program_headers boot = b # bs" using ne(2) by (cases "program_headers boot") auto
  then obtain printed where "?x = Inr printed"
    using extended_opt_last[OF ne(1) elf_segments(2)[OF ok(2)]] by blast
  then show ?thesis
    using assms fb fk i1 i2 count_kernel_sectors_eq[OF ok(2)] ne(1) elf_segments(1)[OF ok(2)]
    by (simp add: createimage_def Let_def index_def inputs_ok_def)
qed

text \<open>
  C28: The image: given two well-formed ELF files, of which the boot block fits into a sector, the
  tool succeeds. The first sector is the boot block with the number of sectors of the kernel at
  \<open>0x1e0\<close> and the signature at \<open>0x1fe\<close>; behind it stand the segments of the kernel one after the
  other, with zeros for what the file leaves out, up to a full sector; and the number that was
  recorded is the number of sectors that were written.
\<close>

theorem image_layout:
  assumes "inputs_ok files argv boot kern"
  shows "\<exists>img printed. createimage files True argv = Inr (img, printed) \<and>
    length img = IMAGE_SECTOR_SIZE * (1 + kernel_sectors kern) \<and>
    get_bytes img 0 0x1e0 = get_bytes (pad_sector (program_image boot)) 0 0x1e0 \<and>
    get32 img 0x1e0 = word_of_nat (kernel_sectors kern) \<and> get_bytes img 0x1fe 2 = [0x55, 0xAA] \<and>
    drop IMAGE_SECTOR_SIZE img = pad_sector (program_image kern)"
proof -
  have pi: "0 < length (program_image boot)" "length (program_image boot) \<le> IMAGE_SECTOR_SIZE" "length (program_image boot) \<le> 512"
    using assms by (simp_all add: inputs_ok_def IMAGE_SECTOR_SIZE_def)
  have b: "length (pad_sector (program_image boot)) = 512" by (rule boot_length[OF pi(1,3)])
  let ?b = "boot_sector boot (kernel_sectors kern)"
  have sec: "length ?b = 512" "get_bytes ?b 0 0x1e0 = get_bytes (pad_sector (program_image boot)) 0 0x1e0"
    "get32 ?b 0x1e0 = word_of_nat (kernel_sectors kern)" "get_bytes ?b 0x1fe 2 = [0x55, 0xAA]"
    using b by (simp_all add: boot_sector_def get_put_other get32_def)
  have g: "get_bytes (disk_image boot kern) i n = get_bytes ?b i n" if "i + n \<le> 512" for i n
    using that sec(1) by (simp add: disk_image_def get_bytes_def)
  have "drop IMAGE_SECTOR_SIZE (disk_image boot kern) = pad_sector (program_image kern)"
    using sec(1) by (simp add: disk_image_def IMAGE_SECTOR_SIZE_def)
  moreover obtain printed where "createimage files True argv = Inr (disk_image boot kern, printed)"
    using createimage_written[OF assms] by blast
  ultimately show ?thesis
    using kernel_sectors_length(1)[OF pi(1,2)] sec(2-4) g by (auto simp: get32_def)
qed

text \<open>With \<open>--extended\<close> and a boot block of one segment the last address printed for the kernel is
  the size of the image, and the size printed last is its number of sectors without the first.\<close>

theorem extended_reports_size:
  assumes "inputs_ok files argv boot kern" and "argv ! 1 = ''--extended''"
    and "program_headers boot = [b]"
  shows "\<exists>img pre. createimage files True argv = Inr (img, pre @
    [('' padding up to 0x%4x'', [word_of_nat (length img)]), (''os_size: %d sectors'', [word_of_nat (kernel_sectors kern)])])"
proof -
  have ok: "elf_ok kern" "elf_ok boot" and pi: "0 < length (program_image boot)" "length (program_image boot) \<le> IMAGE_SECTOR_SIZE"
    using assms(1) by (simp_all add: inputs_ok_def)
  have ne: "program_headers kern \<noteq> []" and sz: "length (program_image kern) < 2 ^ 31" using ok by (simp_all add: elf_ok_def)
  have b: "unat (p_memsz b) = length (program_image boot)"
    using elf_segments(2)[OF ok(2)] assms(3) by (simp add: program_image_def length_seg_bytes)
  then have "p_memsz b = word_of_nat (length (program_image boot))" by (rule word_of_unat[symmetric])
  moreover have "(length (program_image boot) + 511) div 512 * 512 = 512"
    using boot_length[of boot] pi by (simp add: IMAGE_SECTOR_SIZE_def length_pad_sector)
  ultimately have sb: "sectors_up (p_memsz b) = 512" using sectors_up_small[OF pi(1)] pi(2) by (simp add: IMAGE_SECTOR_SIZE_def)
  let ?n = "length (program_image kern)"
  have n: "sectors_up (512 + word_of_nat ?n) = word_of_nat (length (disk_image boot kern))"
  proof -
    have "sectors_up (512 + word_of_nat ?n) = word_of_nat ((512 + ?n + 511) div 512 * 512)"
      using sectors_up_small[of "512 + ?n"] sz by simp
    also have "(512 + ?n + 511) div 512 * 512 = 512 + length (pad_sector (program_image kern))"
      using div_add_self1[of 512 "?n + 511"] by (simp add: length_pad_sector add.assoc)
    also have "\<dots> = length (disk_image boot kern)"
      using kernel_sectors_length[OF pi, of kern] by (simp add: IMAGE_SECTOR_SIZE_def)
    finally show ?thesis .
  qed
  obtain out where "extended_opt (program_headers boot) (length (program_headers kern)) (program_headers kern) (word_of_nat (kernel_sectors kern) + 1) =
    Inr (out @ [('' padding up to 0x%4x'', [word_of_nat (length (disk_image boot kern))]), (''os_size: %d sectors'', [word_of_nat (kernel_sectors kern)])])"
    using extended_opt_last[OF ne elf_segments(2)[OF ok(1)] assms(3), of "word_of_nat (kernel_sectors kern) + 1"] n sb
    by (simp add: program_image_def) blast
  then show ?thesis using createimage_written[OF assms(1)] assms(2) by auto
qed

section \<open>Booting\<close>

text \<open>The segments are linked one behind the other from an address on.\<close>

fun linked_from :: "u32 \<Rightarrow> Elf32_Phdr list \<Rightarrow> bool" where
  "linked_from a [] \<longleftrightarrow> True"
| "linked_from a (ph # phs) \<longleftrightarrow> p_vaddr ph = a \<and> linked_from (a + p_memsz ph) phs"

text \<open>What the boot block relies on: the firmware's \<open>read_sd_card\<close> copies bytes of the card to
  memory and changes nothing else.\<close>

locale firmware_card =
  fixes disk :: "u8 list" and read_sd_card :: "u32 \<Rightarrow> u32 \<Rightarrow> u32 \<Rightarrow> bytemem \<Rightarrow> bytemem"
  assumes read_sd_card: "unat off + unat n \<le> length disk \<Longrightarrow>
    read_sd_card a off n m x =
      (if unat (x - a) < unat n then disk ! (unat off + unat (x - a)) else m x)"
begin

lemma boot_copies:
  assumes "load_word m 0xa08001e0 = word_of_nat n" and "512 * (1 + n) \<le> length disk" and "512 * n < 2 ^ 32" and "i < 512 * n"
  shows "snd (bootblock_main read_sd_card m) (0xa0800200 + word_of_nat i) = disk ! (512 + i)"
proof -
  have "word_of_nat n * 0x200 = (word_of_nat (512 * n) :: u32)" by simp
  moreover have "unat (word_of_nat (512 * n) :: u32) = 512 * n" "unat (word_of_nat i :: u32) = i"
    using assms(3,4) by (simp_all only: unat_word_small)
  ultimately show ?thesis
    using assms read_sd_card[of "0x200" "word_of_nat (512 * n)" "0xa0800200" m "0xa0800200 + word_of_nat i"]
    by (simp add: bootblock_main_def Let_def mult.commute)
qed

end

text \<open>A card that is read byte by byte.\<close>

definition card_read :: "u8 list \<Rightarrow> u32 \<Rightarrow> u32 \<Rightarrow> u32 \<Rightarrow> bytemem \<Rightarrow> bytemem" where
  "card_read disk a off n m = (\<lambda>x. if unat (x - a) < unat n then disk ! (unat off + unat (x - a)) else m x)"

interpretation byte_card: firmware_card disk "card_read disk" for disk
  by unfold_locales (simp add: card_read_def)

lemma linked_segment:
  assumes "linked_from a phs" and "\<forall>ph \<in> set phs. seg_ok bytes ph" and "ph \<in> set phs" and "i < unat (p_memsz ph)"
  shows "\<exists>j. p_vaddr ph + word_of_nat i = a + word_of_nat j \<and> j < length (concat (map (seg_bytes bytes) phs)) \<and>
    concat (map (seg_bytes bytes) phs) ! j = seg_bytes bytes ph ! i"
  using assms
proof (induction phs arbitrary: a)
  case (Cons p phs)
  have lp: "length (seg_bytes bytes p) = unat (p_memsz p)" using Cons.prems by (simp add: length_seg_bytes)
  show ?case
  proof (cases "ph = p")
    case True
    then show ?thesis using Cons.prems lp by (intro exI[of _ i]) (simp add: nth_append)
  next
    case False
    then obtain j where j: "p_vaddr ph + word_of_nat i = a + p_memsz p + word_of_nat j"
      "j < length (concat (map (seg_bytes bytes) phs))" "concat (map (seg_bytes bytes) phs) ! j = seg_bytes bytes ph ! i"
      using Cons.IH[of "a + p_memsz p"] Cons.prems by auto
    then show ?thesis using lp by (intro exI[of _ "unat (p_memsz p) + j"]) (simp add: nth_append add.assoc)
  qed
qed simp

lemma boot_sector_count:
  assumes "0 < length (program_image boot)" and "length (program_image boot) \<le> 512"
  shows "length (boot_sector boot n) = 512" and "get32 (boot_sector boot n) 0x1e0 = word_of_nat n"
  using boot_length[OF assms] by (simp_all add: boot_sector_def get32_def)

lemma load_word_bytes:
  assumes "\<And>i. i < 512 \<Longrightarrow> m (0xa0800000 + word_of_nat i) = bs ! i" and "length bs = 512"
  shows "load_word m 0xa08001e0 = get32 bs 0x1e0"
proof -
  have "get_bytes bs 0x1e0 4 = [bs ! 480, bs ! 481, bs ! 482, bs ! 483]"
    using assms(2) by (intro nth_equalityI) (auto simp: nth_get_bytes less_Suc_eq numeral_eq_Suc)
  then show ?thesis using assms(1)[of 480] assms(1)[of 481] assms(1)[of 482] assms(1)[of 483]
    by (simp add: load_word_def get32_def)
qed

text \<open>
  C27: Booting from an image of \<^verbatim>\<open>createimage\<close>: if the segments of the kernel are linked one behind
  the other from the address where the boot block puts them, then every byte of every segment
  is at its address when the kernel is entered, zeros of the uninitialised data included. The
  card may be larger than the image, and the firmware has loaded the first sector.
\<close>

theorem boot_loads_kernel:
  assumes "firmware_card disk read_sd_card"
    and "inputs_ok files argv boot kern" and "createimage files True argv = Inr (img, printed)"
    and "take (length img) disk = img"
    and "\<forall>i < 512. m (0xa0800000 + word_of_nat i) = disk ! i"
    and "linked_from 0xa0800200 (program_headers kern)" and "ph \<in> set (program_headers kern)" and "i < unat (p_memsz ph)"
  shows "fst (bootblock_main read_sd_card m) = 0xa0800200 \<and>
    snd (bootblock_main read_sd_card m) (p_vaddr ph + word_of_nat i) = seg_bytes kern ph ! i"
proof -
  let ?k = "pad_sector (program_image kern)" and ?n = "kernel_sectors kern" and ?b = "boot_sector boot (kernel_sectors kern)"
  have ok: "elf_ok kern" and pi: "0 < length (program_image boot)" "length (program_image boot) \<le> IMAGE_SECTOR_SIZE" "length (program_image boot) \<le> 512"
    using assms(2) by (simp_all add: inputs_ok_def IMAGE_SECTOR_SIZE_def)
  have im: "img = ?b @ ?k" "length img = 512 * (1 + ?n)"
    using createimage_written[OF assms(2)] assms(3) kernel_sectors_length(1)[OF pi(1,2), of kern]
    by (auto simp: disk_image_def IMAGE_SECTOR_SIZE_def)
  have l: "512 * (1 + ?n) \<le> length disk" using assms(4) im(2) by (metis length_take min.cobounded1)
  note bs = boot_sector_count[OF pi(1,3), of ?n]
  have c: "disk ! j = img ! j" if "j < length img" for j using assms(4) that by (metis nth_take)
  have "load_word m 0xa08001e0 = get32 ?b 0x1e0"
    by (rule load_word_bytes[OF _ bs(1)]) (use assms(5) c im bs(1) in \<open>auto simp: nth_append\<close>)
  then have w: "load_word m 0xa08001e0 = word_of_nat ?n" by (simp only: bs(2))
  have pk: "length ?k = 512 * ?n" using im bs(1) by simp
  have small: "512 * ?n < 2 ^ 32"
  proof -
    have "length ?k \<le> length (program_image kern) + 511" using div_times_less_eq_dividend[of "length (program_image kern) + 511" 512]
      by (simp add: length_pad_sector)
    then show ?thesis using ok pk by (simp add: elf_ok_def)
  qed
  obtain j where j: "p_vaddr ph + word_of_nat i = 0xa0800200 + word_of_nat j" "j < length (program_image kern)"
    "program_image kern ! j = seg_bytes kern ph ! i"
    using linked_segment[OF assms(6) elf_segments(2)[OF ok] assms(7,8)] by (auto simp: program_image_def)
  have "length (program_image kern) \<le> length ?k" by (simp add: pad_sector_def)
  then have jn: "j < 512 * ?n" using j(2) pk by simp
  have "snd (bootblock_main read_sd_card m) (0xa0800200 + word_of_nat j) = disk ! (512 + j)"
    by (rule firmware_card.boot_copies[OF assms(1) w l small jn])
  also have "\<dots> = ?k ! j" using c[of "512 + j"] im bs(1) jn pk by (simp add: nth_append)
  also have "\<dots> = program_image kern ! j" using j(2) by (simp add: pad_sector_def nth_append)
  finally show ?thesis using j by (simp add: bootblock_main_def Let_def)
qed

section \<open>A concrete pair of files\<close>

text \<open>An ELF file of one segment: four bytes of the file and \<open>memsz\<close> bytes in memory.\<close>

definition sample_elf :: "u32 \<Rightarrow> u32 \<Rightarrow> u8 list" where
  "sample_elf vaddr memsz =
    replicate 28 0 @ le32 52 @ replicate 10 0 @ [32, 0, 1, 0] @ replicate 6 0 @
    le32 1 @ le32 84 @ le32 vaddr @ le32 vaddr @ le32 4 @ le32 memsz @ le32 7 @ le32 16 @ [1, 2, 3, 4]"

definition sample_files :: "string \<Rightarrow> u8 list option" where
  "sample_files f =
    (if f = ''bootblock'' then Some (sample_elf 0xa0800000 4)
     else if f = ''main'' then Some (sample_elf 0xa0800200 9) else None)"

abbreviation sample_argv :: "string list" where
  "sample_argv \<equiv> [''createimage'', ''--extended'', ''bootblock'', ''main'']"

lemma sample_elf_simps:
  "length (sample_elf vaddr memsz) = 88"
  by (simp add: sample_elf_def)

lemma sample_header: "header (sample_elf vaddr memsz) = \<lparr>e_phoff = 52, e_phentsize = 32, e_phnum = 1\<rparr>"
proof -
  have w: "get32 (sample_elf vaddr memsz) 28 = 52" "get16 (sample_elf vaddr memsz) 42 = 32" "get16 (sample_elf vaddr memsz) 44 = 1"
    by (simp_all add: get32_def get16_def get_bytes_def sample_elf_def nth_append)
  show ?thesis
    by (simp add: header_def ehdr_of_def sizeof_Ehdr_def get32_def get16_def get_bytes_get_bytes nth_get_bytes sample_elf_simps w[unfolded get32_def get16_def, simplified])
qed

lemma sample_headers: "program_headers (sample_elf vaddr memsz) =
   [\<lparr>p_offset = 84, p_vaddr = vaddr, p_filesz = 4, p_memsz = memsz\<rparr>]"
proof -
  have w: "get32 (sample_elf vaddr memsz) 56 = 84" "get32 (sample_elf vaddr memsz) 60 = vaddr"
    "get32 (sample_elf vaddr memsz) 68 = 4" "get32 (sample_elf vaddr memsz) 72 = memsz"
    by (simp_all add: get32_def get_bytes_def sample_elf_def)
  show ?thesis
    by (simp add: program_headers_def sample_header phdr_of_def sizeof_Phdr_def get32_def get_bytes_get_bytes sample_elf_simps w[unfolded get32_def])
qed

lemma sample_image: "program_image (sample_elf vaddr memsz) = [1, 2, 3, 4] @ replicate (unat memsz - 4) 0"
  by (simp add: program_image_def sample_headers seg_bytes_def get_bytes_def) (simp add: sample_elf_def)

lemma sample_elf_ok:
  assumes "4 \<le> unat memsz" and "unat memsz < 2 ^ 31"
  shows "elf_ok (sample_elf vaddr memsz)"
  using assms by (simp add: elf_ok_def sample_headers sample_header sample_image sample_elf_simps sizeof_Ehdr_def sizeof_Phdr_def seg_ok_def)

lemma sample_inputs: "inputs_ok sample_files sample_argv (sample_elf 0xa0800000 4) (sample_elf 0xa0800200 9)"
  by (simp add: inputs_ok_def sample_files_def sample_elf_ok sample_image IMAGE_SECTOR_SIZE_def)

theorem image_layout_witness:
  "\<exists>img printed. createimage sample_files True sample_argv = Inr (img, printed) \<and> length img = 1024 \<and>
     get32 img 0x1e0 = 1 \<and> take 9 (drop 512 img) = [1, 2, 3, 4, 0, 0, 0, 0, 0]"
proof -
  have n: "kernel_sectors (sample_elf 0xa0800200 9) = 1"
    by (simp add: kernel_sectors_def length_pad_sector sample_image IMAGE_SECTOR_SIZE_def)
  have "take 9 (pad_sector (program_image (sample_elf 0xa0800200 9))) = [1, 2, 3, 4, 0, 0, 0, 0, 0]"
  proof -
    have "replicate 5 0 = [0, 0, 0, 0, 0 :: u8]" by (simp add: numeral_eq_Suc)
    then show ?thesis by (simp add: sample_image pad_sector_def)
  qed
  then show ?thesis using image_layout[OF sample_inputs] by (auto simp: n IMAGE_SECTOR_SIZE_def)
qed

theorem extended_reports_size_witness:
  "\<exists>img pre. createimage sample_files True sample_argv = Inr (img, pre @
    [('' padding up to 0x%4x'', [word_of_nat (length img)]), (''os_size: %d sectors'', [1])])"
proof -
  have n: "kernel_sectors (sample_elf 0xa0800200 9) = 1"
    by (simp add: kernel_sectors_def length_pad_sector sample_image IMAGE_SECTOR_SIZE_def)
  show ?thesis using extended_reports_size[OF sample_inputs _ sample_headers] by (simp add: n)
qed

theorem boot_loads_kernel_witness:
  "\<exists>disk m. snd (bootblock_main (card_read disk) m) 0xa0800202 = 3 \<and> snd (bootblock_main (card_read disk) m) 0xa0800208 = 0"
proof -
  obtain img printed where c: "createimage sample_files True sample_argv = Inr (img, printed)"
    using createimage_written[OF sample_inputs] by blast
  define m where "m = (\<lambda>x. img ! unat (x - 0xa0800000 :: u32))"
  have m: "\<forall>i < 512. m (0xa0800000 + word_of_nat i) = img ! i"
    by (auto simp: m_def unat_of_nat take_bit_nat_eq_self)
  let ?ph = "\<lparr>p_offset = 84, p_vaddr = 0xa0800200, p_filesz = 4, p_memsz = 9\<rparr>"
  have b: "snd (bootblock_main (card_read img) m) (p_vaddr ?ph + word_of_nat i) = seg_bytes (sample_elf 0xa0800200 9) ?ph ! i"
    if "i < 9" for i
    using boot_loads_kernel[OF byte_card.firmware_card_axioms sample_inputs c _ m, of ?ph i] that by (simp add: sample_headers)
  have s: "seg_bytes (sample_elf 0xa0800200 9) ?ph = [1, 2, 3, 4] @ replicate 5 0"
    using sample_image[of "0xa0800200" 9] by (simp add: program_image_def sample_headers)
  show ?thesis using b[of 2] b[of 8] by (intro exI[of _ img] exI[of _ m]) (simp add: s nth_append)
qed

end
