(* ===== verification/Mailbox.thy ===== *)
theory Mailbox
  imports Cstring
begin

text \<open>
  \<^verbatim>\<open>libs/mailbox.c\<close>: the table of mailboxes, and sending and receiving through the ring buffer
  of a mailbox. The positions \<open>wp\<close> and \<open>rp\<close> are only set to 0, incremented and reduced modulo
  the size, so they are natural numbers. The two semaphores are seen as their users see them: a
  count, which \<open>semaphore_down\<close> waits for and decrements and \<open>semaphore_up\<close> increments (their
  implementation is the subject of the theory of the locks; that it implements these counts is not
  proved here). Processes are interleaved at every
  statement; between \<open>disable_interrupt\<close> and \<open>enable_interrupt\<close> they are not.
\<close>

section \<open>The table\<close>

definition MAXLEN :: nat where "MAXLEN = 16"
definition BUFFER_SIZE :: nat where "BUFFER_SIZE = 32"
definition MAX_NUM_BOX :: nat where "MAX_NUM_BOX = 32"

record mailbox =
  boxid :: nat
  ref_count :: int
  name :: "u8 list"
  volume :: nat
  wp :: nat
  rp :: nat
  buffer :: "u8 list"
  rsem :: int
  wsem :: int

record boxes =
  mboxs :: "mailbox list"
  mboxinit :: int

definition free_name :: "u8 list" where
  "free_name = literal [0x24, 0x24, 0x24]"

definition one_init :: "nat \<Rightarrow> mailbox list \<Rightarrow> mailbox list option" where
  "one_init i bs =
    (if i < length bs then do {
       nm \<leftarrow> strcpy (name (bs ! i)) free_name;
       Some (bs[i := (bs ! i)\<lparr>boxid := i, name := nm, ref_count := 0, volume := BUFFER_SIZE, rp := 0, wp := 0,
         buffer := (buffer (bs ! i))[0 := 0xff], rsem := 0, wsem := int BUFFER_SIZE\<rparr>])
     } else None)"

definition mbox_init :: "mailbox list \<Rightarrow> mailbox list option" where
  "mbox_init bs = for_each one_init [0..<MAX_NUM_BOX] bs"

text \<open>The first box that passes a test, which may compare strings: the loops of \<open>mbox_create\<close> and
  \<open>mbox_open\<close>.\<close>

fun first_box :: "(mailbox \<Rightarrow> bool option) \<Rightarrow> mailbox list \<Rightarrow> nat \<Rightarrow> nat option option" where
  "first_box P [] i = Some None"
| "first_box P (b # bs) i = do { r \<leftarrow> P b; if r then Some (Some i) else first_box P bs (Suc i) }"

definition is_free :: "mailbox \<Rightarrow> bool option" where
  "is_free b = (if ref_count b = 0 then do { r \<leftarrow> strcmp (name b) free_name; Some (r = 0) } else Some False)"

definition mbox_create :: "u8 list \<Rightarrow> mailbox list \<Rightarrow> (nat option \<times> mailbox list) option" where
  "mbox_create nm bs = do {
     f \<leftarrow> first_box is_free bs 0;
     (case f of
        Some i \<Rightarrow> do {
          bs \<leftarrow> one_init i bs;
          n \<leftarrow> strcpy (name (bs ! i)) nm;
          Some (Some i, bs[i := (bs ! i)\<lparr>name := n, ref_count := ref_count (bs ! i) + 1\<rparr>])
        }
      | None \<Rightarrow> Some (None, bs))
   }"

definition mbox_destroy :: "nat \<Rightarrow> mailbox list \<Rightarrow> mailbox list option" where
  "mbox_destroy i bs = one_init i bs"

text \<open>\<open>for (i = 0; i < 15 && name[i]; i++) tmp[i] = name[i];\<close>\<close>

fun copy_prefix :: "nat \<Rightarrow> u8 list \<Rightarrow> u8 list option" where
  "copy_prefix 0 nm = Some []"
| "copy_prefix (Suc n) [] = None"
| "copy_prefix (Suc n) (c # nm) = (if c = 0 then Some [] else do { t \<leftarrow> copy_prefix n nm; Some (c # t) })"

definition mbox_open :: "u8 list \<Rightarrow> boxes \<Rightarrow> (nat option \<times> boxes) option" where
  "mbox_open nm s = do {
     s \<leftarrow> (if mboxinit s = 0 then do { bs \<leftarrow> mbox_init (mboxs s); Some (s\<lparr>mboxs := bs, mboxinit := mboxinit s + 1\<rparr>) } else Some s);
     t \<leftarrow> copy_prefix 15 nm;
     let tmp = t @ [0];
     f \<leftarrow> first_box (\<lambda>b. do { r \<leftarrow> strcmp tmp (name b); Some (r = 0) }) (mboxs s) 0;
     (case f of
        Some i \<Rightarrow> Some (Some i, s\<lparr>mboxs := (mboxs s)[i := (mboxs s ! i)\<lparr>ref_count := ref_count (mboxs s ! i) + 1\<rparr>]\<rparr>)
      | None \<Rightarrow> do { (r, bs) \<leftarrow> mbox_create tmp (mboxs s); Some (r, s\<lparr>mboxs := bs\<rparr>) })
   }"

text \<open>\<open>mbox_close\<close> of the box at position \<open>k\<close> of the table.\<close>

definition mbox_close :: "nat \<Rightarrow> boxes \<Rightarrow> boxes option" where
  "mbox_close k s =
    (if k < length (mboxs s) then
       let b = (mboxs s ! k)\<lparr>ref_count := ref_count (mboxs s ! k) - 1\<rparr>; bs = (mboxs s)[k := b]
       in if ref_count b = 0 then do { bs \<leftarrow> mbox_destroy (boxid b) bs; Some (s\<lparr>mboxs := bs\<rparr>) } else Some (s\<lparr>mboxs := bs\<rparr>)
     else None)"

section \<open>Sending and receiving\<close>

text \<open>The statements of the two loops.\<close>

datatype mop = Wrap_w | Down_w | Put u8 | Up_r | Wrap_r | Down_r | Get | Up_w

definition mbox_send :: "u8 list \<Rightarrow> mop list" where
  "mbox_send msg = concat (map (\<lambda>c. [Wrap_w, Down_w, Put c, Up_r]) msg)"

definition mbox_recv :: "nat \<Rightarrow> mop list" where
  "mbox_recv msg_length = concat (replicate msg_length [Wrap_r, Down_r, Get, Up_w])"

text \<open>The effect of a statement: the box and the bytes received, a wait, or an access outside the
  buffer.\<close>

datatype outcome = Ran mailbox "u8 list" | Waits | Out_of_buffer

fun exec_mop :: "mop \<Rightarrow> mailbox \<Rightarrow> outcome" where
  "exec_mop Wrap_w b = Ran (b\<lparr>wp := wp b mod BUFFER_SIZE\<rparr>) []"
| "exec_mop Down_w b = (if wsem b > 0 then Ran (b\<lparr>wsem := wsem b - 1\<rparr>) [] else Waits)"
| "exec_mop (Put c) b =
    (if wp b < length (buffer b) then Ran (b\<lparr>buffer := (buffer b)[wp b := c], wp := wp b + 1\<rparr>) [] else Out_of_buffer)"
| "exec_mop Up_r b = Ran (b\<lparr>rsem := rsem b + 1\<rparr>) []"
| "exec_mop Wrap_r b = Ran (b\<lparr>rp := rp b mod BUFFER_SIZE\<rparr>) []"
| "exec_mop Down_r b = (if rsem b > 0 then Ran (b\<lparr>rsem := rsem b - 1\<rparr>) [] else Waits)"
| "exec_mop Get b = (if rp b < length (buffer b) then Ran (b\<lparr>rp := rp b + 1\<rparr>) [buffer b ! rp b] else Out_of_buffer)"
| "exec_mop Up_w b = Ran (b\<lparr>wsem := wsem b + 1\<rparr>) []"

text \<open>The system: the box, and for each process the statements that are left and the bytes it has
  received.\<close>

record msys =
  box :: mailbox
  mtodo :: "nat \<Rightarrow> mop list"
  got :: "nat \<Rightarrow> u8 list"

inductive mstep :: "msys \<Rightarrow> msys \<Rightarrow> bool" where
  run: "mtodo S p = op # rest \<Longrightarrow> exec_mop op (box S) = Ran b out \<Longrightarrow>
    mstep S (S\<lparr>box := b, mtodo := (mtodo S)(p := rest), got := (got S)(p := got S p @ out)\<rparr>)"

inductive_cases mstepE: "mstep S S'"

text \<open>Some process is about to leave the buffer.\<close>

definition overruns :: "msys \<Rightarrow> bool" where
  "overruns S \<longleftrightarrow> (\<exists>p op rest. mtodo S p = op # rest \<and> exec_mop op (box S) = Out_of_buffer)"

text \<open>A run in a given order of processes, for examples.\<close>

fun mrun :: "nat list \<Rightarrow> msys \<Rightarrow> msys option" where
  "mrun [] S = Some S"
| "mrun (p # ps) S =
    (case mtodo S p of
       [] \<Rightarrow> None
     | op # rest \<Rightarrow>
         (case exec_mop op (box S) of
            Ran b out \<Rightarrow> mrun ps (S\<lparr>box := b, mtodo := (mtodo S)(p := rest), got := (got S)(p := got S p @ out)\<rparr>)
          | Waits \<Rightarrow> None
          | Out_of_buffer \<Rightarrow> None))"

section \<open>One sender and one receiver\<close>

text \<open>A box as \<open>one_init\<close> leaves it, process 0 with a message to send, process 1 to receive \<open>n\<close>
  bytes.\<close>

definition fresh_box :: "mailbox \<Rightarrow> bool" where
  "fresh_box b \<longleftrightarrow> wp b = 0 \<and> rp b = 0 \<and> rsem b = 0 \<and> wsem b = 32 \<and> length (buffer b) = 32"

definition exchange :: "mailbox \<Rightarrow> u8 list \<Rightarrow> nat \<Rightarrow> msys" where
  "exchange b msg n = \<lparr>box = b, mtodo = (\<lambda>_. [])(0 := mbox_send msg, 1 := mbox_recv n), got = (\<lambda>_. [])\<rparr>"

text \<open>A position that was incremented to \<open>k\<close> since the box was made and not reduced since.\<close>

definition unwrapped :: "nat \<Rightarrow> nat" where
  "unwrapped k = (if k = 0 then 0 else (k - 1) mod 32 + 1)"

lemma unwrapped_simps [simp]: "unwrapped 0 = 0" "unwrapped (Suc k) = Suc (k mod 32)" "unwrapped k mod 32 = k mod 32"
  by (cases k; simp add: unwrapped_def mod_Suc_eq)+

text \<open>The sender is in round \<open>i\<close> and has done \<open>a\<close> of its four statements; likewise the receiver in
  round \<open>j\<close> with \<open>c\<close> statements done.\<close>

definition sends_at :: "u8 list \<Rightarrow> nat \<Rightarrow> nat \<Rightarrow> mop list \<Rightarrow> bool" where
  "sends_at msg i a t \<longleftrightarrow> t = drop a (mbox_send (drop i msg)) \<and> a < 4 \<and> (i < length msg \<or> i = length msg \<and> a = 0)"

definition receives_at :: "nat \<Rightarrow> nat \<Rightarrow> nat \<Rightarrow> mop list \<Rightarrow> bool" where
  "receives_at n j c t \<longleftrightarrow> t = drop c (mbox_recv (n - j)) \<and> c < 4 \<and> (j < n \<or> j = n \<and> c = 0)"

lemma sends_at_Cons:
  assumes "sends_at msg i a (op # rest)"
  shows "i < length msg \<and> op = [Wrap_w, Down_w, Put (msg ! i), Up_r] ! a \<and>
    (if a = 3 then sends_at msg (Suc i) 0 rest else sends_at msg i (Suc a) rest)"
proof -
  have i: "i < length msg" and a: "a < 4" using assms by (auto simp: sends_at_def mbox_send_def)
  have d: "mbox_send (drop i msg) = [Wrap_w, Down_w, Put (msg ! i), Up_r] @ mbox_send (drop (Suc i) msg)"
    using Cons_nth_drop_Suc[OF i] by (simp add: mbox_send_def flip: Cons_nth_drop_Suc[OF i])
  have "op # rest = drop a ([Wrap_w, Down_w, Put (msg ! i), Up_r] @ mbox_send (drop (Suc i) msg))"
    using assms unfolding sends_at_def d by simp
  moreover have "a = 0 \<or> a = 1 \<or> a = 2 \<or> a = 3" using a by linarith
  ultimately show ?thesis using i by (auto simp: sends_at_def d)
qed

lemma receives_at_Cons:
  assumes "receives_at n j c (op # rest)"
  shows "j < n \<and> op = [Wrap_r, Down_r, Get, Up_w] ! c \<and>
    (if c = 3 then receives_at n (Suc j) 0 rest else receives_at n j (Suc c) rest)"
proof -
  have j: "j < n" and c: "c < 4" using assms by (auto simp: receives_at_def mbox_recv_def)
  then obtain k where k: "n - j = Suc k" "n - Suc j = k" by (metis Suc_diff_Suc)
  have "op # rest = drop c ([Wrap_r, Down_r, Get, Up_w] @ mbox_recv k)"
    using assms k by (simp add: receives_at_def mbox_recv_def)
  moreover have "c = 0 \<or> c = 1 \<or> c = 2 \<or> c = 3" using c by linarith
  ultimately show ?thesis using j k by (auto simp: receives_at_def mbox_recv_def)
qed

text \<open>How many bytes were stored and fetched.\<close>

abbreviation puts_done :: "nat \<Rightarrow> nat \<Rightarrow> nat" where
  "puts_done i a \<equiv> i + of_bool (3 \<le> a)"

definition exchanging :: "u8 list \<Rightarrow> nat \<Rightarrow> nat \<Rightarrow> nat \<Rightarrow> nat \<Rightarrow> nat \<Rightarrow> msys \<Rightarrow> bool" where
  "exchanging msg n i a j c S \<longleftrightarrow>
     sends_at msg i a (mtodo S 0) \<and> receives_at n j c (mtodo S 1) \<and> (\<forall>p. p \<noteq> 0 \<longrightarrow> p \<noteq> 1 \<longrightarrow> mtodo S p = []) \<and>
     length (buffer (box S)) = 32 \<and>
     wsem (box S) = 32 - int (i + of_bool (2 \<le> a)) + int j \<and> 0 \<le> wsem (box S) \<and>
     rsem (box S) = int i - int (j + of_bool (2 \<le> c)) \<and> 0 \<le> rsem (box S) \<and>
     wp (box S) = (if a = 1 \<or> a = 2 then i mod 32 else unwrapped (puts_done i a)) \<and>
     rp (box S) = (if c = 1 \<or> c = 2 then j mod 32 else unwrapped (puts_done j c)) \<and>
     got S 1 = take (puts_done j c) msg \<and>
     (\<forall>k. puts_done j c \<le> k \<longrightarrow> k < puts_done i a \<longrightarrow> buffer (box S) ! (k mod 32) = msg ! k)"

lemma exchange_start: "fresh_box b \<Longrightarrow> exchanging msg n 0 0 0 0 (exchange b msg n)"
  by (simp add: exchanging_def exchange_def fresh_box_def sends_at_def receives_at_def) auto

text \<open>Two positions less than 32 apart are different places of the buffer.\<close>

lemma mod_near: "k < i \<Longrightarrow> i - k < 32 \<Longrightarrow> k mod 32 \<noteq> i mod (32 :: nat)"
  by (metis dvd_imp_le linorder_not_less mod_eq_dvd_iff_nat nat_less_le zero_less_diff)

abbreviation done_by :: "nat \<Rightarrow> mop list \<Rightarrow> mailbox \<Rightarrow> u8 list \<Rightarrow> msys \<Rightarrow> msys" where
  "done_by p rest b out S \<equiv> S\<lparr>box := b, mtodo := (mtodo S)(p := rest), got := (got S)(p := got S p @ out)\<rparr>"

lemma sender_step:
  assumes ex: "exchanging msg n i a j c S" and t: "mtodo S 0 = op # rest"
  shows "exec_mop op (box S) \<noteq> Out_of_buffer" and "exec_mop op (box S) = Waits \<Longrightarrow> a = 1 \<and> wsem (box S) = 0"
    and "exec_mop op (box S) = Ran b out \<Longrightarrow> \<exists>i a. exchanging msg n i a j c (done_by 0 rest b out S)"
proof -
  have s: "i < length msg" "op = [Wrap_w, Down_w, Put (msg ! i), Up_r] ! a"
    "if a = 3 then sends_at msg (Suc i) 0 rest else sends_at msg i (Suc a) rest"
    using sends_at_Cons[of msg i a op rest] ex t by (auto simp: exchanging_def)
  have w: "0 \<le> wsem (box S)" "a = 2 \<Longrightarrow> wp (box S) = i mod 32" "length (buffer (box S)) = 32"
    using ex by (simp_all add: exchanging_def)
  have "a < 4" using ex by (simp add: exchanging_def sends_at_def)
  then consider "a = 0" | "a = 1" | "a = 2" | "a = 3" by linarith
  then have "exec_mop op (box S) \<noteq> Out_of_buffer \<and> (exec_mop op (box S) = Waits \<longrightarrow> a = 1 \<and> wsem (box S) = 0) \<and>
    (\<forall>b out. exec_mop op (box S) = Ran b out \<longrightarrow> (\<exists>i a. exchanging msg n i a j c (done_by 0 rest b out S)))"
  proof cases
    case 1
    then have "exchanging msg n i 1 j c (done_by 0 rest ((box S)\<lparr>wp := wp (box S) mod 32\<rparr>) [] S)"
      using ex s by (simp add: exchanging_def)
    then show ?thesis using 1 s(2) by (auto simp: BUFFER_SIZE_def)
  next
    case 2
    then have "exchanging msg n i 2 j c (done_by 0 rest ((box S)\<lparr>wsem := wsem (box S) - 1\<rparr>) [] S)" if "wsem (box S) > 0"
      using ex s that by (simp add: exchanging_def numeral_2_eq_2)
    then show ?thesis using 2 s(2) w(1) by auto
  next
    case 3
    let ?b = "(box S)\<lparr>buffer := (buffer (box S))[i mod 32 := msg ! i], wp := Suc (i mod 32)\<rparr>"
    have near: "i < puts_done j c + 32" using ex 3 by (auto simp: exchanging_def)
    have "buffer ?b ! (k mod 32) = msg ! k" if "puts_done j c \<le> k" "k < Suc i" for k
    proof (cases "k = i")
      case True
      then show ?thesis using ex by (simp add: exchanging_def)
    next
      case False
      then have "k mod 32 \<noteq> i mod 32" using that near by (intro mod_near) auto
      then show ?thesis using ex that False 3 by (auto simp: exchanging_def)
    qed
    then have "exchanging msg n i 3 j c (done_by 0 rest ?b [] S)"
      using ex s 3 by (simp add: exchanging_def numeral_3_eq_3)
    then show ?thesis using 3 s(2) w(2,3) by auto
  next
    case 4
    then have "exchanging msg n (Suc i) 0 j c (done_by 0 rest ((box S)\<lparr>rsem := rsem (box S) + 1\<rparr>) [] S)"
      using ex s by (simp add: exchanging_def)
    then show ?thesis using 4 s(2) by auto
  qed
  then show "exec_mop op (box S) \<noteq> Out_of_buffer" "exec_mop op (box S) = Waits \<Longrightarrow> a = 1 \<and> wsem (box S) = 0"
    "exec_mop op (box S) = Ran b out \<Longrightarrow> \<exists>i a. exchanging msg n i a j c (done_by 0 rest b out S)" by blast+
qed

lemma receiver_step:
  assumes ex: "exchanging msg n i a j c S" and t: "mtodo S 1 = op # rest"
  shows "exec_mop op (box S) \<noteq> Out_of_buffer" and "exec_mop op (box S) = Waits \<Longrightarrow> c = 1 \<and> rsem (box S) = 0"
    and "exec_mop op (box S) = Ran b out \<Longrightarrow> \<exists>j c. exchanging msg n i a j c (done_by 1 rest b out S)"
proof -
  have s: "j < n" "op = [Wrap_r, Down_r, Get, Up_w] ! c"
    "if c = 3 then receives_at n (Suc j) 0 rest else receives_at n j (Suc c) rest"
    using receives_at_Cons[of n j c op rest] ex t by (auto simp: exchanging_def)
  have w: "0 \<le> rsem (box S)" "c = 2 \<Longrightarrow> rp (box S) = j mod 32" "length (buffer (box S)) = 32"
    using ex by (simp_all add: exchanging_def)
  have "c < 4" using ex by (simp add: exchanging_def receives_at_def)
  then consider "c = 0" | "c = 1" | "c = 2" | "c = 3" by linarith
  then have "exec_mop op (box S) \<noteq> Out_of_buffer \<and> (exec_mop op (box S) = Waits \<longrightarrow> c = 1 \<and> rsem (box S) = 0) \<and>
    (\<forall>b out. exec_mop op (box S) = Ran b out \<longrightarrow> (\<exists>j c. exchanging msg n i a j c (done_by 1 rest b out S)))"
  proof cases
    case 1
    then have "exchanging msg n i a j 1 (done_by 1 rest ((box S)\<lparr>rp := rp (box S) mod 32\<rparr>) [] S)"
      using ex s by (simp add: exchanging_def)
    then show ?thesis using 1 s(2) by (auto simp: BUFFER_SIZE_def)
  next
    case 2
    then have "exchanging msg n i a j 2 (done_by 1 rest ((box S)\<lparr>rsem := rsem (box S) - 1\<rparr>) [] S)" if "rsem (box S) > 0"
      using ex s that by (simp add: exchanging_def numeral_2_eq_2)
    then show ?thesis using 2 s(2) w(1) by auto
  next
    case 3
    let ?b = "(box S)\<lparr>rp := Suc (j mod 32)\<rparr>"
    have ji: "j < i" "i \<le> length msg" using ex 3 by (auto simp: exchanging_def sends_at_def)
    then have v: "buffer (box S) ! (j mod 32) = msg ! j" using ex 3 by (simp add: exchanging_def)
    have "got S 1 @ [msg ! j] = take (Suc j) msg"
      using ex 3 ji by (simp add: exchanging_def take_Suc_conv_app_nth)
    then have "exchanging msg n i a j 3 (done_by 1 rest ?b [msg ! j] S)"
      using ex s 3 by (simp add: exchanging_def numeral_3_eq_3)
    then show ?thesis using 3 s(2) w(2,3) v by auto
  next
    case 4
    then have "exchanging msg n i a (Suc j) 0 (done_by 1 rest ((box S)\<lparr>wsem := wsem (box S) + 1\<rparr>) [] S)"
      using ex s by (simp add: exchanging_def)
    then show ?thesis using 4 s(2) by auto
  qed
  then show "exec_mop op (box S) \<noteq> Out_of_buffer" "exec_mop op (box S) = Waits \<Longrightarrow> c = 1 \<and> rsem (box S) = 0"
    "exec_mop op (box S) = Ran b out \<Longrightarrow> \<exists>j c. exchanging msg n i a j c (done_by 1 rest b out S)" by blast+
qed

lemma exchanging_step:
  assumes "exchanging msg n i a j c S" and "mstep S S'"
  shows "\<exists>i a j c. exchanging msg n i a j c S'"
  using assms(2)
proof (rule mstepE)
  fix p op rest b out
  assume S': "S' = done_by p rest b out S" and t: "mtodo S p = op # rest" and e: "exec_mop op (box S) = Ran b out"
  have "p = 0 \<or> p = 1" using assms(1) t by (auto simp: exchanging_def)
  then show ?thesis
    using sender_step(3)[OF assms(1) _ e] receiver_step(3)[OF assms(1) _ e] t unfolding S' by blast
qed

lemma exchange_reachable:
  assumes "fresh_box b" and "mstep\<^sup>*\<^sup>* (exchange b msg n) S"
  obtains i a j c where "exchanging msg n i a j c S"
proof -
  have "\<exists>i a j c. exchanging msg n i a j c S"
    using assms(2) by (induction rule: rtranclp_induct) (use exchange_start[OF assms(1)] exchanging_step in blast)+
  then show thesis using that by blast
qed

lemma exchanging_bounds:
  assumes ex: "exchanging msg n i a j c S"
  shows "i \<le> length msg" "j \<le> n" "a < 4" "c < 4" "puts_done j c \<le> n" "puts_done j c \<le> i" "got S 1 = take (puts_done j c) msg"
proof -
  show "i \<le> length msg" "j \<le> n" "a < 4" "c < 4" "got S 1 = take (puts_done j c) msg"
    using ex unfolding exchanging_def sends_at_def receives_at_def by auto
  show "puts_done j c \<le> n" using ex unfolding exchanging_def receives_at_def by (cases "3 \<le> c") auto
  have "int (j + of_bool (2 \<le> c)) \<le> int i" using ex unfolding exchanging_def by linarith
  then show "puts_done j c \<le> i" by (cases "3 \<le> c"; cases "2 \<le> c") auto
qed

lemma exchanging_ends:
  assumes ex: "exchanging msg n i a j c S"
  shows "mtodo S 0 = [] \<longleftrightarrow> i = length msg" and "mtodo S 1 = [] \<longleftrightarrow> j = n"
proof -
  have s: "sends_at msg i a (mtodo S 0)" and r: "receives_at n j c (mtodo S 1)" using ex unfolding exchanging_def by blast+
  show "mtodo S 0 = [] \<longleftrightarrow> i = length msg"
  proof (cases "i = length msg")
    case False
    then have i: "i < length msg" using s by (auto simp: sends_at_def)
    have "length (mbox_send (drop i msg)) \<ge> 4" by (simp add: mbox_send_def flip: Cons_nth_drop_Suc[OF i])
    then show ?thesis using s False by (auto simp: sends_at_def)
  qed (use s in \<open>auto simp: sends_at_def mbox_send_def\<close>)
  show "mtodo S 1 = [] \<longleftrightarrow> j = n"
  proof (cases "j = n")
    case False
    then obtain m where "n - j = Suc m" using r by (metis Suc_diff_Suc receives_at_def)
    then show ?thesis using r False by (auto simp: receives_at_def mbox_recv_def)
  qed (use r in \<open>auto simp: receives_at_def mbox_recv_def\<close>)
qed

lemma exchanging_stuck:
  assumes ex: "exchanging msg n i a j c S" and stuck: "\<forall>S'. \<not> mstep S S'"
  shows "i = length msg \<or> i = j + 32" and "j = n \<or> i = j \<and> c = 1"
proof -
  have "a = 1 \<and> wsem (box S) = 0" if t: "mtodo S 0 = op # rest" for op rest
    using sender_step(1,2)[OF ex t] stuck mstep.run[OF t] by (cases "exec_mop op (box S)") blast+
  moreover have "a = 1 \<Longrightarrow> wsem (box S) = 32 - int i + int j" using ex unfolding exchanging_def by simp
  ultimately show "i = length msg \<or> i = j + 32" using exchanging_ends(1)[OF ex] by (cases "mtodo S 0") auto
  have "c = 1 \<and> rsem (box S) = 0" if t: "mtodo S 1 = op # rest" for op rest
    using receiver_step(1,2)[OF ex t] stuck mstep.run[OF t] by (cases "exec_mop op (box S)") blast+
  moreover have "c = 1 \<Longrightarrow> rsem (box S) = int i - int j" using ex unfolding exchanging_def by simp
  ultimately show "j = n \<or> i = j \<and> c = 1" using exchanging_ends(2)[OF ex] by (cases "mtodo S 1") auto
qed

text \<open>
  C32: One sender and one receiver on a fresh box, interleaved in any way: neither ever leaves the
  buffer, what the receiver has is always a prefix of the message, and when nothing can run any
  more the receiver has all the bytes it asked for (as far as they were sent), and the sender is
  done unless the buffer is full of bytes that nobody asked for.
\<close>

theorem mailbox_exchange:
  assumes "fresh_box b" and "mstep\<^sup>*\<^sup>* (exchange b msg n) S"
  shows "\<not> overruns S \<and> (\<exists>k. k \<le> n \<and> k \<le> length msg \<and> got S 1 = take k msg) \<and>
    ((\<forall>S'. \<not> mstep S S') \<longrightarrow>
       got S 1 = take n msg \<and> (mtodo S 0 = [] \<or> n + 32 < length msg) \<and> (mtodo S 1 = [] \<or> length msg < n))"
proof -
  obtain i a j c where ex: "exchanging msg n i a j c S" by (rule exchange_reachable[OF assms])
  note bd = exchanging_bounds[OF ex] and en = exchanging_ends[OF ex]
  have "\<not> overruns S"
  proof
    assume "overruns S"
    then obtain p op rest where p: "mtodo S p = op # rest" "exec_mop op (box S) = Out_of_buffer" by (auto simp: overruns_def)
    moreover have "p = 0 \<or> p = 1" using ex p(1) by (auto simp: exchanging_def)
    ultimately show False using sender_step(1)[OF ex] receiver_step(1)[OF ex] by blast
  qed
  moreover have "puts_done j c \<le> length msg" using bd(1,6) by simp
  moreover have "got S 1 = take n msg \<and> (mtodo S 0 = [] \<or> n + 32 < length msg) \<and> (mtodo S 1 = [] \<or> length msg < n)"
    if "\<forall>S'. \<not> mstep S S'"
  proof -
    note st = exchanging_stuck[OF ex that]
    have "got S 1 = take j msg" if "j \<noteq> n" using st(2) that bd(7) by simp
    moreover have "got S 1 = take n msg" if "j = n" using bd(5,7) that by simp
    ultimately show ?thesis using st bd(1,2,6) unfolding en by (cases "j = n"; cases "i = length msg") auto
  qed
  ultimately show ?thesis using bd(5,7) by blast
qed

text \<open>Runs in a given order are runs.\<close>

lemma mrun_steps: "mrun ps S = Some S' \<Longrightarrow> mstep\<^sup>*\<^sup>* S S'"
proof (induction ps S rule: mrun.induct)
  case (2 p ps S)
  obtain op rest where t: "mtodo S p = op # rest" using "2.prems" by (auto split: list.splits)
  then obtain b out where e: "exec_mop op (box S) = Ran b out" using "2.prems" by (auto split: outcome.splits)
  have "mstep\<^sup>*\<^sup>* (done_by p rest b out S) S'" using "2.IH"[OF t e] "2.prems" t e by simp
  then show ?case using mstep.run[OF t e] by (rule converse_rtranclp_into_rtranclp[rotated])
qed simp

section \<open>Two senders\<close>

text \<open>Process 0 sends 32 bytes, process 2 one byte, process 1 receives one.\<close>

definition some_box :: mailbox where
  "some_box = \<lparr>boxid = 0, ref_count = 1, name = literal (replicate 15 0x61), volume = 32, wp = 0, rp = 0,
     buffer = replicate 32 0, rsem = 0, wsem = 32\<rparr>"

definition two_senders :: msys where
  "two_senders = \<lparr>box = some_box,
     mtodo = (\<lambda>_. [])(0 := mbox_send (replicate 32 0x61), 2 := mbox_send [0x62], 1 := mbox_recv 1), got = (\<lambda>_. [])\<rparr>"

text \<open>The unlucky order: process 2 reduces \<open>wp\<close> to 31 and is preempted in front of the semaphore;
  process 0 stores its last byte, so \<open>wp\<close> is 32 when process 2 passes the semaphore.\<close>

definition unlucky :: "nat list" where
  "unlucky = replicate 124 0 @ [2] @ replicate 4 0 @ replicate 4 1 @ [2]"

lemma unlucky_run:
  "map_option (\<lambda>S. (mtodo S 2, wp (box S), length (buffer (box S)))) (mrun unlucky two_senders) = Some ([Put 0x62, Up_r], 32, 32)"
  by code_simp

text \<open>
  C33: With two senders the reduction of \<open>wp\<close> and its use are not one step: there is a run in which
  a sender stores behind the end of the buffer, where the semaphore \<open>rsem\<close> begins.
\<close>

theorem two_senders_overrun: "\<exists>S. mstep\<^sup>*\<^sup>* two_senders S \<and> overruns S \<and> wp (box S) = 32"
proof -
  obtain S where S: "mrun unlucky two_senders = Some S" "mtodo S 2 = [Put 0x62, Up_r]" "wp (box S) = 32" "length (buffer (box S)) = 32"
    using unlucky_run by auto
  have "overruns S" unfolding overruns_def using S(2-4) by (intro exI[of _ 2]) simp
  then show ?thesis using mrun_steps[OF S(1)] S(3) by blast
qed

theorem mailbox_exchange_witness:
  "\<exists>S. mstep\<^sup>*\<^sup>* (exchange some_box [0x68, 0x69] 2) S \<and> mtodo S 0 = [] \<and> mtodo S 1 = [] \<and> \<not> overruns S \<and> got S 1 = [0x68, 0x69]"
proof -
  let ?S = "exchange some_box [0x68, 0x69] 2"
  have "map_option (\<lambda>S. (mtodo S 0, mtodo S 1, got S 1)) (mrun (replicate 8 0 @ replicate 8 1) ?S) = Some ([], [], [0x68, 0x69])"
    by code_simp
  then obtain S where S: "mrun (replicate 8 0 @ replicate 8 1) ?S = Some S" "mtodo S 0 = []" "mtodo S 1 = []" "got S 1 = [0x68, 0x69]"
    by auto
  have "fresh_box some_box" by (simp add: fresh_box_def some_box_def)
  then have "\<not> overruns S" using mailbox_exchange[OF _ mrun_steps[OF S(1)]] by blast
  then show ?thesis using S mrun_steps[OF S(1)] by blast
qed

section \<open>Opening and closing\<close>

text \<open>The table: free boxes are those without users and have the name \<^verbatim>\<open>$$$\<close>; boxes in use have
  different names.\<close>

definition free_chars :: "u8 list" where
  "free_chars = [0x24, 0x24, 0x24]"

definition box_ok :: "mailbox \<Rightarrow> bool" where
  "box_ok b \<longleftrightarrow> length (name b) = 16 \<and> is_string (name b) \<and> length (buffer b) = 32 \<and> 0 \<le> ref_count b \<and>
     (ref_count b = 0 \<longleftrightarrow> c_string (name b) = free_chars)"

definition boxes_ok :: "mailbox list \<Rightarrow> bool" where
  "boxes_ok bs \<longleftrightarrow> length bs = 32 \<and>
     (\<forall>i < 32. box_ok (bs ! i) \<and> boxid (bs ! i) = i) \<and>
     (\<forall>i < 32. \<forall>j < 32. i \<noteq> j \<longrightarrow> 0 < ref_count (bs ! i) \<longrightarrow> 0 < ref_count (bs ! j) \<longrightarrow>
        c_string (name (bs ! i)) \<noteq> c_string (name (bs ! j)))"

lemma free_name_string [simp]: "is_string free_name" "c_string free_name = free_chars"
  by (simp_all add: free_name_def literal_def free_chars_def)

lemma first_box_finds:
  assumes "\<forall>b \<in> set bs. P b = Some (q b)"
  shows "(\<exists>i < length bs. first_box P bs k = Some (Some (k + i)) \<and> q (bs ! i) \<and> (\<forall>j < i. \<not> q (bs ! j))) \<or>
    first_box P bs k = Some None \<and> (\<forall>b \<in> set bs. \<not> q b)"
  using assms
proof (induction bs arbitrary: k)
  case (Cons b bs)
  show ?case
  proof (cases "q b")
    case False
    from Cons.IH[of "Suc k"] Cons.prems consider
      i where "i < length bs" "first_box P bs (Suc k) = Some (Some (Suc k + i))" "q (bs ! i)" "\<forall>j < i. \<not> q (bs ! j)"
      | "first_box P bs (Suc k) = Some None" "\<forall>b \<in> set bs. \<not> q b" by auto
    then show ?thesis
    proof cases
      case 1
      then have "\<forall>j < Suc i. \<not> q ((b # bs) ! j)" using False by (auto simp: less_Suc_eq_0_disj)
      then show ?thesis using 1 False Cons.prems by (intro disjI1 exI[of _ "Suc i"]) auto
    qed (use False Cons.prems in auto)
  qed (use Cons.prems in \<open>auto intro!: exI[of _ 0]\<close>)
qed simp

lemma one_init_eq:
  assumes "i < length bs" and "length (name (bs ! i)) = 16"
  shows "\<exists>b. one_init i bs = Some (bs[i := b]) \<and> box_ok b = (length (buffer (bs ! i)) = 32) \<and> boxid b = i \<and> ref_count b = 0 \<and>
    length (name b) = 16 \<and> wp b = 0 \<and> rp b = 0 \<and> rsem b = 0 \<and> wsem b = 32 \<and> length (buffer b) = length (buffer (bs ! i))"
proof -
  obtain n where n: "strcpy (name (bs ! i)) free_name = Some n" "c_string n = free_chars" "length n = 16" "is_string n"
    using strcpy_some[OF free_name_string(1), of "name (bs ! i)"] assms(2) by (auto simp: free_chars_def)
  let ?b = "(bs ! i)\<lparr>boxid := i, name := n, ref_count := 0, volume := BUFFER_SIZE, rp := 0, wp := 0,
    buffer := (buffer (bs ! i))[0 := 0xff], rsem := 0, wsem := int BUFFER_SIZE\<rparr>"
  show ?thesis
    by (intro exI[of _ ?b]) (use assms n in \<open>simp add: one_init_def box_ok_def BUFFER_SIZE_def\<close>)
qed

lemma boxes_ok_upd:
  assumes "boxes_ok bs" and "i < 32" and "box_ok b" and "boxid b = i"
    and "0 < ref_count b \<Longrightarrow> \<forall>j < 32. j \<noteq> i \<longrightarrow> 0 < ref_count (bs ! j) \<longrightarrow> c_string (name (bs ! j)) \<noteq> c_string (name b)"
  shows "boxes_ok (bs[i := b])"
  using assms unfolding boxes_ok_def by (auto simp: nth_list_update)

lemma copy_prefix_some: "is_string nm \<Longrightarrow> copy_prefix n nm = Some (take n (c_string nm))"
  by (induction n nm rule: copy_prefix.induct) auto

lemma is_free_eq:
  assumes "box_ok b"
  shows "is_free b = Some (ref_count b = 0)"
proof -
  have "is_string (name b)" and "ref_count b = 0 \<Longrightarrow> c_string (name b) = c_string free_name"
    using assms by (simp_all add: box_ok_def)
  then show ?thesis using strcmp_zero[of "name b" free_name] by (auto simp: is_free_def)
qed

lemma same_name_eq:
  assumes "box_ok b" and "0 \<notin> set t"
  shows "do { r \<leftarrow> strcmp (t @ [0]) (name b); Some (r = 0) } = Some (c_string (name b) = t)"
proof -
  have n: "is_string (name b)" "is_string (t @ [0])" using assms by (simp_all add: box_ok_def is_string_def)
  then obtain r where "strcmp (t @ [0]) (name b) = Some r" using strcmp_some by blast
  then show ?thesis using strcmp_zero[OF n(2,1)] c_string_append[OF assms(2), of "[]"] by auto
qed

lemma boxes_okD: "boxes_ok bs \<Longrightarrow> i < 32 \<Longrightarrow> box_ok (bs ! i) \<and> boxid (bs ! i) = i"
  by (simp add: boxes_ok_def)

lemma boxes_ok_set: "boxes_ok bs \<Longrightarrow> \<forall>b \<in> set bs. box_ok b"
  by (auto simp: boxes_ok_def in_set_conv_nth)

text \<open>The abstract view of the table: the name and the number of users of each box in use.\<close>

definition users :: "mailbox list \<Rightarrow> nat \<Rightarrow> (u8 list \<times> int) option" where
  "users bs i = (if i < length bs \<and> ref_count (bs ! i) \<noteq> 0 then Some (c_string (name (bs ! i)), ref_count (bs ! i)) else None)"

lemma users_upd: "i < length bs \<Longrightarrow> users (bs[i := b]) =
    (users bs)(i := if ref_count b \<noteq> 0 then Some (c_string (name b), ref_count b) else None)"
  by (auto simp: users_def fun_eq_iff nth_list_update)

lemma mbox_create_ok:
  assumes ok: "boxes_ok bs" and t: "0 \<notin> set t" "length t \<le> 15" "t \<noteq> free_chars"
    and new: "\<forall>b \<in> set bs. c_string (name b) \<noteq> t"
  shows "(\<exists>i bs'. mbox_create (t @ [0]) bs = Some (Some i, bs') \<and> i < 32 \<and> boxes_ok bs' \<and> users bs i = None \<and>
      users bs' = (users bs)(i \<mapsto> (t, 1)) \<and> wp (bs' ! i) = 0 \<and> rp (bs' ! i) = 0 \<and> rsem (bs' ! i) = 0 \<and> wsem (bs' ! i) = 32) \<or>
    mbox_create (t @ [0]) bs = Some (None, bs) \<and> (\<forall>i < 32. users bs i \<noteq> None)"
proof -
  have len: "length bs = 32" using ok by (simp add: boxes_ok_def)
  have ts: "is_string (t @ [0])" "c_string (t @ [0]) = t"
    using t(1) c_string_append[of t "[]"] by (simp_all add: is_string_def)
  from first_box_finds[of bs is_free "\<lambda>b. ref_count b = 0" 0] boxes_ok_set[OF ok] is_free_eq len consider
    i where "i < 32" "first_box is_free bs 0 = Some (Some i)" "ref_count (bs ! i) = 0"
    | "first_box is_free bs 0 = Some None" "\<forall>b \<in> set bs. ref_count b \<noteq> 0" by auto
  then show ?thesis
  proof cases
    case 1
    have b0: "length (name (bs ! i)) = 16" "length (buffer (bs ! i)) = 32"
      using boxes_okD[OF ok 1(1)] by (simp_all add: box_ok_def)
    obtain b where b: "one_init i bs = Some (bs[i := b])" "boxid b = i" "ref_count b = 0" "length (name b) = 16"
      "wp b = 0" "rp b = 0" "rsem b = 0" "wsem b = 32" "length (buffer b) = 32"
      using one_init_eq[of i bs] b0 1(1) len by auto
    let ?n = "t @ 0 # drop (Suc (length t)) (name b)"
    have n: "strcpy (name b) (t @ [0]) = Some ?n" "c_string ?n = t" "is_string ?n" "length ?n = 16"
      using strcpy_some[OF ts(1), of "name b"] ts(2) t b(4) by (simp_all add: c_string_append is_string_def)
    let ?b = "b\<lparr>name := ?n, ref_count := 1\<rparr>"
    have r: "mbox_create (t @ [0]) bs = Some (Some i, bs[i := ?b])"
      using 1 b n(1) len by (simp add: mbox_create_def)
    have "box_ok ?b" using n(2-4) b(9) t(3) by (simp add: box_ok_def)
    then have "boxes_ok (bs[i := ?b])"
      using boxes_ok_upd[OF ok 1(1), of ?b] b(2) new len n(2) by simp
    then show ?thesis using r 1 b n(2) len by (intro disjI1 exI[of _ i] exI[of _ "bs[i := ?b]"]) (simp add: users_upd users_def[of bs i])
  next
    case 2
    then show ?thesis using len by (intro disjI2) (auto simp: mbox_create_def users_def)
  qed
qed

definition boxes_inv :: "boxes \<Rightarrow> bool" where
  "boxes_inv s \<longleftrightarrow>
    (if mboxinit s = 0 then length (mboxs s) = 32 \<and> (\<forall>b \<in> set (mboxs s). length (name b) = 16 \<and> length (buffer b) = 32)
     else boxes_ok (mboxs s))"

definition table :: "boxes \<Rightarrow> nat \<Rightarrow> (u8 list \<times> int) option" where
  "table s = (if mboxinit s = 0 then Map.empty else users (mboxs s))"

text \<open>What opening promises about the result and the table.\<close>

definition opened :: "u8 list \<Rightarrow> boxes \<Rightarrow> nat option \<Rightarrow> boxes \<Rightarrow> bool" where
  "opened t s r s' \<longleftrightarrow> boxes_inv s' \<and>
    (case r of
       Some i \<Rightarrow> i < 32 \<and>
         ((\<exists>n. table s i = Some (t, n) \<and> table s' = (table s)(i \<mapsto> (t, n + 1)) \<and>
             buffer (mboxs s' ! i) = buffer (mboxs s ! i) \<and> rsem (mboxs s' ! i) = rsem (mboxs s ! i)) \<or>
          table s i = None \<and> (\<forall>j n. table s j \<noteq> Some (t, n)) \<and> table s' = (table s)(i \<mapsto> (t, 1)) \<and>
             rsem (mboxs s' ! i) = 0 \<and> wsem (mboxs s' ! i) = 32)
     | None \<Rightarrow> table s' = table s \<and> (\<forall>i < 32. \<exists>t' n. table s i = Some (t', n) \<and> t' \<noteq> t))"

lemma mbox_open_ready:
  assumes ok: "boxes_ok (mboxs s)" "mboxinit s \<noteq> 0" and nm: "is_string nm"
    and t: "take 15 (c_string nm) = t" "t \<noteq> free_chars"
  shows "\<exists>r s'. mbox_open nm s = Some (r, s') \<and> opened t s r s'"
proof -
  have len: "length (mboxs s) = 32" using ok by (simp add: boxes_ok_def)
  have t0: "0 \<notin> set t" "length t \<le> 15" using t(1) c_string_no_zero[of nm] by (auto dest: in_set_takeD)
  let ?P = "\<lambda>b. do { r \<leftarrow> strcmp (t @ [0]) (name b); Some (r = 0) }"
  have run: "mbox_open nm s = do {
     f \<leftarrow> first_box ?P (mboxs s) 0;
     (case f of
        Some i \<Rightarrow> Some (Some i, s\<lparr>mboxs := (mboxs s)[i := (mboxs s ! i)\<lparr>ref_count := ref_count (mboxs s ! i) + 1\<rparr>]\<rparr>)
      | None \<Rightarrow> do { (r, bs) \<leftarrow> mbox_create (t @ [0]) (mboxs s); Some (r, s\<lparr>mboxs := bs\<rparr>) }) }"
    using ok(2) copy_prefix_some[OF nm, of 15] t(1) by (simp add: mbox_open_def Let_def)
  from first_box_finds[of "mboxs s" ?P "\<lambda>b. c_string (name b) = t" 0] boxes_ok_set[OF ok(1)] same_name_eq[OF _ t0(1)] len consider
    i where "i < 32" "first_box ?P (mboxs s) 0 = Some (Some i)" "c_string (name (mboxs s ! i)) = t"
    | "first_box ?P (mboxs s) 0 = Some None" "\<forall>b \<in> set (mboxs s). c_string (name b) \<noteq> t" by auto
  then show ?thesis
  proof cases
    case 1
    let ?b = "(mboxs s ! i)\<lparr>ref_count := ref_count (mboxs s ! i) + 1\<rparr>"
    have b: "box_ok (mboxs s ! i)" "boxid (mboxs s ! i) = i" "ref_count (mboxs s ! i) > 0"
      using boxes_okD[OF ok(1) 1(1)] 1(3) t(2) by (auto simp: box_ok_def)
    then have "box_ok ?b" by (auto simp: box_ok_def)
    moreover have "\<forall>j < 32. j \<noteq> i \<longrightarrow> 0 < ref_count (mboxs s ! j) \<longrightarrow> c_string (name (mboxs s ! j)) \<noteq> c_string (name ?b)"
      using ok(1) 1(1) b(3) unfolding boxes_ok_def by simp
    ultimately have "boxes_ok ((mboxs s)[i := ?b])" using boxes_ok_upd[OF ok(1) 1(1)] b(2) by simp
    then show ?thesis unfolding run using 1 b(3) len ok(2)
      by (simp add: opened_def boxes_inv_def table_def users_upd users_def[of "mboxs s" i])
  next
    case 2
    have fresh: "\<forall>j n. users (mboxs s) j \<noteq> Some (t, n)" using 2(2) by (auto simp: users_def)
    from mbox_create_ok[OF ok(1) t0 t(2) 2(2)] show ?thesis
    proof (elim disjE conjE exE)
      assume "mbox_create (t @ [0]) (mboxs s) = Some (None, mboxs s)" and used: "\<forall>i < 32. users (mboxs s) i \<noteq> None"
      moreover have "\<forall>i < 32. \<exists>t' n. users (mboxs s) i = Some (t', n) \<and> t' \<noteq> t" using used fresh by fastforce
      ultimately show ?thesis unfolding run using 2(1) ok by (simp add: opened_def boxes_inv_def table_def)
    qed (use fresh 2(1) run ok(2) in \<open>auto simp: opened_def boxes_inv_def table_def\<close>)
  qed
qed

lemma mbox_close_ok:
  assumes ok: "boxes_ok (mboxs s)" and i: "users (mboxs s) i = Some (t, n)"
  shows "\<exists>s'. mbox_close i s = Some s' \<and> boxes_ok (mboxs s') \<and> mboxinit s' = mboxinit s \<and>
    users (mboxs s') = (users (mboxs s))(i := if n = 1 then None else Some (t, n - 1))"
proof -
  let ?bs = "mboxs s" and ?b = "(mboxs s ! i)\<lparr>ref_count := ref_count (mboxs s ! i) - 1\<rparr>"
  have len: "length ?bs = 32" using ok by (simp add: boxes_ok_def)
  have il: "i < 32" and tn: "c_string (name (?bs ! i)) = t" "ref_count (?bs ! i) = n" "n \<noteq> 0"
    using i len by (auto simp: users_def split: if_splits)
  have b: "box_ok (?bs ! i)" "boxid (?bs ! i) = i" using boxes_okD[OF ok il] by auto
  then have n0: "0 < n" using tn by (simp add: box_ok_def)
  show ?thesis
  proof (cases "n = 1")
    case True
    obtain c where c: "one_init i (?bs[i := ?b]) = Some (?bs[i := c])" "box_ok c" "boxid c = i" "ref_count c = 0"
      using one_init_eq[of i "?bs[i := ?b]"] il len b(1) by (auto simp: box_ok_def)
    have "boxes_ok (?bs[i := c])" using boxes_ok_upd[OF ok il c(2,3)] c(4) by simp
    then show ?thesis using c il len b(2) tn True by (simp add: mbox_close_def mbox_destroy_def users_upd Let_def)
  next
    case False
    have "box_ok ?b" using b(1) tn(2) n0 False by (auto simp: box_ok_def)
    moreover have "\<forall>j < 32. j \<noteq> i \<longrightarrow> 0 < ref_count (?bs ! j) \<longrightarrow> c_string (name (?bs ! j)) \<noteq> c_string (name ?b)"
      using ok il n0 tn(2) unfolding boxes_ok_def by simp
    ultimately have "boxes_ok (?bs[i := ?b])" using boxes_ok_upd[OF ok il] b(2) by simp
    then show ?thesis using il len tn False by (simp add: mbox_close_def users_upd Let_def)
  qed
qed

text \<open>The first call of \<open>mbox_open\<close> sets the table up.\<close>

lemma mbox_init_ok:
  assumes "length bs = 32" and "\<forall>b \<in> set bs. length (name b) = 16 \<and> length (buffer b) = 32"
  shows "\<exists>bs'. mbox_init bs = Some bs' \<and> boxes_ok bs' \<and> users bs' = Map.empty"
proof -
  define P where "P k bs' \<longleftrightarrow> length bs' = 32 \<and> (\<forall>b \<in> set bs'. length (name b) = 16 \<and> length (buffer b) = 32) \<and>
      (\<forall>i < k. box_ok (bs' ! i) \<and> boxid (bs' ! i) = i \<and> ref_count (bs' ! i) = 0)" for k :: nat and bs'
  have "\<exists>bs'. for_each one_init [0..<MAX_NUM_BOX] bs = Some bs' \<and> P MAX_NUM_BOX bs'"
  proof (rule for_each_upt)
    fix k bs1
    assume k: "k < MAX_NUM_BOX" and b1: "P k bs1"
    then have nk: "length (name (bs1 ! k)) = 16" "length (buffer (bs1 ! k)) = 32" by (simp_all add: P_def MAX_NUM_BOX_def)
    then obtain b where b: "one_init k bs1 = Some (bs1[k := b])" "box_ok b" "boxid b = k" "ref_count b = 0"
      using one_init_eq[of k bs1] k b1 by (auto simp: P_def MAX_NUM_BOX_def)
    then have "P (Suc k) (bs1[k := b])"
      using b1 k set_update_subset_insert[of bs1 k b] by (auto simp: P_def box_ok_def nth_list_update less_Suc_eq MAX_NUM_BOX_def)
    then show "\<exists>bs'. one_init k bs1 = Some bs' \<and> P (Suc k) bs'" using b(1) by blast
  qed (use assms in \<open>simp_all add: P_def\<close>)
  then obtain bs' where "mbox_init bs = Some bs'" "length bs' = 32"
    "\<forall>i < 32. box_ok (bs' ! i) \<and> boxid (bs' ! i) = i \<and> ref_count (bs' ! i) = 0" by (auto simp: mbox_init_def MAX_NUM_BOX_def P_def)
  then show ?thesis by (auto simp: boxes_ok_def users_def fun_eq_iff)
qed

lemma mbox_open_first:
  assumes "boxes_inv s"
  obtains s1 where "mbox_open nm s = mbox_open nm s1" "boxes_ok (mboxs s1)" "mboxinit s1 \<noteq> 0" "users (mboxs s1) = table s"
    "mboxinit s \<noteq> 0 \<Longrightarrow> s1 = s"
proof (cases "mboxinit s = 0")
  case True
  then obtain bs where bs: "mbox_init (mboxs s) = Some bs" "boxes_ok bs" "users bs = Map.empty"
    using assms mbox_init_ok[of "mboxs s"] by (auto simp: boxes_inv_def)
  have "mbox_open nm s = mbox_open nm (s\<lparr>mboxs := bs, mboxinit := 1\<rparr>)" using True bs(1) by (simp add: mbox_open_def)
  then show thesis using that[of "s\<lparr>mboxs := bs, mboxinit := 1\<rparr>"] True bs(2,3) by (simp add: table_def)
qed (use assms that[of s] in \<open>simp add: boxes_inv_def table_def\<close>)

lemma mbox_open_ok:
  assumes inv: "boxes_inv s" and nm: "is_string nm" and t: "take 15 (c_string nm) = t" "t \<noteq> free_chars"
  shows "\<exists>r s'. mbox_open nm s = Some (r, s') \<and> opened t s r s'"
proof -
  from mbox_open_first[OF inv, of nm] obtain s1 where s1: "mbox_open nm s = mbox_open nm s1" "boxes_ok (mboxs s1)"
    "mboxinit s1 \<noteq> 0" "users (mboxs s1) = table s" "mboxinit s \<noteq> 0 \<Longrightarrow> s1 = s" by metis
  have same: "table s1 = table s" using s1(3,4) by (simp add: table_def)
  have old: "s1 = s" if "table s i = Some x" for i x using that s1(5) by (auto simp: table_def split: if_splits)
  have "opened t s1 r s' \<Longrightarrow> opened t s r s'" for r s'
    using old by (auto simp: opened_def same split: option.splits)
  then show ?thesis using mbox_open_ready[OF s1(2,3) nm t] s1(1) by auto
qed

lemma table_counts: "boxes_inv s \<Longrightarrow> table s i = Some (t, n) \<Longrightarrow> 0 < n"
  by (auto simp: boxes_inv_def table_def boxes_ok_def box_ok_def users_def split: if_splits)

lemma opened_count:
  assumes "boxes_inv s" and "opened t s (Some i) s'"
  obtains n where "table s' i = Some (t, n)" "table s = (table s')(i := if n = 1 then None else Some (t, n - 1))"
proof -
  from assms(2) consider n where "table s i = Some (t, n)" "table s' = (table s)(i \<mapsto> (t, n + 1))"
    | "table s i = None" "table s' = (table s)(i \<mapsto> (t, 1))" by (auto simp: opened_def)
  then show thesis
  proof cases
    case 1
    then have "0 < n" using table_counts[OF assms(1)] by blast
    then show thesis by (intro that[of "n + 1"]) (simp_all only: 1(2), auto simp: 1(1))
  next
    case 2
    then show thesis by (intro that[of 1]) (simp_all only: 2(2), auto)
  qed
qed

text \<open>
  Opening a mailbox compares at most 15 characters. An open box of that name gets one more user
  and keeps its contents; otherwise a free box is set up, empty, with that name and one user, and
  when no box is free the result is a null pointer and the boxes in use are as before. No two boxes
  in use have the same name (part of \<open>boxes_inv\<close>).
\<close>

theorem mbox_open_finds:
  assumes "boxes_inv s" and "is_string nm" and "take 15 (c_string nm) = t" and "t \<noteq> free_chars"
  shows "\<exists>r s'. mbox_open nm s = Some (r, s') \<and> opened t s r s'"
  using mbox_open_ok[OF assms] .

text \<open>
  Opening a mailbox and closing it again leaves the names and the numbers of users of all boxes
  as they were; the last user's close frees the box.
\<close>

theorem mbox_open_close:
  assumes "boxes_inv s" and "is_string nm" and "take 15 (c_string nm) \<noteq> free_chars" and "mbox_open nm s = Some (Some i, s1)"
  shows "\<exists>s2. mbox_close i s1 = Some s2 \<and> boxes_inv s2 \<and> table s2 = table s"
proof -
  let ?t = "take 15 (c_string nm)"
  have o: "opened ?t s (Some i) s1" using mbox_open_ok[OF assms(1,2) refl assms(3)] assms(4) by simp
  then obtain n where n: "table s1 i = Some (?t, n)" and old: "table s = (table s1)(i := if n = 1 then None else Some (?t, n - 1))"
    by (rule opened_count[OF assms(1)])
  then have "mboxinit s1 \<noteq> 0" by (auto simp: table_def split: if_splits)
  then have s1: "boxes_ok (mboxs s1)" "users (mboxs s1) = table s1" and i1: "mboxinit s1 \<noteq> 0"
    using o by (simp_all add: opened_def boxes_inv_def table_def)
  from mbox_close_ok[OF s1(1), unfolded s1(2), OF n] obtain s2 where "mbox_close i s1 = Some s2" "boxes_ok (mboxs s2)"
    "mboxinit s2 \<noteq> 0" "users (mboxs s2) = table s" using i1 unfolding old by auto
  then show ?thesis by (intro exI[of _ s2]) (simp add: boxes_inv_def table_def[of s2])
qed

definition no_boxes :: boxes where
  "no_boxes = \<lparr>mboxs = replicate 32 (some_box\<lparr>name := replicate 16 0, ref_count := 0\<rparr>), mboxinit = 0\<rparr>"

lemma no_boxes_inv: "boxes_inv no_boxes"
  by (simp add: boxes_inv_def no_boxes_def some_box_def)

theorem mbox_open_finds_witness: "\<exists>r s'. mbox_open (literal [0x68, 0x69]) no_boxes = Some (r, s') \<and> opened [0x68, 0x69] no_boxes r s'"
  using mbox_open_finds[of no_boxes "literal [0x68, 0x69]" "[0x68, 0x69]"] no_boxes_inv
  by (simp add: free_chars_def)

theorem mbox_open_close_witness:
  "\<exists>i s1 s2. mbox_open (literal [0x68, 0x69]) no_boxes = Some (Some i, s1) \<and> mbox_close i s1 = Some s2 \<and> table s2 = Map.empty"
proof -
  have "map_option fst (mbox_open (literal [0x68, 0x69]) no_boxes) = Some (Some 0)" by code_simp
  then obtain s1 where s1: "mbox_open (literal [0x68, 0x69]) no_boxes = Some (Some 0, s1)" by auto
  moreover have "table no_boxes = Map.empty" by (simp add: table_def no_boxes_def)
  ultimately show ?thesis
    using mbox_open_close[of no_boxes "literal [0x68, 0x69]" 0 s1] no_boxes_inv by (auto simp: free_chars_def)
qed

end
