(* ===== verification/Bitmap.thy ===== *)
theory Bitmap
  imports Prelude
begin

text \<open>
  \<^verbatim>\<open>kernel/fs/bitmap.c\<close>: a map of bits in an array of 32-bit words, which the file system
  uses to record the inodes in use. An access outside the array, or a shift by a negative
  amount, is \<open>None\<close>.
\<close>

unbundle bit_operations_syntax

section \<open>Operations\<close>

text \<open>The inner loop: the first bit of a word that has the wanted value.\<close>

definition search_word :: "u32 \<Rightarrow> u32 \<Rightarrow> nat option" where
  "search_word target w = find (\<lambda>j. (push_bit j 1 AND w) = push_bit j target) [0..<32]"

fun search_words :: "u32 list \<Rightarrow> u32 \<Rightarrow> u32 \<Rightarrow> nat list \<Rightarrow> int option" where
  "search_words bm target flat [] = Some (- 2)"
| "search_words bm target flat (i # is) =
    (if i < length bm then
       if bm ! i \<noteq> flat then
         case search_word target (bm ! i) of
           Some j \<Rightarrow> Some (32 * int i + int j)
         | None \<Rightarrow> search_words bm target flat is
       else search_words bm target flat is
     else None)"

definition bitmap_search :: "u32 list \<Rightarrow> int \<Rightarrow> nat \<Rightarrow> int option" where
  "bitmap_search bm target bound =
    (if target = 1 then search_words bm 1 0x00 [0..<bound div 32]
     else if target = 0 then search_words bm 0 0xffffffff [0..<bound div 32]
     else Some (- 1))"

text \<open>\<open>offset / 32\<close> and \<open>offset % 32\<close> truncate towards zero: a negative offset gives a
  negative index or a negative shift.\<close>

definition bitmap_getbit :: "u32 list \<Rightarrow> int \<Rightarrow> u32 option" where
  "bitmap_getbit bm offset =
    (if 0 \<le> offset \<and> nat (offset div 32) < length bm then
       Some (drop_bit (nat (offset mod 32)) (bm ! nat (offset div 32)) AND 1)
     else None)"

definition bitmap_modify :: "u32 list \<Rightarrow> int \<Rightarrow> int \<Rightarrow> (int \<times> u32 list) option" where
  "bitmap_modify bm target offset =
    (if target \<noteq> 0 \<and> target \<noteq> 1 then Some (- 1, bm)
     else if 0 \<le> offset \<and> nat (offset div 32) < length bm then
       let i = nat (offset div 32); j = nat (offset mod 32)
       in Some (0, bm[i := (bm ! i AND NOT (push_bit j 1)) OR push_bit j (word_of_int target)])
     else None)"

section \<open>Specification\<close>

text \<open>Bit \<open>k\<close> of the map.\<close>

definition map_bit :: "u32 list \<Rightarrow> nat \<Rightarrow> bool" where
  "map_bit bm k \<longleftrightarrow> bit (bm ! (k div 32)) (k mod 32)"

lemma bit_exp32: "bit ((2 :: u32) ^ j) n \<longleftrightarrow> n = j \<and> j < 32"
  by (auto simp: bit_exp_iff)

lemma test_bit_word:
  assumes "j < 32"
  shows "2 ^ j AND w = (2 :: u32) ^ j \<longleftrightarrow> bit w j" and "2 ^ j AND w = (0 :: u32) \<longleftrightarrow> \<not> bit w j"
proof -
  have eq: "bit ((2 :: u32) ^ j AND w) n \<longleftrightarrow> n = j \<and> bit w j" for n
    using assms by (auto simp: bit_and_iff bit_exp32)
  show "2 ^ j AND w = (2 :: u32) ^ j \<longleftrightarrow> bit w j"
    using assms eq by (auto simp: bit_eq_iff[of "2 ^ j AND w"] bit_exp32)
  show "2 ^ j AND w = (0 :: u32) \<longleftrightarrow> \<not> bit w j"
    using assms eq by (auto simp: bit_eq_iff[of "2 ^ j AND w"])
qed

definition word_of_bool :: "bool \<Rightarrow> u32" where
  "word_of_bool b = (if b then 1 else 0)"

definition flat_of :: "bool \<Rightarrow> u32" where
  "flat_of b = (if b then 0 else 0xffffffff)"

lemma search_word_find: "search_word (word_of_bool b) w = find (\<lambda>j. bit w j = b) [0..<32]"
  unfolding search_word_def word_of_bool_def
  by (rule find_cong) (auto simp: test_bit_word)

lemma flat_bits: "w = flat_of b \<longleftrightarrow> (\<forall>j < 32. bit w j \<noteq> b)"
proof -
  have m1: "(0xffffffff :: u32) = - 1" by simp
  show ?thesis
    unfolding flat_of_def m1 by (cases b) (auto simp: bit_eq_iff[of w] bit_minus_1_iff dest: bit_imp_le_length)
qed

lemma find_append': "find P (xs @ ys) = (case find P xs of Some x \<Rightarrow> Some x | None \<Rightarrow> find P ys)"
  by (induction xs) auto

lemma find_map: "find P (map f xs) = map_option f (find (\<lambda>x. P (f x)) xs)"
  by (induction xs) auto

text \<open>The search over the words from \<open>i\<close> to \<open>n\<close>.\<close>

lemma search_words_spec:
  assumes "i \<le> n" and "n \<le> length bm"
  shows "search_words bm (word_of_bool b) (flat_of b) [i..<n] =
    (case find (\<lambda>k. map_bit bm k = b) [32 * i..<32 * n] of Some k \<Rightarrow> Some (int k) | None \<Rightarrow> Some (- 2))"
  using assms
proof (induction "n - i" arbitrary: i)
  case 0
  then show ?case by simp
next
  case (Suc d)
  then have i: "i < n" "i < length bm" by auto
  have IH: "search_words bm (word_of_bool b) (flat_of b) [Suc i..<n] =
    (case find (\<lambda>k. map_bit bm k = b) [32 * Suc i..<32 * n] of Some k \<Rightarrow> Some (int k) | None \<Rightarrow> Some (- 2))"
    using Suc by auto
  have split: "[32 * i..<32 * n] = map (\<lambda>j. 32 * i + j) [0..<32] @ [32 * Suc i..<32 * n]"
    using i(1) upt_add_eq_append[of "32 * i" "32 * i + 32" "32 * n - (32 * i + 32)"]
      map_add_upt[of "32 * i" 32] by (simp add: add.commute)
  have mb: "map_bit bm (32 * i + j) = bit (bm ! i) j" if "j < 32" for j
    using that by (simp add: map_bit_def)
  have first: "find (\<lambda>k. map_bit bm k = b) (map (\<lambda>j. 32 * i + j) [0..<32]) =
      map_option (\<lambda>j. 32 * i + j) (find (\<lambda>j. bit (bm ! i) j = b) [0..<32])"
    unfolding find_map using mb by (intro arg_cong[where f = "map_option _"] find_cong) auto
  have flat: "find (\<lambda>j. bit (bm ! i) j = b) [0..<32] = None" if "bm ! i = flat_of b"
    using that flat_bits[of "bm ! i" b] by (auto simp: find_None_iff)
  show ?case
    using IH i flat first
    by (auto simp: upt_conv_Cons[OF i(1)] split find_append' search_word_find simp del: upt_Suc mult_Suc_right
        split: option.splits)
qed

lemma bitmap_search_find:
  assumes "bound div 32 \<le> length bm"
  shows "bitmap_search bm (if b then 1 else 0) bound =
    (case find (\<lambda>k. map_bit bm k = b) [0..<32 * (bound div 32)] of Some k \<Rightarrow> Some (int k) | None \<Rightarrow> Some (- 2))"
  using search_words_spec[of 0 "bound div 32" bm b] assms
  by (auto simp: bitmap_search_def word_of_bool_def flat_of_def)

text \<open>Writing one bit of a word.\<close>

lemma bit_write:
  assumes "j < 32"
  shows "bit ((w AND NOT (push_bit j 1)) OR push_bit j (word_of_int (if b then 1 else 0)) :: u32) n =
    (if n = j then b else bit w n)"
proof -
  have p: "push_bit j (1 :: u32) = 2 ^ j" by simp
  have "bit (push_bit j (word_of_int (if b then 1 else 0)) :: u32) n \<longleftrightarrow> n = j \<and> b"
    using assms by (cases b) (simp_all add: bit_exp32)
  moreover have "bit (w AND NOT (2 ^ j)) n \<longleftrightarrow> bit w n \<and> n \<noteq> j"
    using assms by (auto simp: bit_and_iff bit_not_iff bit_exp32 dest: bit_imp_le_length)
  ultimately show ?thesis unfolding p bit_or_iff by auto
qed

lemma nat_div_mod32: "0 \<le> x \<Longrightarrow> nat (x div 32) = nat x div 32 \<and> nat (x mod 32) = nat x mod 32"
  by (simp add: nat_div_distrib nat_mod_distrib)

lemma bitmap_modify_bits:
  assumes "k < 32 * length bm"
  obtains bm' where "bitmap_modify bm (if b then 1 else 0) (int k) = Some (0, bm')"
    and "length bm' = length bm"
    and "\<And>i. i < 32 * length bm \<Longrightarrow> map_bit bm' i = (if i = k then b else map_bit bm i)"
proof -
  let ?w = "(bm ! (k div 32) AND NOT (push_bit (k mod 32) 1)) OR
    push_bit (k mod 32) (word_of_int (if b then 1 else 0))"
  have k: "k div 32 < length bm" using assms by auto
  have "bitmap_modify bm (if b then 1 else 0) (int k) = Some (0, bm[k div 32 := ?w])"
    using k nat_div_mod32[of "int k"] by (simp add: bitmap_modify_def Let_def)
  moreover have "map_bit (bm[k div 32 := ?w]) i = (if i = k then b else map_bit bm i)"
    if "i < 32 * length bm" for i
  proof (cases "i div 32 = k div 32")
    case True
    then have "i = k \<longleftrightarrow> i mod 32 = k mod 32"
      by (metis div_mult_mod_eq)
    then show ?thesis using True k bit_write[of "k mod 32" "bm ! (k div 32)" b] by (simp add: map_bit_def)
  next
    case False
    then show ?thesis by (auto simp: map_bit_def)
  qed
  ultimately show thesis using that[of "bm[k div 32 := ?w]"] by simp
qed

lemma and_1_bit: "drop_bit j w AND 1 = (of_bool (bit w j) :: u32)"
  by (simp only: and_one_eq mod_2_eq_odd bit_iff_odd_drop_bit)

lemma bitmap_getbit_bit:
  assumes "k < 32 * length bm"
  shows "bitmap_getbit bm (int k) = Some (of_bool (map_bit bm k))"
proof -
  have "k div 32 < length bm" using assms by auto
  then show ?thesis
    using nat_div_mod32[of "int k"] by (simp add: bitmap_getbit_def map_bit_def and_1_bit del: and_one_eq)
qed

section \<open>Properties\<close>

text \<open>
  \<open>bitmap_search\<close> returns the first bit below the bound (rounded down to whole words) that
  has the wanted value, and -2 exactly when there is none.
\<close>

theorem bitmap_search_first:
  assumes "bound div 32 \<le> length bm" and "target \<in> {0, 1}"
  shows "\<exists>r. bitmap_search bm target bound = Some r \<and>
    (if \<exists>k < 32 * (bound div 32). map_bit bm k = (target = 1)
     then 0 \<le> r \<and> nat r < 32 * (bound div 32) \<and> map_bit bm (nat r) = (target = 1) \<and>
       (\<forall>k < nat r. map_bit bm k \<noteq> (target = 1))
     else r = - 2)"
proof -
  define b where "b = (target = 1)"
  have t: "target = (if b then 1 else 0)" using assms(2) by (auto simp: b_def)
  show ?thesis
  proof (cases "find (\<lambda>k. map_bit bm k = b) [0..<32 * (bound div 32)]")
    case None
    then have "\<not> (\<exists>k < 32 * (bound div 32). map_bit bm k = b)" by (auto simp: find_None_iff)
    with None show ?thesis
      unfolding b_def[symmetric] unfolding t bitmap_search_find[OF assms(1)] by simp
  next
    case (Some k)
    then have "k < 32 * (bound div 32)" "map_bit bm k = b" "\<forall>i < k. map_bit bm i \<noteq> b"
      by (auto simp: find_Some_iff)
    with Some show ?thesis
      unfolding b_def[symmetric] unfolding t bitmap_search_find[OF assms(1)] by auto
  qed
qed

theorem bitmap_search_first_witness:
  "\<exists>r. bitmap_search [0xffffffff, 0x7] 0 64 = Some r \<and> 0 \<le> r \<and> nat r < 64 \<and> \<not> map_bit [0xffffffff, 0x7] (nat r)"
proof -
  have "\<exists>k < 64. map_bit [0xffffffff, 0x7] k = False"
    by (rule exI[of _ 35]) (simp add: map_bit_def)
  then show ?thesis using bitmap_search_first[of 64 "[0xffffffff, 0x7]" 0] by auto
qed

text \<open>
  \<open>bitmap_modify\<close> writes the wanted value into one bit and changes no other bit of the map,
  and \<open>bitmap_getbit\<close> reads it back.
\<close>

theorem bitmap_modify_getbit:
  assumes "k < 32 * length bm" and "target \<in> {0, 1}"
  shows "\<exists>bm'. bitmap_modify bm target (int k) = Some (0, bm') \<and> length bm' = length bm \<and>
    bitmap_getbit bm' (int k) = Some (word_of_int target) \<and>
    (\<forall>i < 32 * length bm. i \<noteq> k \<longrightarrow> bitmap_getbit bm' (int i) = bitmap_getbit bm (int i))"
proof -
  define b where "b = (target = 1)"
  have t: "target = (if b then 1 else 0)" using assms(2) by (auto simp: b_def)
  obtain bm' where m: "bitmap_modify bm target (int k) = Some (0, bm')" "length bm' = length bm"
    "\<And>i. i < 32 * length bm \<Longrightarrow> map_bit bm' i = (if i = k then b else map_bit bm i)"
    unfolding t by (rule bitmap_modify_bits[OF assms(1)]) blast
  have "bitmap_getbit bm' (int i) = (if i = k then Some (word_of_int target) else bitmap_getbit bm (int i))"
    if "i < 32 * length bm" for i
    using m(2) m(3)[OF that] that by (simp add: bitmap_getbit_bit t)
  then show ?thesis using m(1,2) assms(1) by auto
qed

theorem bitmap_modify_getbit_witness:
  "\<exists>bm'. bitmap_modify [0, 0] 1 (int 33) = Some (0, bm') \<and> bitmap_getbit bm' (int 33) = Some 1"
  using bitmap_modify_getbit[of 33 "[0, 0]" 1] by auto

end
