(* ===== verification/Disk.thy ===== *)
theory Disk
  imports Bytes Bitmap Printk
begin

text \<open>
  \<^verbatim>\<open>kernel/fs/disk.c\<close> and the constants and structures of \<^verbatim>\<open>include/os/fs.h\<close>: inodes,
  the inode map, the superblock and the data blocks on the SD card. The card itself is driven
  by \<open>sdread\<close> and \<open>sdwrite\<close> of the firmware library, which are not part of the sources:
  they are a parameter, and the locale \<open>sd_card\<close> states what the file system needs of them.
\<close>

section \<open>Constants and structures\<close>

definition FS_BASE :: u32 where "FS_BASE = 0x100000"
definition SECTOR_SIZE :: u32 where "SECTOR_SIZE = 0x200"
definition FS_MAGIC :: u32 where "FS_MAGIC = 0x0711"
definition FS_DATA_BASE :: u32 where "FS_DATA_BASE = 0x00"
definition FS_SUPERBLOCK_BASE :: u32 where "FS_SUPERBLOCK_BASE = 0xfdff7"
definition FS_INODE_MAP_BASE :: u32 where "FS_INODE_MAP_BASE = 0xfdff8"
definition FS_INODE_MAP_SIZE :: nat where "FS_INODE_MAP_SIZE = 0x08"
definition FS_INODE_TABLE_BASE :: u32 where "FS_INODE_TABLE_BASE = 0xfe000"
definition FS_INODE_TABLE_SIZE :: nat where "FS_INODE_TABLE_SIZE = 0x1000"
definition FS_BLOCK_SIZE :: u32 where "FS_BLOCK_SIZE = 0x1"
definition FS_INODE_SIZE :: nat where "FS_INODE_SIZE = 0x40"
definition FS_DENTRY_SIZE :: nat where "FS_DENTRY_SIZE = 0x20"
definition DENTRYS_PER_BLOCK :: nat where "DENTRYS_PER_BLOCK = 16"
definition FD_NUM :: nat where "FD_NUM = 0x10"
definition ROOT_DIR_INO :: u32 where "ROOT_DIR_INO = 0"

lemmas fs_consts = FS_BASE_def SECTOR_SIZE_def FS_DATA_BASE_def FS_SUPERBLOCK_BASE_def
  FS_INODE_MAP_BASE_def FS_INODE_MAP_SIZE_def FS_INODE_TABLE_BASE_def FS_INODE_TABLE_SIZE_def
  FS_BLOCK_SIZE_def FS_INODE_SIZE_def FS_DENTRY_SIZE_def DENTRYS_PER_BLOCK_def FD_NUM_def

text \<open>Offsets of the fields of \<open>inode_entry_t\<close> and \<open>dentry_t\<close>.\<close>

definition inode_name :: nat where "inode_name = 0"
definition inode_ino :: nat where "inode_ino = 32"
definition inode_size :: nat where "inode_size = 36"
definition inode_mode :: nat where "inode_mode = 40"
definition inode_timestamp :: nat where "inode_timestamp = 44"
definition inode_father_ino :: nat where "inode_father_ino = 48"
definition inode_ptr :: nat where "inode_ptr = 52"

definition dentry_ino :: nat where "dentry_ino = 0"
definition dentry_mode :: nat where "dentry_mode = 4"
definition dentry_name :: nat where "dentry_name = 8"

lemmas inode_offsets = inode_name_def inode_ino_def inode_size_def inode_mode_def
  inode_timestamp_def inode_father_ino_def inode_ptr_def

lemmas dentry_offsets = dentry_ino_def dentry_mode_def dentry_name_def

definition mode_file :: u32 where "mode_file = 0"
definition mode_dir :: u32 where "mode_dir = 1"

section \<open>State\<close>

text \<open>The firmware's card driver.\<close>

record 'd sd =
  sdread :: "u32 \<Rightarrow> u32 \<Rightarrow> 'd \<Rightarrow> u8 list"
  sdwrite :: "u8 list \<Rightarrow> u32 \<Rightarrow> u32 \<Rightarrow> 'd \<Rightarrow> 'd"

text \<open>
  The globals of the file system. The words of \<open>superblock\<close> (7) and of \<open>inode_map\<close> (1024)
  are kept as lists; in the linked kernel the map begins right behind the superblock
  (\<^verbatim>\<open>kernel.txt\<close>), which is where a transfer of a whole sector at the superblock goes on.
  \<open>fs_timer\<close> is the value of \<open>get_timer()\<close>; \<open>fs_log\<close> collects the formats and the
  arguments that \<open>printf\<close> was given.
\<close>

record 'd fs =
  card :: 'd
  superblock :: "u32 list"
  inode_map :: "u32 list"
  fd :: "(u32 \<times> u32) list"
  fd_index :: u32
  shell_path_inode :: "u8 list"
  shell_path_head :: "u8 list"
  cur_dir :: "u8 list"
  fs_timer :: u32
  fs_log :: "(string \<times> parg list) list"

section \<open>Operations\<close>

definition do_sdread :: "'d sd \<Rightarrow> u32 \<Rightarrow> u32 \<Rightarrow> 'd \<Rightarrow> u8 list" where
  "do_sdread S offset sz d = sdread S (offset + FS_BASE * SECTOR_SIZE) sz d"

definition do_sdwrite :: "'d sd \<Rightarrow> u8 list \<Rightarrow> u32 \<Rightarrow> u32 \<Rightarrow> 'd \<Rightarrow> 'd" where
  "do_sdwrite S src offset sz d = sdwrite S src (offset + FS_BASE * SECTOR_SIZE) sz d"

definition sector_write :: "'d sd \<Rightarrow> u8 list \<Rightarrow> u32 \<Rightarrow> 'd \<Rightarrow> 'd" where
  "sector_write S src sector d = do_sdwrite S src (sector * SECTOR_SIZE) SECTOR_SIZE d"

definition sector_read :: "'d sd \<Rightarrow> u32 \<Rightarrow> 'd \<Rightarrow> u8 list" where
  "sector_read S sector d = do_sdread S (sector * SECTOR_SIZE) SECTOR_SIZE d"

text \<open>\<open>check_ino\<close>, for an \<open>int\<close> and for an unsigned inode number.\<close>

definition bad_ino :: "u32 \<Rightarrow> bool" where
  "bad_ino ino \<longleftrightarrow> sint ino < 0 \<or> sint ino \<ge> int (FS_INODE_TABLE_SIZE * 0x8)"

definition bad_uino :: "u32 \<Rightarrow> bool" where
  "bad_uino ino \<longleftrightarrow> unat ino \<ge> FS_INODE_TABLE_SIZE * 0x8"

definition inode_write :: "'d sd \<Rightarrow> u8 list \<Rightarrow> u32 \<Rightarrow> 'd fs \<Rightarrow> 'd fs" where
  "inode_write S src ino s =
    (if bad_ino ino then s
     else
       let sector = ino div 8 + FS_INODE_TABLE_BASE;
           offset = unat (ino mod 8);
           ie = sector_read S sector (card s);
           ie = put_bytes ie (FS_INODE_SIZE * offset) src
       in s\<lparr>card := sector_write S ie sector (card s)\<rparr>)"

definition inode_read :: "'d sd \<Rightarrow> u8 list \<Rightarrow> u32 \<Rightarrow> 'd fs \<Rightarrow> u8 list" where
  "inode_read S dest ino s =
    (if bad_ino ino then dest
     else do_sdread S (FS_INODE_TABLE_BASE * SECTOR_SIZE + ino * of_nat FS_INODE_SIZE)
            (of_nat FS_INODE_SIZE) (card s))"

definition inode_map_read :: "'d sd \<Rightarrow> 'd fs \<Rightarrow> 'd fs" where
  "inode_map_read S s =
    fold (\<lambda>i s. s\<lparr>inode_map :=
        take (0x80 * i) (inode_map s) @
        words_of (sector_read S (FS_INODE_MAP_BASE + of_nat i) (card s)) @
        drop (0x80 * i + 0x80) (inode_map s)\<rparr>)
      [0..<FS_INODE_MAP_SIZE] s"

definition inode_map_write :: "'d sd \<Rightarrow> 'd fs \<Rightarrow> 'd fs" where
  "inode_map_write S s =
    fold (\<lambda>i s. s\<lparr>card := sector_write S (bytes_of (take 0x80 (drop (0x80 * i) (inode_map s))))
        (FS_INODE_MAP_BASE + of_nat i) (card s)\<rparr>)
      [0..<FS_INODE_MAP_SIZE] s"

definition inode_alloc :: "'d sd \<Rightarrow> 'd fs \<Rightarrow> (int \<times> 'd fs) option" where
  "inode_alloc S s = do {
     i \<leftarrow> bitmap_search (inode_map s) 0 (FS_INODE_TABLE_SIZE * 0x08);
     (r, m) \<leftarrow> bitmap_modify (inode_map s) 1 i;
     Some (i, inode_map_write S (s\<lparr>inode_map := m\<rparr>))
   }"

definition inode_free :: "'d sd \<Rightarrow> u32 \<Rightarrow> 'd fs \<Rightarrow> 'd fs option" where
  "inode_free S ino s =
    (if bad_uino ino then Some s
     else do {
       (r, m) \<leftarrow> bitmap_modify (inode_map s) 0 (uint ino);
       Some (inode_map_write S (s\<lparr>inode_map := m\<rparr>))
     })"

text \<open>A sector is 128 words; the superblock takes 7 of them, the inode map the others.\<close>

definition superblock_read :: "'d sd \<Rightarrow> 'd fs \<Rightarrow> 'd fs" where
  "superblock_read S s =
    (let ws = words_of (sector_read S FS_SUPERBLOCK_BASE (card s))
     in s\<lparr>superblock := take 7 ws, inode_map := drop 7 ws @ drop 121 (inode_map s)\<rparr>)"

definition superblock_write :: "'d sd \<Rightarrow> 'd fs \<Rightarrow> 'd fs" where
  "superblock_write S s =
    s\<lparr>card := sector_write S (bytes_of (superblock s @ take 121 (inode_map s))) FS_SUPERBLOCK_BASE (card s)\<rparr>"

text \<open>A block is one sector (\<open>FS_BLOCK_SIZE\<close> is 1): a file's words or a directory's entries.\<close>

definition file_block_read :: "'d sd \<Rightarrow> u32 \<Rightarrow> 'd fs \<Rightarrow> u8 list" where
  "file_block_read S ino s = sector_read S (ino * FS_BLOCK_SIZE + FS_DATA_BASE + 0) (card s)"

definition file_block_write :: "'d sd \<Rightarrow> u8 list \<Rightarrow> u32 \<Rightarrow> 'd fs \<Rightarrow> 'd fs" where
  "file_block_write S fb ino s =
    s\<lparr>card := sector_write S fb (ino * FS_BLOCK_SIZE + FS_DATA_BASE + 0) (card s)\<rparr>"

definition dir_block_read :: "'d sd \<Rightarrow> u32 \<Rightarrow> 'd fs \<Rightarrow> u8 list" where
  "dir_block_read S ino s = sector_read S (ino * FS_BLOCK_SIZE + FS_DATA_BASE + 0) (card s)"

definition dir_block_write :: "'d sd \<Rightarrow> u8 list \<Rightarrow> u32 \<Rightarrow> 'd fs \<Rightarrow> 'd fs" where
  "dir_block_write S db ino s =
    s\<lparr>card := sector_write S db (ino * FS_BLOCK_SIZE + FS_DATA_BASE + 0) (card s)\<rparr>"

section \<open>Sectors\<close>

text \<open>
  A store of numbered sectors: what was written is read back, and writing one sector leaves the
  others alone. Structures inside a sector are changed by reading, patching and writing.
\<close>

locale sector_store =
  fixes rd :: "'d \<Rightarrow> nat \<Rightarrow> u8 list"
    and wr :: "'d \<Rightarrow> nat \<Rightarrow> u8 list \<Rightarrow> 'd"
    and limit :: nat
  assumes rd_length: "k < limit \<Longrightarrow> length (rd d k) = 512"
    and rd_wr: "k < limit \<Longrightarrow> j < limit \<Longrightarrow> length b = 512 \<Longrightarrow>
      rd (wr d k b) j = (if j = k then b else rd d j)"
begin

text \<open>Patching \<open>n\<close> bytes at offset \<open>off\<close> of a sector.\<close>

lemma patch_same:
  assumes "k < limit" and "off + length bs \<le> 512"
  shows "get_bytes (rd (wr d k (put_bytes (rd d k) off bs)) k) off (length bs) = bs"
  using assms by (simp add: rd_wr rd_length)

lemma patch_other:
  assumes "k < limit" and "j < limit" and "off + length bs \<le> 512" and "o' + n \<le> 512"
    and "j \<noteq> k \<or> o' + n \<le> off \<or> off + length bs \<le> o'"
  shows "get_bytes (rd (wr d k (put_bytes (rd d k) off bs)) j) o' n = get_bytes (rd d j) o' n"
  using assms by (auto simp: rd_wr rd_length get_put_other)

text \<open>Writing a run of sectors.\<close>

lemma rd_write_run:
  assumes "\<forall>i \<in> set is. k + i < limit \<and> length (f i) = 512" and "j < limit" and "distinct is"
  shows "rd (fold (\<lambda>i d. wr d (k + i) (f i)) is d) j =
    (if \<exists>i \<in> set is. j = k + i then f (j - k) else rd d j)"
  using assms by (induction "is" arbitrary: d) (auto simp: rd_wr)

end

text \<open>What the file system relies on: the card is an array of bytes.\<close>

locale sd_card =
  fixes S :: "'d sd" and byte :: "'d \<Rightarrow> u32 \<Rightarrow> u8"
  assumes read_bytes: "sdread S off n d = map (\<lambda>i. byte d (off + word_of_nat i)) [0..<unat n]"
    and write_bytes: "unat n \<le> length bs \<Longrightarrow> byte (sdwrite S bs off n d) a =
      (if unat (a - off) < unat n then bs ! unat (a - off) else byte d a)"
begin

text \<open>Byte \<open>n\<close> of the partition, which begins at 0x20000000.\<close>

definition pbyte :: "'d \<Rightarrow> nat \<Rightarrow> u8" where
  "pbyte d n = byte d (word_of_nat (0x20000000 + n))"

lemma sector_read_eq:
  "sector_read S (word_of_nat k) d = map (\<lambda>i. pbyte d (512 * k + i)) [0..<512]"
proof -
  have "unat SECTOR_SIZE = 512" by (simp add: SECTOR_SIZE_def)
  moreover have "word_of_nat k * SECTOR_SIZE + FS_BASE * SECTOR_SIZE + word_of_nat i =
      word_of_nat (0x20000000 + (512 * k + i))" for i
    by (simp add: fs_consts)
  ultimately show ?thesis by (simp add: sector_read_def do_sdread_def read_bytes pbyte_def add.assoc)
qed

lemma sector_write_byte:
  assumes "length b = 512" and "n < 0xe0000000" and "k < 0x700000"
  shows "pbyte (sector_write S b (word_of_nat k) d) n =
    (if 512 * k \<le> n \<and> n < 512 * k + 512 then b ! (n - 512 * k) else pbyte d n)"
proof -
  let ?a = "word_of_nat (0x20000000 + n) :: u32" and ?o = "word_of_nat (0x20000000 + 512 * k) :: u32"
  have "unat (?a - ?o) = (if 512 * k \<le> n then n - 512 * k else 4294967296 + n - 512 * k)"
    using unat_word_diff[of "0x20000000 + n" "0x20000000 + 512 * k"] assms(2,3) by simp
  then have off: "unat (?a - ?o) < 512 \<longleftrightarrow> 512 * k \<le> n \<and> n < 512 * k + 512"
    and sub: "512 * k \<le> n \<Longrightarrow> unat (?a - ?o) = n - 512 * k"
    using assms(2,3) by (auto simp only: split: if_splits)
  have n: "unat SECTOR_SIZE = 512" by (simp add: SECTOR_SIZE_def)
  have o: "word_of_nat k * SECTOR_SIZE + FS_BASE * SECTOR_SIZE = ?o"
    by (simp add: fs_consts algebra_simps)
  show ?thesis
    unfolding pbyte_def sector_write_def do_sdwrite_def o
    using assms(1) off sub by (simp add: write_bytes n del: of_nat_add of_nat_mult)
qed

end

text \<open>The sectors of the partition that a 32-bit byte offset can reach.\<close>

definition num_sectors :: nat where
  "num_sectors = 0x700000"

sublocale sd_card \<subseteq> sectors: sector_store "\<lambda>d k. sector_read S (word_of_nat k) d"
  "\<lambda>d k b. sector_write S b (word_of_nat k) d" num_sectors
proof
  fix k j :: nat and d :: 'd and b :: "u8 list"
  show "length (sector_read S (word_of_nat k) d) = 512" by (simp add: sector_read_eq)
  assume k: "k < num_sectors" "j < num_sectors" and b: "length b = 512"
  have "pbyte (sector_write S b (word_of_nat k) d) (512 * j + i) =
      (if j = k then b ! i else pbyte d (512 * j + i))" if "i < 512" for i
  proof -
    have "512 * k \<le> 512 * j + i \<and> 512 * j + i < 512 * k + 512 \<longleftrightarrow> j = k"
      using that by auto
    then show ?thesis
      using k that by (auto simp: sector_write_byte[OF b] num_sectors_def)
  qed
  then show "sector_read S (word_of_nat j) (sector_write S b (word_of_nat k) d) =
      (if j = k then b else sector_read S (word_of_nat j) d)"
    using b by (auto simp: sector_read_eq intro!: nth_equalityI)
qed

text \<open>A card in memory, which shows that the laws can hold.\<close>

definition ram_card :: "(u32 \<Rightarrow> u8) sd" where
  "ram_card = \<lparr>sdread = (\<lambda>off n d. map (\<lambda>i. d (off + word_of_nat i)) [0..<unat n]),
     sdwrite = (\<lambda>bs off n d a. if unat (a - off) < unat n then bs ! unat (a - off) else d a)\<rparr>"

interpretation ram: sd_card ram_card "\<lambda>d a. d a"
  by unfold_locales (simp_all add: ram_card_def)

section \<open>Inodes\<close>

lemma good_ino: "k < 0x8000 \<Longrightarrow> \<not> bad_ino (word_of_nat k)"
  by (simp add: bad_ino_def sint_word_small fs_consts)

text \<open>Inode \<open>k\<close> is a slice of sector 0xfe000 + k/8.\<close>

definition inode_sector :: "nat \<Rightarrow> nat" where
  "inode_sector k = 0xfe000 + k div 8"

definition inode_off :: "nat \<Rightarrow> nat" where
  "inode_off k = 64 * (k mod 8)"

lemma inode_off_bound: "inode_off k + 64 \<le> 512"
  using mod_less_divisor[of 8 k] unfolding inode_off_def by linarith

lemma inode_sector_bound: "k < 0x8000 \<Longrightarrow> inode_sector k < num_sectors"
  by (simp add: inode_sector_def num_sectors_def)

lemma inode_write_eq:
  assumes "k < 0x8000"
  shows "inode_write S src (word_of_nat k) s = s\<lparr>card := sector_write S
    (put_bytes (sector_read S (word_of_nat (inode_sector k)) (card s)) (inode_off k) src)
    (word_of_nat (inode_sector k)) (card s)\<rparr>"
proof -
  have "word_of_nat k div 8 + FS_INODE_TABLE_BASE = word_of_nat (inode_sector k)"
    using assms by (simp add: word_div_nat fs_consts inode_sector_def)
  then show ?thesis
    using assms good_ino[OF assms]
    by (simp add: inode_write_def Let_def word_mod_nat inode_off_def FS_INODE_SIZE_def)
qed

context sd_card
begin

lemma inode_read_eq:
  assumes "k < 0x8000"
  shows "inode_read S dest (word_of_nat k) s =
    get_bytes (sector_read S (word_of_nat (inode_sector k)) (card s)) (inode_off k) 64"
proof -
  have n: "unat (word_of_nat FS_INODE_SIZE :: u32) = 64" by (simp add: FS_INODE_SIZE_def)
  have a: "FS_INODE_TABLE_BASE * SECTOR_SIZE + word_of_nat k * word_of_nat FS_INODE_SIZE + FS_BASE * SECTOR_SIZE +
      word_of_nat i = word_of_nat (0x20000000 + (512 * inode_sector k + inode_off k + i))" for i
  proof -
    define q r where "q = k div 8" and "r = k mod 8"
    have k: "k = q * 8 + r" by (simp add: q_def r_def)
    have "512 * (0xfe000 + q) + 64 * r = 0x1fc00000 + 64 * k" unfolding k by simp
    then have "512 * inode_sector k + inode_off k = 0x1fc00000 + 64 * k"
      unfolding inode_sector_def inode_off_def q_def r_def .
    then show ?thesis by (simp only: of_nat_add) (simp add: fs_consts)
  qed
  have "inode_read S dest (word_of_nat k) s = map (\<lambda>i. pbyte (card s) (512 * inode_sector k + inode_off k + i)) [0..<64]"
    using good_ino[OF assms] by (simp only: inode_read_def do_sdread_def read_bytes n a pbyte_def if_False)
  also have "\<dots> = get_bytes (sector_read S (word_of_nat (inode_sector k)) (card s)) (inode_off k) 64"
    using inode_off_bound[of k] by (intro nth_equalityI) (simp_all add: sector_read_eq nth_get_bytes add.assoc)
  finally show ?thesis .
qed

lemma inode_read_length: "k < 0x8000 \<Longrightarrow> length (inode_read S dest (word_of_nat k) s) = 64"
  using inode_off_bound[of k] inode_sector_bound[of k]
  by (simp add: inode_read_eq sectors.rd_length)

lemma inode_read_write:
  assumes "k < 0x8000" and "j < 0x8000" and "length src = 64"
  shows "inode_read S dest (word_of_nat j) (inode_write S src (word_of_nat k) s) =
    (if j = k then src else inode_read S dest (word_of_nat j) s)"
proof -
  have "j = k \<longleftrightarrow> inode_sector j = inode_sector k \<and> j mod 8 = k mod 8"
    by (auto simp: inode_sector_def) (metis div_mult_mod_eq)
  moreover have "inode_off j + 64 \<le> inode_off k \<or> inode_off k + 64 \<le> inode_off j" if "j mod 8 \<noteq> k mod 8"
    using that by (auto simp: inode_off_def)
  ultimately show ?thesis
    using assms sectors.patch_same[OF inode_sector_bound, of k "inode_off k" src "card s"]
      sectors.patch_other[OF inode_sector_bound inode_sector_bound, of k j "inode_off k" src "inode_off j" 64 "card s"]
      inode_off_bound[of j] inode_off_bound[of k]
    by (auto simp: inode_write_eq inode_read_eq)
qed

text \<open>Writing an inode changes no sector outside the inode table.\<close>

lemma sector_inode_write:
  assumes "k < 0x8000" and "length src = 64" and "j < num_sectors" and "j < 0xfe000 \<or> 0xff000 \<le> j"
  shows "sector_read S (word_of_nat j) (card (inode_write S src (word_of_nat k) s)) =
    sector_read S (word_of_nat j) (card s)"
proof -
  have "j \<noteq> inode_sector k" using assms(1,4) by (auto simp: inode_sector_def)
  then show ?thesis
    using assms inode_off_bound[of k] inode_sector_bound[of k]
    by (simp add: inode_write_eq sectors.rd_wr sectors.rd_length)
qed

end

section \<open>The inode map and the superblock\<close>

text \<open>What the kernel's globals look like: sizes of the C arrays.\<close>

definition fs_wf :: "'d fs \<Rightarrow> bool" where
  "fs_wf s \<longleftrightarrow> length (superblock s) = 7 \<and> length (inode_map s) = 1024 \<and> length (fd s) = 16 \<and>
    length (shell_path_inode s) = 64 \<and> length (shell_path_head s) = 128 \<and> length (cur_dir s) = 64"

text \<open>Sector \<open>k\<close> of the partition, and the words of the map as they are on the card.\<close>

abbreviation sector :: "'d sd \<Rightarrow> 'd fs \<Rightarrow> nat \<Rightarrow> u8 list" where
  "sector S s k \<equiv> sector_read S (word_of_nat k) (card s)"

definition card_map :: "'d sd \<Rightarrow> 'd fs \<Rightarrow> u32 list" where
  "card_map S s = concat (map (\<lambda>i. words_of (sector S s (0xfdff8 + i))) [0..<8])"

lemma inode_map_write_state:
  "inode_map_write S s = s\<lparr>card := fold (\<lambda>i d. sector_write S (bytes_of (take 0x80 (drop (0x80 * i) (inode_map s))))
     (word_of_nat (0xfdff8 + i)) d) [0..<8] (card s)\<rparr>"
proof -
  have "fold (\<lambda>i s. s\<lparr>card := sector_write S (bytes_of (take 0x80 (drop (0x80 * i) (inode_map s))))
        (FS_INODE_MAP_BASE + of_nat i) (card s)\<rparr>) is s =
      s\<lparr>card := fold (\<lambda>i d. sector_write S (bytes_of (take 0x80 (drop (0x80 * i) (inode_map s))))
        (word_of_nat (0xfdff8 + i)) d) is (card s)\<rparr>" for "is"
    by (induction "is" arbitrary: s) (simp_all add: FS_INODE_MAP_BASE_def)
  then show ?thesis by (simp only: inode_map_write_def FS_INODE_MAP_SIZE_def)
qed

lemma concat_chunks: "concat (map (\<lambda>i. take m (drop (m * i) xs)) [0..<n]) = take (m * n) xs"
  by (induction n) (simp_all add: take_add add.commute[of m])

context sd_card
begin

lemma sector_map_write:
  assumes "length (inode_map s) = 1024" and "j < num_sectors"
  shows "sector S (inode_map_write S s) j =
    (if 0xfdff8 \<le> j \<and> j < 0xfe000 then bytes_of (take 0x80 (drop (0x80 * (j - 0xfdff8)) (inode_map s))) else sector S s j)"
proof -
  let ?f = "\<lambda>i. bytes_of (take 0x80 (drop (0x80 * i) (inode_map s)))"
  have "\<forall>i \<in> set [0..<8]. 0xfdff8 + i < num_sectors \<and> length (?f i) = 512"
    using assms(1) by (auto simp: num_sectors_def)
  from sectors.rd_write_run[OF this assms(2), of "card s"]
  have "sector S (inode_map_write S s) j =
      (if \<exists>i \<in> set [0..<8]. j = 0xfdff8 + i then ?f (j - 0xfdff8) else sector S s j)"
    by (simp add: inode_map_write_state del: upt_Suc)
  moreover have "(\<exists>i \<in> set [0..<8]. j = 0xfdff8 + i) \<longleftrightarrow> 0xfdff8 \<le> j \<and> j < 0xfe000"
    by (auto simp: Bex_def intro!: exI[of _ "j - 0xfdff8"])
  ultimately show ?thesis by simp
qed

lemma card_map_write:
  assumes "length (inode_map s) = 1024"
  shows "card_map S (inode_map_write S s) = inode_map s"
proof -
  have "map (\<lambda>i. words_of (sector S (inode_map_write S s) (0xfdff8 + i))) [0..<8] =
      map (\<lambda>i. take 0x80 (drop (0x80 * i) (inode_map s))) [0..<8]"
    by (rule map_cong) (use assms in \<open>auto simp: sector_map_write num_sectors_def simp del: of_nat_add\<close>)
  then have "card_map S (inode_map_write S s) = concat (map (\<lambda>i. take 0x80 (drop (0x80 * i) (inode_map s))) [0..<8])"
    unfolding card_map_def by (rule arg_cong)
  then show ?thesis using assms concat_chunks[of "0x80" "inode_map s" 8] by simp
qed

lemma inode_map_read_run:
  assumes "length (inode_map s) = 1024" and "n \<le> 8"
  shows "fold (\<lambda>i s. s\<lparr>inode_map := take (0x80 * i) (inode_map s) @
        words_of (sector_read S (FS_INODE_MAP_BASE + of_nat i) (card s)) @
        drop (0x80 * i + 0x80) (inode_map s)\<rparr>) [0..<n] s =
    s\<lparr>inode_map := concat (map (\<lambda>i. words_of (sector S s (0xfdff8 + i))) [0..<n]) @ drop (0x80 * n) (inode_map s)\<rparr>"
  using assms(2)
proof (induction n)
  case (Suc n)
  have len: "length (concat (map (\<lambda>i. words_of (sector S s (0xfdff8 + i))) [0..<n])) = 0x80 * n"
    using Suc.prems
    by (simp add: length_concat o_def sector_read_eq sum_list_triv del: of_nat_add)
  show ?case
    using Suc len by (simp add: FS_INODE_MAP_BASE_def add.commute)
qed simp

lemma inode_map_read_eq:
  "length (inode_map s) = 1024 \<Longrightarrow> inode_map_read S s = s\<lparr>inode_map := card_map S s\<rparr>"
  using inode_map_read_run[of s 8] by (simp add: inode_map_read_def FS_INODE_MAP_SIZE_def card_map_def del: upt_Suc)

lemma superblock_write_sector:
  assumes "fs_wf s" and "j < num_sectors"
  shows "sector S (superblock_write S s) j =
    (if j = 0xfdff7 then bytes_of (superblock s @ take 121 (inode_map s)) else sector S s j)"
  using assms sectors.rd_wr[of "0xfdff7" j "bytes_of (superblock s @ take 121 (inode_map s))" "card s"]
  by (simp add: superblock_write_def FS_SUPERBLOCK_BASE_def fs_wf_def num_sectors_def)

lemma superblock_read_eq:
  assumes "sector S s 0xfdff7 = bytes_of (sb @ m)" and "length sb = 7"
  shows "superblock_read S s = s\<lparr>superblock := sb, inode_map := m @ drop 121 (inode_map s)\<rparr>"
  using assms words_of_bytes_of[of "sb @ m"]
  by (simp add: superblock_read_def FS_SUPERBLOCK_BASE_def Let_def del: words_of_bytes_of)

lemma superblock_read_wf: "fs_wf s \<Longrightarrow> fs_wf (superblock_read S s)"
  using sectors.rd_length[of "0xfdff7" "card s"]
  by (simp add: superblock_read_def FS_SUPERBLOCK_BASE_def Let_def fs_wf_def num_sectors_def)

end

text \<open>Allocation and release of inodes, on the bits of the map.\<close>

lemma modify_map_bits:
  assumes "length bm = 1024" and "k < 0x8000"
  shows "\<exists>m. bitmap_modify bm (if b then 1 else 0) (int k) = Some (0, m) \<and> length m = 1024 \<and>
    (\<forall>i < 0x8000. map_bit m i = (if i = k then b else map_bit bm i))"
proof -
  have "k < 32 * length bm" using assms by simp
  then show ?thesis by (rule bitmap_modify_bits[of k bm b]) (use assms(1) in auto)
qed

lemma inode_alloc_cases:
  fixes S :: "'d sd" and s :: "'d fs"
  assumes "length (inode_map s) = 1024"
  obtains (full) "\<forall>k < 0x8000. map_bit (inode_map s) k" "inode_alloc S s = None"
    | (free) i m where "i < 0x8000" "\<not> map_bit (inode_map s) i" "\<forall>k < i. map_bit (inode_map s) k"
        "inode_alloc S s = Some (int i, inode_map_write S (s\<lparr>inode_map := m\<rparr>))" "length m = 1024"
        "\<forall>k < 0x8000. map_bit m k = (k = i \<or> map_bit (inode_map s) k)"
proof -
  have n: "FS_INODE_TABLE_SIZE * 8 = 0x8000" by (simp add: FS_INODE_TABLE_SIZE_def)
  have search: "bitmap_search (inode_map s) 0 0x8000 =
      (case find (\<lambda>k. \<not> map_bit (inode_map s) k) [0..<0x8000] of Some k \<Rightarrow> Some (int k) | None \<Rightarrow> Some (- 2))"
    using bitmap_search_find[of "0x8000" "inode_map s" False] assms by simp
  show thesis
  proof (cases "find (\<lambda>k. \<not> map_bit (inode_map s) k) [0..<0x8000]")
    case None
    then have "\<forall>k < 0x8000. map_bit (inode_map s) k" by (auto simp: find_None_iff)
    then show thesis
      using full search None by (simp add: inode_alloc_def n bitmap_modify_def)
  next
    case (Some i)
    then have i: "i < 0x8000" "\<not> map_bit (inode_map s) i" "\<forall>k < i. map_bit (inode_map s) k"
      by (auto simp: find_Some_iff)
    from i(1) assms obtain m where m: "bitmap_modify (inode_map s) 1 (int i) = Some (0, m)" "length m = 1024"
      "\<forall>k < 0x8000. map_bit m k = (k = i \<or> map_bit (inode_map s) k)"
      using modify_map_bits[of "inode_map s" i True] by auto
    have "inode_alloc S s = Some (int i, inode_map_write S (s\<lparr>inode_map := m\<rparr>))"
      using search Some m(1) by (simp add: inode_alloc_def n)
    then show thesis by (rule free[OF i _ m(2,3)])
  qed
qed

lemma inode_free_ok:
  assumes "length (inode_map s) = 1024" and "k < 0x8000"
  obtains m where "inode_free S (word_of_nat k) s = Some (inode_map_write S (s\<lparr>inode_map := m\<rparr>))" "length m = 1024"
    "\<forall>i < 0x8000. map_bit m i = (i \<noteq> k \<and> map_bit (inode_map s) i)"
proof -
  have u: "uint (word_of_nat k :: u32) = int k" "\<not> bad_uino (word_of_nat k)"
    using assms(2) by (simp_all add: uint_nat unat_word_small bad_uino_def fs_consts)
  from assms obtain m where "bitmap_modify (inode_map s) 0 (int k) = Some (0, m)" "length m = 1024"
    "\<forall>i < 0x8000. map_bit m i = (i \<noteq> k \<and> map_bit (inode_map s) i)"
    using modify_map_bits[of "inode_map s" k False] by auto
  with u show thesis by (intro that[of m]) (simp_all add: inode_free_def)
qed

lemma inode_map_write_frame [simp]:
  "inode_map (inode_map_write S s) = inode_map s" "superblock (inode_map_write S s) = superblock s"
  "fd (inode_map_write S s) = fd s" "fd_index (inode_map_write S s) = fd_index s"
  "shell_path_inode (inode_map_write S s) = shell_path_inode s" "cur_dir (inode_map_write S s) = cur_dir s"
  "shell_path_head (inode_map_write S s) = shell_path_head s" "fs_timer (inode_map_write S s) = fs_timer s"
  "fs_log (inode_map_write S s) = fs_log s" "fs_wf (inode_map_write S s) = fs_wf s"
  by (simp_all add: inode_map_write_state fs_wf_def)


section \<open>Properties\<close>

text \<open>
  An inode that is written is read back, byte for byte, and no other inode changes, although
  eight inodes share a sector that is read, patched and rewritten; data blocks, the superblock
  and the inode map are not touched.
\<close>

theorem inode_round_trip:
  assumes "sd_card S byte" and "k < 0x8000" and "j < 0x8000" and "length src = 64" and "b < 0xfe000"
  shows "inode_read S dest (word_of_nat j) (inode_write S src (word_of_nat k) s) =
      (if j = k then src else inode_read S dest (word_of_nat j) s) \<and>
    sector_read S (word_of_nat b) (card (inode_write S src (word_of_nat k) s)) =
      sector_read S (word_of_nat b) (card s)"
  using sd_card.inode_read_write[OF assms(1-4)] sd_card.sector_inode_write[OF assms(1,2,4), of b] assms(5)
  by (simp add: num_sectors_def)

definition sample_fs :: "(u32 \<Rightarrow> u8) fs" where
  "sample_fs = \<lparr>card = (\<lambda>_. 0), superblock = replicate 7 0, inode_map = replicate 1024 0,
     fd = replicate 16 (0, 0), fd_index = 0, shell_path_inode = replicate 64 0,
     shell_path_head = replicate 128 0, cur_dir = replicate 64 0, fs_timer = 5, fs_log = []\<rparr>"

theorem inode_round_trip_witness:
  "inode_read ram_card [] (word_of_nat 9) (inode_write ram_card (replicate 64 7) (word_of_nat 9) sample_fs) =
   replicate 64 7"
  using inode_round_trip[OF ram.sd_card_axioms, of 9 9 "replicate 64 7" 0 "[]" sample_fs] by simp

text \<open>
  C19: Allocation takes the lowest free inode, marks that one and no other as used, and leaves
  the map on the card as it is in memory, so that reading the map gives back what was allocated;
  no sector outside the map changes. With no free inode the code goes on with -2, a negative
  shift.
\<close>

theorem inode_alloc_fresh:
  assumes "sd_card S byte" and "fs_wf s"
  shows "case inode_alloc S s of
      None \<Rightarrow> \<forall>k < 0x8000. map_bit (inode_map s) k
    | Some (i, s') \<Rightarrow> 0 \<le> i \<and> nat i < 0x8000 \<and> \<not> map_bit (inode_map s) (nat i) \<and>
        (\<forall>k < nat i. map_bit (inode_map s) k) \<and>
        (\<forall>k < 0x8000. map_bit (inode_map s') k = (k = nat i \<or> map_bit (inode_map s) k)) \<and>
        inode_map (inode_map_read S s') = inode_map s' \<and>
        (\<forall>b < num_sectors. b < 0xfdff8 \<or> 0xfe000 \<le> b \<longrightarrow> sector S s' b = sector S s b)"
proof -
  have len: "length (inode_map s) = 1024" using assms(2) by (simp add: fs_wf_def)
  then show ?thesis
  proof (cases rule: inode_alloc_cases[where S = S])
    case full
    then show ?thesis by simp
  next
    case (free i m)
    then show ?thesis
      using sd_card.sector_map_write[OF assms(1), of "s\<lparr>inode_map := m\<rparr>"]
        sd_card.card_map_write[OF assms(1), of "s\<lparr>inode_map := m\<rparr>"]
        sd_card.inode_map_read_eq[OF assms(1), of "inode_map_write S (s\<lparr>inode_map := m\<rparr>)"]
      by (auto simp del: of_nat_add)
  qed
qed

lemma sample_fs_wf: "fs_wf sample_fs"
  by (simp add: fs_wf_def sample_fs_def)

lemma sample_fs_free: "\<not> map_bit (inode_map sample_fs) 0"
  by (simp add: map_bit_def sample_fs_def)

theorem inode_alloc_fresh_witness:
  "\<exists>i s'. inode_alloc ram_card sample_fs = Some (i, s') \<and> inode_map (inode_map_read ram_card s') = inode_map s'"
  using inode_alloc_fresh[OF ram.sd_card_axioms sample_fs_wf] sample_fs_free
  by (force split: option.splits)

text \<open>
  Freeing an allocated inode restores the map: the same bits are set as before the
  allocation, in memory and on the card.
\<close>

theorem inode_alloc_free:
  assumes "sd_card S byte" and "fs_wf s" and "inode_alloc S s = Some (i, s')"
  shows "\<exists>s''. inode_free S (word_of_int i) s' = Some s'' \<and>
    (\<forall>k < 0x8000. map_bit (inode_map s'') k = map_bit (inode_map s) k) \<and>
    inode_map (inode_map_read S s'') = inode_map s''"
proof -
  have len: "length (inode_map s) = 1024" using assms(2) by (simp add: fs_wf_def)
  then show ?thesis
  proof (cases rule: inode_alloc_cases[where S = S])
    case full
    then show ?thesis using assms(3) by simp
  next
    case (free n m)
    then have i: "word_of_int i = (word_of_nat n :: u32)" and s': "inode_map s' = m" using assms(3) by auto
    obtain m' where m': "inode_free S (word_of_nat n) s' = Some (inode_map_write S (s'\<lparr>inode_map := m'\<rparr>))"
      "length m' = 1024" "\<forall>k < 0x8000. map_bit m' k = (k \<noteq> n \<and> map_bit (inode_map s') k)"
      using inode_free_ok[of s' n S] s' free(1,5) by metis
    then show ?thesis
      unfolding i using free(2,6) s' sd_card.card_map_write[OF assms(1), of "s'\<lparr>inode_map := m'\<rparr>"]
        sd_card.inode_map_read_eq[OF assms(1), of "inode_map_write S (s'\<lparr>inode_map := m'\<rparr>)"]
      by (intro exI conjI) auto
  qed
qed

theorem inode_alloc_free_witness:
  "\<exists>i s' s''. inode_alloc ram_card sample_fs = Some (i, s') \<and> inode_free ram_card (word_of_int i) s' = Some s'' \<and>
    \<not> map_bit (inode_map s'') 0"
proof -
  obtain i s' where a: "inode_alloc ram_card sample_fs = Some (i, s')"
    using inode_alloc_cases[of sample_fs ram_card] sample_fs_free sample_fs_wf by (force simp: fs_wf_def)
  show ?thesis using inode_alloc_free[OF ram.sd_card_axioms sample_fs_wf a] a sample_fs_free by auto
qed

end
