(* ===== verification/Dentry.thy ===== *)
theory Dentry
  imports Disk
begin

text \<open>
  Directory blocks (\<open>dir_block_t\<close> and \<open>dentry_t\<close> of \<^verbatim>\<open>include/os/fs.h\<close>): the accesses to
  entries that \<^verbatim>\<open>fs.c\<close>, \<^verbatim>\<open>path.c\<close> and \<^verbatim>\<open>text.c\<close> share, and what they do to the
  list of entries that a block stands for.
\<close>

section \<open>Operations\<close>

text \<open>\<open>strcpy\<close> to an array inside a structure: the bytes that follow the array are part of the
  structure and are overwritten by a longer string.\<close>

definition strcpy_at :: "u8 list \<Rightarrow> nat \<Rightarrow> u8 list \<Rightarrow> u8 list option" where
  "strcpy_at buf off src = do { d \<leftarrow> strcpy (drop off buf) src; Some (take off buf @ d) }"

text \<open>Entry \<open>i\<close> of a directory block; a name is a pointer into the block.\<close>

definition d_ino :: "u8 list \<Rightarrow> nat \<Rightarrow> u32" where
  "d_ino db i = get32 db (FS_DENTRY_SIZE * i + dentry_ino)"

definition d_mode :: "u8 list \<Rightarrow> nat \<Rightarrow> u32" where
  "d_mode db i = get32 db (FS_DENTRY_SIZE * i + dentry_mode)"

definition d_name :: "u8 list \<Rightarrow> nat \<Rightarrow> u8 list" where
  "d_name db i = drop (FS_DENTRY_SIZE * i + dentry_name) db"

text \<open>A loop over the entries that ends at the first one with a property; an entry outside the
  block cannot be read.\<close>

fun scan_dentries :: "(nat \<Rightarrow> bool option) \<Rightarrow> nat list \<Rightarrow> nat option option" where
  "scan_dentries P [] = Some None"
| "scan_dentries P (i # is) = do { b \<leftarrow> P i; if b then Some (Some i) else scan_dentries P is }"

definition d_free :: "u8 list \<Rightarrow> nat \<Rightarrow> bool option" where
  "d_free db i = (if i < DENTRYS_PER_BLOCK then Some (d_ino db i = - 1) else None)"

definition d_match :: "u8 list \<Rightarrow> (u32 \<Rightarrow> bool) \<Rightarrow> u8 list \<Rightarrow> nat \<Rightarrow> bool option" where
  "d_match db mode_ok name i =
    (if i < DENTRYS_PER_BLOCK then
       if d_ino db i \<noteq> - 1 \<and> mode_ok (d_mode db i) then do { r \<leftarrow> strcmp (d_name db i) name; Some (r = 0) }
       else Some False
     else None)"

text \<open>Setting the inode number, the mode and the name of entry \<open>i\<close>.\<close>

definition d_set :: "u8 list \<Rightarrow> nat \<Rightarrow> u32 \<Rightarrow> u32 \<Rightarrow> u8 list \<Rightarrow> u8 list option" where
  "d_set db i ino mode name =
    (if i < DENTRYS_PER_BLOCK then
       let db = put32 db (FS_DENTRY_SIZE * i + dentry_ino) ino;
           db = put32 db (FS_DENTRY_SIZE * i + dentry_mode) mode
       in strcpy_at db (FS_DENTRY_SIZE * i + dentry_name) name
     else None)"

section \<open>Slots\<close>

lemma put_bytes_append [simp]:
  "length a = off \<Longrightarrow> length b = length bs \<Longrightarrow> put_bytes (a @ b @ c) off bs = a @ bs @ c"
  by (auto simp: put_bytes_def)

lemma get_bytes_append [simp]: "length a = off \<Longrightarrow> length b = n \<Longrightarrow> get_bytes (a @ b @ c) off n = b"
  by (auto simp: get_bytes_def)

lemma split_at:
  assumes "n \<le> length xs"
  shows "\<exists>a b. xs = a @ b \<and> length a = n \<and> length b = length xs - n"
  by (rule exI[of _ "take n xs"], rule exI[of _ "drop n xs"]) (use assms in simp)

text \<open>The bytes of an entry, and the three fields in them.\<close>

definition slot :: "u8 list \<Rightarrow> nat \<Rightarrow> u8 list" where
  "slot db i = get_bytes db (32 * i) 32"

lemma slot_split:
  assumes "length db = 512" and "i < 16"
  obtains a n m t c where "db = a @ n @ m @ t @ c" "length a = 32 * i" "length n = 4" "length m = 4"
    "length t = 24" "length c = 480 - 32 * i" "slot db i = n @ m @ t"
proof -
  have "32 * i \<le> length db" using assms by simp
  from split_at[OF this] obtain a r where r: "db = a @ r" "length a = 32 * i" "length r = 512 - 32 * i"
    using assms(1) by auto
  have "4 \<le> length r" using r(3) assms(2) by simp
  from split_at[OF this] obtain n r2 where n: "r = n @ r2" "length n = 4" "length r2 = 508 - 32 * i"
    using r(3) by auto
  have "4 \<le> length r2" using n(3) assms(2) by simp
  from split_at[OF this] obtain m r3 where m: "r2 = m @ r3" "length m = 4" "length r3 = 504 - 32 * i"
    using n(3) by auto
  have "24 \<le> length r3" using m(3) assms(2) by simp
  from split_at[OF this] obtain t c where t: "r3 = t @ c" "length t = 24" "length c = 480 - 32 * i"
    using m(3) by auto
  show thesis
    using get_bytes_append[of a "32 * i" "n @ m @ t" 32 c] r n m t by (intro that[of a n m t c]) (simp_all add: slot_def)
qed

text \<open>What an entry stands for: nothing, or a name with a mode and an inode number.\<close>

type_synonym dent = "(u8 list \<times> u32 \<times> u32) option"

definition dent_of :: "u8 list \<Rightarrow> dent" where
  "dent_of sl = (if get32 sl 0 = - 1 then None else Some (c_string (drop 8 sl), get32 sl 4, get32 sl 0))"

definition dents :: "u8 list \<Rightarrow> dent list" where
  "dents db = map (\<lambda>i. dent_of (slot db i)) [0..<16]"

definition slot_ok :: "u8 list \<Rightarrow> bool" where
  "slot_ok sl \<longleftrightarrow> get32 sl 0 = - 1 \<or> is_string (drop 8 sl)"

definition dir_ok :: "u8 list \<Rightarrow> bool" where
  "dir_ok db \<longleftrightarrow> length db = 512 \<and> (\<forall>i < 16. slot_ok (slot db i))"

lemma length_dents [simp]: "length (dents db) = 16"
  by (simp add: dents_def)

lemma nth_dents: "i < 16 \<Longrightarrow> dents db ! i = dent_of (slot db i)"
  by (simp add: dents_def del: upt_Suc)

lemma c_string_prefix: "is_string xs \<Longrightarrow> c_string (xs @ ys) = c_string xs"
  by (induction xs) auto

lemma is_string_append: "is_string xs \<Longrightarrow> is_string (xs @ ys)"
  by (simp add: is_string_def)

lemma slot_fields:
  assumes "length db = 512" and "i < 16"
  shows "d_ino db i = get32 (slot db i) 0" and "d_mode db i = get32 (slot db i) 4"
    and "is_string (drop 8 (slot db i)) \<Longrightarrow> is_string (d_name db i) \<and> c_string (d_name db i) = c_string (drop 8 (slot db i))"
proof -
  obtain a n m t c where p: "db = a @ n @ m @ t @ c" "length a = 32 * i" "length n = 4" "length m = 4"
    "length t = 24" "length c = 480 - 32 * i" "slot db i = n @ m @ t"
    by (rule slot_split[OF assms])
  show "d_ino db i = get32 (slot db i) 0"
    using p get_bytes_append[of "[]" 0 n 4 "m @ t"]
    by (simp add: d_ino_def get32_def FS_DENTRY_SIZE_def dentry_offsets)
  show "d_mode db i = get32 (slot db i) 4"
    using p get_bytes_append[of n 4 m 4 t] get_bytes_append[of "a @ n" "32 * i + 4" m 4 "t @ c"]
    by (simp add: d_mode_def get32_def FS_DENTRY_SIZE_def dentry_offsets)
  show "is_string (d_name db i) \<and> c_string (d_name db i) = c_string (drop 8 (slot db i))"
    if "is_string (drop 8 (slot db i))"
    using that p by (simp add: d_name_def FS_DENTRY_SIZE_def dentry_offsets c_string_prefix is_string_append)
qed

lemma slot_put:
  assumes "length db = 512" and "i < 16" and "j < 16" and "length sl = 32"
  shows "slot (put_bytes db (32 * i) sl) j = (if j = i then sl else slot db j)"
proof (cases "j = i")
  case False
  then have "32 * j + 32 \<le> 32 * i \<or> 32 * i + length sl \<le> 32 * j" using assms(4) by linarith
  then show ?thesis using False assms get_put_other[of "32 * i" sl db "32 * j" 32] by (simp add: slot_def)
qed (use assms in \<open>simp add: slot_def\<close>)

lemma dir_ok_put:
  assumes "dir_ok db" and "i < 16" and "length sl = 32" and "slot_ok sl"
  shows "dir_ok (put_bytes db (32 * i) sl)" and "dents (put_bytes db (32 * i) sl) = (dents db)[i := dent_of sl]"
proof -
  have len: "length db = 512" using assms(1) by (simp add: dir_ok_def)
  have s: "slot (put_bytes db (32 * i) sl) j = (if j = i then sl else slot db j)" if "j < 16" for j
    using slot_put[OF len assms(2) that assms(3)] .
  then show "dir_ok (put_bytes db (32 * i) sl)"
    using assms len by (auto simp: dir_ok_def)
  show "dents (put_bytes db (32 * i) sl) = (dents db)[i := dent_of sl]"
    using s by (intro nth_equalityI) (auto simp: nth_dents nth_list_update)
qed

text \<open>The bytes of a filled entry; what follows the name stays.\<close>

definition slot_bytes :: "u32 \<Rightarrow> u32 \<Rightarrow> u8 list \<Rightarrow> u8 list \<Rightarrow> u8 list" where
  "slot_bytes ino mode name old =
    le32 ino @ le32 mode @ c_string name @ 0 # drop (Suc (length (c_string name))) (drop 8 old)"

lemma slot_bytes_ok:
  assumes "length old = 32" and "length (c_string name) < 24"
  shows "length (slot_bytes ino mode name old) = 32" and "slot_ok (slot_bytes ino mode name old)"
    and "ino \<noteq> - 1 \<Longrightarrow> dent_of (slot_bytes ino mode name old) = Some (c_string name, mode, ino)"
proof -
  show "length (slot_bytes ino mode name old) = 32" using assms by (simp add: slot_bytes_def)
  have d: "drop 8 (slot_bytes ino mode name old) = c_string name @ 0 # drop (Suc (length (c_string name))) (drop 8 old)"
    by (simp add: slot_bytes_def)
  then show "slot_ok (slot_bytes ino mode name old)" by (simp add: slot_ok_def is_string_def)
  have "get32 (slot_bytes ino mode name old) 0 = ino" "get32 (slot_bytes ino mode name old) 4 = mode"
    using get_bytes_append[of "[]" 0 "le32 ino" 4] get_bytes_append[of "le32 ino" 4 "le32 mode" 4]
    by (simp_all add: get32_def slot_bytes_def)
  then show "dent_of (slot_bytes ino mode name old) = Some (c_string name, mode, ino)" if "ino \<noteq> - 1"
    using that d c_string_no_zero[of name] by (simp add: dent_of_def c_string_append)
qed

lemma d_set_bytes:
  assumes "length db = 512" and "i < 16" and "is_string name" and "length (c_string name) < 24"
  shows "d_set db i ino mode name = Some (put_bytes db (32 * i) (slot_bytes ino mode name (slot db i)))"
proof -
  obtain a n m t c where p: "db = a @ n @ m @ t @ c" "length a = 32 * i" "length n = 4" "length m = 4"
    "length t = 24" "length c = 480 - 32 * i" "slot db i = n @ m @ t"
    by (rule slot_split[OF assms(1,2)])
  have "put32 db (32 * i) ino = a @ le32 ino @ m @ t @ c"
    using p by (simp add: put32_def)
  moreover have "put32 (a @ le32 ino @ m @ t @ c) (32 * i + 4) mode = a @ le32 ino @ le32 mode @ t @ c"
    using p put_bytes_append[of "a @ le32 ino" "32 * i + 4" m "le32 mode" "t @ c"] by (simp add: put32_def)
  moreover have "strcpy (t @ c) name = Some (c_string name @ 0 # drop (Suc (length (c_string name))) t @ c)"
    using strcpy_some[OF assms(3), of "t @ c"] assms(4) p by simp
  moreover have "put_bytes db (32 * i) (slot_bytes ino mode name (slot db i)) = a @ slot_bytes ino mode name (slot db i) @ c"
    using p slot_bytes_ok(1)[of "slot db i" name ino mode] assms(4)
      put_bytes_append[of a "32 * i" "n @ m @ t" "slot_bytes ino mode name (slot db i)" c] by simp
  ultimately show ?thesis
    using assms(2) p
    by (simp add: d_set_def Let_def strcpy_at_def FS_DENTRY_SIZE_def DENTRYS_PER_BLOCK_def dentry_offsets slot_bytes_def)
qed

lemma put_ino_bytes:
  assumes "length db = 512" and "i < 16"
  shows "put32 db (32 * i) v = put_bytes db (32 * i) (le32 v @ drop 4 (slot db i))"
proof -
  obtain a n m t c where p: "db = a @ n @ m @ t @ c" "length a = 32 * i" "length n = 4" "length m = 4"
    "length t = 24" "length c = 480 - 32 * i" "slot db i = n @ m @ t"
    by (rule slot_split[OF assms])
  then show ?thesis
    using put_bytes_append[of a "32 * i" "n @ m @ t" "le32 v @ m @ t" c] by (simp add: put32_def)
qed

lemma clear_slot:
  assumes "length sl = 28"
  shows "slot_ok (le32 (- 1) @ sl)" and "dent_of (le32 (- 1) @ sl) = None"
  using get_bytes_append[of "[]" 0 "le32 (- 1)" 4 sl] by (simp_all add: slot_ok_def dent_of_def get32_def)

lemma length_slot: "length db = 512 \<Longrightarrow> i < 16 \<Longrightarrow> length (slot db i) = 32"
  by (simp add: slot_def)

lemma d_set_ok:
  assumes "dir_ok db" and "i < 16" and "is_string name" and "length (c_string name) < 24" and "ino \<noteq> - 1"
  obtains db' where "d_set db i ino mode name = Some db'" "dir_ok db'"
    "dents db' = (dents db)[i := Some (c_string name, mode, ino)]"
proof -
  have len: "length db = 512" using assms(1) by (simp add: dir_ok_def)
  note b = slot_bytes_ok[OF length_slot[OF len assms(2)] assms(4)]
  show thesis
    using d_set_bytes[OF len assms(2-4)] dir_ok_put[OF assms(1,2) b(1,2)] b(3)[OF assms(5)] that by metis
qed

lemma d_clear_ok:
  assumes "dir_ok db" and "i < 16"
  shows "dir_ok (put32 db (FS_DENTRY_SIZE * i + dentry_ino) (- 1))"
    and "dents (put32 db (FS_DENTRY_SIZE * i + dentry_ino) (- 1)) = (dents db)[i := None]"
proof -
  have len: "length db = 512" using assms(1) by (simp add: dir_ok_def)
  have "length (drop 4 (slot db i)) = 28" using length_slot[OF len assms(2)] by simp
  note c = clear_slot[OF this]
  show "dir_ok (put32 db (FS_DENTRY_SIZE * i + dentry_ino) (- 1))"
    and "dents (put32 db (FS_DENTRY_SIZE * i + dentry_ino) (- 1)) = (dents db)[i := None]"
    using dir_ok_put[OF assms _ c(1)] length_slot[OF len assms(2)] c(2)
    by (simp_all add: put_ino_bytes[OF len assms(2)] FS_DENTRY_SIZE_def dentry_ino_def)
qed

text \<open>All entries cleared, whatever the block held.\<close>

lemma clear_all:
  assumes "length db = 512" and "n \<le> 16"
  shows "length (fold (\<lambda>i db. put32 db (FS_DENTRY_SIZE * i + dentry_ino) (- 1)) [0..<n] db) = 512 \<and>
    (\<forall>i < n. get32 (slot (fold (\<lambda>i db. put32 db (FS_DENTRY_SIZE * i + dentry_ino) (- 1)) [0..<n] db) i) 0 = - 1)"
  using assms(2)
proof (induction n)
  case (Suc n)
  let ?f = "fold (\<lambda>i db. put32 db (FS_DENTRY_SIZE * i + dentry_ino) (- 1)) [0..<n] db"
  have IH: "length ?f = 512" "\<forall>i < n. get32 (slot ?f i) 0 = - 1" and n: "n < 16" using Suc by auto
  have eq: "fold (\<lambda>i db. put32 db (FS_DENTRY_SIZE * i + dentry_ino) (- 1)) [0..<Suc n] db =
      put_bytes ?f (32 * n) (le32 (- 1) @ drop 4 (slot ?f n))"
    using put_ino_bytes[OF IH(1) n, of "- 1"] by (simp add: FS_DENTRY_SIZE_def dentry_ino_def)
  have "get32 (le32 (- 1) @ drop 4 (slot ?f n)) 0 = - 1"
    using get_bytes_append[of "[]" 0 "le32 (- 1)" 4] by (simp add: get32_def)
  then show ?case
    unfolding eq using IH n length_slot[OF IH(1) n] slot_put[OF IH(1) n] by (auto simp: less_Suc_eq)
qed (simp add: assms(1))

section \<open>Searching a directory\<close>

definition dlookup :: "dent list \<Rightarrow> (u32 \<Rightarrow> bool) \<Rightarrow> u8 list \<Rightarrow> nat option" where
  "dlookup ds ok name =
    find (\<lambda>i. case ds ! i of Some (n, m, ino) \<Rightarrow> n = name \<and> ok m | None \<Rightarrow> False) [0..<16]"

definition dfree :: "dent list \<Rightarrow> nat option" where
  "dfree ds = find (\<lambda>i. ds ! i = None) [0..<16]"

lemma scan_dentries_find:
  "\<forall>i \<in> set is. P i = Some (Q i) \<Longrightarrow> scan_dentries P is = Some (find Q is)"
  by (induction "is") auto

text \<open>A search that runs past the end of the block.\<close>

lemma scan_dentries_past:
  assumes "\<forall>i \<in> set is. P i = Some (Q i)" and "P j = None"
  shows "scan_dentries P (is @ j # js) = map_option Some (find Q is)"
  using assms by (induction "is") auto

lemma upt_past: "[0..<0x200] = [0..<16] @ 16 # [17..<0x200]"
  by (simp add: upt_conv_Cons[symmetric] upt_add_eq_append[of 0 16 "0x1f0", simplified, symmetric] del: upt_Suc)

lemma d_free_dents: "dir_ok db \<Longrightarrow> i < 16 \<Longrightarrow> d_free db i = Some (dents db ! i = None)"
  by (simp add: d_free_def DENTRYS_PER_BLOCK_def dir_ok_def slot_fields nth_dents dent_of_def)

lemma d_match_dents:
  assumes "dir_ok db" and "i < 16" and "is_string name"
  shows "d_match db ok name i =
    Some (case dents db ! i of Some (n, m, ino) \<Rightarrow> n = c_string name \<and> ok m | None \<Rightarrow> False)"
proof -
  have len: "length db = 512" and sl: "slot_ok (slot db i)" using assms by (auto simp: dir_ok_def)
  note f = slot_fields[OF len assms(2)]
  show ?thesis
  proof (cases "get32 (slot db i) 0 = - 1")
    case True
    then show ?thesis using assms(2) by (simp add: d_match_def f nth_dents dent_of_def DENTRYS_PER_BLOCK_def)
  next
    case False
    then have n: "is_string (d_name db i)" "c_string (d_name db i) = c_string (drop 8 (slot db i))"
      using f(3) sl by (auto simp: slot_ok_def)
    obtain r where "strcmp (d_name db i) name = Some r" using strcmp_some[OF n(1) assms(3)] by blast
    then show ?thesis
      using False assms(2) strcmp_zero[OF n(1) assms(3)] n(2)
      by (auto simp: d_match_def f nth_dents dent_of_def DENTRYS_PER_BLOCK_def)
  qed
qed

lemma scan_free: "dir_ok db \<Longrightarrow> scan_dentries (d_free db) [0..<DENTRYS_PER_BLOCK] = Some (dfree (dents db))"
  unfolding dfree_def DENTRYS_PER_BLOCK_def by (rule scan_dentries_find) (simp add: d_free_dents)

lemma scan_match:
  "dir_ok db \<Longrightarrow> is_string name \<Longrightarrow>
   scan_dentries (d_match db ok name) [0..<DENTRYS_PER_BLOCK] = Some (dlookup (dents db) ok (c_string name))"
  unfolding dlookup_def DENTRYS_PER_BLOCK_def by (rule scan_dentries_find) (simp add: d_match_dents)

lemma scan_free_past: "dir_ok db \<Longrightarrow> scan_dentries (d_free db) [0..<0x200] = map_option Some (dfree (dents db))"
  unfolding upt_past dfree_def
  by (rule scan_dentries_past) (simp_all add: d_free_dents, simp add: d_free_def DENTRYS_PER_BLOCK_def)

lemma scan_match_past:
  "dir_ok db \<Longrightarrow> is_string name \<Longrightarrow>
   scan_dentries (d_match db ok name) [0..<0x200] = map_option Some (dlookup (dents db) ok (c_string name))"
  unfolding upt_past dlookup_def
  by (rule scan_dentries_past) (simp_all add: d_match_dents, simp add: d_match_def DENTRYS_PER_BLOCK_def)

lemma dlookup_Some:
  "dlookup ds ok name = Some i \<Longrightarrow> i < 16 \<and> (\<exists>m ino. ds ! i = Some (name, m, ino) \<and> ok m)"
  by (auto simp: dlookup_def find_Some_iff split: option.splits)

lemma dfree_Some: "dfree ds = Some i \<Longrightarrow> i < 16 \<and> ds ! i = None"
  by (auto simp: dfree_def find_Some_iff)

text \<open>A new entry is found under its name if the name was not there before.\<close>

lemma dlookup_None_iff:
  "dlookup ds ok name = None \<longleftrightarrow> (\<forall>i < 16. \<forall>m ino. ds ! i = Some (name, m, ino) \<longrightarrow> \<not> ok m)"
  by (force simp: dlookup_def find_None_iff split: option.splits)

lemma find_upt_eq: "i < n \<Longrightarrow> find (\<lambda>j. j = i) [0..<n] = Some i"
  unfolding find_Some_iff by (intro exI[of _ i]) auto

lemma dlookup_new:
  assumes "dlookup ds ok name = None" and "i < 16" and "length ds = 16" and "ok m"
  shows "dlookup (ds[i := Some (name, m, ino)]) ok name = Some i"
proof -
  have "(case ds[i := Some (name, m, ino)] ! j of Some (n, m, ino) \<Rightarrow> n = name \<and> ok m | None \<Rightarrow> False) \<longleftrightarrow> j = i"
    if "j < 16" for j
    using assms that by (auto simp: nth_list_update dlookup_None_iff split: option.splits)
  then have "dlookup (ds[i := Some (name, m, ino)]) ok name = find (\<lambda>j. j = i) [0..<16]"
    unfolding dlookup_def by (intro find_cong) auto
  then show ?thesis using assms(2) find_upt_eq by simp
qed

lemma dlookup_other:
  assumes "n \<noteq> name" and "i < 16" and "length ds = 16" and "ds ! i = None"
  shows "dlookup (ds[i := Some (n, m, ino)]) ok name = dlookup ds ok name"
  unfolding dlookup_def using assms
  by (intro find_cong) (auto simp: nth_list_update split: option.splits)

end
