(* ===== verification/Fs.thy ===== *)
theory Fs
  imports Dentry
begin

text \<open>
  \<^verbatim>\<open>kernel/fs/fs.c\<close> (making, deleting and describing a file system, creating and deleting
  inodes) and \<open>mount\<close> of \<^verbatim>\<open>kernel/fs/path.c\<close>. \<open>None\<close> is an access outside an object or
  a negative shift. Local structures are not initialised by the code: their former contents are
  the argument \<open>J\<close>, on which no result may depend.
\<close>

section \<open>Operations\<close>

record locals =
  junk_inode :: "u8 list"
  junk_block :: "u8 list"
  junk_buf :: "u8 list"

definition locals_ok :: "locals \<Rightarrow> bool" where
  "locals_ok J \<longleftrightarrow> length (junk_inode J) = 64 \<and> length (junk_block J) = 512 \<and> length (junk_buf J) = 32"

definition nl :: string where
  "nl = [CHR 0x0a]"

text \<open>The calls of \<open>printf\<close> are kept in order, with their format and arguments. A string argument is
  given without its terminating zero. The text that a call hands to the screen is \<open>printed\<close>: the
  call formats into a buffer of 256 bytes (\<open>print_buff\<close> of the theory \<open>Printk\<close>; \<open>bf\<close> and \<open>buff\<close>
  are the former contents of its locals), which cuts what is longer than 255 characters.\<close>

definition printf :: "string \<Rightarrow> parg list \<Rightarrow> 'd fs \<Rightarrow> 'd fs" where
  "printf fmt args s = s\<lparr>fs_log := fs_log s @ [(fmt, args)]\<rparr>"

fun terminated :: "parg \<Rightarrow> parg" where
  "terminated (Num v) = Num v"
| "terminated (Str t) = Str (literal t)"

definition printed :: "u8 list \<Rightarrow> u8 list \<Rightarrow> string \<times> parg list \<Rightarrow> u8 list option" where
  "printed bf buff call = do {
     (ret, text) \<leftarrow> print_buff bf buff (literal (map of_char (fst call))) (map terminated (snd call));
     Some (c_string text)
   }"

definition superblock_init :: "'d fs \<Rightarrow> 'd fs" where
  "superblock_init s = s\<lparr>superblock := (superblock s)
     [0 := FS_MAGIC, 6 := ROOT_DIR_INO, 1 := 0x20000000, 2 := FS_INODE_MAP_BASE,
      3 := of_nat FS_INODE_MAP_SIZE, 4 := FS_INODE_TABLE_BASE, 5 := of_nat FS_INODE_TABLE_SIZE]\<rparr>"

definition inode_map_init :: "'d fs \<Rightarrow> 'd fs" where
  "inode_map_init s = fold (\<lambda>i s. s\<lparr>inode_map := (inode_map s)[i := 0]\<rparr>) [0..<0x400] s"

definition dir_init :: "'d sd \<Rightarrow> locals \<Rightarrow> u8 list \<Rightarrow> 'd fs \<Rightarrow> 'd fs option" where
  "dir_init S J inode s = do {
     let db = fold (\<lambda>i db. put32 db (FS_DENTRY_SIZE * i + dentry_ino) (- 1)) [0..<DENTRYS_PER_BLOCK] (junk_block J);
     let db = put32 db dentry_ino (get32 inode inode_ino);
     let db = put32 db dentry_mode mode_dir;
     db \<leftarrow> strcpy_at db dentry_name [0x2e, 0];
     let db = put32 db (FS_DENTRY_SIZE + dentry_ino) (get32 inode inode_father_ino);
     let db = put32 db (FS_DENTRY_SIZE + dentry_mode) mode_dir;
     db \<leftarrow> strcpy_at db (FS_DENTRY_SIZE + dentry_name) [0x2e, 0x2e, 0];
     Some (dir_block_write S db (get32 inode inode_ino) s)
   }"

definition file_init :: "'d sd \<Rightarrow> locals \<Rightarrow> u8 list \<Rightarrow> 'd fs \<Rightarrow> 'd fs" where
  "file_init S J inode s =
    (let fb = put32 (junk_block J) 0 0
     in file_block_write S fb (get32 inode inode_ino) s)"

definition inode_create :: "'d sd \<Rightarrow> locals \<Rightarrow> u32 \<Rightarrow> u32 \<Rightarrow> u8 list \<Rightarrow> u32 \<Rightarrow> 'd fs \<Rightarrow> 'd fs option" where
  "inode_create S J ino mode name father_ino s = do {
     let inode = put32 (junk_inode J) inode_father_ino father_ino;
     let inode = put32 inode inode_ino ino;
     let inode = put32 inode inode_mode mode;
     inode \<leftarrow> strcpy_at inode inode_name name;
     let inode = put32 inode inode_ptr (FS_DATA_BASE + ino * FS_BLOCK_SIZE);
     let inode = put32 inode inode_size FS_BLOCK_SIZE;
     let inode = put32 inode inode_timestamp (fs_timer s);
     s \<leftarrow> (if get32 inode inode_mode = mode_dir then dir_init S J inode s
            else Some (file_init S J inode s));
     Some (inode_write S inode ino s)
   }"

definition inode_delete :: "'d sd \<Rightarrow> u32 \<Rightarrow> 'd fs \<Rightarrow> 'd fs option" where
  "inode_delete S ino s = do {
     (r, m) \<leftarrow> bitmap_modify (inode_map s) 0 (sint ino);
     Some (inode_map_write S (s\<lparr>inode_map := m\<rparr>))
   }"

definition mount :: "'d sd \<Rightarrow> 'd fs \<Rightarrow> 'd fs option" where
  "mount S s = do {
     let s = s\<lparr>shell_path_inode := inode_read S (shell_path_inode s) (superblock s ! 6) s\<rparr>;
     h \<leftarrow> strcpy (shell_path_head s) (drop inode_name (shell_path_inode s));
     Some (s\<lparr>shell_path_head := h\<rparr>)
   }"

definition do_makefs :: "'d sd \<Rightarrow> locals \<Rightarrow> 'd fs \<Rightarrow> 'd fs option" where
  "do_makefs S J s =
    (let s = superblock_read S s
     in if superblock s ! 0 = FS_MAGIC then
          mount S (inode_map_read S (printf (''Here is already a file system!'' @ nl) [] s))
        else do {
          let s = superblock_init s;
          let s = inode_map_init s;
          (i, s) \<leftarrow> inode_alloc S s;
          if i \<noteq> 0 then Some (printf (''inode map error'' @ nl) [] s)
          else do {
            s \<leftarrow> inode_create S J ROOT_DIR_INO mode_dir [0x7e, 0] ROOT_DIR_INO s;
            let s = superblock_write S s;
            let s = inode_map_write S s;
            mount S s
          }
        })"

definition deletefs :: "'d sd \<Rightarrow> 'd fs \<Rightarrow> 'd fs" where
  "deletefs S s =
    (let s = superblock_read S s
     in if superblock s ! 0 \<noteq> FS_MAGIC then printf (''Here is no file system here!'' @ nl) [] s
        else superblock_write S (s\<lparr>superblock := (superblock s)[0 := 0x00]\<rparr>))"

definition statfs :: "'d sd \<Rightarrow> 'd fs \<Rightarrow> 'd fs" where
  "statfs S s =
    (let s = superblock_read S s
     in printf (''FS information:'' @ nl @ ''Magic: %x'' @ nl @ ''FS Size: %x'' @ nl @
            ''Inode map base/size: %x %x'' @ nl @ ''Inode table base/size: %x %x'' @ nl)
          (map (\<lambda>i. Num (superblock s ! i)) [0, 1, 2, 3, 4, 5]) s)"

section \<open>Blocks and inodes\<close>

lemma block_read [simp]:
  "dir_block_read S (word_of_nat k) s = sector S s k" "file_block_read S (word_of_nat k) s = sector S s k"
  by (simp_all add: dir_block_read_def file_block_read_def FS_BLOCK_SIZE_def FS_DATA_BASE_def)

lemma block_write:
  "dir_block_write S b ino s = s\<lparr>card := sector_write S b ino (card s)\<rparr>"
  "file_block_write S b ino s = s\<lparr>card := sector_write S b ino (card s)\<rparr>"
  by (simp_all add: dir_block_write_def file_block_write_def FS_BLOCK_SIZE_def FS_DATA_BASE_def)

lemma ino_not_minus1: "k < 0x8000 \<Longrightarrow> (word_of_nat k :: u32) \<noteq> - 1"
proof
  assume k: "k < 0x8000" and eq: "(word_of_nat k :: u32) = - 1"
  have "(- 1 :: u32) = 0xffffffff" by simp
  with eq have "unat (word_of_nat k :: u32) = unat (0xffffffff :: u32)" by (simp only:)
  with k show False using unat_word_small[of k] by simp
qed

text \<open>An inode with the fields that the code reads, and the block of an empty directory.\<close>

definition inode_is :: "u8 list \<Rightarrow> u32 \<Rightarrow> u32 \<Rightarrow> u8 list \<Rightarrow> u32 \<Rightarrow> bool" where
  "inode_is ie ino mode name father \<longleftrightarrow> length ie = 64 \<and> get32 ie inode_ino = ino \<and> get32 ie inode_mode = mode \<and>
    get32 ie inode_father_ino = father \<and> is_string (take 32 ie) \<and> c_string (take 32 ie) = name"

definition empty_dir :: "u32 \<Rightarrow> u32 \<Rightarrow> dent list" where
  "empty_dir ino father = [Some ([0x2e], mode_dir, ino), Some ([0x2e, 0x2e], mode_dir, father)] @ replicate 14 None"

lemma dir_init_ok:
  assumes "locals_ok J" and "get32 inode inode_ino \<noteq> - 1" and "get32 inode inode_father_ino \<noteq> - 1"
  obtains db where "dir_init S J inode s = Some (dir_block_write S db (get32 inode inode_ino) s)"
    "dir_ok db" "dents db = empty_dir (get32 inode inode_ino) (get32 inode inode_father_ino)"
proof -
  let ?db = "fold (\<lambda>i db. put32 db (FS_DENTRY_SIZE * i + dentry_ino) (- 1)) [0..<DENTRYS_PER_BLOCK] (junk_block J)"
  have c: "length ?db = 512" "\<forall>i < 16. get32 (slot ?db i) 0 = - 1"
    using clear_all[of "junk_block J" 16] assms(1) by (simp_all add: locals_ok_def DENTRYS_PER_BLOCK_def)
  then have ok: "dir_ok ?db" and ds: "dents ?db = replicate 16 None"
    by (auto simp: dir_ok_def slot_ok_def nth_dents dent_of_def intro!: nth_equalityI)
  obtain db1 where d1: "d_set ?db 0 (get32 inode inode_ino) mode_dir [0x2e, 0] = Some db1" "dir_ok db1"
      "dents db1 = (replicate 16 None)[0 := Some ([0x2e], mode_dir, get32 inode inode_ino)]"
    by (rule d_set_ok[OF ok, of 0 "[0x2e, 0]" "get32 inode inode_ino" mode_dir]) (use assms ds in auto)
  obtain db2 where d2: "d_set db1 1 (get32 inode inode_father_ino) mode_dir [0x2e, 0x2e, 0] = Some db2" "dir_ok db2"
      "dents db2 = (dents db1)[1 := Some ([0x2e, 0x2e], mode_dir, get32 inode inode_father_ino)]"
    by (rule d_set_ok[OF d1(2), of 1 "[0x2e, 0x2e, 0]" "get32 inode inode_father_ino" mode_dir]) (use assms in auto)
  have "dir_init S J inode s = Some (dir_block_write S db2 (get32 inode inode_ino) s)"
    using d1(1) d2(1)
    by (simp add: dir_init_def d_set_def Let_def DENTRYS_PER_BLOCK_def dentry_offsets FS_DENTRY_SIZE_def del: upt_Suc
        split: option.splits)
  then show thesis
    using d1(3) d2 by (intro that[of db2]) (simp_all add: empty_dir_def numeral_eq_Suc)
qed

lemma inode_bytes:
  assumes "length ie = 64"
  obtains n i z m t f p u where "ie = n @ i @ z @ m @ t @ f @ p @ u" "length n = 32" "length i = 4" "length z = 4"
    "length m = 4" "length t = 4" "length f = 4" "length p = 4" "length u = 8"
proof -
  have "32 \<le> length ie" using assms by simp
  from split_at[OF this] obtain n r where n: "ie = n @ r" "length n = 32" "length r = 32" using assms by auto
  then have "4 \<le> length r" by simp
  from split_at[OF this] obtain i r2 where i: "r = i @ r2" "length i = 4" "length r2 = 28" using n by auto
  then have "4 \<le> length r2" by simp
  from split_at[OF this] obtain z r3 where z: "r2 = z @ r3" "length z = 4" "length r3 = 24" using i by auto
  then have "4 \<le> length r3" by simp
  from split_at[OF this] obtain m r4 where m: "r3 = m @ r4" "length m = 4" "length r4 = 20" using z by auto
  then have "4 \<le> length r4" by simp
  from split_at[OF this] obtain t r5 where t: "r4 = t @ r5" "length t = 4" "length r5 = 16" using m by auto
  then have "4 \<le> length r5" by simp
  from split_at[OF this] obtain f r6 where f: "r5 = f @ r6" "length f = 4" "length r6 = 12" using t by auto
  then have "4 \<le> length r6" by simp
  from split_at[OF this] obtain p u where p: "r6 = p @ u" "length p = 4" "length u = 8" using f by auto
  show thesis using n i z m t f p by (intro that[of n i z m t f p u]) simp_all
qed

lemma put32_field:
  "length a = off \<Longrightarrow> length b = 4 \<Longrightarrow> put32 (a @ b @ c) off v = a @ le32 v @ c"
  "length a = off \<Longrightarrow> get32 (a @ le32 v @ c) off = v"
  by (simp_all add: put32_def get32_def)

text \<open>The bytes that \<open>inode_create\<close> assembles.\<close>

definition new_inode :: "locals \<Rightarrow> u32 \<Rightarrow> u32 \<Rightarrow> u8 list \<Rightarrow> u32 \<Rightarrow> u32 \<Rightarrow> u8 list" where
  "new_inode J ino mode name father t =
    (c_string name @ 0 # drop (Suc (length (c_string name))) (take 32 (junk_inode J))) @
    le32 ino @ le32 FS_BLOCK_SIZE @ le32 mode @ le32 t @ le32 father @ le32 (FS_DATA_BASE + ino * FS_BLOCK_SIZE) @
    drop 56 (junk_inode J)"

lemma take_prefix: "length xs = n \<Longrightarrow> take n (xs @ ys) = xs"
  by simp

lemma new_inode_is:
  assumes "locals_ok J" and "length (c_string name) < 32"
  shows "inode_is (new_inode J ino mode name father t) ino mode (c_string name) father"
proof -
  let ?n = "c_string name @ 0 # drop (Suc (length (c_string name))) (take 32 (junk_inode J))"
  let ?b = "le32 FS_BLOCK_SIZE" and ?p = "le32 (FS_DATA_BASE + ino * FS_BLOCK_SIZE) @ drop 56 (junk_inode J)"
  have n: "length ?n = 32" using assms by (simp add: locals_ok_def)
  have eq: "new_inode J ino mode name father t =
      ?n @ le32 ino @ ?b @ le32 mode @ le32 t @ le32 father @ ?p"
    by (simp add: new_inode_def)
  have "get32 (new_inode J ino mode name father t) 32 = ino"
    unfolding eq by (rule put32_field(2)) (use n in simp)
  moreover have "get32 (new_inode J ino mode name father t) 40 = mode"
    unfolding eq using put32_field(2)[of "?n @ le32 ino @ ?b" 40 mode] n by simp
  moreover have "get32 (new_inode J ino mode name father t) 48 = father"
    unfolding eq using put32_field(2)[of "?n @ le32 ino @ ?b @ le32 mode @ le32 t" 48 father] n by simp
  moreover have "take 32 (new_inode J ino mode name father t) = ?n"
    unfolding eq by (rule take_prefix) (rule n)
  ultimately show ?thesis
    using assms n c_string_no_zero[of name]
    by (simp add: inode_is_def inode_offsets c_string_append is_string_def locals_ok_def) (simp add: eq n locals_ok_def)
qed

lemma inode_create_eq:
  assumes "locals_ok J" and "is_string name" and "length (c_string name) < 32"
  shows "inode_create S J ino mode name father s = do {
    s' \<leftarrow> (if mode = mode_dir then dir_init S J (new_inode J ino mode name father (fs_timer s)) s
          else Some (file_init S J (new_inode J ino mode name father (fs_timer s)) s));
    Some (inode_write S (new_inode J ino mode name father (fs_timer s)) ino s') }"
proof -
  obtain n i z m t f p u where b: "junk_inode J = n @ i @ z @ m @ t @ f @ p @ u" "length n = 32" "length i = 4"
    "length z = 4" "length m = 4" "length t = 4" "length f = 4" "length p = 4" "length u = 8"
    by (rule inode_bytes[of "junk_inode J"]) (use assms(1) in \<open>simp add: locals_ok_def\<close>)
  let ?N = "c_string name @ 0 # drop (Suc (length (c_string name))) n"
  have 1: "put32 (junk_inode J) 48 father = n @ i @ z @ m @ t @ le32 father @ p @ u"
    using put32_field(1)[of "n @ i @ z @ m @ t" 48 f "p @ u" father] b by simp
  have 2: "put32 (n @ i @ z @ m @ t @ le32 father @ p @ u) 32 ino = n @ le32 ino @ z @ m @ t @ le32 father @ p @ u"
    using put32_field(1)[of n 32 i] b by simp
  have 3: "put32 (n @ le32 ino @ z @ m @ t @ le32 father @ p @ u) 40 mode = n @ le32 ino @ z @ le32 mode @ t @ le32 father @ p @ u"
    using put32_field(1)[of "n @ le32 ino @ z" 40 m] b by simp
  have 4: "strcpy_at (n @ le32 ino @ z @ le32 mode @ t @ le32 father @ p @ u) 0 name =
      Some (?N @ le32 ino @ z @ le32 mode @ t @ le32 father @ p @ u)"
    using strcpy_some[OF assms(2), of "n @ le32 ino @ z @ le32 mode @ t @ le32 father @ p @ u"] assms(3) b
    by (simp add: strcpy_at_def)
  have N: "length ?N = 32" using b assms(3) by simp
  have 5: "put32 (?N @ le32 ino @ z @ le32 mode @ t @ le32 father @ p @ u) 52 q =
      ?N @ le32 ino @ z @ le32 mode @ t @ le32 father @ le32 q @ u" for q
    using put32_field(1)[of "?N @ le32 ino @ z @ le32 mode @ t @ le32 father" 52 p u q] N b by simp
  have 6: "put32 (?N @ le32 ino @ z @ le32 mode @ t @ le32 father @ le32 q @ u) 36 v =
      ?N @ le32 ino @ le32 v @ le32 mode @ t @ le32 father @ le32 q @ u" for q v
    using put32_field(1)[of "?N @ le32 ino" 36 z] N b by simp
  have 7: "put32 (?N @ le32 ino @ le32 v @ le32 mode @ t @ le32 father @ le32 q @ u) 44 w =
      ?N @ le32 ino @ le32 v @ le32 mode @ le32 w @ le32 father @ le32 q @ u" for q v w
    using put32_field(1)[of "?N @ le32 ino @ le32 v @ le32 mode" 44 t] N b by simp
  have new: "new_inode J ino mode name father w = ?N @ le32 ino @ le32 FS_BLOCK_SIZE @ le32 mode @ le32 w @ le32 father @
      le32 (FS_DATA_BASE + ino * FS_BLOCK_SIZE) @ u" for w
    using b by (simp add: new_inode_def)
  have md: "get32 (new_inode J ino mode name father w) inode_mode = mode" for w
    using new_inode_is[OF assms(1,3)] by (simp add: inode_is_def)
  show ?thesis
    unfolding inode_create_def Let_def
    by (simp only: inode_offsets 1 2 3 4 5 6 7 bind.bind_lunit new[symmetric] md[unfolded inode_mode_def])
qed

context sd_card
begin

lemma sector_length [simp]: "length (sector S s k) = 512"
  by (simp add: sector_read_eq)

text \<open>A data block lies below the inode table: writing it changes no inode.\<close>

lemma inode_read_block_write:
  assumes "b < 0xfe000" and "j < 0x8000" and "length bs = 512"
  shows "inode_read S dest (word_of_nat j) (s\<lparr>card := sector_write S bs (word_of_nat b) (card s)\<rparr>) =
    inode_read S dest (word_of_nat j) s"
proof -
  have "inode_sector j \<noteq> b" "b < num_sectors" using assms by (auto simp: inode_sector_def num_sectors_def)
  then show ?thesis
    using assms inode_sector_bound[OF assms(2)] by (simp add: inode_read_eq sectors.rd_wr)
qed

lemma inode_write_only_card: "inode_write S src ino s = s\<lparr>card := card (inode_write S src ino s)\<rparr>"
  by (simp add: inode_write_def Let_def)

lemma inode_create_ok:
  assumes "locals_ok J" and "k < 0x8000" and "f < 0x8000" and "is_string name" and "length (c_string name) < 32"
    and "mode = mode_file \<or> mode = mode_dir"
  obtains d ie db where "inode_create S J (word_of_nat k) mode name (word_of_nat f) s = Some (s\<lparr>card := d\<rparr>)"
    "inode_is ie (word_of_nat k) mode (c_string name) (word_of_nat f)"
    "\<And>j dest. j < 0x8000 \<Longrightarrow> inode_read S dest (word_of_nat j) (s\<lparr>card := d\<rparr>) =
      (if j = k then ie else inode_read S dest (word_of_nat j) s)"
    "\<And>b. b < 0xfe000 \<Longrightarrow> sector_read S (word_of_nat b) d = (if b = k then db else sector S s b)"
    "mode = mode_dir \<Longrightarrow> dir_ok db \<and> dents db = empty_dir (word_of_nat k) (word_of_nat f)"
    "mode = mode_file \<Longrightarrow> length db = 512 \<and> take 4 db = [0, 0, 0, 0]"
proof -
  let ?ie = "new_inode J (word_of_nat k) mode name (word_of_nat f) (fs_timer s)"
  have ie: "inode_is ?ie (word_of_nat k) mode (c_string name) (word_of_nat f)"
    by (rule new_inode_is[OF assms(1,5)])
  then have len: "length ?ie = 64" and ino: "get32 ?ie inode_ino = word_of_nat k"
    and fa: "get32 ?ie inode_father_ino = word_of_nat f" by (simp_all add: inode_is_def)
  have fm: "mode_file \<noteq> mode_dir" by (simp add: mode_file_def mode_dir_def)
  have "\<exists>db. inode_create S J (word_of_nat k) mode name (word_of_nat f) s =
        Some (inode_write S ?ie (word_of_nat k) (s\<lparr>card := sector_write S db (word_of_nat k) (card s)\<rparr>)) \<and>
      length db = 512 \<and> (mode = mode_dir \<longrightarrow> dir_ok db \<and> dents db = empty_dir (word_of_nat k) (word_of_nat f)) \<and>
      (mode = mode_file \<longrightarrow> take 4 db = [0, 0, 0, 0])"
  proof (cases "mode = mode_dir")
    case True
    obtain db where "dir_init S J ?ie s = Some (dir_block_write S db (word_of_nat k) s)"
      "dir_ok db" "dents db = empty_dir (word_of_nat k) (word_of_nat f)"
      using dir_init_ok[OF assms(1), of ?ie S s] ino fa ino_not_minus1[OF assms(2)] ino_not_minus1[OF assms(3)]
      by metis
    then show ?thesis
      using True fm by (auto simp: inode_create_eq[OF assms(1,4,5)] block_write dir_ok_def intro!: exI[of _ db])
  next
    case False
    have "take 4 (put32 (junk_block J) 0 0) = [0, 0, 0, 0]" "length (put32 (junk_block J) 0 0) = 512"
      using assms(1) by (simp_all add: put32_def put_bytes_def le32_def locals_ok_def)
    then show ?thesis
      using False ino by (auto simp: inode_create_eq[OF assms(1,4,5)] file_init_def Let_def block_write
          intro!: exI[of _ "put32 (junk_block J) 0 0"])
  qed
  then obtain db where db: "inode_create S J (word_of_nat k) mode name (word_of_nat f) s =
        Some (inode_write S ?ie (word_of_nat k) (s\<lparr>card := sector_write S db (word_of_nat k) (card s)\<rparr>))"
    "length db = 512" "mode = mode_dir \<Longrightarrow> dir_ok db \<and> dents db = empty_dir (word_of_nat k) (word_of_nat f)"
    "mode = mode_file \<Longrightarrow> take 4 db = [0, 0, 0, 0]" by blast
  define s1 where "s1 = s\<lparr>card := sector_write S db (word_of_nat k) (card s)\<rparr>"
  have s2: "inode_write S ?ie (word_of_nat k) s1 = s\<lparr>card := card (inode_write S ?ie (word_of_nat k) s1)\<rparr>"
    by (subst inode_write_only_card) (simp add: s1_def)
  show thesis
  proof (rule that[of "card (inode_write S ?ie (word_of_nat k) s1)" ?ie db])
    show "inode_create S J (word_of_nat k) mode name (word_of_nat f) s =
        Some (s\<lparr>card := card (inode_write S ?ie (word_of_nat k) s1)\<rparr>)"
      using db(1) s2 by (simp add: s1_def)
    show "inode_read S dest (word_of_nat j) (s\<lparr>card := card (inode_write S ?ie (word_of_nat k) s1)\<rparr>) =
        (if j = k then ?ie else inode_read S dest (word_of_nat j) s)" if "j < 0x8000" for j dest
      using inode_read_write[OF assms(2) that len, of dest s1] inode_read_block_write[OF _ that db(2), of k dest s] assms(2) s2
      by (simp add: s1_def)
    show "sector_read S (word_of_nat b) (card (inode_write S ?ie (word_of_nat k) s1)) =
        (if b = k then db else sector S s b)" if "b < 0xfe000" for b
      using sector_inode_write[OF assms(2) len, of b s1] that assms(2) db(2) sectors.rd_wr[of k b db "card s"]
      by (simp add: s1_def num_sectors_def)
  qed (use ie db in auto)
qed

end

section \<open>Making and mounting a file system\<close>

definition new_superblock :: "u32 list" where
  "new_superblock = [FS_MAGIC, 0x20000000, FS_INODE_MAP_BASE, of_nat FS_INODE_MAP_SIZE, FS_INODE_TABLE_BASE,
     of_nat FS_INODE_TABLE_SIZE, ROOT_DIR_INO]"

lemma superblock_init_eq:
  assumes "length (superblock s) = 7"
  shows "superblock_init s = s\<lparr>superblock := new_superblock\<rparr>"
proof -
  obtain a b c d e f g where "superblock s = [a, b, c, d, e, f, g]"
    using assms by (auto simp: length_Suc_conv numeral_eq_Suc)
  then show ?thesis by (simp add: superblock_init_def new_superblock_def)
qed

lemma inode_map_init_eq:
  assumes "length (inode_map s) = 1024"
  shows "inode_map_init s = s\<lparr>inode_map := replicate 1024 0\<rparr>"
proof -
  have "fold (\<lambda>i s. s\<lparr>inode_map := (inode_map s)[i := 0]\<rparr>) [0..<n] s =
      s\<lparr>inode_map := replicate n 0 @ drop n (inode_map s)\<rparr>" if "n \<le> 1024" for n
    using that
  proof (induction n)
    case (Suc n)
    then have "drop n (inode_map s) = inode_map s ! n # drop (Suc n) (inode_map s)"
      using assms by (simp add: Cons_nth_drop_Suc)
    with Suc show ?case by (simp add: list_update_append replicate_append_same[symmetric] del: replicate_append_same)
  qed simp
  from this[of 1024] show ?thesis using assms by (simp add: inode_map_init_def del: upt_Suc)
qed

lemma map_bit_zero: "k < 0x8000 \<Longrightarrow> \<not> map_bit (replicate 1024 0) k"
  by (simp add: map_bit_def)

text \<open>The name of an inode is a string inside it.\<close>

lemma inode_is_name:
  assumes "inode_is ie ino mode name father"
  shows "is_string ie" "c_string ie = name" "length name < 32" "0 \<notin> set name"
proof -
  have "is_string (take 32 ie @ drop 32 ie)" "c_string (take 32 ie @ drop 32 ie) = name"
    using assms by (simp_all only: inode_is_def is_string_append c_string_prefix)
  then show "is_string ie" "c_string ie = name" by simp_all
  have "length (c_string xs) < length xs" if "is_string xs" for xs :: "u8 list"
    using that by (induction xs) auto
  from this[of "take 32 ie"] show "length name < 32" using assms by (simp add: inode_is_def)
  show "0 \<notin> set name" using assms c_string_no_zero[of "take 32 ie"] by (simp add: inode_is_def)
qed

context sd_card
begin

lemma mount_ok:
  assumes "fs_wf s" and "superblock s ! 6 = word_of_nat r" and "r < 0x8000"
    and "inode_is (inode_read S (shell_path_inode s) (word_of_nat r) s) ino mode name father"
  obtains h where "mount S s = Some (s\<lparr>shell_path_inode := inode_read S (shell_path_inode s) (word_of_nat r) s,
    shell_path_head := h\<rparr>)" "length h = 128" "c_string h = name"
proof -
  note n = inode_is_name[OF assms(4)]
  have "length name < length (shell_path_head s)" using assms(1) n(3) by (simp add: fs_wf_def)
  then show thesis
    using strcpy_some[OF n(1), of "shell_path_head s"] n(2,3,4) assms(1,2)
    by (intro that[of "name @ 0 # drop (Suc (length name)) (shell_path_head s)"])
      (simp_all add: mount_def Let_def inode_name_def fs_wf_def c_string_append)
qed

text \<open>A file system on the card: its superblock, and a root directory.\<close>

definition has_fs :: "'d fs \<Rightarrow> u8 list \<Rightarrow> bool" where
  "has_fs s root \<longleftrightarrow> take 7 (words_of (sector S s 0xfdff7)) = new_superblock \<and>
    inode_is root 0 mode_dir [0x7e] 0 \<and> inode_read S root 0 s = root"

lemma inode_read_dest: "k < 0x8000 \<Longrightarrow> inode_read S dest (word_of_nat k) s = inode_read S dest' (word_of_nat k) s"
  by (simp add: inode_read_eq)

lemma inode_read_card: "card s = card s' \<Longrightarrow> inode_read S dest ino s = inode_read S dest ino s'"
  by (simp add: inode_read_def)

lemma makefs_mounts:
  assumes "fs_wf s" and "has_fs s root"
  obtains s' where "do_makefs S J s = Some s'" "fs_wf s'" "card s' = card s" "superblock s' = new_superblock"
    "inode_map s' = card_map S s" "shell_path_inode s' = root" "c_string (shell_path_head s') = [0x7e]"
proof -
  define s1 where "s1 = inode_map_read S (printf (''Here is already a file system!'' @ nl) [] (superblock_read S s))"
  have len: "length (inode_map (superblock_read S s)) = 1024"
    using superblock_read_wf[OF assms(1)] by (simp add: fs_wf_def)
  have sb: "superblock (superblock_read S s) = new_superblock" "card (superblock_read S s) = card s"
    using assms(2) by (simp_all add: superblock_read_def Let_def has_fs_def FS_SUPERBLOCK_BASE_def)
  have s1: "s1 = (printf (''Here is already a file system!'' @ nl) [] (superblock_read S s))\<lparr>inode_map := card_map S s\<rparr>"
    unfolding s1_def using inode_map_read_eq[of "printf (''Here is already a file system!'' @ nl) [] (superblock_read S s)"] len sb(2)
    by (simp add: printf_def card_map_def del: upt_Suc)
  have lm: "length (card_map S s) = 1024"
    by (simp add: card_map_def length_concat o_def sector_read_eq sum_list_triv del: of_nat_add upt_Suc)
  have wf: "fs_wf s1" and c: "card s1 = card s" and sb1: "superblock s1 = new_superblock"
    and m1: "inode_map s1 = card_map S s"
    using superblock_read_wf[OF assms(1)] lm sb by (simp_all add: s1 printf_def fs_wf_def)
  have rt: "inode_read S (shell_path_inode s1) (word_of_nat 0) s1 = root" and is_rt: "inode_is root 0 mode_dir [0x7e] 0"
    using assms(2) inode_read_dest[of 0 "shell_path_inode s1" s1 root] inode_read_card[OF c, of root 0]
    by (simp_all add: has_fs_def)
  obtain h where h: "mount S s1 = Some (s1\<lparr>shell_path_inode := root, shell_path_head := h\<rparr>)" "length h = 128" "c_string h = [0x7e]"
    by (rule mount_ok[OF wf, of 0 0 mode_dir "[0x7e]" 0]) (use rt is_rt sb1 in \<open>simp_all add: new_superblock_def ROOT_DIR_INO_def\<close>)
  have "do_makefs S J s = mount S s1"
    using sb(1) by (simp add: do_makefs_def Let_def s1_def new_superblock_def)
  then show thesis
    using h wf c sb1 m1 is_rt
    by (intro that[of "s1\<lparr>shell_path_inode := root, shell_path_head := h\<rparr>"]) (simp_all add: fs_wf_def inode_is_def)
qed

lemma makefs_creates:
  assumes "fs_wf s" and "locals_ok J" and "words_of (sector S s 0xfdff7) ! 0 \<noteq> FS_MAGIC"
  obtains s' root where "do_makefs S J s = Some s'" "fs_wf s'" "has_fs s' root" "superblock s' = new_superblock"
    "shell_path_inode s' = root" "c_string (shell_path_head s') = [0x7e]" "card_map S s' = inode_map s'"
    "\<forall>k < 0x8000. map_bit (inode_map s') k \<longleftrightarrow> k = 0" "dir_ok (sector S s' 0)" "dents (sector S s' 0) = empty_dir 0 0"
proof -
  define s1 where "s1 = inode_map_init (superblock_init (superblock_read S s))"
  have wf0: "fs_wf (superblock_read S s)" by (rule superblock_read_wf[OF assms(1)])
  have s1: "s1 = (superblock_read S s)\<lparr>superblock := new_superblock, inode_map := replicate 1024 0\<rparr>"
    using wf0 by (simp add: s1_def superblock_init_eq inode_map_init_eq fs_wf_def)
  have wf1: "fs_wf s1" using wf0 by (simp add: s1 fs_wf_def new_superblock_def)
  have mg: "superblock (superblock_read S s) ! 0 \<noteq> FS_MAGIC"
    using assms(3) by (simp add: superblock_read_def Let_def FS_SUPERBLOCK_BASE_def)
  have "length (inode_map s1) = 1024" by (simp add: s1)
  then obtain m where m: "inode_alloc S s1 = Some (0, inode_map_write S (s1\<lparr>inode_map := m\<rparr>))" "length m = 1024"
    "\<forall>k < 0x8000. map_bit m k = (k = 0)"
  proof (cases rule: inode_alloc_cases[where S = S])
    case full
    then show ?thesis using map_bit_zero[of 0] by (simp add: s1)
  next
    case (free i m)
    have "i = 0" using free(1,3) map_bit_zero[of 0] by (cases i) (auto simp: s1)
    then show ?thesis using free that map_bit_zero by (auto simp: s1)
  qed
  define s2 where "s2 = inode_map_write S (s1\<lparr>inode_map := m\<rparr>)"
  have s2: "superblock s2 = new_superblock" "inode_map s2 = m" "fs_wf s2"
    using wf1 m(2) by (simp_all add: s2_def s1 fs_wf_def)
  obtain d ie db where c: "inode_create S J (word_of_nat 0) mode_dir [0x7e, 0] (word_of_nat 0) s2 = Some (s2\<lparr>card := d\<rparr>)"
    "inode_is ie (word_of_nat 0) mode_dir (c_string [0x7e, 0]) (word_of_nat 0)"
    "\<And>j dest. j < 0x8000 \<Longrightarrow> inode_read S dest (word_of_nat j) (s2\<lparr>card := d\<rparr>) =
      (if j = 0 then ie else inode_read S dest (word_of_nat j) s2)"
    "\<And>b. b < 0xfe000 \<Longrightarrow> sector_read S (word_of_nat b) d = (if b = 0 then db else sector S s2 b)"
    "mode_dir = mode_dir \<Longrightarrow> dir_ok db \<and> dents db = empty_dir (word_of_nat 0) (word_of_nat 0)"
    by (rule inode_create_ok[OF assms(2), of 0 0 "[0x7e, 0]" mode_dir s2]) (auto simp: mode_dir_def mode_file_def)
  define s3 where "s3 = superblock_write S (s2\<lparr>card := d\<rparr>)"
  define s4 where "s4 = inode_map_write S s3"
  have wf3: "fs_wf s3" and m3: "inode_map s3 = m" "superblock s3 = new_superblock"
    using s2 by (simp_all add: s3_def superblock_write_def fs_wf_def)
  then have wf4: "fs_wf s4" "inode_map s4 = m" "superblock s4 = new_superblock" by (simp_all add: s4_def)
  have sec3: "sector S s3 j = (if j = 0xfdff7 then bytes_of (superblock s2 @ take 121 (inode_map s2)) else sector_read S (word_of_nat j) d)"
    if "j < num_sectors" for j
    using superblock_write_sector[of "s2\<lparr>card := d\<rparr>" j] s2(3) that by (simp add: s3_def fs_wf_def)
  have sec4: "sector S s4 j = sector S s3 j" if "j < 0xfdff8 \<or> 0xfe000 \<le> j" "j < num_sectors" for j
    using sector_map_write[of s3 j] wf3 that by (auto simp: s4_def fs_wf_def)
  have "inode_read S ie (word_of_nat 0) s4 = ie"
    using sec4[of "0xfe000"] sec3[of "0xfe000"] c(3)[of 0 ie]
      inode_read_eq[of 0 ie s4] inode_read_eq[of 0 ie "s2\<lparr>card := d\<rparr>"]
    by (simp add: inode_sector_def num_sectors_def)
  moreover have "take 7 (words_of (sector S s4 0xfdff7)) = new_superblock"
    using sec4[of "0xfdff7"] sec3[of "0xfdff7"] words_of_bytes_of[of "superblock s2 @ take 121 (inode_map s2)"] s2
    by (simp add: num_sectors_def new_superblock_def del: words_of_bytes_of bytes_of_simps)
  ultimately have has: "has_fs s4 ie" using c(2) by (simp add: has_fs_def)
  have rt: "inode_read S (shell_path_inode s4) (word_of_nat 0) s4 = ie"
    using has inode_read_dest[of 0 "shell_path_inode s4" s4 ie] by (simp add: has_fs_def)
  obtain h where h: "mount S s4 = Some (s4\<lparr>shell_path_inode := ie, shell_path_head := h\<rparr>)" "length h = 128" "c_string h = [0x7e]"
    by (rule mount_ok[OF wf4(1), of 0 0 mode_dir "[0x7e]" 0])
      (use rt has wf4(3) in \<open>simp_all add: has_fs_def new_superblock_def ROOT_DIR_INO_def\<close>)
  define s' where "s' = s4\<lparr>shell_path_inode := ie, shell_path_head := h\<rparr>"
  have "do_makefs S J s = mount S s4"
    using mg m(1) c(1) by (simp add: do_makefs_def Let_def s1_def[symmetric] s2_def[symmetric] s3_def[symmetric] s4_def[symmetric] ROOT_DIR_INO_def)
  moreover have "card_map S s4 = m" unfolding s4_def using card_map_write[of s3] wf3 m3 by (simp add: fs_wf_def)
  moreover have "sector S s4 0 = db" using sec4[of 0] sec3[of 0] c(4)[of 0] by (simp add: num_sectors_def)
  moreover have "has_fs s' ie" "card_map S s' = card_map S s4"
    using has inode_read_card[of s' s4 ie 0] by (simp_all add: s'_def has_fs_def card_map_def)
  moreover have "fs_wf s'" using wf4 h(2) c(2) by (simp add: s'_def fs_wf_def inode_is_def)
  ultimately show thesis
    using h c(5) m(3) wf4 by (intro that[of s' ie]) (simp_all add: s'_def)
qed

end

section \<open>Properties\<close>

text \<open>
  C15: \<open>do_makefs\<close> on a card without a file system returns, whatever the card and the stack
  held: only inode 0 is in use, it is the directory \<open>~\<close> whose entries are itself and its
  parent, and the shell stands in it. Started later with any kernel memory on the card it left,
  it finds the same superblock, the same inode map and the same root.
\<close>

theorem makefs_then_boot:
  assumes "sd_card S byte" and "fs_wf s" and "locals_ok J" and "words_of (sector S s 0xfdff7) ! 0 \<noteq> FS_MAGIC"
  shows "\<exists>s'. do_makefs S J s = Some s' \<and> fs_wf s' \<and> superblock s' = new_superblock \<and>
    (\<forall>k < 0x8000. map_bit (inode_map s') k \<longleftrightarrow> k = 0) \<and>
    inode_is (shell_path_inode s') 0 mode_dir [0x7e] 0 \<and>
    dir_ok (sector S s' 0) \<and> dents (sector S s' 0) = empty_dir 0 0 \<and>
    (\<forall>J2 s2. fs_wf s2 \<and> card s2 = card s' \<longrightarrow> (\<exists>s3. do_makefs S J2 s2 = Some s3 \<and> card s3 = card s' \<and>
      superblock s3 = superblock s' \<and> inode_map s3 = inode_map s' \<and> shell_path_inode s3 = shell_path_inode s'))"
proof -
  obtain s' root where s': "do_makefs S J s = Some s'" "fs_wf s'" "sd_card.has_fs S s' root" "superblock s' = new_superblock"
    "shell_path_inode s' = root" "c_string (shell_path_head s') = [0x7e]" "card_map S s' = inode_map s'"
    "\<forall>k < 0x8000. map_bit (inode_map s') k \<longleftrightarrow> k = 0" "dir_ok (sector S s' 0)" "dents (sector S s' 0) = empty_dir 0 0"
    by (rule sd_card.makefs_creates[OF assms])
  have "\<exists>s3. do_makefs S J2 s2 = Some s3 \<and> card s3 = card s' \<and> superblock s3 = superblock s' \<and>
      inode_map s3 = inode_map s' \<and> shell_path_inode s3 = shell_path_inode s'"
    if s2: "fs_wf s2" "card s2 = card s'" for J2 s2
  proof -
    have "sd_card.has_fs S s2 root" "card_map S s2 = card_map S s'"
      using s'(3) s2(2) sd_card.inode_read_card[OF assms(1) s2(2), of root 0]
      by (simp_all add: sd_card.has_fs_def[OF assms(1)] card_map_def)
    then show ?thesis
      using sd_card.makefs_mounts[OF assms(1) s2(1), of root J2] s'(4,5,7) s2(2) by metis
  qed
  moreover have "inode_is root 0 mode_dir [0x7e] 0" using s'(3) by (simp add: sd_card.has_fs_def[OF assms(1)])
  ultimately show ?thesis using s' by blast
qed

definition sample_locals :: locals where
  "sample_locals = \<lparr>junk_inode = replicate 64 0xaa, junk_block = replicate 512 0xaa, junk_buf = replicate 32 0xaa\<rparr>"

lemma sample_locals_ok: "locals_ok sample_locals"
  by (simp add: locals_ok_def sample_locals_def)

lemma words_of_first: "4 \<le> length bs \<Longrightarrow> words_of bs ! 0 = of_le32 (take 4 bs)"
  by (cases bs rule: words_of.cases) auto

lemma sample_no_magic: "words_of (sector ram_card sample_fs 0xfdff7) ! 0 \<noteq> FS_MAGIC"
proof -
  have "sector ram_card sample_fs 0xfdff7 = replicate 512 0"
    by (simp only: ram.sector_read_eq ram.pbyte_def) (simp add: sample_fs_def map_replicate_const)
  moreover have "replicate 4 (0 :: u8) = [0, 0, 0, 0]" by (simp add: numeral_eq_Suc)
  ultimately have "words_of (sector ram_card sample_fs 0xfdff7) ! 0 = 0" by (simp add: words_of_first)
  then show ?thesis by (simp add: FS_MAGIC_def)
qed

theorem makefs_then_boot_witness:
  "\<exists>s'. do_makefs ram_card sample_locals sample_fs = Some s' \<and> inode_is (shell_path_inode s') 0 mode_dir [0x7e] 0"
  using makefs_then_boot[OF ram.sd_card_axioms sample_fs_wf sample_locals_ok sample_no_magic] by blast

text \<open>
  The superblock is read with a whole sector into a variable of 28 bytes, so the copy of
  the inode map that the sector held when it was written comes back over the current map: after
  \<open>statfs\<close> the inode that was allocated last is free again and is given out a second time.
\<close>

theorem statfs_rolls_back_map:
  assumes "sd_card S byte" and "fs_wf s"
    and "sector S s 0xfdff7 = bytes_of (superblock s @ take 121 (inode_map s))"
    and "inode_alloc S s = Some (i, s1)" and "i < 3872"
  shows "map_bit (inode_map s1) (nat i) \<and> \<not> map_bit (inode_map (statfs S s1)) (nat i) \<and>
    (\<exists>s2. inode_alloc S (statfs S s1) = Some (i, s2))"
proof -
  have len: "length (inode_map s) = 1024" using assms(2) by (simp add: fs_wf_def)
  then show ?thesis
  proof (cases rule: inode_alloc_cases[where S = S])
    case full
    then show ?thesis using assms(4) by simp
  next
    case (free n m)
    then have i: "i = int n" and s1: "s1 = inode_map_write S (s\<lparr>inode_map := m\<rparr>)" using assms(4) by auto
    let ?m = "take 121 (inode_map s) @ drop 121 m"
    have "sector S s1 0xfdff7 = sector S s 0xfdff7"
      using sd_card.sector_map_write[OF assms(1), of "s\<lparr>inode_map := m\<rparr>" "0xfdff7"] free(5)
      by (simp add: s1 num_sectors_def)
    then have sb: "inode_map (statfs S s1) = ?m"
      using sd_card.superblock_read_eq[OF assms(1), of s1 "superblock s" "take 121 (inode_map s)"] assms(2,3)
      by (simp add: statfs_def Let_def printf_def s1 fs_wf_def)
    have mb: "map_bit ?m k = map_bit (inode_map s) k" if "k < 0x8000" for k
    proof (cases "k < 3872")
      case True
      then have "k div 32 < 121" by auto
      then show ?thesis using len by (simp add: map_bit_def nth_append)
    next
      case False
      then have "121 \<le> k div 32" "k \<noteq> n" using i assms(5) by auto
      then have "map_bit ?m k = map_bit m k" using len free(5) that by (auto simp: map_bit_def nth_append)
      then show ?thesis using free(6) that \<open>k \<noteq> n\<close> by simp
    qed
    have lm: "length (inode_map (statfs S s1)) = 1024" using len free(5) by (simp add: sb)
    then have "\<exists>s2. inode_alloc S (statfs S s1) = Some (int n, s2)"
    proof (cases rule: inode_alloc_cases[where S = S])
      case full
      then show ?thesis using mb[OF free(1)] free(1,2) by (simp add: sb)
    next
      case (free i' m')
      have "\<not> i' < n" using mb[OF free(1)] free(2) \<open>\<forall>k<n. map_bit (inode_map s) k\<close> by (auto simp: sb)
      moreover have "\<not> n < i'" using mb[OF \<open>n < 0x8000\<close>] free(3) \<open>\<not> map_bit (inode_map s) n\<close> by (auto simp: sb)
      ultimately have "i' = n" by simp
      then show ?thesis using free(4) by blast
    qed
    moreover have "inode_map s1 = m" by (simp add: s1)
    ultimately show ?thesis using free mb[OF free(1)] by (simp add: i sb)
  qed
qed

theorem statfs_rolls_back_map_witness:
  "\<exists>i s1 s2. inode_alloc ram_card (superblock_write ram_card sample_fs) = Some (i, s1) \<and>
     inode_alloc ram_card (statfs ram_card s1) = Some (i, s2)"
proof -
  let ?s = "superblock_write ram_card sample_fs"
  have wf: "fs_wf ?s" and m: "inode_map ?s = replicate 1024 0" and sb: "superblock ?s = superblock sample_fs"
    using sample_fs_wf by (simp_all add: superblock_write_def fs_wf_def sample_fs_def)
  have sec: "sector ram_card ?s 0xfdff7 = bytes_of (superblock ?s @ take 121 (inode_map ?s))"
    using ram.superblock_write_sector[OF sample_fs_wf, of "0xfdff7"] m sb by (simp add: num_sectors_def sample_fs_def)
  have "length (inode_map ?s) = 1024" by (simp add: m)
  then obtain s1 where "inode_alloc ram_card ?s = Some (0, s1)"
  proof (cases rule: inode_alloc_cases[where S = ram_card])
    case full
    then show ?thesis using map_bit_zero[of 0] m by simp
  next
    case (free i m')
    then have "i = 0" using map_bit_zero[of 0] m by (cases i) auto
    with free show ?thesis using that by simp
  qed
  then show ?thesis using statfs_rolls_back_map[OF ram.sd_card_axioms wf sec, of 0 s1] by auto
qed

end
