(* ===== verification/Splitting.thy ===== *)
theory Splitting
  imports Cstring
begin

text \<open>
  Cutting a string into words in place, as \<open>decode_path\<close> of \<^verbatim>\<open>kernel/fs/path.c\<close> does at slashes
  and \<open>decode\<close> of \<^verbatim>\<open>test/test_shell.c\<close> at blanks: two nested loops of the same shape, each with
  room for 16 words.
\<close>

section \<open>The loops\<close>

text \<open>The inner loop ends a word and overwrites the separator behind it, the outer one records
  where words begin.\<close>

function cut_word :: "u8 \<Rightarrow> u8 list \<Rightarrow> nat \<Rightarrow> (u8 list \<times> nat) option" where
  "cut_word sep buf i =
    (if i < length buf then
       if buf ! i = 0 then Some (buf, i)
       else if buf ! i = sep then Some (buf[i := 0], i + 1)
       else cut_word sep buf (i + 1)
     else None)"
  by auto
termination by (relation "measure (\<lambda>(sep, buf, i). length buf - i)") auto

declare cut_word.simps [simp del]

lemma cut_word_progress:
  "cut_word sep buf i = Some (buf', i') \<Longrightarrow> length buf' = length buf \<and> i \<le> i'"
proof (induction sep buf i rule: cut_word.induct)
  case (1 sep buf i)
  then show ?case by (auto simp: cut_word.simps[of sep buf i] split: if_splits)
qed

function cut_words :: "u8 \<Rightarrow> u8 list \<Rightarrow> nat \<Rightarrow> nat list \<Rightarrow> (u8 list \<times> nat list) option" where
  "cut_words sep buf i args =
    (if i < length buf then
       if buf ! i = 0 then Some (buf, args)
       else if buf ! i = sep then cut_words sep buf (i + 1) args
       else if length args < 16 then do {
         (buf', i') \<leftarrow> cut_word sep buf (i + 1);
         cut_words sep buf' i' (args @ [i])
       }
       else None
     else None)"
  by auto
termination
  by (relation "measure (\<lambda>(sep, buf, i, args). length buf - i)") (auto dest!: cut_word_progress)

declare cut_words.simps [simp del]

section \<open>The words\<close>

function words :: "u8 \<Rightarrow> u8 list \<Rightarrow> u8 list list" where
  "words sep [] = []"
| "words sep (c # cs) =
    (if c = sep then words sep cs
     else (c # takeWhile (\<lambda>x. x \<noteq> sep) cs) # words sep (drop 1 (dropWhile (\<lambda>x. x \<noteq> sep) cs)))"
  by pat_completeness auto
termination
  by (relation "measure (\<lambda>(sep, cs). length cs)") (auto simp: less_Suc_eq_le intro: le_trans[OF diff_le_self length_dropWhile_le])

lemma words_single:
  assumes "cs \<noteq> []" and "sep \<notin> set cs"
  shows "words sep cs = [cs]"
proof -
  obtain c t where cs: "cs = c # t" using assms(1) by (cases cs) auto
  then have "takeWhile (\<lambda>x. x \<noteq> sep) t = t" and "dropWhile (\<lambda>x. x \<noteq> sep) t = []" using assms(2) by auto
  note this [simp]
  show ?thesis unfolding cs using assms(2) cs by auto
qed

lemma words_append:
  assumes "cs \<noteq> []" and "sep \<notin> set cs"
  shows "words sep (cs @ sep # ds) = cs # words sep ds"
proof -
  obtain c t where cs: "cs = c # t" using assms(1) by (cases cs) auto
  then have "takeWhile (\<lambda>x. x \<noteq> sep) (t @ sep # ds) = t" and "dropWhile (\<lambda>x. x \<noteq> sep) (t @ sep # ds) = sep # ds"
    using assms(2) by (auto simp: takeWhile_tail dropWhile_append3 intro!: takeWhile_append2)
  note this [simp]
  show ?thesis unfolding cs using assms(2) cs by auto
qed

lemma length_words: "2 * length (words sep cs) \<le> length cs + 1"
proof (induction sep cs rule: words.induct)
  case (2 sep c cs)
  have "length (drop 1 (dropWhile (\<lambda>x. x \<noteq> sep) cs)) \<le> length cs - 1"
    using length_dropWhile_le[of "\<lambda>x. x \<noteq> sep" cs] by auto
  then show ?case using 2 by (cases "c = sep"; cases cs) force+
qed simp

lemma cut_word_end:
  assumes "0 \<notin> set t" and "sep \<notin> set t"
  shows "cut_word sep (pre @ t @ 0 # r) (length pre) = Some (pre @ t @ 0 # r, length pre + length t)"
  using assms
proof (induction t arbitrary: pre)
  case (Cons c t)
  then show ?case
    using Cons.IH[of "pre @ [c]"] by (auto simp: cut_word.simps[of _ "pre @ c # t @ 0 # r"] nth_append)
qed (simp add: cut_word.simps nth_append)

lemma cut_word_sep:
  assumes "0 \<notin> set t" and "sep \<notin> set t" and "sep \<noteq> 0"
  shows "cut_word sep (pre @ t @ sep # r) (length pre) = Some (pre @ t @ 0 # r, length pre + length t + 1)"
  using assms
proof (induction t arbitrary: pre)
  case (Cons c t)
  then show ?case
    using Cons.IH[of "pre @ [c]"] by (auto simp: cut_word.simps[of _ "pre @ c # t @ sep # r"] nth_append)
qed (simp add: cut_word.simps nth_append)

lemma take_drop_sep:
  obtains (last) "dropWhile (\<lambda>x. x \<noteq> sep) cs = []" "takeWhile (\<lambda>x. x \<noteq> sep) cs = cs" "sep \<notin> set cs"
    | (sep) t u where "cs = t @ sep # u" "takeWhile (\<lambda>x. x \<noteq> sep) cs = t" "dropWhile (\<lambda>x. x \<noteq> sep) cs = sep # u" "sep \<notin> set t"
proof (cases "sep \<in> set cs")
  case True
  then obtain t u where "cs = t @ sep # u" "sep \<notin> set t" by (meson split_list_first)
  moreover from this have "takeWhile (\<lambda>x. x \<noteq> sep) cs = t" "dropWhile (\<lambda>x. x \<noteq> sep) cs = sep # u"
    by (auto simp: takeWhile_tail dropWhile_append3 intro!: takeWhile_append2)
  ultimately show thesis using that(2) by blast
next
  case False
  then show thesis using last by (auto simp: takeWhile_eq_all_conv dropWhile_eq_Nil_conv)
qed

text \<open>
  The loops split the rest \<open>cs\<close> of a string: they overwrite separators with zeros, and where the
  recorded offsets point are then the words. With more than 16 words the table overflows.
\<close>

lemma cut_words_split:
  assumes "0 \<notin> set cs" and "sep \<noteq> 0" and "length args + length (words sep cs) \<le> 16"
  shows "\<exists>cs' new. cut_words sep (pre @ cs @ 0 # r) (length pre) args = Some (pre @ cs' @ 0 # r, args @ new) \<and>
    length cs' = length cs \<and> (\<forall>a \<in> set new. length pre \<le> a) \<and>
    map (\<lambda>a. c_string (drop a (pre @ cs' @ 0 # r))) new = words sep cs \<and>
    (\<forall>a \<in> set new. is_string (drop a (pre @ cs' @ 0 # r))) \<and> (cs \<noteq> [] \<longrightarrow> hd cs' = hd cs)"
  using assms
proof (induction "length cs" arbitrary: cs pre args rule: less_induct)
  case less
  show ?case
  proof (cases cs)
    case Nil
    then show ?thesis using less.prems by (auto simp: cut_words.simps nth_append)
  next
    case (Cons c t)
    have c: "c \<noteq> 0" "0 \<notin> set t" using less.prems Cons by auto
    show ?thesis
    proof (cases "c = sep")
      case True
      obtain cs' new where IH: "cut_words sep ((pre @ [c]) @ t @ 0 # r) (length (pre @ [c])) args =
          Some ((pre @ [c]) @ cs' @ 0 # r, args @ new)" "length cs' = length t"
        "\<forall>a \<in> set new. length (pre @ [c]) \<le> a" "map (\<lambda>a. c_string (drop a ((pre @ [c]) @ cs' @ 0 # r))) new = words sep t"
        "\<forall>a \<in> set new. is_string (drop a ((pre @ [c]) @ cs' @ 0 # r))"
        using less.hyps[of t args "pre @ [c]"] less.prems Cons True by auto
      moreover have "cut_words sep (pre @ cs @ 0 # r) (length pre) args = cut_words sep (pre @ cs @ 0 # r) (length pre + 1) args"
        using True Cons c by (subst cut_words.simps) (simp add: nth_append)
      ultimately show ?thesis
        using True Cons by (intro exI[of _ "c # cs'"] exI[of _ new]) auto
    next
      case False
      have room: "length args < 16" using less.prems Cons False by auto
      have step: "cut_words sep (pre @ cs @ 0 # r) (length pre) args =
          do { (buf', i') \<leftarrow> cut_word sep (pre @ cs @ 0 # r) (length pre + 1); cut_words sep buf' i' (args @ [length pre]) }"
        using False c room Cons by (subst cut_words.simps) (simp add: nth_append)
      show ?thesis
      proof (cases sep t rule: take_drop_sep)
        case last
        have "cut_word sep (pre @ cs @ 0 # r) (length pre + 1) = Some (pre @ cs @ 0 # r, length pre + 1 + length t)"
          using cut_word_end[OF c(2) last(3), of "pre @ [c]" r] Cons by simp
        moreover have "cut_words sep (pre @ cs @ 0 # r) (length pre + 1 + length t) (args @ [length pre]) =
            Some (pre @ cs @ 0 # r, args @ [length pre])"
          using Cons by (subst cut_words.simps) (simp add: nth_append)
        moreover have "words sep cs = [cs]" using False Cons by (simp add: last(1,2))
        ultimately show ?thesis
          using step Cons c by (intro exI[of _ cs] exI[of _ "[length pre]"]) (auto simp: c_string_append is_string_def)
      next
        case (sep t1 u)
        have z: "0 \<notin> set t1" "0 \<notin> set u" using c(2) sep(1) by auto
        let ?pre = "pre @ c # t1 @ [0]"
        have "cut_word sep (pre @ cs @ 0 # r) (length pre + 1) = Some (?pre @ u @ 0 # r, length ?pre)"
          using cut_word_sep[OF z(1) sep(4) less.prems(2), of "pre @ [c]" "u @ 0 # r"] Cons sep(1) by simp
        then have step2: "cut_words sep (pre @ cs @ 0 # r) (length pre) args =
            cut_words sep (?pre @ u @ 0 # r) (length ?pre) (args @ [length pre])"
          using step by simp
        have "length u < length cs" "length (args @ [length pre]) + length (words sep u) \<le> 16"
          using less.prems(3) Cons sep(1-3) False by auto
        then obtain cs' new where IH: "cut_words sep (?pre @ u @ 0 # r) (length ?pre) (args @ [length pre]) =
            Some (?pre @ cs' @ 0 # r, (args @ [length pre]) @ new)" "length cs' = length u"
          "\<forall>a \<in> set new. length ?pre \<le> a" "map (\<lambda>a. c_string (drop a (?pre @ cs' @ 0 # r))) new = words sep u"
          "\<forall>a \<in> set new. is_string (drop a (?pre @ cs' @ 0 # r))"
          using less.hyps[of u "args @ [length pre]" ?pre] z(2) less.prems(2) by blast
        have "words sep cs = (c # t1) # words sep u" using False Cons by (simp add: sep(2,3))
        then show ?thesis
          using step2 IH c z Cons sep(1)
          by (intro exI[of _ "c # t1 @ 0 # cs'"] exI[of _ "length pre # new"])
            (auto simp: c_string_append is_string_def)
      qed
    qed
  qed
qed

lemma cut_words_full:
  assumes "0 \<notin> set cs" and "sep \<noteq> 0" and "length args \<le> 16" and "16 < length args + length (words sep cs)"
  shows "cut_words sep (pre @ cs @ 0 # r) (length pre) args = None"
  using assms
proof (induction "length cs" arbitrary: cs pre args rule: less_induct)
  case less
  then obtain c t where cs: "cs = c # t" by (cases cs) auto
  have c: "c \<noteq> 0" "0 \<notin> set t" using less.prems cs by auto
  show ?case
  proof (cases "c = sep")
    case True
    have "cut_words sep (pre @ cs @ 0 # r) (length pre) args = cut_words sep ((pre @ [c]) @ t @ 0 # r) (length (pre @ [c])) args"
      using True cs c by (subst cut_words.simps) (simp add: nth_append)
    then show ?thesis using less.hyps[of t args "pre @ [c]"] less.prems cs True by auto
  next
    case False
    have step: "cut_words sep (pre @ cs @ 0 # r) (length pre) args =
        (if length args < 16 then do { (buf', i') \<leftarrow> cut_word sep (pre @ cs @ 0 # r) (length pre + 1); cut_words sep buf' i' (args @ [length pre]) } else None)"
      using False c cs by (subst cut_words.simps) (simp add: nth_append)
    show ?thesis
    proof (cases sep t rule: take_drop_sep)
      case last
      then have "words sep cs = [cs]" using words_single[of cs sep] False cs by simp
      then show ?thesis using step less.prems by simp
    next
      case (sep t1 u)
      have z: "0 \<notin> set t1" "0 \<notin> set u" using c(2) sep(1) by auto
      let ?pre = "pre @ c # t1 @ [0]"
      have w: "cut_word sep (pre @ cs @ 0 # r) (length pre + 1) = Some (?pre @ u @ 0 # r, length ?pre)"
        using cut_word_sep[OF z(1) sep(4) less.prems(2), of "pre @ [c]" "u @ 0 # r"] cs sep(1) by simp
      have "words sep cs = (c # t1) # words sep u" using False cs by (simp add: sep(2,3))
      then have "length args < 16 \<Longrightarrow> cut_words sep (?pre @ u @ 0 # r) (length ?pre) (args @ [length pre]) = None"
        using less.hyps[of u "args @ [length pre]" ?pre] less.prems z(2) cs sep(1) by simp
      then show ?thesis using step w by simp
    qed
  qed
qed

end
