(* ===== verification/Path.thy ===== *)
theory Path
  imports Fs Splitting
begin

text \<open>
  \<^verbatim>\<open>kernel/fs/path.c\<close>: the shell's directory, path names, and directories.
\<close>

section \<open>Operations\<close>

abbreviation ino_of :: "u8 list \<Rightarrow> u32" where
  "ino_of ie \<equiv> get32 ie inode_ino"

definition init_cur_dir :: "'d sd \<Rightarrow> u8 \<Rightarrow> 'd fs \<Rightarrow> 'd fs" where
  "init_cur_dir S c s =
    (if c = 0x2f then s\<lparr>cur_dir := inode_read S (cur_dir s) (superblock s ! 6) s\<rparr>
     else s\<lparr>cur_dir := inode_read S (cur_dir s) (ino_of (shell_path_inode s)) s\<rparr>)"

text \<open>The two loops that cut a path at its slashes; \<open>dir_args\<close> has room for 16 names.\<close>

definition decode_args :: "u8 list \<Rightarrow> nat \<Rightarrow> nat list \<Rightarrow> (u8 list \<times> nat list) option" where
  "decode_args buf i dir_args = cut_words 0x2f buf i dir_args"

fun decode_walk :: "'d sd \<Rightarrow> u8 list \<Rightarrow> nat list \<Rightarrow> 'd fs \<Rightarrow> (int \<times> 'd fs) option" where
  "decode_walk S buf [] s = Some (1, s)"
| "decode_walk S buf (a # dir_args) s = do {
     let db = dir_block_read S (ino_of (cur_dir s)) s;
     r \<leftarrow> scan_dentries (d_match db (\<lambda>m. m \<noteq> mode_file) (drop a buf)) [0..<DENTRYS_PER_BLOCK];
     case r of
       Some j \<Rightarrow> decode_walk S buf dir_args (s\<lparr>cur_dir := inode_read S (cur_dir s) (d_ino db j) s\<rparr>)
     | None \<Rightarrow> Some (- 1, printf (''error: no such directory'' @ nl) [] s)
   }"

definition decode_path :: "'d sd \<Rightarrow> locals \<Rightarrow> u8 list \<Rightarrow> 'd fs \<Rightarrow> (int \<times> 'd fs) option" where
  "decode_path S J dir_name s = do {
     buf \<leftarrow> strcpy (junk_buf J) dir_name;
     (buf, dir_args) \<leftarrow> decode_args buf 0 [];
     let s = init_cur_dir S (buf ! 0) s;
     if dir_args = [] then Some (1, s)
     else do {
       n \<leftarrow> strlen dir_name;
       if n = 0 then Some (1, s) else decode_walk S buf dir_args s
     }
   }"

text \<open>The shell's commands. \<open>argv\<close> holds \<open>argc\<close> strings. Without an argument \<open>cd\<close> and
  \<open>ls\<close> copy through an uninitialised pointer.\<close>

definition change_directory :: "'d sd \<Rightarrow> locals \<Rightarrow> u8 list list \<Rightarrow> 'd fs \<Rightarrow> 'd fs option" where
  "change_directory S J argv s =
    (if length argv < 2 then None
     else do {
       (r, s) \<leftarrow> decode_path S J (argv ! 1) s;
       if r < 0 then Some s
       else do {
         let s = s\<lparr>shell_path_inode := inode_read S (shell_path_inode s) (ino_of (cur_dir s)) s\<rparr>;
         h \<leftarrow> strcpy (shell_path_head s) (drop inode_name (shell_path_inode s));
         Some (s\<lparr>shell_path_head := h\<rparr>)
       }
     })"

fun list_dentries :: "u8 list \<Rightarrow> nat list \<Rightarrow> 'd fs \<Rightarrow> 'd fs option" where
  "list_dentries db [] s = Some s"
| "list_dentries db (i # is) s =
    (if d_ino db i = - 1 then list_dentries db is s
     else do {
       n \<leftarrow> strlen (d_name db i);
       list_dentries db is (printf ''%s    '' [Str (take n (d_name db i))] s)
     })"

definition list_directory :: "'d sd \<Rightarrow> locals \<Rightarrow> u8 list list \<Rightarrow> 'd fs \<Rightarrow> 'd fs option" where
  "list_directory S J argv s =
    (if length argv < 2 then None
     else do {
       (r, s) \<leftarrow> decode_path S J (argv ! 1) s;
       if r < 0 then Some s
       else do {
         let db = dir_block_read S (ino_of (cur_dir s)) s;
         s \<leftarrow> list_dentries db [0..<DENTRYS_PER_BLOCK] s;
         Some (printf nl [] s)
       }
     })"

text \<open>A loop that leaves \<open>i\<close> at its bound when no entry has the property.\<close>

definition index_or :: "nat \<Rightarrow> nat option \<Rightarrow> nat" where
  "index_or n r = (case r of Some i \<Rightarrow> i | None \<Rightarrow> n)"

definition make_directory :: "'d sd \<Rightarrow> locals \<Rightarrow> u8 list list \<Rightarrow> 'd fs \<Rightarrow> 'd fs option" where
  "make_directory S J argv s =
    (if length argv < 2 then Some s
     else do {
       let dir_name = argv ! 1;
       let db = dir_block_read S (ino_of (shell_path_inode s)) s;
       r \<leftarrow> scan_dentries (d_free db) [0..<DENTRYS_PER_BLOCK];
       let i = index_or DENTRYS_PER_BLOCK r;
       (ino, s) \<leftarrow> inode_alloc S s;
       s \<leftarrow> inode_create S J (word_of_int ino) mode_dir dir_name (ino_of (shell_path_inode s)) s;
       db \<leftarrow> d_set db i (word_of_int ino) mode_dir dir_name;
       Some (dir_block_write S db (ino_of (shell_path_inode s)) s)
     })"

text \<open>The loop of \<open>remove_directory\<close> and \<open>remove_file\<close>, which differ in the mode.\<close>

definition remove_dentry :: "'d sd \<Rightarrow> u32 \<Rightarrow> u8 list \<Rightarrow> 'd fs \<Rightarrow> 'd fs option" where
  "remove_dentry S mode name s = do {
     let db = dir_block_read S (ino_of (shell_path_inode s)) s;
     r \<leftarrow> scan_dentries (d_match db (\<lambda>m. m = mode) name) [0..<DENTRYS_PER_BLOCK];
     case r of
       Some i \<Rightarrow> do {
         s \<leftarrow> inode_delete S (d_ino db i) s;
         let db = put32 db (FS_DENTRY_SIZE * i + dentry_ino) (- 1);
         Some (dir_block_write S db (ino_of (shell_path_inode s)) s)
       }
     | None \<Rightarrow> Some (dir_block_write S db (ino_of (shell_path_inode s)) s)
   }"

definition remove_directory :: "'d sd \<Rightarrow> u8 list list \<Rightarrow> 'd fs \<Rightarrow> 'd fs option" where
  "remove_directory S argv s =
    (if length argv < 2 then Some s
     else do {
       let dir_name = argv ! 1;
       r1 \<leftarrow> strcmp dir_name [0x2e, 0];
       r2 \<leftarrow> strcmp dir_name [0x2e, 0x2e, 0];
       if r1 = 0 \<or> r2 = 0 then Some (printf (''error: you cannot remove this directory!'' @ nl) [] s)
       else remove_dentry S mode_dir dir_name s
     })"

definition remove_file :: "'d sd \<Rightarrow> u8 list list \<Rightarrow> 'd fs \<Rightarrow> 'd fs option" where
  "remove_file S argv s =
    (if length argv < 2 then Some s else remove_dentry S mode_file (argv ! 1) s)"

section \<open>Path names\<close>

text \<open>The names between the slashes.\<close>

abbreviation components :: "u8 list \<Rightarrow> u8 list list" where
  "components \<equiv> words 0x2f"

lemma decode_args_components:
  assumes "0 \<notin> set cs" and "length cs < 32"
  shows "\<exists>cs' args. decode_args (cs @ 0 # r) 0 [] = Some (cs' @ 0 # r, args) \<and> length cs' = length cs \<and>
    map (\<lambda>a. c_string (drop a (cs' @ 0 # r))) args = components cs \<and>
    (\<forall>a \<in> set args. is_string (drop a (cs' @ 0 # r))) \<and> (cs \<noteq> [] \<longrightarrow> hd cs' = hd cs)"
proof -
  have "length ([] :: nat list) + length (components cs) \<le> 16" using length_words[of "0x2f" cs] assms(2) by simp
  then show ?thesis
    using cut_words_split[OF assms(1), of "0x2f" "[]" "[]" r] by (auto simp: decode_args_def)
qed

section \<open>Directories\<close>

text \<open>
  Where a path leads from directory \<open>k\<close>, on the entries \<open>ds\<close> of all directories: entries of
  files are not followed.
\<close>

fun resolve :: "(nat \<Rightarrow> dent list) \<Rightarrow> nat \<Rightarrow> u8 list list \<Rightarrow> nat option" where
  "resolve ds k [] = Some k"
| "resolve ds k (n # ns) =
    (case dlookup (ds k) (\<lambda>m. m \<noteq> mode_file) n of
       None \<Rightarrow> None
     | Some j \<Rightarrow> resolve ds (unat (snd (snd (the (ds k ! j))))) ns)"

text \<open>
  The directories \<open>D\<close> of a file system: each is in use, its inode carries its own number and its
  block is sound, and what it lists as a directory is one.
\<close>

definition dir_at :: "'d sd \<Rightarrow> 'd fs \<Rightarrow> nat \<Rightarrow> dent list" where
  "dir_at S s k = dents (sector S s k)"

definition tree_ok :: "'d sd \<Rightarrow> 'd fs \<Rightarrow> nat set \<Rightarrow> bool" where
  "tree_ok S s D \<longleftrightarrow> (\<forall>k \<in> D. k < 0x8000 \<and> map_bit (inode_map s) k \<and> dir_ok (sector S s k) \<and>
    (\<exists>name father. inode_is (inode_read S [] (word_of_nat k) s) (word_of_nat k) mode_dir name father) \<and>
    (\<forall>j < 16. \<forall>n m ino. dir_at S s k ! j = Some (n, m, ino) \<and> m \<noteq> mode_file \<longrightarrow> unat ino \<in> D))"

lemma dlookup_entry:
  assumes "tree_ok S s D" and "k \<in> D" and "dlookup (dir_at S s k) (\<lambda>m. m \<noteq> mode_file) n = Some j"
  shows "j < 16" "unat (snd (snd (the (dir_at S s k ! j)))) \<in> D"
    "d_ino (sector S s k) j = snd (snd (the (dir_at S s k ! j)))"
proof -
  obtain m ino where j: "j < 16" "dir_at S s k ! j = Some (n, m, ino)" "m \<noteq> mode_file"
    using dlookup_Some[OF assms(3)] by auto
  then show "j < 16" "unat (snd (snd (the (dir_at S s k ! j)))) \<in> D"
    using assms(1,2) unfolding tree_ok_def by auto
  have "length (sector S s k) = 512" using assms(1,2) by (auto simp: tree_ok_def dir_ok_def)
  from slot_fields(1)[OF this j(1)] show "d_ino (sector S s k) j = snd (snd (the (dir_at S s k ! j)))"
    using j(1,2) by (auto simp: dir_at_def nth_dents dent_of_def split: if_splits)
qed

context sd_card
begin

lemma tree_ino:
  assumes "tree_ok S s D" and "k \<in> D"
  shows "k < 0x8000" "get32 (inode_read S dest (word_of_nat k) s) inode_ino = word_of_nat k"
  using assms inode_read_dest[of k dest s "[]"] by (auto simp: tree_ok_def inode_is_def)

lemma tree_ok_cong: "card s = card s' \<Longrightarrow> inode_map s = inode_map s' \<Longrightarrow> tree_ok S s D = tree_ok S s' D"
  by (simp add: tree_ok_def dir_at_def inode_read_def)

lemma tree_ok_cur_dir [simp]: "tree_ok S (s\<lparr>cur_dir := c\<rparr>) D = tree_ok S s D"
  by (rule tree_ok_cong) simp_all

lemma dir_at_cur_dir [simp]: "dir_at S (s\<lparr>cur_dir := c\<rparr>) = dir_at S s"
  by (simp add: dir_at_def fun_eq_iff)

lemma decode_walk_resolves:
  assumes "tree_ok S s D" and "k \<in> D" and "cur_dir s = inode_read S [] (word_of_nat k) s"
    and "\<forall>a \<in> set args. is_string (drop a buf)"
  shows "case resolve (dir_at S s) k (map (\<lambda>a. c_string (drop a buf)) args) of
      Some k' \<Rightarrow> k' \<in> D \<and> decode_walk S buf args s = Some (1, s\<lparr>cur_dir := inode_read S [] (word_of_nat k') s\<rparr>)
    | None \<Rightarrow> \<exists>c. decode_walk S buf args s = Some (- 1, printf (''error: no such directory'' @ nl) [] (s\<lparr>cur_dir := c\<rparr>))"
  using assms
proof (induction args arbitrary: k s)
  case Nil
  then show ?case by simp
next
  case (Cons a args)
  have ok: "dir_ok (sector S s k)" using Cons.prems(1,2) by (auto simp: tree_ok_def)
  have db: "dir_block_read S (ino_of (cur_dir s)) s = sector S s k"
    using tree_ino(2)[OF Cons.prems(1,2)] Cons.prems(3) by simp
  have scan: "scan_dentries (d_match (sector S s k) (\<lambda>m. m \<noteq> mode_file) (drop a buf)) [0..<DENTRYS_PER_BLOCK] =
      Some (dlookup (dir_at S s k) (\<lambda>m. m \<noteq> mode_file) (c_string (drop a buf)))"
    using scan_match[OF ok] Cons.prems(4) by (simp add: dir_at_def)
  show ?case
  proof (cases "dlookup (dir_at S s k) (\<lambda>m. m \<noteq> mode_file) (c_string (drop a buf))")
    case None
    then have "decode_walk S buf (a # args) s = Some (- 1, printf (''error: no such directory'' @ nl) [] (s\<lparr>cur_dir := cur_dir s\<rparr>))"
      using db scan by simp
    then show ?thesis using None by (simp only: resolve.simps list.map option.case) blast
  next
    case (Some j)
    note e = dlookup_entry[OF Cons.prems(1,2) Some]
    let ?k = "unat (snd (snd (the (dir_at S s k ! j))))"
    define s1 where "s1 = s\<lparr>cur_dir := inode_read S [] (word_of_nat ?k) s\<rparr>"
    have rd: "inode_read S (cur_dir s) (d_ino (sector S s k) j) s = inode_read S [] (word_of_nat ?k) s"
      using inode_read_dest[OF tree_ino(1)[OF Cons.prems(1) e(2)], of "cur_dir s" s "[]"] e(3) by simp
    have step: "decode_walk S buf (a # args) s = decode_walk S buf args s1"
      using db scan Some rd by (simp add: s1_def)
    have "tree_ok S s1 D" "cur_dir s1 = inode_read S [] (word_of_nat ?k) s1" "dir_at S s1 = dir_at S s"
      using Cons.prems(1) inode_read_card[of s1 s] by (simp_all add: s1_def)
    from Cons.IH[OF this(1) e(2) this(2)] Cons.prems(4) this(3)
    have "case resolve (dir_at S s) ?k (map (\<lambda>a. c_string (drop a buf)) args) of
      Some k' \<Rightarrow> k' \<in> D \<and> decode_walk S buf args s1 = Some (1, s1\<lparr>cur_dir := inode_read S [] (word_of_nat k') s1\<rparr>)
    | None \<Rightarrow> \<exists>c. decode_walk S buf args s1 = Some (- 1, printf (''error: no such directory'' @ nl) [] (s1\<lparr>cur_dir := c\<rparr>))"
      by simp
    then show ?thesis
      using step Some inode_read_card[of s1 s] by (auto simp: s1_def split: option.splits)
  qed
qed

lemma decode_path_resolves:
  assumes "locals_ok J" and "is_string path" and "length (c_string path) < 32" and "tree_ok S s D"
    and "superblock s ! 6 = word_of_nat r" and "r \<in> D"
    and "ino_of (shell_path_inode s) = word_of_nat k" and "k \<in> D"
  shows "case resolve (dir_at S s) (if c_string path \<noteq> [] \<and> hd path = 0x2f then r else k) (components (c_string path)) of
      Some k' \<Rightarrow> k' \<in> D \<and> decode_path S J path s = Some (1, s\<lparr>cur_dir := inode_read S [] (word_of_nat k') s\<rparr>)
    | None \<Rightarrow> \<exists>c. decode_path S J path s = Some (- 1, printf (''error: no such directory'' @ nl) [] (s\<lparr>cur_dir := c\<rparr>))"
proof -
  let ?p = "c_string path" and ?k = "if c_string path \<noteq> [] \<and> hd path = 0x2f then r else k"
  have nz: "0 \<notin> set ?p" by (rule c_string_no_zero)
  obtain tl where cp: "strcpy (junk_buf J) path = Some (?p @ 0 # tl)"
    using strcpy_some[OF assms(2), of "junk_buf J"] assms(1,3) by (auto simp: locals_ok_def)
  obtain cs' args where
    da: "decode_args (?p @ 0 # tl) 0 [] = Some (cs' @ 0 # tl, args)" and len: "length cs' = length ?p"
    and comp: "map (\<lambda>a. c_string (drop a (cs' @ 0 # tl))) args = components ?p"
    and str: "\<forall>a \<in> set args. is_string (drop a (cs' @ 0 # tl))" and hd: "?p \<noteq> [] \<longrightarrow> hd cs' = hd ?p"
    using decode_args_components[OF nz assms(3), of tl] by blast
  have hp: "?p \<noteq> [] \<Longrightarrow> hd ?p = hd path" by (cases path) (auto split: if_splits)
  have b0: "(cs' @ 0 # tl) ! 0 = 0x2f \<longleftrightarrow> ?p \<noteq> [] \<and> hd path = 0x2f"
    using len hd hp by (cases cs'; cases ?p) (auto simp: nth_append hd_conv_nth)
  have kD: "?k \<in> D" using assms(6,8) by auto
  define s1 where "s1 = s\<lparr>cur_dir := inode_read S [] (word_of_nat ?k) s\<rparr>"
  have "init_cur_dir S ((cs' @ 0 # tl) ! 0) s = s1"
    unfolding init_cur_dir_def s1_def assms(5,7) b0
    using inode_read_dest[OF tree_ino(1)[OF assms(4) assms(6)], of "cur_dir s" s "[]"]
      inode_read_dest[OF tree_ino(1)[OF assms(4) assms(8)], of "cur_dir s" s "[]"] by auto
  then have dp: "decode_path S J path s =
      (if args = [] then Some (1, s1) else if ?p = [] then Some (1, s1) else decode_walk S (cs' @ 0 # tl) args s1)"
    using cp da strlen_some[OF assms(2)] by (simp add: decode_path_def Let_def)
  have "?p = [] \<Longrightarrow> args = []" using comp by (cases args) auto
  then have dp2: "decode_path S J path s = decode_walk S (cs' @ 0 # tl) args s1"
    using dp by (cases "args = []") auto
  have "tree_ok S s1 D" "cur_dir s1 = inode_read S [] (word_of_nat ?k) s1" "dir_at S s1 = dir_at S s"
    using assms(4) inode_read_card[of s1 s] by (simp_all add: s1_def)
  from decode_walk_resolves[OF this(1) kD this(2) str] this(3) comp dp2 inode_read_card[of s1 s]
  show ?thesis by (auto simp: s1_def split: option.splits)
qed

end

section \<open>New entries\<close>

text \<open>What \<open>make_directory\<close> and \<open>touch_file\<close> do once they have found a free entry.\<close>

definition create_entry :: "'d sd \<Rightarrow> locals \<Rightarrow> u32 \<Rightarrow> u8 list \<Rightarrow> nat \<Rightarrow> u8 list \<Rightarrow> 'd fs \<Rightarrow> 'd fs option" where
  "create_entry S J mode name i db s = do {
     (ino, s) \<leftarrow> inode_alloc S s;
     s \<leftarrow> inode_create S J (word_of_int ino) mode name (ino_of (shell_path_inode s)) s;
     db \<leftarrow> d_set db i (word_of_int ino) mode name;
     Some (dir_block_write S db (ino_of (shell_path_inode s)) s)
   }"

text \<open>The result, between the state before and the state after, for the new inode \<open>n\<close>.\<close>

definition entry_created :: "'d sd \<Rightarrow> u32 \<Rightarrow> u8 list \<Rightarrow> nat \<Rightarrow> nat \<Rightarrow> nat \<Rightarrow> 'd fs \<Rightarrow> 'd fs \<Rightarrow> bool" where
  "entry_created S mode name k i n s s' \<longleftrightarrow> n < 0x8000 \<and> \<not> map_bit (inode_map s) n \<and>
    s' = s\<lparr>card := card s', inode_map := inode_map s'\<rparr> \<and> length (inode_map s') = 1024 \<and>
    (\<forall>j < 0x8000. map_bit (inode_map s') j = (j = n \<or> map_bit (inode_map s) j)) \<and>
    inode_is (inode_read S [] (word_of_nat n) s') (word_of_nat n) mode name (word_of_nat k) \<and>
    (\<forall>j < 0x8000. j \<noteq> n \<longrightarrow> inode_read S [] (word_of_nat j) s' = inode_read S [] (word_of_nat j) s) \<and>
    dir_ok (sector S s' k) \<and> dir_at S s' k = (dir_at S s k)[i := Some (name, mode, word_of_nat n)] \<and>
    (\<forall>b < 0xfdff7. b \<noteq> k \<and> b \<noteq> n \<longrightarrow> sector S s' b = sector S s b) \<and>
    (mode = mode_dir \<longrightarrow> dir_ok (sector S s' n) \<and> dir_at S s' n = empty_dir (word_of_nat n) (word_of_nat k)) \<and>
    (mode = mode_file \<longrightarrow> take 4 (sector S s' n) = [0, 0, 0, 0])"

lemma empty_dir_entry:
  assumes "j < 16" and "empty_dir a b ! j = Some (n, m, ino)"
  shows "ino = a \<or> ino = b" and "n = [0x2e] \<or> n = [0x2e, 0x2e]"
proof -
  have "Some (n, m, ino) \<in> set (empty_dir a b)"
    using assms nth_mem[of j "empty_dir a b"] by (simp add: empty_dir_def)
  then show "ino = a \<or> ino = b" and "n = [0x2e] \<or> n = [0x2e, 0x2e]" by (auto simp: empty_dir_def)
qed

lemma entry_created_tree:
  assumes "entry_created S mode name k i n s s'" and "tree_ok S s D" and "k \<in> D" and "mode = mode_file \<or> mode = mode_dir"
  shows "tree_ok S s' (if mode = mode_dir then insert n D else D)"
proof -
  have nD: "n \<notin> D" using assms(1,2) by (auto simp: entry_created_def tree_ok_def)
  have un: "unat (word_of_nat n :: u32) = n" "unat (word_of_nat k :: u32) = k"
    using assms by (auto simp: entry_created_def tree_ok_def intro!: unat_word_small)
  have same: "sector S s' j = sector S s j" if "j \<in> D" "j \<noteq> k" for j
  proof -
    have "j < 0x8000" using assms(2) that(1) by (simp add: tree_ok_def)
    then have "j < 0xfdff7" "j \<noteq> n" using nD that(1) by auto
    then show ?thesis using assms(1) that(2) by (simp add: entry_created_def)
  qed
  have old: "j < 0x8000 \<and> map_bit (inode_map s') j \<and> dir_ok (sector S s' j) \<and>
    (\<exists>name father. inode_is (inode_read S [] (word_of_nat j) s') (word_of_nat j) mode_dir name father)" if "j \<in> D" for j
    using assms(1,2) that nD same[OF that] by (cases "j = k") (auto simp: entry_created_def tree_ok_def)
  have ents: "unat ino \<in> (if mode = mode_dir then insert n D else D)"
    if "j \<in> D" "e < 16" "dir_at S s' j ! e = Some (nm, m, ino)" "m \<noteq> mode_file" for j e nm m ino
  proof (cases "j = k \<and> e = i")
    case True
    then have "(nm, m, ino) = (name, mode, word_of_nat n)"
      using assms(1) that(2,3) by (auto simp: entry_created_def dir_at_def)
    then show ?thesis using that(4) assms(4) un by auto
  next
    case False
    then have "dir_at S s j ! e = Some (nm, m, ino)"
      using assms(1) that(1-3) same[OF that(1)]
      by (cases "j = k") (auto simp: entry_created_def dir_at_def nth_list_update split: if_splits)
    then show ?thesis using assms(2) that by (auto simp: tree_ok_def)
  qed
  have new: "unat ino \<in> insert n D" if "mode = mode_dir" "e < 16" "dir_at S s' n ! e = Some (nm, m, ino)" for e nm m ino
    using empty_dir_entry(1)[of e "word_of_nat n" "word_of_nat k"] assms(1,3) that un by (auto simp: entry_created_def)
  show ?thesis
    unfolding tree_ok_def
  proof (rule ballI)
    fix j assume j: "j \<in> (if mode = mode_dir then insert n D else D)"
    show "j < 0x8000 \<and> map_bit (inode_map s') j \<and> dir_ok (sector S s' j) \<and>
      (\<exists>name father. inode_is (inode_read S [] (word_of_nat j) s') (word_of_nat j) mode_dir name father) \<and>
      (\<forall>e < 16. \<forall>nm m ino. dir_at S s' j ! e = Some (nm, m, ino) \<and> m \<noteq> mode_file \<longrightarrow>
        unat ino \<in> (if mode = mode_dir then insert n D else D))"
    proof (cases "j \<in> D")
      case True
      from old[OF True] ents[OF True] show ?thesis by blast
    next
      case False
      then have m: "mode = mode_dir" and jn: "j = n" using j by (auto split: if_splits)
      have "n < 0x8000" "map_bit (inode_map s') n" "dir_ok (sector S s' n)"
        "inode_is (inode_read S [] (word_of_nat n) s') (word_of_nat n) mode_dir name (word_of_nat k)"
        using assms(1) m by (simp_all add: entry_created_def)
      with new[OF m] m jn show ?thesis by auto
    qed
  qed
qed

context sd_card
begin

lemma inode_read_map_write:
  assumes "length (inode_map s) = 1024" and "j < 0x8000"
  shows "inode_read S dest (word_of_nat j) (inode_map_write S s) = inode_read S dest (word_of_nat j) s"
proof -
  have "\<not> inode_sector j < 0xfe000" by (simp add: inode_sector_def)
  then show ?thesis
    using assms sector_map_write[OF assms(1) inode_sector_bound[OF assms(2)]] by (simp add: inode_read_eq)
qed

lemma create_entry_ok:
  assumes "locals_ok J" and "fs_wf s" and "tree_ok S s D" and "k \<in> D" and "ino_of (shell_path_inode s) = word_of_nat k"
    and "is_string name" and "length (c_string name) < 24" and "i < 16" and "mode = mode_file \<or> mode = mode_dir"
    and "\<exists>n < 0x8000. \<not> map_bit (inode_map s) n"
  obtains s' n where "create_entry S J mode name i (sector S s k) s = Some s'"
    "entry_created S mode (c_string name) k i n s s'" "n \<notin> D"
proof -
  have len: "length (inode_map s) = 1024" using assms(2) by (simp add: fs_wf_def)
  then obtain n m where al: "n < 0x8000" "\<not> map_bit (inode_map s) n"
    "inode_alloc S s = Some (int n, inode_map_write S (s\<lparr>inode_map := m\<rparr>))" "length m = 1024"
    "\<forall>j < 0x8000. map_bit m j = (j = n \<or> map_bit (inode_map s) j)"
    using assms(10) by (cases rule: inode_alloc_cases[where S = S]) blast+
  define s1 where "s1 = inode_map_write S (s\<lparr>inode_map := m\<rparr>)"
  have k: "k < 0x8000" "k \<noteq> n" "n \<notin> D" using assms(3,4) al(2) by (auto simp: tree_ok_def)
  obtain d ie db where cr: "inode_create S J (word_of_nat n) mode name (word_of_nat k) s1 = Some (s1\<lparr>card := d\<rparr>)"
    "inode_is ie (word_of_nat n) mode (c_string name) (word_of_nat k)"
    "\<And>j dest. j < 0x8000 \<Longrightarrow> inode_read S dest (word_of_nat j) (s1\<lparr>card := d\<rparr>) =
      (if j = n then ie else inode_read S dest (word_of_nat j) s1)"
    "\<And>b. b < 0xfe000 \<Longrightarrow> sector_read S (word_of_nat b) d = (if b = n then db else sector S s1 b)"
    "mode = mode_dir \<Longrightarrow> dir_ok db \<and> dents db = empty_dir (word_of_nat n) (word_of_nat k)"
    "mode = mode_file \<Longrightarrow> length db = 512 \<and> take 4 db = [0, 0, 0, 0]"
    by (rule inode_create_ok[OF assms(1) al(1) k(1) assms(6) _ assms(9), of s1]) (use assms(7) in auto)
  obtain db' where ds: "d_set (sector S s k) i (word_of_nat n) mode name = Some db'" "dir_ok db'"
    "dents db' = (dents (sector S s k))[i := Some (c_string name, mode, word_of_nat n)]"
    by (rule d_set_ok[of "sector S s k" i name "word_of_nat n" mode])
      (use assms(3,4,6-8) ino_not_minus1[OF al(1)] in \<open>auto simp: tree_ok_def\<close>)
  define s' where "s' = s1\<lparr>card := sector_write S db' (word_of_nat k) d\<rparr>"
  have "create_entry S J mode name i (sector S s k) s = Some s'"
    using al(3) cr(1) ds(1) assms(5) by (simp add: create_entry_def s1_def[symmetric] block_write s'_def) (simp add: s1_def)
  moreover have ld: "length db' = 512" using ds(2) by (simp add: dir_ok_def)
  have sec: "sector S s' b = (if b = k then db' else if b = n then db else sector S s b)" if "b < 0xfdff7" for b
  proof -
    have "sector S s1 b = sector S s b"
      using sector_map_write[of "s\<lparr>inode_map := m\<rparr>" b] al(4) that by (simp add: s1_def num_sectors_def)
    then show ?thesis
      using sectors.rd_wr[OF _ _ ld, of k b d] cr(4)[of b] k(1) that by (simp add: s'_def num_sectors_def)
  qed
  have ino: "inode_read S [] (word_of_nat j) s' = (if j = n then ie else inode_read S [] (word_of_nat j) s)" if "j < 0x8000" for j
  proof -
    have "inode_read S [] (word_of_nat j) s1 = inode_read S [] (word_of_nat j) (s\<lparr>inode_map := m\<rparr>)"
      unfolding s1_def using inode_read_map_write[of "s\<lparr>inode_map := m\<rparr>" j] al(4) that by simp
    then show ?thesis
      using inode_read_block_write[OF _ that ld, of k "[]" "s1\<lparr>card := d\<rparr>"] cr(3)[OF that] k(1)
        inode_read_card[of "s\<lparr>inode_map := m\<rparr>" s] by (simp add: s'_def)
  qed
  have "entry_created S mode (c_string name) k i n s s'"
    unfolding entry_created_def
    using al(1,2,4,5) cr(2,5,6) ds(2,3) k(1,2) sec[of k] sec[of n] ino[of n] sec ino
    by (auto simp: dir_at_def s'_def s1_def inode_map_write_state)
  ultimately show thesis using that k(3) by blast
qed

lemma make_directory_ok:
  assumes "locals_ok J" and "fs_wf s" and "tree_ok S s D" and "k \<in> D" and "ino_of (shell_path_inode s) = word_of_nat k"
    and "is_string name" and "length (c_string name) < 24" and "dfree (dir_at S s k) = Some i"
    and "\<exists>n < 0x8000. \<not> map_bit (inode_map s) n"
  obtains s' n where "make_directory S J [cmd, name] s = Some s'"
    "entry_created S mode_dir (c_string name) k i n s s'" "n \<notin> D"
proof -
  have ok: "dir_ok (sector S s k)" using assms(3,4) by (simp add: tree_ok_def)
  have i: "i < 16" using dfree_Some[OF assms(8)] by simp
  obtain s' n where c: "create_entry S J mode_dir name i (sector S s k) s = Some s'"
    "entry_created S mode_dir (c_string name) k i n s s'" "n \<notin> D"
    by (rule create_entry_ok[OF assms(1-7) i _ assms(9), of mode_dir]) auto
  have "make_directory S J [cmd, name] s = create_entry S J mode_dir name i (sector S s k) s"
    using scan_free[OF ok] assms(5,8)
    by (simp add: make_directory_def create_entry_def dir_at_def index_or_def)
  then show thesis using that c by simp
qed

end

section \<open>Removed entries\<close>

lemma inode_delete_ok:
  assumes "length (inode_map s) = 1024" and "n < 0x8000"
  obtains m where "inode_delete S (word_of_nat n) s = Some (inode_map_write S (s\<lparr>inode_map := m\<rparr>))" "length m = 1024"
    "\<forall>j < 0x8000. map_bit m j = (j \<noteq> n \<and> map_bit (inode_map s) j)"
proof -
  have "sint (word_of_nat n :: u32) = int n" using assms(2) by (simp add: sint_word_small)
  then show thesis
    using modify_map_bits[OF assms, of False] that by (auto simp: inode_delete_def)
qed

context sd_card
begin

lemma remove_dentry_ok:
  assumes "length (inode_map s) = 1024" and "ino_of (shell_path_inode s) = word_of_nat k" and "k < 0x8000"
    and "dir_ok (sector S s k)" and "is_string name" and "dlookup (dir_at S s k) (\<lambda>m. m = mode) (c_string name) = Some i"
    and "dir_at S s k ! i = Some (nm, mode, word_of_nat n)" and "n < 0x8000"
  obtains s' where "remove_dentry S mode name s = Some s'" "dir_ok (sector S s' k)"
    "dir_at S s' k = (dir_at S s k)[i := None]" "card_map S s' = inode_map s'"
    "\<forall>j < 0x8000. map_bit (inode_map s') j = (j \<noteq> n \<and> map_bit (inode_map s) j)"
    "\<forall>b < 0xfdff8. b \<noteq> k \<longrightarrow> sector S s' b = sector S s b" "length (inode_map s') = 1024"
proof -
  have i: "i < 16" using dlookup_Some[OF assms(6)] by simp
  have ino: "d_ino (sector S s k) i = word_of_nat n"
    using assms(4,7) slot_fields(1)[OF _ i, of "sector S s k"] i
    by (auto simp: dir_at_def nth_dents dent_of_def dir_ok_def split: if_splits)
  obtain m where m: "inode_delete S (word_of_nat n) s = Some (inode_map_write S (s\<lparr>inode_map := m\<rparr>))" "length m = 1024"
    "\<forall>j < 0x8000. map_bit m j = (j \<noteq> n \<and> map_bit (inode_map s) j)"
    by (rule inode_delete_ok[OF assms(1,8)])
  define s1 where "s1 = inode_map_write S (s\<lparr>inode_map := m\<rparr>)"
  define db where "db = put32 (sector S s k) (FS_DENTRY_SIZE * i + dentry_ino) (- 1)"
  define s' where "s' = s1\<lparr>card := sector_write S db (word_of_nat k) (card s1)\<rparr>"
  have db: "dir_ok db" "dents db = (dents (sector S s k))[i := None]" "length db = 512"
    using d_clear_ok[OF assms(4) i] by (simp_all add: db_def dir_ok_def)
  have "remove_dentry S mode name s = Some s'"
    using scan_match[OF assms(4,5)] assms(2,6) ino m(1)
    by (simp add: remove_dentry_def Let_def dir_at_def s1_def[symmetric] db_def[symmetric] block_write s'_def)
      (simp add: s1_def)
  moreover have sec: "sector S s' b = (if b = k then db else sector S s1 b)" if "b < 0xfe000" for b
    using sectors.rd_wr[OF _ _ db(3), of k b "card s1"] assms(3) that by (simp add: s'_def num_sectors_def)
  moreover have "sector S s1 b = sector S s b" if "b < 0xfdff8" for b
    using sector_map_write[of "s\<lparr>inode_map := m\<rparr>" b] m(2) that by (simp add: s1_def num_sectors_def)
  moreover have "card_map S s' = card_map S s1"
    using sec assms(3) by (auto simp: card_map_def simp del: of_nat_add upt_Suc intro!: arg_cong[where f = concat])
  then have "card_map S s' = inode_map s'"
    using card_map_write[of "s\<lparr>inode_map := m\<rparr>"] m(2) by (simp add: s1_def s'_def)
  ultimately show thesis
    using db m(2,3) assms(3) by (intro that[of s']) (auto simp: dir_at_def s'_def s1_def)
qed

text \<open>The tree of a new file system is its root.\<close>

lemma has_fs_tree:
  assumes "has_fs s root" and "map_bit (inode_map s) 0" and "dir_ok (sector S s 0)" and "dents (sector S s 0) = empty_dir 0 0"
  shows "tree_ok S s {0}"
proof -
  have "inode_is (inode_read S [] (word_of_nat 0) s) 0 mode_dir [0x7e] 0"
    using assms(1) inode_read_dest[of 0 "[]" s root] by (simp add: has_fs_def)
  moreover have "unat ino = 0" if "j < 16" "empty_dir 0 0 ! j = Some (n, m, ino)" for j n m ino
    using empty_dir_entry(1)[OF that] by auto
  ultimately show ?thesis
    using assms(2-4) by (auto simp: tree_ok_def dir_at_def)
qed

end

section \<open>Properties\<close>

text \<open>The state after a file system was made on the blank card.\<close>

lemma sample_root:
  "\<exists>s. fs_wf s \<and> tree_ok ram_card s {0} \<and> superblock s ! 6 = word_of_nat 0 \<and>
    ino_of (shell_path_inode s) = word_of_nat 0 \<and> dir_at ram_card s 0 = empty_dir 0 0 \<and> \<not> map_bit (inode_map s) 1"
proof -
  obtain s' root where "fs_wf s'" "ram.has_fs s' root" "superblock s' = new_superblock"
    "shell_path_inode s' = root" "\<forall>k < 0x8000. map_bit (inode_map s') k \<longleftrightarrow> k = 0"
    "dir_ok (sector ram_card s' 0)" "dents (sector ram_card s' 0) = empty_dir 0 0"
    by (rule ram.makefs_creates[OF sample_fs_wf sample_locals_ok sample_no_magic])
  then show ?thesis
    using ram.has_fs_tree[of s' root]
    by (intro exI[of _ s']) (auto simp: new_superblock_def ROOT_DIR_INO_def dir_at_def ram.has_fs_def inode_is_def)
qed

text \<open>
  C16: \<open>decode_path\<close> on a path of at most 31 characters always returns. It follows the names
  between the slashes from the root, if the path begins with one, or from the shell's directory:
  if they lead to a directory it returns 1 with that directory's inode in \<open>cur_dir\<close>, and
  otherwise it returns -1 and reports the error. The offsets of the names fit in \<open>dir_args\<close>.
\<close>

theorem decode_path_follows:
  assumes "sd_card S byte" and "locals_ok J" and "is_string path" and "length (c_string path) < 32" and "tree_ok S s D"
    and "superblock s ! 6 = word_of_nat r" and "r \<in> D"
    and "ino_of (shell_path_inode s) = word_of_nat k" and "k \<in> D"
  shows "case resolve (dir_at S s) (if c_string path \<noteq> [] \<and> hd path = 0x2f then r else k) (components (c_string path)) of
      Some k' \<Rightarrow> k' \<in> D \<and> decode_path S J path s = Some (1, s\<lparr>cur_dir := inode_read S [] (word_of_nat k') s\<rparr>)
    | None \<Rightarrow> \<exists>c. decode_path S J path s = Some (- 1, printf (''error: no such directory'' @ nl) [] (s\<lparr>cur_dir := c\<rparr>))"
  by (rule sd_card.decode_path_resolves[OF assms])

theorem decode_path_follows_witness:
  "\<exists>s. decode_path ram_card sample_locals [0x2f, 0] s = Some (1, s\<lparr>cur_dir := inode_read ram_card [] (word_of_nat 0) s\<rparr>)"
proof -
  obtain s where s: "tree_ok ram_card s {0}" "superblock s ! 6 = word_of_nat 0" "ino_of (shell_path_inode s) = word_of_nat 0"
    using sample_root by blast
  then show ?thesis
    using decode_path_follows[OF ram.sd_card_axioms sample_locals_ok, of "[0x2f, 0]" s "{0}" 0 0]
    by (intro exI[of _ s]) simp
qed

text \<open>
  C17: \<open>make_directory\<close> with a new name, in a directory with a free entry, takes a free inode,
  adds one entry to the shell's directory and makes the new directory empty; the directories stay
  sound and no other block changes. Changing into the name then makes it the shell's directory,
  with the old one as its parent.
\<close>

theorem mkdir_then_cd:
  assumes "sd_card S byte" and "locals_ok J" and "locals_ok J2" and "fs_wf s" and "tree_ok S s D"
    and "superblock s ! 6 = word_of_nat r" and "r \<in> D" and "ino_of (shell_path_inode s) = word_of_nat k" and "k \<in> D"
    and "is_string name" and "length (c_string name) < 24" and "c_string name \<noteq> []" and "0x2f \<notin> set (c_string name)"
    and "dlookup (dir_at S s k) (\<lambda>m. m \<noteq> mode_file) (c_string name) = None"
    and "dfree (dir_at S s k) = Some i" and "\<exists>n < 0x8000. \<not> map_bit (inode_map s) n"
  shows "\<exists>s' n. make_directory S J [cmd, name] s = Some s' \<and> n \<notin> D \<and>
    entry_created S mode_dir (c_string name) k i n s s' \<and> tree_ok S s' (insert n D) \<and>
    (\<exists>s''. change_directory S J2 [cmd2, name] s' = Some s'' \<and>
      inode_is (shell_path_inode s'') (word_of_nat n) mode_dir (c_string name) (word_of_nat k) \<and>
      c_string (shell_path_head s'') = c_string name)"
proof -
  obtain s' n where mk: "make_directory S J [cmd, name] s = Some s'"
    "entry_created S mode_dir (c_string name) k i n s s'" "n \<notin> D"
    by (rule sd_card.make_directory_ok[OF assms(1,2,4,5,9,8,10,11,15,16)])
  have tree: "tree_ok S s' (insert n D)" using entry_created_tree[OF mk(2) assms(5,9)] by simp
  have n: "n < 0x8000" and rec: "s' = s\<lparr>card := card s', inode_map := inode_map s'\<rparr>"
    and da: "dir_at S s' k = (dir_at S s k)[i := Some (c_string name, mode_dir, word_of_nat n)]"
    and ni: "inode_is (inode_read S [] (word_of_nat n) s') (word_of_nat n) mode_dir (c_string name) (word_of_nat k)"
    using mk(2) by (simp_all add: entry_created_def)
  have same: "superblock s' = superblock s" "shell_path_inode s' = shell_path_inode s" "shell_path_head s' = shell_path_head s"
    by (subst rec, simp)+
  have i: "i < 16" "dir_at S s k ! i = None" using dfree_Some[OF assms(15)] by auto
  have "dlookup (dir_at S s' k) (\<lambda>m. m \<noteq> mode_file) (c_string name) = Some i"
    unfolding da by (rule dlookup_new[OF assms(14) i(1)]) (simp_all add: dir_at_def mode_dir_def mode_file_def)
  moreover have "components (c_string name) = [c_string name]"
    by (rule words_single[OF assms(12,13)])
  ultimately have res: "resolve (dir_at S s') k (components (c_string name)) = Some n"
    using da i(1) n by (simp add: dir_at_def unat_word_small)
  have "hd name \<noteq> 0x2f" using assms(12,13) by (cases name) (auto split: if_splits)
  then have dp: "decode_path S J2 name s' = Some (1, s'\<lparr>cur_dir := inode_read S [] (word_of_nat n) s'\<rparr>)"
    using sd_card.decode_path_resolves[OF assms(1,3,10) _ tree, of r k] assms(6-9,11) same res by simp
  define s1 where "s1 = s'\<lparr>cur_dir := inode_read S [] (word_of_nat n) s'\<rparr>"
  have ie: "inode_read S (shell_path_inode s1) (ino_of (cur_dir s1)) s1 = inode_read S [] (word_of_nat n) s'"
    using ni sd_card.inode_read_dest[OF assms(1) n, of "shell_path_inode s1" s1 "[]"] sd_card.inode_read_card[OF assms(1), of s1 s']
    by (simp add: s1_def inode_is_def)
  note nm = inode_is_name[OF ni]
  have "strcpy (shell_path_head s1) (inode_read S [] (word_of_nat n) s') =
      Some (c_string name @ 0 # drop (Suc (length (c_string name))) (shell_path_head s1))"
    using strcpy_some[OF nm(1), of "shell_path_head s1"] nm(2,3) assms(4) same by (simp add: s1_def fs_wf_def)
  then have "\<exists>s''. change_directory S J2 [cmd2, name] s' = Some s'' \<and>
      shell_path_inode s'' = inode_read S [] (word_of_nat n) s' \<and> c_string (shell_path_head s'') = c_string name"
    using dp ie nm(4) by (simp add: change_directory_def Let_def inode_name_def s1_def[symmetric] c_string_append)
  then show ?thesis using mk tree ni by metis
qed

lemma empty_dir_free: "dfree (empty_dir a b) = Some 2"
  by (simp add: dfree_def empty_dir_def upt_conv_Cons nth_Cons' eval_nat_numeral)

theorem mkdir_then_cd_witness:
  "\<exists>s s' n s''. make_directory ram_card sample_locals [[], [0x61, 0]] s = Some s' \<and>
     change_directory ram_card sample_locals [[], [0x61, 0]] s' = Some s'' \<and>
     inode_is (shell_path_inode s'') (word_of_nat n) mode_dir [0x61] (word_of_nat 0)"
proof -
  obtain s where s: "fs_wf s" "tree_ok ram_card s {0}" "superblock s ! 6 = word_of_nat 0"
    "ino_of (shell_path_inode s) = word_of_nat 0" "dir_at ram_card s 0 = empty_dir 0 0" "\<not> map_bit (inode_map s) 1"
    using sample_root by blast
  have "dlookup (dir_at ram_card s 0) (\<lambda>m. m \<noteq> mode_file) [0x61] = None"
    unfolding s(5) dlookup_None_iff using empty_dir_entry(2)[of _ 0 0 "[0x61]"] by fastforce
  moreover have "\<exists>n < 0x8000. \<not> map_bit (inode_map s) n" using s(6) by (intro exI[of _ 1]) simp
  ultimately show ?thesis
    using mkdir_then_cd[OF ram.sd_card_axioms sample_locals_ok sample_locals_ok s(1,2,3) _ s(4), of "[0x61, 0]" 2 "[]" "[]"]
      s(5) empty_dir_free by auto
qed

text \<open>
  \<open>remove_directory\<close> refuses the entries for the directory itself and its parent. Any other
  directory that is listed loses its entry and its inode, in memory and on the card, and nothing
  else changes: in particular what the directory contained is not visited.
\<close>

theorem remove_directory_unlinks:
  assumes "sd_card S byte" and "length (inode_map s) = 1024" and "ino_of (shell_path_inode s) = word_of_nat k"
    and "k < 0x8000" and "dir_ok (sector S s k)" and "is_string name"
    and "dlookup (dir_at S s k) (\<lambda>m. m = mode_dir) (c_string name) = Some i"
    and "dir_at S s k ! i = Some (nm, mode_dir, word_of_nat n)" and "n < 0x8000"
  shows "if c_string name = [0x2e] \<or> c_string name = [0x2e, 0x2e]
    then remove_directory S [cmd, name] s = Some (printf (''error: you cannot remove this directory!'' @ nl) [] s)
    else \<exists>s'. remove_directory S [cmd, name] s = Some s' \<and> dir_ok (sector S s' k) \<and>
      dir_at S s' k = (dir_at S s k)[i := None] \<and>
      (\<forall>j < 0x8000. map_bit (inode_map s') j = (j \<noteq> n \<and> map_bit (inode_map s) j)) \<and>
      inode_map (inode_map_read S s') = inode_map s' \<and>
      (\<forall>b < 0xfdff8. b \<noteq> k \<longrightarrow> sector S s' b = sector S s b)"
proof -
  have dots: "is_string [0x2e, 0]" "is_string [0x2e, 0x2e, 0]" by simp_all
  obtain r1 r2 where r: "strcmp name [0x2e, 0] = Some r1" "strcmp name [0x2e, 0x2e, 0] = Some r2"
    using strcmp_some[OF assms(6) dots(1)] strcmp_some[OF assms(6) dots(2)] by blast
  have dot: "r1 = 0 \<or> r2 = 0 \<longleftrightarrow> c_string name = [0x2e] \<or> c_string name = [0x2e, 0x2e]"
    using strcmp_zero[OF assms(6) dots(1)] strcmp_zero[OF assms(6) dots(2)] r by simp
  obtain s' where s': "remove_dentry S mode_dir name s = Some s'" "dir_ok (sector S s' k)"
    "dir_at S s' k = (dir_at S s k)[i := None]" "card_map S s' = inode_map s'"
    "\<forall>j < 0x8000. map_bit (inode_map s') j = (j \<noteq> n \<and> map_bit (inode_map s) j)"
    "\<forall>b < 0xfdff8. b \<noteq> k \<longrightarrow> sector S s' b = sector S s b" "length (inode_map s') = 1024"
    by (rule sd_card.remove_dentry_ok[OF assms])
  have "inode_map (inode_map_read S s') = inode_map s'"
    using sd_card.inode_map_read_eq[OF assms(1) s'(7)] s'(4) by simp
  then show ?thesis
    using r dot s' by (auto simp: remove_directory_def)
qed

theorem remove_directory_unlinks_witness:
  "\<exists>s. remove_directory ram_card [[], [0x2e, 0]] s = Some (printf (''error: you cannot remove this directory!'' @ nl) [] s)"
proof -
  obtain s where s: "fs_wf s" "tree_ok ram_card s {0}" "ino_of (shell_path_inode s) = word_of_nat 0"
    "dir_at ram_card s 0 = empty_dir 0 0"
    using sample_root by blast
  have "dlookup (dir_at ram_card s 0) (\<lambda>m. m = mode_dir) [0x2e] = Some 0"
    unfolding s(4) dlookup_def by (simp add: empty_dir_def upt_conv_Cons)
  moreover have "dir_ok (sector ram_card s 0)" using s(2) by (simp add: tree_ok_def)
  ultimately show ?thesis
    using remove_directory_unlinks[OF ram.sd_card_axioms _ s(3), of "[0x2e, 0]" 0 "[0x2e]" 0 "[]"] s(1,4)
    by (intro exI[of _ s]) (simp add: fs_wf_def empty_dir_def)
qed

end
