(* ===== verification/Text.thy ===== *)
theory Text
  imports Path
begin

text \<open>
  \<^verbatim>\<open>kernel/fs/text.c\<close>: files. A file has one block; a descriptor is an inode number and a
  position. The loops of this file run to 0x200 although a block has 16 entries, so a search
  that fails reads outside the block.
\<close>

section \<open>Operations\<close>

definition touch_file :: "'d sd \<Rightarrow> locals \<Rightarrow> u8 list list \<Rightarrow> 'd fs \<Rightarrow> 'd fs option" where
  "touch_file S J argv s =
    (if length argv < 2 then Some s
     else do {
       let file_name = argv ! 1;
       let db = dir_block_read S (ino_of (shell_path_inode s)) s;
       r \<leftarrow> scan_dentries (d_free db) [0..<0x200];
       let i = index_or 0x200 r;
       (ino, s) \<leftarrow> inode_alloc S s;
       s \<leftarrow> inode_create S J (word_of_int ino) mode_file file_name (ino_of (shell_path_inode s)) s;
       db \<leftarrow> d_set db i (word_of_int ino) mode_file file_name;
       Some (dir_block_write S db (ino_of (shell_path_inode s)) s)
     })"

definition cat_file :: "'d sd \<Rightarrow> u8 list list \<Rightarrow> 'd fs \<Rightarrow> 'd fs option" where
  "cat_file S argv s =
    (if length argv < 2 then Some s
     else do {
       let file_name = argv ! 1;
       let db = dir_block_read S (ino_of (shell_path_inode s)) s;
       r \<leftarrow> scan_dentries (d_match db (\<lambda>m. m = mode_file) file_name) [0..<0x200];
       case r of
         None \<Rightarrow> Some (printf (''error: no such file'' @ nl) [] s)
       | Some i \<Rightarrow> do {
           let fb = file_block_read S (d_ino db i) s;
           n \<leftarrow> strlen fb;
           Some (printf ''%s'' [Str (take n fb)] s)
         }
     })"

text \<open>The loop that \<open>sys_fopen\<close> has twice: a file of the directory gets the next descriptor.\<close>

definition fopen_found :: "'d sd \<Rightarrow> u8 list \<Rightarrow> 'd fs \<Rightarrow> (u32 \<times> 'd fs) option option" where
  "fopen_found S name s = do {
     let db = dir_block_read S (ino_of (shell_path_inode s)) s;
     r \<leftarrow> scan_dentries (d_match db (\<lambda>m. m = mode_file) name) [0..<0x200];
     case r of
       None \<Rightarrow> Some None
     | Some i \<Rightarrow>
         if unat (fd_index s) < length (fd s) then
           Some (Some (fd_index s + 1 - 1,
             s\<lparr>fd := (fd s)[unat (fd_index s) := (d_ino db i, 0)], fd_index := fd_index s + 1\<rparr>))
         else None
   }"

definition sys_fopen :: "'d sd \<Rightarrow> locals \<Rightarrow> u8 list \<Rightarrow> u32 \<Rightarrow> 'd fs \<Rightarrow> (u32 \<times> 'd fs) option" where
  "sys_fopen S J name access s = do {
     r \<leftarrow> fopen_found S name s;
     case r of
       Some found \<Rightarrow> Some found
     | None \<Rightarrow> do {
         s \<leftarrow> touch_file S J [[0x74, 0x6f, 0x75, 0x63, 0x68, 0], name] s;
         r \<leftarrow> fopen_found S name s;
         case r of
           Some found \<Rightarrow> Some found
         | None \<Rightarrow> Some (0, printf (''open failed'' @ nl) [] s)
       }
   }"

definition sys_fread :: "'d sd \<Rightarrow> u32 \<Rightarrow> u8 list \<Rightarrow> u32 \<Rightarrow> 'd fs \<Rightarrow> (u32 \<times> u8 list \<times> 'd fs) option" where
  "sys_fread S index buf sz s =
    (if unat index < length (fd s) then do {
       let (ino, pos) = fd s ! unat index;
       let fb = file_block_read S ino s;
       buf \<leftarrow> memcpy buf (drop (unat pos) fb) (unat sz);
       Some (sz, buf, s\<lparr>fd := (fd s)[unat index := (ino, pos + sz)]\<rparr>)
     }
     else None)"

definition sys_fwrite :: "'d sd \<Rightarrow> u32 \<Rightarrow> u8 list \<Rightarrow> u32 \<Rightarrow> 'd fs \<Rightarrow> (u32 \<times> 'd fs) option" where
  "sys_fwrite S index buf sz s =
    (if unat index < length (fd s) then do {
       let (ino, pos) = fd s ! unat index;
       let fb = file_block_read S ino s;
       tail \<leftarrow> memcpy (drop (unat pos) fb) buf (unat sz);
       let s = file_block_write S (take (unat pos) fb @ tail) ino s;
       Some (sz, s\<lparr>fd := (fd s)[unat index := (ino, pos + sz)]\<rparr>)
     }
     else None)"

definition sys_fclose :: "'d sd \<Rightarrow> u32 \<Rightarrow> 'd fs \<Rightarrow> 'd fs option" where
  "sys_fclose S index s = do {
     (r, s) \<leftarrow> sys_fwrite S index [0] 1 s;
     Some (s\<lparr>fd := (fd s)[unat index := (fst (fd s ! unat index), 0)]\<rparr>)
   }"

definition sys_fseek :: "u32 \<Rightarrow> u32 \<Rightarrow> 'd fs \<Rightarrow> 'd fs option" where
  "sys_fseek index pos s =
    (if unat index < length (fd s)
     then Some (s\<lparr>fd := (fd s)[unat index := (fst (fd s ! unat index), pos)]\<rparr>)
     else None)"

section \<open>Files\<close>

context sd_card
begin

lemma touch_file_ok:
  assumes "locals_ok J" and "fs_wf s" and "tree_ok S s D" and "k \<in> D" and "ino_of (shell_path_inode s) = word_of_nat k"
    and "is_string name" and "length (c_string name) < 24" and "dfree (dir_at S s k) = Some i"
    and "\<exists>n < 0x8000. \<not> map_bit (inode_map s) n"
  obtains s' n where "touch_file S J [cmd, name] s = Some s'"
    "entry_created S mode_file (c_string name) k i n s s'" "n \<notin> D"
proof -
  have ok: "dir_ok (sector S s k)" using assms(3,4) by (simp add: tree_ok_def)
  have i: "i < 16" using dfree_Some[OF assms(8)] by simp
  obtain s' n where c: "create_entry S J mode_file name i (sector S s k) s = Some s'"
    "entry_created S mode_file (c_string name) k i n s s'" "n \<notin> D"
    by (rule create_entry_ok[OF assms(1-7) i _ assms(9), of mode_file]) auto
  have "touch_file S J [cmd, name] s = create_entry S J mode_file name i (sector S s k) s"
    using scan_free_past[OF ok] assms(5,8)
    by (simp add: touch_file_def create_entry_def dir_at_def index_or_def del: upt_Suc)
  then show thesis using that c by simp
qed

lemma fopen_found_eq:
  assumes "ino_of (shell_path_inode s) = word_of_nat k" and "dir_ok (sector S s k)" and "is_string name"
  shows "fopen_found S name s = (case dlookup (dir_at S s k) (\<lambda>m. m = mode_file) (c_string name) of
      None \<Rightarrow> None
    | Some i \<Rightarrow> if unat (fd_index s) < length (fd s)
        then Some (Some (fd_index s, s\<lparr>fd := (fd s)[unat (fd_index s) := (d_ino (sector S s k) i, 0)], fd_index := fd_index s + 1\<rparr>))
        else None)"
  using scan_match_past[OF assms(2,3), of "\<lambda>m. m = mode_file"] assms(1)
  by (simp add: fopen_found_def dir_at_def del: upt_Suc split: option.splits)

lemma entry_ino:
  assumes "dir_ok (sector S s k)" and "i < 16" and "dir_at S s k ! i = Some (nm, m, ino)"
  shows "d_ino (sector S s k) i = ino"
  using slot_fields(1)[OF _ assms(2), of "sector S s k"] assms
  by (auto simp: dir_at_def nth_dents dent_of_def dir_ok_def split: if_splits)

text \<open>A write puts the bytes at the position, keeps the others, and moves the position.\<close>

lemma sys_fwrite_ok:
  assumes "unat index < length (fd s)" and "fd s ! unat index = (word_of_nat n, pos)" and "n < 0xfe000"
    and "unat sz \<le> length buf" and "unat pos + unat sz \<le> 512"
  obtains s' where "sys_fwrite S index buf sz s = Some (sz, s')"
    "s' = s\<lparr>card := card s', fd := (fd s)[unat index := (word_of_nat n, pos + sz)]\<rparr>"
    "sector S s' n = put_bytes (sector S s n) (unat pos) (take (unat sz) buf)"
    "\<And>b. b < num_sectors \<Longrightarrow> b \<noteq> n \<Longrightarrow> sector S s' b = sector S s b"
proof -
  let ?fb = "sector S s n"
  have mc: "memcpy (drop (unat pos) ?fb) buf (unat sz) = Some (take (unat sz) buf @ drop (unat sz) (drop (unat pos) ?fb))"
    using assms(4,5) by (intro memcpy_some) simp_all
  define b where "b = put_bytes ?fb (unat pos) (take (unat sz) buf)"
  have b: "take (unat pos) ?fb @ take (unat sz) buf @ drop (unat sz) (drop (unat pos) ?fb) = b"
    using assms(4) by (simp add: b_def put_bytes_def min_def add.commute)
  have lb: "length b = 512"
    using length_put_bytes[of "unat pos" "take (unat sz) buf" ?fb] assms(4,5) by (simp add: b_def)
  define s' where "s' = s\<lparr>card := sector_write S b (word_of_nat n) (card s), fd := (fd s)[unat index := (word_of_nat n, pos + sz)]\<rparr>"
  have "sys_fwrite S index buf sz s = Some (sz, s')"
    using assms(1,2) mc b by (simp add: sys_fwrite_def block_write s'_def)
  moreover have "sector S s' j = (if j = n then b else sector S s j)" if "j < num_sectors" for j
    using sectors.rd_wr[OF _ that lb, of n "card s"] assms(3) by (simp add: s'_def num_sectors_def)
  ultimately show thesis
    using assms(3) by (intro that[of s']) (simp_all add: s'_def b_def num_sectors_def)
qed

lemma sys_fread_ok:
  assumes "unat index < length (fd s)" and "fd s ! unat index = (word_of_nat n, pos)"
    and "unat sz \<le> length buf" and "unat pos + unat sz \<le> 512"
  shows "sys_fread S index buf sz s = Some (sz, get_bytes (sector S s n) (unat pos) (unat sz) @ drop (unat sz) buf,
    s\<lparr>fd := (fd s)[unat index := (word_of_nat n, pos + sz)]\<rparr>)"
  using assms memcpy_some[of "unat sz" "drop (unat pos) (sector S s n)" buf]
  by (simp add: sys_fread_def get_bytes_def)

end

section \<open>Properties\<close>

text \<open>
  What is written through a descriptor is read back after seeking to where it was written,
  in full; the block keeps its other bytes, and every other block, inode, map sector and
  descriptor stays as it was.
\<close>

theorem file_round_trip:
  assumes "sd_card S byte" and "unat index < length (fd s)" and "fd s ! unat index = (word_of_nat n, pos)" and "n < 0xfe000"
    and "unat sz = length bs" and "unat pos + length bs \<le> 512" and "length out = length bs"
  shows "\<exists>s1 s2 s3. sys_fwrite S index bs sz s = Some (sz, s1) \<and> sys_fseek index pos s1 = Some s2 \<and>
    sys_fread S index out sz s2 = Some (sz, bs, s3) \<and>
    fd s3 = (fd s)[unat index := (word_of_nat n, pos + sz)] \<and>
    (\<forall>b < num_sectors. b \<noteq> n \<longrightarrow> sector S s3 b = sector S s b) \<and>
    (\<forall>off m. off + m \<le> 512 \<and> (off + m \<le> unat pos \<or> unat pos + length bs \<le> off) \<longrightarrow>
      get_bytes (sector S s3 n) off m = get_bytes (sector S s n) off m)"
proof -
  obtain s1 where w: "sys_fwrite S index bs sz s = Some (sz, s1)"
    "s1 = s\<lparr>card := card s1, fd := (fd s)[unat index := (word_of_nat n, pos + sz)]\<rparr>"
    "sector S s1 n = put_bytes (sector S s n) (unat pos) (take (unat sz) bs)"
    "\<And>b. b < num_sectors \<Longrightarrow> b \<noteq> n \<Longrightarrow> sector S s1 b = sector S s b"
    by (rule sd_card.sys_fwrite_ok[OF assms(1-4), of sz bs]) (use assms(5,6) in auto)
  have fd1: "fd s1 = (fd s)[unat index := (word_of_nat n, pos + sz)]" by (subst w(2)) simp
  define s2 where "s2 = s1\<lparr>fd := (fd s1)[unat index := (word_of_nat n, pos)]\<rparr>"
  define s3 where "s3 = s2\<lparr>fd := (fd s2)[unat index := (word_of_nat n, pos + sz)]\<rparr>"
  have sk: "sys_fseek index pos s1 = Some s2"
    using assms(2) fd1 by (simp add: sys_fseek_def s2_def)
  have sec: "sector S s2 = sector S s1" "sector S s3 = sector S s1" by (simp_all add: s2_def s3_def)
  have "sys_fread S index out sz s2 =
      Some (sz, get_bytes (sector S s2 n) (unat pos) (unat sz) @ drop (unat sz) out, s3)"
    using sd_card.sys_fread_ok[OF assms(1), of index s2 n pos sz out] assms(2,5-7) fd1 by (simp add: s2_def s3_def)
  then have rd: "sys_fread S index out sz s2 = Some (sz, bs, s3)"
    using w(3) assms(5-7) sd_card.sector_length[OF assms(1), of n s] by (simp add: s2_def)
  have fd3: "fd s3 = (fd s)[unat index := (word_of_nat n, pos + sz)]" by (simp add: s3_def s2_def fd1)
  have "get_bytes (sector S s1 n) off m = get_bytes (sector S s n) off m"
    if "off + m \<le> 512" "off + m \<le> unat pos \<or> unat pos + length bs \<le> off" for off m
    using get_put_other[of "unat pos" bs "sector S s n" off m] that assms(5,6) w(3)
      sd_card.sector_length[OF assms(1), of n s] by simp
  then show ?thesis
    using w(1,4) sk rd fd3 by (intro exI[of _ s1] exI[of _ s2] exI[of _ s3]) (simp add: s2_def s3_def)
qed

theorem file_round_trip_witness:
  "\<exists>s1 s2 s3. sys_fwrite ram_card 0 [1, 2, 3] 3 sample_fs = Some (3, s1) \<and> sys_fseek 0 0 s1 = Some s2 \<and>
    sys_fread ram_card 0 [0, 0, 0] 3 s2 = Some (3, [1, 2, 3], s3)"
  using file_round_trip[OF ram.sd_card_axioms, of 0 sample_fs 0 0 3 "[1, 2, 3]" "[0, 0, 0]"]
  by (auto simp: sample_fs_def)

text \<open>
  A file that was just created can be opened: it gets the next descriptor, at position 0, on
  an inode that no directory and no other file had, and its block begins with the empty string.
\<close>

theorem touch_then_open:
  assumes "sd_card S byte" and "locals_ok J" and "fs_wf s" and "tree_ok S s D" and "k \<in> D"
    and "ino_of (shell_path_inode s) = word_of_nat k" and "is_string name" and "length (c_string name) < 24"
    and "dlookup (dir_at S s k) (\<lambda>m. m = mode_file) (c_string name) = None" and "dfree (dir_at S s k) = Some i"
    and "\<exists>n < 0x8000. \<not> map_bit (inode_map s) n" and "unat (fd_index s) < 16"
  shows "\<exists>s1 n. touch_file S J [cmd, name] s = Some s1 \<and> entry_created S mode_file (c_string name) k i n s s1 \<and>
    n \<notin> D \<and> tree_ok S s1 D \<and>
    sys_fopen S J name access s1 = Some (fd_index s,
      s1\<lparr>fd := (fd s)[unat (fd_index s) := (word_of_nat n, 0)], fd_index := fd_index s + 1\<rparr>)"
proof -
  obtain s1 n where t: "touch_file S J [cmd, name] s = Some s1"
    "entry_created S mode_file (c_string name) k i n s s1" "n \<notin> D"
    by (rule sd_card.touch_file_ok[OF assms(1-8,10,11)])
  have fm: "mode_file \<noteq> mode_dir" by (simp add: mode_file_def mode_dir_def)
  have tree: "tree_ok S s1 D" using entry_created_tree[OF t(2) assms(4,5)] fm by simp
  have rec: "s1 = s\<lparr>card := card s1, inode_map := inode_map s1\<rparr>"
    and da: "dir_at S s1 k = (dir_at S s k)[i := Some (c_string name, mode_file, word_of_nat n)]"
    and ok: "dir_ok (sector S s1 k)" using t(2) by (simp_all add: entry_created_def)
  have same: "shell_path_inode s1 = shell_path_inode s" "fd s1 = fd s" "fd_index s1 = fd_index s"
    by (subst rec, simp)+
  have i: "i < 16" using dfree_Some[OF assms(10)] by simp
  have lk: "dlookup (dir_at S s1 k) (\<lambda>m. m = mode_file) (c_string name) = Some i"
    unfolding da by (rule dlookup_new[OF assms(9) i]) (simp_all add: dir_at_def)
  have "d_ino (sector S s1 k) i = word_of_nat n"
    using sd_card.entry_ino[OF assms(1) ok i] da i by (simp add: dir_at_def)
  then have "sys_fopen S J name access s1 = Some (fd_index s,
      s1\<lparr>fd := (fd s)[unat (fd_index s) := (word_of_nat n, 0)], fd_index := fd_index s + 1\<rparr>)"
    using sd_card.fopen_found_eq[OF assms(1) _ ok assms(7)] assms(3,6,12) same lk
    by (simp add: sys_fopen_def fs_wf_def)
  then show ?thesis using t tree by blast
qed

theorem touch_then_open_witness:
  "\<exists>s s1 r s2. touch_file ram_card sample_locals [[], [0x61, 0]] s = Some s1 \<and>
     sys_fopen ram_card sample_locals [0x61, 0] 0 s1 = Some (r, s2)"
proof -
  obtain s0 where s0: "fs_wf s0" "tree_ok ram_card s0 {0}" "superblock s0 ! 6 = word_of_nat 0"
    "ino_of (shell_path_inode s0) = word_of_nat 0" "dir_at ram_card s0 0 = empty_dir 0 0" "\<not> map_bit (inode_map s0) 1"
    using sample_root by blast
  define s where "s = s0\<lparr>fd_index := 0\<rparr>"
  have s: "fs_wf s" "tree_ok ram_card s {0}" "ino_of (shell_path_inode s) = word_of_nat 0"
    "dir_at ram_card s 0 = empty_dir 0 0" "fd_index s = 0"
    using s0 ram.tree_ok_cong[of s s0 "{0}"] by (simp_all add: s_def fs_wf_def dir_at_def)
  have "dlookup (dir_at ram_card s 0) (\<lambda>m. m = mode_file) [0x61] = None"
    unfolding s(4) dlookup_None_iff using empty_dir_entry(2)[of _ 0 0 "[0x61]"] by fastforce
  moreover have "\<exists>n < 0x8000. \<not> map_bit (inode_map s) n" using s0(6) by (intro exI[of _ 1]) (simp add: s_def)
  ultimately show ?thesis
    using touch_then_open[OF ram.sd_card_axioms sample_locals_ok s(1,2) _ s(3), of "[0x61, 0]" 2 "[]" 0]
      s(4,5) empty_dir_free by auto
qed

text \<open>What a call of \<open>printf\<close> with the format \<open>%s\<close> prints.\<close>

lemma printed_string:
  assumes "0 \<notin> set bs" and "length bf = 24" and "length buff = 256" and "length bs < 512"
  shows "printed bf buff (''%s'', [Str bs]) = Some (take 255 bs)"
proof -
  have "is_string (literal bs)" "c_string (literal bs) = bs" using literal_string assms(1) by simp_all
  then have "format_text (literal (map of_char ''%s'')) [Str (literal bs)] = Some bs"
    by (simp add: literal_def of_char_def directive_text_def)
  moreover have "list_all arg_ok [Str (literal bs)]" using assms(4) by (simp add: arg_ok_def literal_def)
  ultimately show ?thesis
    using print_buff_formats[of "literal (map of_char ''%s'')" "[Str (literal bs)]" bs bf buff] assms
    by (auto simp: printed_def)
qed
text \<open>
  C18: Bytes without a zero that are written from the start of a file, followed by \<open>fclose\<close>,
  are what \<open>cat\<close> then passes to \<open>printf\<close>, all of them and whatever longer contents the block had
  before. The text that reaches the screen is the first 255 of them: \<open>printf\<close> formats into a buffer of
  256 bytes, so the end of a longer file is not printed.
\<close>

theorem write_close_cat:
  assumes "sd_card S byte" and "unat index < length (fd s)" and "fd s ! unat index = (word_of_nat n, 0)" and "n < 0x8000"
    and "ino_of (shell_path_inode s) = word_of_nat k" and "k < 0x8000" and "k \<noteq> n" and "dir_ok (sector S s k)"
    and "is_string name" and "dlookup (dir_at S s k) (\<lambda>m. m = mode_file) (c_string name) = Some i"
    and "dir_at S s k ! i = Some (nm, mode_file, word_of_nat n)"
    and "0 \<notin> set bs" and "unat sz = length bs" and "length bs < 512"
  shows "\<exists>s1 s2 s3. sys_fwrite S index bs sz s = Some (sz, s1) \<and> sys_fclose S index s1 = Some s2 \<and>
    cat_file S [cmd, name] s2 = Some s3 \<and> fs_log s3 = fs_log s @ [(''%s'', [Str bs])] \<and>
    (\<forall>bf buff. length bf = 24 \<and> length buff = 256 \<longrightarrow> printed bf buff (last (fs_log s3)) = Some (take 255 bs))"
proof -
  obtain s1 where w: "sys_fwrite S index bs sz s = Some (sz, s1)"
    "s1 = s\<lparr>card := card s1, fd := (fd s)[unat index := (word_of_nat n, 0 + sz)]\<rparr>"
    "sector S s1 n = put_bytes (sector S s n) (unat (0 :: u32)) (take (unat sz) bs)"
    "\<And>b. b < num_sectors \<Longrightarrow> b \<noteq> n \<Longrightarrow> sector S s1 b = sector S s b"
    by (rule sd_card.sys_fwrite_ok[OF assms(1-3), of sz bs]) (use assms(4,13,14) in auto)
  have s1: "fd s1 ! unat index = (word_of_nat n, sz)" "unat index < length (fd s1)"
    "fs_log s1 = fs_log s" "shell_path_inode s1 = shell_path_inode s" using assms(2) by (subst w(2), simp)+
  have one: "unat (1 :: u32) = 1" by simp
  obtain s2 where c: "sys_fwrite S index [0] 1 s1 = Some (1, s2)"
    "s2 = s1\<lparr>card := card s2, fd := (fd s1)[unat index := (word_of_nat n, sz + 1)]\<rparr>"
    "sector S s2 n = put_bytes (sector S s1 n) (unat sz) (take (unat (1 :: u32)) [0])"
    "\<And>b. b < num_sectors \<Longrightarrow> b \<noteq> n \<Longrightarrow> sector S s2 b = sector S s1 b"
    by (rule sd_card.sys_fwrite_ok[OF assms(1) s1(2,1), of 1 "[0]"]) (use assms(4,13,14) one in auto)
  have s2: "fs_log s2 = fs_log s" "shell_path_inode s2 = shell_path_inode s" by (subst c(2), simp add: s1)+
  define s2' where "s2' = s2\<lparr>fd := (fd s2)[unat index := (fst (fd s2 ! unat index), 0)]\<rparr>"
  have cl: "sys_fclose S index s1 = Some s2'" using c(1) by (simp add: sys_fclose_def s2'_def)
  have k: "sector S s2' k = sector S s k" using w(4)[of k] c(4)[of k] assms(6,7) by (simp add: s2'_def num_sectors_def)
  have fb: "sector S s2' n = bs @ 0 # drop (Suc (length bs)) (sector S s n)"
    using w(3) c(3) assms(13,14) by (simp add: s2'_def put_bytes_def)
  then have str: "is_string (sector S s2' n)" "c_string (sector S s2' n) = bs"
    using assms(12) by (simp_all add: is_string_def c_string_append)
  have i: "i < 16" using dlookup_Some[OF assms(10)] by simp
  have ino: "d_ino (sector S s k) i = word_of_nat n" by (rule sd_card.entry_ino[OF assms(1,8) i assms(11)])
  have "cat_file S [cmd, name] s2' = Some (printf ''%s'' [Str bs] s2')"
    using scan_match_past[OF assms(8,9), of "\<lambda>m. m = mode_file"] assms(5,10) k ino strlen_some[OF str(1)] str(2) fb s2
    by (simp add: cat_file_def s2'_def dir_at_def del: upt_Suc)
  moreover have "printed bf buff (''%s'', [Str bs]) = Some (take 255 bs)" if "length bf = 24" "length buff = 256" for bf buff
    by (rule printed_string[OF assms(12) that assms(14)])
  ultimately show ?thesis using w(1) cl s2 by (auto simp: printf_def s2'_def)
qed

theorem write_close_cat_witness:
  "\<exists>s s1 s2 s3. sys_fwrite ram_card 0 [0x41, 0x42] 2 s = Some (2, s1) \<and> sys_fclose ram_card 0 s1 = Some s2 \<and>
    cat_file ram_card [[], [0x61, 0]] s2 = Some s3 \<and> fs_log s3 = fs_log s @ [(''%s'', [Str [0x41, 0x42]])] \<and>
    printed (replicate 24 7) (replicate 256 9) (last (fs_log s3)) = Some [0x41, 0x42]"
proof -
  obtain s0 where s0: "fs_wf s0" "tree_ok ram_card s0 {0}" "ino_of (shell_path_inode s0) = word_of_nat 0"
    "dir_at ram_card s0 0 = empty_dir 0 0" "\<not> map_bit (inode_map s0) 1"
    using sample_root by blast
  have lk: "dlookup (dir_at ram_card s0 0) (\<lambda>m. m = mode_file) [0x61] = None"
    unfolding s0(4) dlookup_None_iff using empty_dir_entry(2)[of _ 0 0 "[0x61]"] by fastforce
  obtain s1 n where t: "entry_created ram_card mode_file (c_string [0x61, 0]) 0 2 n s0 s1" "n \<notin> {0}"
    by (rule ram.touch_file_ok[OF sample_locals_ok s0(1,2) _ s0(3), of "[0x61, 0]" 2])
      (use s0(4,5) empty_dir_free in \<open>auto intro!: exI[of _ 1]\<close>)
  have rec: "s1 = s0\<lparr>card := card s1, inode_map := inode_map s1\<rparr>" using t(1) by (simp add: entry_created_def)
  have sp: "shell_path_inode s1 = shell_path_inode s0" by (subst rec) simp
  define s where "s = s1\<lparr>fd := [(word_of_nat n, 0)]\<rparr>"
  have s: "dir_ok (sector ram_card s 0)" "dir_at ram_card s 0 = (dir_at ram_card s0 0)[2 := Some ([0x61], mode_file, word_of_nat n)]"
    "n < 0x8000" "ino_of (shell_path_inode s) = word_of_nat 0"
    using t(1) sp s0(3) by (simp_all add: entry_created_def s_def dir_at_def)
  have "dlookup (dir_at ram_card s 0) (\<lambda>m. m = mode_file) [0x61] = Some 2"
    unfolding s(2) by (rule dlookup_new[OF lk]) (simp_all add: dir_at_def)
  then have "\<exists>s1 s2 s3. sys_fwrite ram_card 0 [0x41, 0x42] 2 s = Some (2, s1) \<and> sys_fclose ram_card 0 s1 = Some s2 \<and>
      cat_file ram_card [[], [0x61, 0]] s2 = Some s3 \<and> fs_log s3 = fs_log s @ [(''%s'', [Str [0x41, 0x42]])] \<and>
      (\<forall>bf buff. length bf = 24 \<and> length buff = 256 \<longrightarrow> printed bf buff (last (fs_log s3)) = Some (take 255 [0x41, 0x42]))"
    by (intro write_close_cat[OF ram.sd_card_axioms, of 0 s n 0 "[0x61, 0]" 2 "[0x61]"])
      (use s t(2) in \<open>simp_all add: s_def dir_at_def\<close>)
  then obtain s1 s2 s3 where r: "sys_fwrite ram_card 0 [0x41, 0x42] 2 s = Some (2, s1)" "sys_fclose ram_card 0 s1 = Some s2"
    "cat_file ram_card [[], [0x61, 0]] s2 = Some s3" "fs_log s3 = fs_log s @ [(''%s'', [Str [0x41, 0x42]])]"
    "\<forall>bf buff. length bf = 24 \<and> length buff = 256 \<longrightarrow> printed bf buff (last (fs_log s3)) = Some (take 255 [0x41, 0x42])"
    by blast
  have "printed (replicate 24 7) (replicate 256 9) (last (fs_log s3)) = Some [0x41, 0x42]"
    using r(5) by (auto dest!: spec[of _ "replicate 24 7"] spec[of _ "replicate 256 9"])
  then show ?thesis using r(1-4) by blast
qed

text \<open>
  Opening a file that is not in the shell's directory never gets as far as creating it within
  the block: the search compares entries beyond the sixteenth, outside the directory block.
\<close>

theorem open_missing_reads_past:
  assumes "sd_card S byte" and "ino_of (shell_path_inode s) = word_of_nat k" and "dir_ok (sector S s k)" and "is_string name"
    and "dlookup (dir_at S s k) (\<lambda>m. m = mode_file) (c_string name) = None"
  shows "scan_dentries (d_match (sector S s k) (\<lambda>m. m = mode_file) name) [0..<0x200] = None \<and>
    sys_fopen S J name access s = None \<and> cat_file S [cmd, name] s = None"
  using sd_card.fopen_found_eq[OF assms(1-4)] scan_match_past[OF assms(3,4), of "\<lambda>m. m = mode_file"] assms(2,5)
  by (simp add: sys_fopen_def cat_file_def dir_at_def del: upt_Suc)

theorem open_missing_reads_past_witness:
  "\<exists>s. sys_fopen ram_card sample_locals [0x61, 0] 0 s = None"
proof -
  obtain s where s: "tree_ok ram_card s {0}" "ino_of (shell_path_inode s) = word_of_nat 0" "dir_at ram_card s 0 = empty_dir 0 0"
    using sample_root by blast
  have "dlookup (dir_at ram_card s 0) (\<lambda>m. m = mode_file) [0x61] = None"
    unfolding s(3) dlookup_None_iff using empty_dir_entry(2)[of _ 0 0 "[0x61]"] by fastforce
  then show ?thesis
    using open_missing_reads_past[OF ram.sd_card_axioms s(2), of "[0x61, 0]" sample_locals 0] s(1)
    by (intro exI[of _ s]) (simp add: tree_ok_def)
qed

end
