(* ===== verification/Shell.thy ===== *)
theory Shell
  imports Trap Text
begin

text \<open>
  \<^verbatim>\<open>test/test_shell.c\<close>, the first user program: it reads characters from the serial port, keeps
  a line, and runs a command for every line. Its output is the sequence of its calls of
  \<open>printf\<close>, \<open>sys_clear\<close> and \<open>sys_move_cursor\<close> (what the screen does with them is the subject of
  the theory of the screen). \<open>None\<close> is an access outside an object or through an uninitialised
  pointer, or a call that does not return to the shell.
\<close>

section \<open>State\<close>

datatype event = Printf string "parg list" | Clear | Move_cursor u32 u32

text \<open>What the sources do not determine: the card and the serial port, the former contents of
  local variables, and the addresses that the linker chooses (\<open>test_tasks\<close> has 16 entries, null
  behind the third). Reading a register of the serial port can change its state.\<close>

record ('d, 'u) shell_env =
  sdc :: "'d sd"
  stat_port :: "'u \<Rightarrow> u8 \<times> 'u"
  read_port :: "'u \<Rightarrow> u8 \<times> 'u"
  junk :: locals
  junk_cmd :: "u8 list"
  test_tasks :: "u32 list"
  console_lock :: u32

record ('d, 'u) shell =
  files :: "'d fs"
  kernel :: kstate
  uart :: 'u
  buf :: "u8 list"
  pos :: nat
  out :: "event list"

definition CMD_LEN :: nat where "CMD_LEN = 128"
definition CMD_MAX_COUNT :: nat where "CMD_MAX_COUNT = 16"

definition chars :: "string \<Rightarrow> u8 list" where
  "chars s = map of_char s"

definition emit :: "event \<Rightarrow> ('d, 'u) shell \<Rightarrow> ('d, 'u) shell" where
  "emit e S = S\<lparr>out := out S @ [e]\<rparr>"

definition say_line :: "string \<Rightarrow> parg list \<Rightarrow> ('d, 'u) shell \<Rightarrow> ('d, 'u) shell" where
  "say_line fmt va S = emit (Printf (fmt @ nl) va) S"

text \<open>A function of the file system: its calls of \<open>printf\<close> are output of the shell.\<close>

definition on_files :: "('d fs \<Rightarrow> 'd fs option) \<Rightarrow> ('d, 'u) shell \<Rightarrow> ('d, 'u) shell option" where
  "on_files f S = do {
     s \<leftarrow> f ((files S)\<lparr>fs_log := []\<rparr>);
     Some (S\<lparr>files := s, out := out S @ map (\<lambda>(fmt, va). Printf fmt va) (fs_log s)\<rparr>)
   }"

definition on_kernel :: "(kstate \<Rightarrow> kstate) \<Rightarrow> ('d, 'u) shell \<Rightarrow> ('d, 'u) shell" where
  "on_kernel f S = S\<lparr>kernel := f (kernel S)\<rparr>"

section \<open>The serial port\<close>

partial_function (option) uart_loop :: "('d, 'u) shell_env \<Rightarrow> u8 \<Rightarrow> 'u \<Rightarrow> (u8 \<times> 'u) option" where
  "uart_loop E ch u =
    (let (st, u) = stat_port E u in
     if st AND 0x01 \<noteq> 0 then let (c, u) = read_port E u in uart_loop E c u
     else Some (ch, u))"

definition read_uart_ch :: "('d, 'u) shell_env \<Rightarrow> 'u \<Rightarrow> (u8 \<times> 'u) option" where
  "read_uart_ch E u = uart_loop E 0 u"

section \<open>Commands\<close>

definition cmd_broaden_location :: u32 where "cmd_broaden_location = 20"
definition cmd_head :: "u8 list" where "cmd_head = chars ''> root@Tina:''"
definition cmd_broaden :: "u8 list" where "cmd_broaden = chars ''--------------- COMMAND ---------------''"

definition status_name :: "u32 \<Rightarrow> string" where
  "status_name st =
    (if st = 0 then ''embryo'' else if st = 1 then ''sleeping'' else if st = 2 then ''blocked''
     else if st = 3 then ''running'' else if st = 4 then ''ready'' else if st = 5 then ''exited'' else ''error'')"

definition process_show :: "('d, 'u) shell \<Rightarrow> ('d, 'u) shell option" where
  "process_show S =
    for_each (\<lambda>i S.
      let k = kernel S; p = pcb_at (pcb k) i in
      if get k p STATUS \<noteq> TASK_EXITED then do {
        let S = emit (Printf ''PROCESS[%d]: '' [Num (word_of_nat i)]) S;
        name \<leftarrow> string_at (kmem k) (get k p NAME);
        let S = emit (Printf ''name: %s   '' [Str (c_string name)]) S;
        let S = emit (Printf ''pid: %d   '' [Num (get k p PID)]) S;
        let S = emit (Printf ''status: '' []) S;
        Some (say_line (status_name (get k p STATUS)) [] S)
      } else Some S) [0..<NUM_MAX_TASK] S"

text \<open>The loop of \<open>atoi\<close>: \<open>char\<close> is signed and \<open>int\<close> has 32 bits.\<close>

fun atoi_loop :: "u8 list \<Rightarrow> u32 \<Rightarrow> u32 option" where
  "atoi_loop [] n = None"
| "atoi_loop (c # s) n = (if c = 0 then Some n else atoi_loop s (10 * n + (scast c - 0x30)))"

definition atoi :: "u8 list \<Rightarrow> u32 option" where
  "atoi s =
    (case s of
       [] \<Rightarrow> None
     | c # cs \<Rightarrow> do {
         let sign = (if c = 0x2d then - 1 else 1);
         n \<leftarrow> atoi_loop (if c = 0x2b \<or> c = 0x2d then cs else s) 0;
         Some (sign * n)
       })"

text \<open>\<open>argv\<close> holds \<open>argc\<close> strings. \<open>sys_spawn\<close> is served by \<open>spawn\<close>; the tests \<open>i < 16 && i >= 0\<close>
  are of signed numbers.\<close>

definition exec :: "('d, 'u) shell_env \<Rightarrow> u8 list list \<Rightarrow> ('d, 'u) shell \<Rightarrow> ('d, 'u) shell option" where
  "exec E argv S =
    (if length argv < 2 then
       Some (say_line ''error: please input exec command with arguments, like \"all\"'' [] S)
     else do {
       r \<leftarrow> strcmp (argv ! 1) (literal (chars ''all''));
       if r = 0 then for_each (\<lambda>i S. Some (on_kernel (spawn (test_tasks E ! i)) S)) [0..<15] S
       else for_each (\<lambda>a S. do {
         i \<leftarrow> atoi a;
         if sint i < 16 \<and> 0 \<le> sint i then Some (on_kernel (spawn (test_tasks E ! unat i)) S) else Some S
       }) (tl argv) S
     })"

definition killer :: "u8 list list \<Rightarrow> ('d, 'u) shell \<Rightarrow> ('d, 'u) shell option" where
  "killer argv S =
    (if length argv < 2 then
       Some (say_line ''error: please input kill command with arguments, like \"all\"'' [] S)
     else do {
       r \<leftarrow> strcmp (argv ! 1) (literal (chars ''all''));
       if r = 0 then
         for_each (\<lambda>i S. Some (on_kernel (\<lambda>k. kill (get k (pcb_at (pcb k) i) PID) k) S)) [1..<NUM_MAX_TASK] S
       else for_each (\<lambda>a S. do {
         i \<leftarrow> atoi a;
         if sint i < 16 \<and> 0 \<le> sint i then Some (on_kernel (kill i) S) else Some S
       }) (tl argv) S
     })"

text \<open>The branches of \<open>decode\<close>, in their order.\<close>

definition clear :: "('d, 'u) shell \<Rightarrow> ('d, 'u) shell" where
  "clear S = say_line ''%s'' [Str cmd_broaden] (emit (Move_cursor 1 cmd_broaden_location) (emit Clear S))"

definition commands :: "('d, 'u) shell_env \<Rightarrow> u8 list list \<Rightarrow> (string \<times> (('d, 'u) shell \<Rightarrow> ('d, 'u) shell option)) list" where
  "commands E args =
    [(''ps'', process_show),
     (''clear'', \<lambda>S. Some (clear S)),
     (''exec'', \<lambda>S. exec E args (say_line ''command[exec] executed'' [] S)),
     (''kill'', \<lambda>S. killer args (say_line ''command[kill] executed'' [] S)),
     (''mkfs'', \<lambda>S. on_files (do_makefs (sdc E) (junk E)) (say_line ''command[mkfs] executed'' [] S)),
     (''statfs'', on_files (\<lambda>s. Some (statfs (sdc E) s))),
     (''delfs'', \<lambda>S. do { S \<leftarrow> on_files (\<lambda>s. Some (deletefs (sdc E) s)) S; Some (say_line ''command[delfs] executed'' [] S) }),
     (''mkdir'', on_files (make_directory (sdc E) (junk E) args)),
     (''ls'', on_files (list_directory (sdc E) (junk E) args)),
     (''rm'', on_files (remove_file (sdc E) args)),
     (''rmdir'', on_files (remove_directory (sdc E) args)),
     (''cd'', on_files (change_directory (sdc E) (junk E) args)),
     (''touch'', on_files (touch_file (sdc E) (junk E) args)),
     (''cat'', on_files (cat_file (sdc E) args))]"

fun run_command :: "(string \<times> (('d, 'u) shell \<Rightarrow> ('d, 'u) shell option)) list \<Rightarrow> u8 list \<Rightarrow> ('d, 'u) shell \<Rightarrow> ('d, 'u) shell option" where
  "run_command [] arg0 S = do {
     n \<leftarrow> strlen arg0;
     Some (say_line ''error: invalid command: %s'' [Str (take n arg0)] S)
   }"
| "run_command ((name, f) # cs) arg0 S = do {
     r \<leftarrow> strcmp arg0 (literal (chars name));
     if r = 0 then f S else run_command cs arg0 S
   }"

text \<open>An empty line leaves \<open>args[0]\<close>, an uninitialised pointer, to be compared.\<close>

definition decode :: "('d, 'u) shell_env \<Rightarrow> u8 list \<Rightarrow> ('d, 'u) shell \<Rightarrow> ('d, 'u) shell option" where
  "decode E origin_cmd S = do {
     cmd \<leftarrow> strcpy (junk_cmd E) origin_cmd;
     (cmd, args) \<leftarrow> cut_words 0x20 cmd 0 [];
     let args = map (\<lambda>a. drop a cmd) args;
     if args = [] then None else run_command (commands E args) (args ! 0) S
   }"

section \<open>The loop\<close>

definition prompt :: "('d, 'u) shell \<Rightarrow> ('d, 'u) shell option" where
  "prompt S = do {
     n \<leftarrow> strlen (shell_path_head (files S));
     Some (emit (Printf ''%s%s%s'' [Str cmd_head, Str (take n (shell_path_head (files S))), Str (chars ''$ '')]) S)
   }"

text \<open>The \<open>switch\<close> of \<open>test_shell\<close> with the statement behind it.\<close>

definition shell_key :: "('d, 'u) shell_env \<Rightarrow> u8 \<Rightarrow> ('d, 'u) shell \<Rightarrow> ('d, 'u) shell option" where
  "shell_key E ch S = do {
     S \<leftarrow> (if ch = 0 then Some S
           else if ch = 8 \<or> ch = 127 then
             Some (if pos S \<noteq> 0 then (emit (Printf [CHR 0x08] []) S)\<lparr>pos := pos S - 1\<rparr> else S)
           else if ch = 13 \<or> ch = 10 then do {
             let S = emit (Printf nl []) S;
             b \<leftarrow> put_at (buf S) (pos S) 0;
             S \<leftarrow> decode E b (S\<lparr>buf := b, pos := pos S + 1\<rparr>);
             prompt (S\<lparr>pos := 0\<rparr>)
           }
           else do {
             b \<leftarrow> put_at (buf S) (pos S) ch;
             Some (emit (Printf ''%c'' [Num (scast ch)]) (S\<lparr>buf := b, pos := pos S + 1\<rparr>))
           });
     b \<leftarrow> put_at (buf S) (pos S + 1) 0;
     Some (S\<lparr>buf := b\<rparr>)
   }"

text \<open>One round of the loop, as one step: in the model no other process runs between the acquisition of
  the lock, the reading of the port (with interrupts off), the release and the handling of the
  character, although the timer can interrupt the program there. \<open>None\<close> is also the case that
  another process holds the lock and the shell has to wait for it.\<close>

definition shell_round :: "('d, 'u) shell_env \<Rightarrow> ('d, 'u) shell \<Rightarrow> ('d, 'u) shell option" where
  "shell_round E S = do {
     let p = current_running (kernel S);
     K \<leftarrow> krun 2 \<lparr>ks = kernel S, todo = (\<lambda>_. [])(p := do_mutex_lock_acquire (console_lock E))\<rparr>;
     if current_running (ks K) \<noteq> p then None
     else do {
       (ch, u) \<leftarrow> read_uart_ch E (uart S);
       k \<leftarrow> do_mutex_lock_release (console_lock E) (ks K);
       shell_key E ch (S\<lparr>kernel := k, uart := u\<rparr>)
     }
   }"

definition test_shell :: "('d, 'u) shell_env \<Rightarrow> ('d, 'u) shell \<Rightarrow> ('d, 'u) shell option" where
  "test_shell E S =
    (let S = S\<lparr>buf := replicate CMD_LEN 0, pos := 0\<rparr>;
         S = on_kernel (do_mutex_lock_init (console_lock E)) S;
         S = emit (Move_cursor 1 cmd_broaden_location) S;
         S = say_line ''%s'' [Str cmd_broaden] S
     in prompt S)"

end
