(* ===== verification/Shell_Run.thy ===== *)
theory Shell_Run
  imports Shell
begin

text \<open>
  What the shell of \<^verbatim>\<open>test/test_shell.c\<close> does with the keys it gets: the line editor implements a
  list of characters with Backspace, Enter runs the command that the first word of the line names,
  and a round of the loop takes and gives back the lock of the console.
\<close>

section \<open>The line editor\<close>

text \<open>The line as its user sees it, and what is echoed.\<close>

definition edit :: "u8 \<Rightarrow> u8 list \<Rightarrow> u8 list" where
  "edit ch line = (if ch = 0 then line else if ch = 8 \<or> ch = 127 then butlast line else line @ [ch])"

definition echo :: "u8 \<Rightarrow> u8 list \<Rightarrow> event list" where
  "echo ch line =
    (if ch = 0 then [] else if ch = 8 \<or> ch = 127 then if line = [] then [] else [Printf [CHR 0x08] []]
     else [Printf ''%c'' [Num (scast ch)]])"

fun edited :: "u8 list \<Rightarrow> u8 list \<Rightarrow> u8 list" where
  "edited [] line = line"
| "edited (ch # chs) line = edited chs (edit ch line)"

fun echoes :: "u8 list \<Rightarrow> u8 list \<Rightarrow> event list" where
  "echoes [] line = []"
| "echoes (ch # chs) line = echo ch line @ echoes chs (edit ch line)"

text \<open>The keys of a line, which never gets longer than 126 characters.\<close>

fun line_keys :: "u8 list \<Rightarrow> u8 list \<Rightarrow> bool" where
  "line_keys [] line \<longleftrightarrow> True"
| "line_keys (ch # chs) line \<longleftrightarrow> ch \<noteq> 10 \<and> ch \<noteq> 13 \<and> length (edit ch line) \<le> 126 \<and> line_keys chs (edit ch line)"

definition holds_line :: "('d, 'u) shell \<Rightarrow> u8 list \<Rightarrow> bool" where
  "holds_line S line \<longleftrightarrow> length (buf S) = 128 \<and> pos S = length line \<and> take (length line) (buf S) = line \<and> 0 \<notin> set line"

lemma take_butlast_prefix: "take (length xs) ys = xs \<Longrightarrow> take (length xs - 1) ys = butlast xs"
  by (metis butlast_conv_take diff_le_self min.absorb1 take_take)

lemma edit_no_zero: "0 \<notin> set line \<Longrightarrow> 0 \<notin> set (edit ch line)"
  by (auto simp: edit_def dest: in_set_butlastD)

lemma key_edits:
  assumes "holds_line S line" and "ch \<noteq> 10" and "ch \<noteq> 13" and "length (edit ch line) \<le> 126"
  shows "\<exists>b. shell_key E ch S = Some (S\<lparr>buf := b, pos := length (edit ch line), out := out S @ echo ch line\<rparr>) \<and>
    holds_line (S\<lparr>buf := b, pos := length (edit ch line), out := out S @ echo ch line\<rparr>) (edit ch line)"
proof -
  note h = assms(1)[unfolded holds_line_def]
  note z = edit_no_zero[of line ch]
  consider "ch = 0" | "ch = 8 \<or> ch = 127" | "ch \<noteq> 0" "ch \<noteq> 8" "ch \<noteq> 127" by blast
  then show ?thesis
  proof cases
    case 1
    then show ?thesis using h assms(4) z
      by (intro exI[of _ "(buf S)[length line + 1 := 0]"]) (simp add: shell_key_def put_at_def edit_def echo_def holds_line_def)
  next
    case 2
    then have ne: "edit ch line = butlast line" by (auto simp: edit_def)
    have "shell_key E ch S = Some (S\<lparr>buf := (buf S)[length (butlast line) + 1 := 0], pos := length (butlast line), out := out S @ echo ch line\<rparr>)"
      using 2 h assms(4) by (cases line) (auto simp: shell_key_def put_at_def echo_def emit_def edit_def)
    then show ?thesis using h z ne take_butlast_prefix[of line "buf S"]
      by (intro exI[of _ "(buf S)[length (butlast line) + 1 := 0]"]) (simp add: holds_line_def)
  next
    case 3
    let ?b = "(buf S)[length line := ch, length line + 2 := 0]"
    have l: "length line < 126" using assms(4) 3 by (simp add: edit_def)
    then have "shell_key E ch S = Some (S\<lparr>buf := ?b, pos := length line + 1, out := out S @ echo ch line\<rparr>)"
      using 3 h assms(2,3) by (simp add: shell_key_def put_at_def echo_def emit_def)
    moreover have "take (length line + 1) ?b = line @ [ch]"
      using h l by (simp add: take_Suc_conv_app_nth)
    ultimately show ?thesis using h z 3 by (intro exI[of _ ?b]) (simp add: holds_line_def edit_def)
  qed
qed

lemma keys_edit:
  assumes "holds_line S line" and "line_keys keys line"
  shows "\<exists>b. for_each (shell_key E) keys S = Some (S\<lparr>buf := b, pos := length (edited keys line), out := out S @ echoes keys line\<rparr>) \<and>
    holds_line (S\<lparr>buf := b, pos := length (edited keys line), out := out S @ echoes keys line\<rparr>) (edited keys line)"
  using assms
proof (induction keys arbitrary: S line)
  case Nil
  then show ?case by (intro exI[of _ "buf S"]) (simp add: holds_line_def)
next
  case (Cons ch keys)
  obtain b where b: "shell_key E ch S = Some (S\<lparr>buf := b, pos := length (edit ch line), out := out S @ echo ch line\<rparr>)"
    "holds_line (S\<lparr>buf := b, pos := length (edit ch line), out := out S @ echo ch line\<rparr>) (edit ch line)"
    using key_edits[OF Cons.prems(1)] Cons.prems(2) by fastforce
  from Cons.IH[OF b(2)] Cons.prems(2) b(1) show ?case by simp
qed

lemma edited_append: "edited (a @ b) line = edited b (edited a line)"
  by (induction a arbitrary: line) auto

section \<open>Commands\<close>

text \<open>The command of a list of words, by its name.\<close>

definition command :: "('d, 'u) shell_env \<Rightarrow> u8 list list \<Rightarrow> ('d, 'u) shell \<Rightarrow> ('d, 'u) shell option" where
  "command E argv S =
    (case map_of (map (\<lambda>(n, f). (chars n, f)) (commands E argv)) (c_string (argv ! 0)) of
       Some f \<Rightarrow> f S
     | None \<Rightarrow> Some (say_line ''error: invalid command: %s'' [Str (c_string (argv ! 0))] S))"

lemma take_c_string: "take (length (c_string xs)) xs = c_string xs"
  unfolding c_string_def by (metis takeWhile_eq_take)

lemma run_command_eq:
  assumes "is_string arg0" and "\<forall>(n, f) \<in> set cs. 0 \<notin> set (chars n)"
  shows "run_command cs arg0 S =
    (case map_of (map (\<lambda>(n, f). (chars n, f)) cs) (c_string arg0) of
       Some f \<Rightarrow> f S
     | None \<Rightarrow> Some (say_line ''error: invalid command: %s'' [Str (c_string arg0)] S))"
  using assms(2)
proof (induction cs)
  case Nil
  show ?case using strlen_some[OF assms(1)] by (simp add: take_c_string)
next
  case (Cons c cs)
  obtain n f where c: "c = (n, f)" by (cases c)
  have n: "0 \<notin> set (chars n)" using Cons.prems c by auto
  obtain r where r: "strcmp arg0 (literal (chars n)) = Some r" "r = 0 \<longleftrightarrow> chars n = c_string arg0"
    using strcmp_some[OF assms(1) literal_string(2)] strcmp_zero[OF assms(1) literal_string(2)] literal_string(1)[OF n] by fastforce
  then show ?case using Cons c by auto
qed

lemma command_names: "\<forall>(n, f) \<in> set (commands E argv). 0 \<notin> set (chars n)"
  by (simp add: commands_def chars_def)

lemma decode_words:
  assumes "is_string cmd" and "length (c_string cmd) < length (junk_cmd E)"
    and w: "words 0x20 (c_string cmd) \<noteq> []" "length (words 0x20 (c_string cmd)) \<le> 16"
  obtains argv where "map c_string argv = words 0x20 (c_string cmd)" "\<forall>a \<in> set argv. is_string a"
    "\<And>S. decode E cmd S = command E argv S"
proof -
  let ?l = "c_string cmd"
  let ?r = "drop (Suc (length ?l)) (junk_cmd E)"
  have cp: "strcpy (junk_cmd E) cmd = Some (?l @ 0 # ?r)" using strcpy_some[OF assms(1,2)] .
  from cut_words_split[of ?l "0x20" "[]" "[]" ?r] c_string_no_zero[of cmd] w(2) obtain cs' new where
    "cut_words 0x20 (?l @ 0 # ?r) 0 [] = Some (cs' @ 0 # ?r, new)"
    "map (\<lambda>a. c_string (drop a (cs' @ 0 # ?r))) new = words 0x20 ?l" "\<forall>a \<in> set new. is_string (drop a (cs' @ 0 # ?r))"
    by auto
  then obtain B where cw: "cut_words 0x20 (?l @ 0 # ?r) 0 [] = Some (B, new)"
    "map (\<lambda>a. c_string (drop a B)) new = words 0x20 ?l" "\<forall>a \<in> set new. is_string (drop a B)" by blast
  define argv where "argv = map (\<lambda>a. drop a B) new"
  have m: "map c_string argv = words 0x20 ?l" using cw(2) by (simp add: argv_def comp_def)
  then have ne: "argv \<noteq> []" using w(1) by auto
  then have new: "new \<noteq> []" by (simp add: argv_def)
  have s: "\<forall>a \<in> set argv. is_string a" using cw(3) by (auto simp: argv_def)
  then have s0: "is_string (argv ! 0)" using ne by simp
  have "decode E cmd S = run_command (commands E argv) (argv ! 0) S" for S
    using cp cw(1) ne new by (simp add: decode_def argv_def[symmetric])
  then have "decode E cmd S = command E argv S" for S
    using run_command_eq[OF s0 command_names] by (simp add: command_def)
  then show thesis using that[OF m s] by blast
qed

lemma decode_fails:
  assumes "is_string cmd" and "length (c_string cmd) < length (junk_cmd E)"
    and w: "words 0x20 (c_string cmd) = [] \<or> 16 < length (words 0x20 (c_string cmd))"
  shows "decode E cmd S = None"
proof -
  let ?l = "c_string cmd"
  let ?r = "drop (Suc (length ?l)) (junk_cmd E)"
  have cp: "strcpy (junk_cmd E) cmd = Some (?l @ 0 # ?r)" using strcpy_some[OF assms(1,2)] .
  from w show ?thesis
  proof
    assume "words 0x20 ?l = []"
    then obtain cs' where "cut_words 0x20 (?l @ 0 # ?r) 0 [] = Some (cs' @ 0 # ?r, [])"
      using cut_words_split[of ?l "0x20" "[]" "[]" ?r] c_string_no_zero[of cmd] by auto
    then show ?thesis using cp by (simp add: decode_def)
  next
    assume "16 < length (words 0x20 ?l)"
    then have "cut_words 0x20 (?l @ 0 # ?r) 0 [] = None"
      using cut_words_full[of ?l "0x20" "[]" "[]" ?r] c_string_no_zero[of cmd] by simp
    then show ?thesis using cp by (simp add: decode_def)
  qed
qed

section \<open>A line\<close>

text \<open>Commands do not touch the line editor.\<close>

definition edits_nothing :: "(('d, 'u) shell \<Rightarrow> ('d, 'u) shell option) \<Rightarrow> bool" where
  "edits_nothing f \<longleftrightarrow> (\<forall>S S'. f S = Some S' \<longrightarrow> buf S' = buf S \<and> pos S' = pos S \<and> uart S' = uart S)"

lemma edits_nothingI: "(\<And>S S'. f S = Some S' \<Longrightarrow> buf S' = buf S \<and> pos S' = pos S \<and> uart S' = uart S) \<Longrightarrow> edits_nothing f"
  by (simp add: edits_nothing_def)

lemma emit_same [simp]:
  "buf (emit e S) = buf S" "pos (emit e S) = pos S" "uart (emit e S) = uart S" "files (emit e S) = files S"
  "kernel (emit e S) = kernel S" "out (emit e S) = out S @ [e]"
  by (simp_all add: emit_def)

lemma say_line_same [simp]:
  "buf (say_line f v S) = buf S" "pos (say_line f v S) = pos S" "uart (say_line f v S) = uart S"
  "files (say_line f v S) = files S" "kernel (say_line f v S) = kernel S" "out (say_line f v S) = out S @ [Printf (f @ nl) v]"
  by (simp_all add: say_line_def)

lemma on_kernel_same [simp]:
  "buf (on_kernel f S) = buf S" "pos (on_kernel f S) = pos S" "uart (on_kernel f S) = uart S" "files (on_kernel f S) = files S"
  "kernel (on_kernel f S) = f (kernel S)" "out (on_kernel f S) = out S"
  by (simp_all add: on_kernel_def)

lemma edits_nothing_files: "edits_nothing (\<lambda>S. on_files f (say_line a b S))" "edits_nothing (on_files f)"
  by (auto simp: edits_nothing_def on_files_def bind_eq_Some_conv)

lemma edits_nothing_for_each:
  assumes "\<And>i. edits_nothing (f i)"
  shows "edits_nothing (for_each f is)"
proof (rule edits_nothingI)
  fix S S' assume "for_each f is S = Some S'"
  then show "buf S' = buf S \<and> pos S' = pos S \<and> uart S' = uart S"
  proof (induction "is" arbitrary: S)
    case (Cons i "is")
    then obtain S1 where "f i S = Some S1" "for_each f is S1 = Some S'" by (auto simp: bind_eq_Some_conv)
    then show ?case using Cons.IH[of S1] assms[of i] by (auto simp: edits_nothing_def)
  qed simp
qed

lemma loop_keeps:
  assumes "for_each f is S = Some S'" and "\<And>i. edits_nothing (f i)"
  shows "buf S' = buf S \<and> pos S' = pos S \<and> uart S' = uart S"
  using edits_nothing_for_each[of f "is", OF assms(2)] assms(1) by (simp add: edits_nothing_def)

lemma edits_nothing_show: "edits_nothing process_show"
  unfolding process_show_def
  by (rule edits_nothing_for_each) (auto simp: edits_nothing_def Let_def bind_eq_Some_conv split: if_splits)

lemma edits_nothing_exec: "edits_nothing (exec E argv)" and edits_nothing_killer: "edits_nothing (killer argv)"
  by (rule edits_nothingI; auto simp: exec_def killer_def bind_eq_Some_conv edits_nothing_def split: if_splits dest!: loop_keeps)+

lemma edits_nothing_say: "edits_nothing f \<Longrightarrow> edits_nothing (\<lambda>S. f (say_line a b S))"
  by (auto simp: edits_nothing_def)

lemma commands_edit_nothing: "(n, f) \<in> set (commands E argv) \<Longrightarrow> edits_nothing f"
  by (auto simp: commands_def edits_nothing_files edits_nothing_show intro!: edits_nothing_say edits_nothing_exec edits_nothing_killer)
    (auto simp: edits_nothing_def clear_def on_files_def bind_eq_Some_conv)

lemma command_keeps:
  assumes "command E argv S = Some S'"
  shows "buf S' = buf S" and "pos S' = pos S" and "uart S' = uart S"
proof -
  have "buf S' = buf S \<and> pos S' = pos S \<and> uart S' = uart S"
  proof (cases "map_of (map (\<lambda>(n, f). (chars n, f)) (commands E argv)) (c_string (argv ! 0))")
    case None
    then show ?thesis using assms by (auto simp: command_def)
  next
    case (Some f)
    then obtain n where "(n, f) \<in> set (commands E argv)" by (auto dest!: map_of_SomeD)
    then have "edits_nothing f" by (rule commands_edit_nothing)
    then show ?thesis using assms Some by (simp add: command_def edits_nothing_def)
  qed
  then show "buf S' = buf S" and "pos S' = pos S" and "uart S' = uart S" by auto
qed

text \<open>The prompt of a state.\<close>

definition prompt_of :: "('d, 'u) shell \<Rightarrow> event" where
  "prompt_of S = Printf ''%s%s%s'' [Str cmd_head, Str (c_string (shell_path_head (files S))), Str (chars ''$ '')]"

lemma prompt_some: "is_string (shell_path_head (files S)) \<Longrightarrow> prompt S = Some (emit (prompt_of S) S)"
  by (simp add: prompt_def prompt_of_def strlen_some take_c_string)

text \<open>The state in which a line is run.\<close>

definition typed :: "u8 list \<Rightarrow> ('d, 'u) shell \<Rightarrow> ('d, 'u) shell \<Rightarrow> bool" where
  "typed keys S S1 \<longleftrightarrow> files S1 = files S \<and> kernel S1 = kernel S \<and> uart S1 = uart S \<and>
     out S1 = out S @ echoes keys [] @ [Printf nl []] \<and> length (buf S1) = 128"

text \<open>What \<open>test_shell\<close> does behind the call of \<open>decode\<close>.\<close>

definition end_line :: "('d, 'u) shell \<Rightarrow> ('d, 'u) shell option" where
  "end_line S = do {
     S \<leftarrow> prompt (S\<lparr>pos := 0\<rparr>);
     b \<leftarrow> put_at (buf S) (pos S + 1) 0;
     Some (S\<lparr>buf := b\<rparr>)
   }"

lemma end_line_some:
  assumes "length (buf S) = 128" and "is_string (shell_path_head (files S))"
  shows "end_line S = Some (S\<lparr>pos := 0, out := out S @ [prompt_of S], buf := (buf S)[1 := 0]\<rparr>)"
  using assms prompt_some[of "S\<lparr>pos := 0\<rparr>"] by (simp add: end_line_def put_at_def emit_def prompt_of_def)

lemma enter_runs:
  assumes "holds_line S line" and "length line \<le> 126" and "enter = 10 \<or> enter = 13"
  obtains cmd S1 where "is_string cmd" "c_string cmd = line" "files S1 = files S" "kernel S1 = kernel S" "uart S1 = uart S"
    "out S1 = out S @ [Printf nl []]" "length (buf S1) = 128" "shell_key E enter S = do { S \<leftarrow> decode E cmd S1; end_line S }"
proof -
  let ?b = "(buf S)[length line := 0]" and ?S = "(emit (Printf nl []) S)\<lparr>buf := (buf S)[length line := 0], pos := length line + 1\<rparr>"
  note h = assms(1)[unfolded holds_line_def]
  have b: "?b = line @ 0 # drop (Suc (length line)) (buf S)"
    using h assms(2) by (simp add: upd_conv_take_nth_drop)
  have p: "put_at (buf S) (length line) 0 = Some ?b" "pos S = length line" using h assms(2) by (simp_all add: put_at_def)
  have c: "enter \<noteq> 0" "\<not> (enter = 8 \<or> enter = 127)" "enter = 13 \<or> enter = 10" using assms(3) by auto
  have "shell_key E enter S = do {
       S \<leftarrow> do { S \<leftarrow> decode E ?b ?S; prompt (S\<lparr>pos := 0\<rparr>) };
       b \<leftarrow> put_at (buf S) (pos S + 1) 0;
       Some (S\<lparr>buf := b\<rparr>) }"
    unfolding shell_key_def if_not_P[OF c(1)] if_not_P[OF c(2)] if_P[OF c(3)] Let_def by (simp add: p)
  also have "\<dots> = do { S \<leftarrow> decode E ?b ?S; end_line S }"
    by (cases "decode E ?b ?S") (simp_all add: end_line_def)
  finally have "shell_key E enter S = do { S \<leftarrow> decode E ?b ?S; end_line S }" .
  moreover have "is_string ?b" "c_string ?b = line" using b h by (auto simp: is_string_def c_string_append)
  ultimately show thesis using h by (intro that[of ?b ?S]) simp_all
qed

lemma line_keys_length: "line_keys keys line \<Longrightarrow> length line \<le> 126 \<Longrightarrow> length (edited keys line) \<le> 126"
  by (induction keys arbitrary: line) auto

lemma for_each_snoc: "for_each f (xs @ [x]) S = do { S \<leftarrow> for_each f xs S; f x S }"
  by (cases "for_each f xs S"; cases "f x (the (for_each f xs S))") (simp_all add: for_each_append)

lemma line_runs:
  assumes "holds_line S []" and "line_keys keys []" and "enter = 10 \<or> enter = 13"
  obtains cmd S1 where "is_string cmd" "c_string cmd = edited keys []" "typed keys S S1"
    "for_each (shell_key E) (keys @ [enter]) S = do { S \<leftarrow> decode E cmd S1; end_line S }"
proof -
  obtain b where b: "for_each (shell_key E) keys S = Some (S\<lparr>buf := b, pos := length (edited keys []), out := out S @ echoes keys []\<rparr>)"
    "holds_line (S\<lparr>buf := b, pos := length (edited keys []), out := out S @ echoes keys []\<rparr>) (edited keys [])"
    using keys_edit[OF assms(1,2)] by blast
  have "length (edited keys []) \<le> 126" using line_keys_length[OF assms(2)] by simp
  from enter_runs[OF b(2) this assms(3), of E] obtain cmd S1 where c: "is_string cmd" "c_string cmd = edited keys []"
    "files S1 = files S" "kernel S1 = kernel S" "uart S1 = uart S" "out S1 = out S @ echoes keys [] @ [Printf nl []]"
    "length (buf S1) = 128"
    "shell_key E enter (S\<lparr>buf := b, pos := length (edited keys []), out := out S @ echoes keys []\<rparr>) =
      do { S \<leftarrow> decode E cmd S1; end_line S }" by auto
  show thesis by (rule that[OF c(1,2)]) (use b(1) c(3-8) in \<open>simp_all add: for_each_snoc typed_def\<close>)
qed

lemma typed_line:
  assumes "holds_line S []" and "line_keys keys []" and "enter = 10 \<or> enter = 13" and "length (junk_cmd E) = 128"
    and "words 0x20 (edited keys []) \<noteq> []" and "length (words 0x20 (edited keys [])) \<le> 16"
  obtains argv S1 where "map c_string argv = words 0x20 (edited keys [])" "\<forall>a \<in> set argv. is_string a" "typed keys S S1"
    "command E argv S1 = None \<Longrightarrow> for_each (shell_key E) (keys @ [enter]) S = None"
    "\<And>S2. command E argv S1 = Some S2 \<Longrightarrow> is_string (shell_path_head (files S2)) \<Longrightarrow>
      \<exists>S3. for_each (shell_key E) (keys @ [enter]) S = Some S3 \<and> holds_line S3 [] \<and> files S3 = files S2 \<and>
        kernel S3 = kernel S2 \<and> uart S3 = uart S2 \<and> out S3 = out S2 @ [prompt_of S2]"
proof -
  obtain cmd S1 where c: "is_string cmd" "c_string cmd = edited keys []" "typed keys S S1"
    "for_each (shell_key E) (keys @ [enter]) S = do { S \<leftarrow> decode E cmd S1; end_line S }"
    using line_runs[OF assms(1-3)] by blast
  have len: "length (c_string cmd) < length (junk_cmd E)"
    using line_keys_length[OF assms(2)] c(2) assms(4) by simp
  obtain argv where a: "map c_string argv = words 0x20 (edited keys [])" "\<forall>a \<in> set argv. is_string a"
    "\<And>S. decode E cmd S = command E argv S"
    using decode_words[OF c(1) len] assms(5,6) c(2) by metis
  show thesis
  proof (rule that[OF a(1,2) c(3)])
    show "for_each (shell_key E) (keys @ [enter]) S = None" if "command E argv S1 = None" using that c(4) a(3) by simp
    fix S2 assume 2: "command E argv S1 = Some S2" "is_string (shell_path_head (files S2))"
    have b: "length (buf S2) = 128" using command_keeps(1)[OF 2(1)] c(3) by (simp add: typed_def)
    then show "\<exists>S3. for_each (shell_key E) (keys @ [enter]) S = Some S3 \<and> holds_line S3 [] \<and> files S3 = files S2 \<and>
        kernel S3 = kernel S2 \<and> uart S3 = uart S2 \<and> out S3 = out S2 @ [prompt_of S2]"
      using c(4) a(3) 2(1) end_line_some[OF b 2(2)] by (simp add: holds_line_def)
  qed
qed

text \<open>
  C34: Typing a line and Enter, from an empty line, with corrections by Backspace: the shell runs the
  command that the first word names on the words of the edited line, in a state that differs
  only in the output (the echoes), and is then ready for the next line behind a new prompt.
\<close>

theorem typed_line_runs:
  assumes "holds_line S []" and "line_keys keys []" and "enter = 10 \<or> enter = 13" and "length (junk_cmd E) = 128"
    and "words 0x20 (edited keys []) \<noteq> []" and "length (words 0x20 (edited keys [])) \<le> 16"
  shows "\<exists>argv S1. map c_string argv = words 0x20 (edited keys []) \<and> (\<forall>a \<in> set argv. is_string a) \<and> typed keys S S1 \<and>
    (case command E argv S1 of
       None \<Rightarrow> for_each (shell_key E) (keys @ [enter]) S = None
     | Some S2 \<Rightarrow> is_string (shell_path_head (files S2)) \<longrightarrow>
         (\<exists>S3. for_each (shell_key E) (keys @ [enter]) S = Some S3 \<and> holds_line S3 [] \<and> files S3 = files S2 \<and>
           kernel S3 = kernel S2 \<and> uart S3 = uart S \<and> out S3 = out S2 @ [prompt_of S2]))"
proof -
  obtain argv S1 where a: "map c_string argv = words 0x20 (edited keys [])" "\<forall>a \<in> set argv. is_string a" "typed keys S S1"
    "command E argv S1 = None \<Longrightarrow> for_each (shell_key E) (keys @ [enter]) S = None"
    "\<And>S2. command E argv S1 = Some S2 \<Longrightarrow> is_string (shell_path_head (files S2)) \<Longrightarrow>
      \<exists>S3. for_each (shell_key E) (keys @ [enter]) S = Some S3 \<and> holds_line S3 [] \<and> files S3 = files S2 \<and>
        kernel S3 = kernel S2 \<and> uart S3 = uart S2 \<and> out S3 = out S2 @ [prompt_of S2]"
    using typed_line[OF assms] by blast
  have "uart S2 = uart S" if "command E argv S1 = Some S2" for S2
    using command_keeps(3)[OF that] a(3) by (simp add: typed_def)
  then show ?thesis using a by (intro exI[of _ argv] exI[of _ S1]) (auto split: option.splits)
qed

text \<open>
  C38: Enter on a line without a word compares an uninitialised pointer, and a line of more than 16
  words writes past the table of words.
\<close>

theorem bad_line_fails:
  assumes "holds_line S []" and "line_keys keys []" and "enter = 10 \<or> enter = 13" and "length (junk_cmd E) = 128"
    and "words 0x20 (edited keys []) = [] \<or> 16 < length (words 0x20 (edited keys []))"
  shows "for_each (shell_key E) (keys @ [enter]) S = None"
proof -
  obtain cmd S1 where c: "is_string cmd" "c_string cmd = edited keys []"
    "for_each (shell_key E) (keys @ [enter]) S = do { S \<leftarrow> decode E cmd S1; end_line S }"
    using line_runs[OF assms(1-3)] by blast
  have "length (c_string cmd) < length (junk_cmd E)"
    using line_keys_length[OF assms(2)] c(2) assms(4) by simp
  from decode_fails[OF c(1) this] assms(5) c(2) show ?thesis unfolding c(3) by simp
qed

text \<open>C37: The buffer has 128 bytes, but the 127th character of a line already makes the shell write behind it.\<close>

theorem long_line_overruns:
  assumes "holds_line S line" and "length line = 126" and "ch \<notin> {0, 8, 10, 13, 127}"
  shows "shell_key E ch S = None"
  using assms by (simp add: holds_line_def shell_key_def put_at_def emit_def)

section \<open>Making a directory from the keyboard\<close>

lemma mkdir_command: "argv \<noteq> [] \<Longrightarrow> c_string (argv ! 0) = chars ''mkdir'' \<Longrightarrow>
    command E argv S = on_files (make_directory (sdc E) (junk E) argv) S"
  by (simp add: command_def commands_def chars_def)

lemma fs_fields_irrelevant [simp]:
  "sector C (s\<lparr>fs_log := l\<rparr>) = sector C s" "fs_wf (s\<lparr>fs_log := l\<rparr>) = fs_wf s"
  "inode_read C d i (s\<lparr>fs_log := l\<rparr>) = inode_read C d i s"
  "tree_ok C (s\<lparr>fs_log := l\<rparr>) D = tree_ok C s D" "dir_at C (s\<lparr>fs_log := l\<rparr>) k = dir_at C s k"
  "sector C (s\<lparr>shell_path_head := l'\<rparr>) = sector C s" "inode_read C d i (s\<lparr>shell_path_head := l'\<rparr>) = inode_read C d i s"
  "tree_ok C (s\<lparr>shell_path_head := l'\<rparr>) D = tree_ok C s D" "dir_at C (s\<lparr>shell_path_head := l'\<rparr>) k = dir_at C s k"
  by (simp_all add: fs_wf_def tree_ok_def dir_at_def inode_read_def fun_eq_iff)

lemma fs_wf_head: "fs_wf s \<Longrightarrow> length h = 128 \<Longrightarrow> fs_wf (s\<lparr>shell_path_head := h\<rparr>)"
  by (simp add: fs_wf_def)

text \<open>
  C35: From the keyboard to the card: a typed line "mkdir" with a new name, in a sound file system with
  room, adds the directory to the shell's directory, and the shell is ready for the next line.
\<close>

theorem typed_mkdir_creates:
  assumes "holds_line S []" and "line_keys keys []" and "enter = 10 \<or> enter = 13" and "length (junk_cmd E) = 128"
    and "edited keys [] = chars ''mkdir '' @ name" and "name \<noteq> []" and "0x20 \<notin> set name" and "length name < 24"
    and "sd_card (sdc E) byte" and "locals_ok (junk E)" and "fs_wf (files S)" and "tree_ok (sdc E) (files S) D" and "k \<in> D"
    and "ino_of (shell_path_inode (files S)) = word_of_nat k" and "dfree (dir_at (sdc E) (files S) k) = Some i"
    and "\<exists>n < 0x8000. \<not> map_bit (inode_map (files S)) n" and "is_string (shell_path_head (files S))"
  shows "\<exists>S' n. for_each (shell_key E) (keys @ [enter]) S = Some S' \<and> holds_line S' [] \<and> n \<notin> D \<and>
    entry_created (sdc E) mode_dir name k i n ((files S)\<lparr>fs_log := []\<rparr>) (files S') \<and>
    tree_ok (sdc E) (files S') (insert n D) \<and> kernel S' = kernel S \<and>
    out S' = out S @ echoes keys [] @ [Printf nl [], prompt_of S]"
proof -
  let ?s = "(files S)\<lparr>fs_log := []\<rparr>"
  have l: "edited keys [] = chars ''mkdir'' @ 0x20 # name" using assms(5) by (simp add: chars_def)
  have w: "words 0x20 (edited keys []) = [chars ''mkdir'', name]"
    unfolding l using words_append[of "chars ''mkdir''" "0x20" name] words_single[OF assms(6,7)] by (simp add: chars_def)
  then have wl: "words 0x20 (edited keys []) \<noteq> []" "length (words 0x20 (edited keys [])) \<le> 16" by simp_all
  obtain argv S1 where a: "map c_string argv = [chars ''mkdir'', name]" "\<forall>a \<in> set argv. is_string a" "typed keys S S1"
    and run: "\<And>S2. command E argv S1 = Some S2 \<Longrightarrow> is_string (shell_path_head (files S2)) \<Longrightarrow>
      \<exists>S3. for_each (shell_key E) (keys @ [enter]) S = Some S3 \<and> holds_line S3 [] \<and> files S3 = files S2 \<and>
        kernel S3 = kernel S2 \<and> uart S3 = uart S2 \<and> out S3 = out S2 @ [prompt_of S2]"
    by (rule typed_line[OF assms(1-4) wl, unfolded w]) (rule that)
  obtain a0 a1 where av: "argv = [a0, a1]" "c_string a0 = chars ''mkdir''" "c_string a1 = name" "is_string a1"
    using a(1,2) by (auto simp: map_eq_Cons_conv)
  have f1: "files S1 = files S" "kernel S1 = kernel S" "out S1 = out S @ echoes keys [] @ [Printf nl []]"
    using a(3) by (simp_all add: typed_def)
  obtain s' n where mk: "make_directory (sdc E) (junk E) [a0, a1] ?s = Some s'"
    "entry_created (sdc E) mode_dir (c_string a1) k i n ?s s'" "n \<notin> D"
    by (rule sd_card.make_directory_ok[OF assms(9,10), of ?s D k a1 i a0]) (use assms(8,11-16) av in simp_all)
  have tree: "tree_ok (sdc E) s' (insert n D)" using entry_created_tree[OF mk(2)] assms(12,13) by simp
  have rec: "s' = ?s\<lparr>card := card s', inode_map := inode_map s'\<rparr>" using mk(2) by (simp add: entry_created_def)
  have lg: "fs_log s' = []" "shell_path_head s' = shell_path_head (files S)" by (subst rec, simp)+
  have "command E argv S1 = Some (S1\<lparr>files := s', out := out S1\<rparr>)"
    using mkdir_command[of argv E S1] av mk(1) lg(1) f1(1) by (simp add: on_files_def)
  from run[OF this] show ?thesis
    using mk(2,3) tree av(3) f1 assms(17) lg(2) by (fastforce simp: prompt_of_def)
qed

section \<open>Numbers\<close>

definition is_digit :: "u8 \<Rightarrow> bool" where
  "is_digit c \<longleftrightarrow> 0x30 \<le> c \<and> c \<le> 0x39"

lemma digit_word: "is_digit c \<Longrightarrow> c \<noteq> 0 \<and> scast c - 0x30 = (word_of_nat (digit_val c) :: u32)"
proof -
  assume d: "is_digit c"
  have all: "list_all (\<lambda>k. (word_of_nat k :: u8) \<noteq> 0 \<and>
      scast (word_of_nat k :: u8) - 0x30 = (word_of_nat (digit_val (word_of_nat k)) :: u32)) [48..<58]"
    by code_simp
  have "48 \<le> unat c" "unat c < 58" using d by (simp_all add: is_digit_def word_le_nat_alt)
  then have "unat c \<in> set [48..<58]" unfolding set_upt by simp
  with all have "(word_of_nat (unat c) :: u8) \<noteq> 0 \<and>
      scast (word_of_nat (unat c) :: u8) - 0x30 = (word_of_nat (digit_val (word_of_nat (unat c))) :: u32)"
    unfolding list_all_iff by blast
  then show ?thesis by simp
qed

lemma atoi_loop_digits:
  "list_all is_digit ds \<Longrightarrow>
   atoi_loop (ds @ 0 # r) (word_of_nat a) = Some (word_of_nat (foldl (\<lambda>a c. 10 * a + digit_val c) a ds))"
proof (induction ds arbitrary: a)
  case (Cons c ds)
  then have "10 * word_of_nat a + (scast c - 0x30) = (word_of_nat (10 * a + digit_val c) :: u32)" and "c \<noteq> 0"
    using digit_word[of c] by simp_all
  then show ?case using Cons by (simp del: of_nat_add of_nat_mult)
qed simp

lemma digit_no_sign: "is_digit c \<Longrightarrow> c \<noteq> 0x2b \<and> c \<noteq> 0x2d"
  by (auto simp: is_digit_def)

lemma atoi_digits:
  assumes "list_all is_digit ds"
  shows "atoi (ds @ 0 # r) = Some (word_of_nat (read_nat 10 ds))"
    and "atoi (0x2b # ds @ 0 # r) = Some (word_of_nat (read_nat 10 ds))"
    and "atoi (0x2d # ds @ 0 # r) = Some (- word_of_nat (read_nat 10 ds))"
proof -
  note loop = atoi_loop_digits[OF assms, of r 0]
  show "atoi (ds @ 0 # r) = Some (word_of_nat (read_nat 10 ds))"
    using loop assms by (cases ds) (auto simp: atoi_def read_nat_def dest!: digit_no_sign)
  show "atoi (0x2b # ds @ 0 # r) = Some (word_of_nat (read_nat 10 ds))"
    and "atoi (0x2d # ds @ 0 # r) = Some (- word_of_nat (read_nat 10 ds))"
    using loop by (simp_all add: atoi_def read_nat_def)
qed

text \<open>
  C39: \<open>atoi\<close> reads back what \<open>%d\<close> prints, for every number, \<open>INT_MIN\<close> included, and however it is padded.
\<close>

theorem atoi_reads_printed:
  assumes "zero_pad \<le> 9" and "length bf = 24"
  shows "\<exists>n bf'. mini_itoa v 10 up False bf zero_pad = Some (n, bf') \<and> atoi (take n bf' @ [0]) = Some v"
proof -
  let ?t = "num_text 10 up False zero_pad v"
  define neg where "neg = (sint v < 0)"
  define w where "w = (if neg then - v else v)"
  define ds where "ds = replicate (zero_pad - length (digits_rev 10 (unat w))) 0x30 @ map (dchar up) (rev (digits_rev 10 (unat w)))"
  have t: "?t = (if neg then [0x2d] else []) @ ds"
    by (simp add: num_text_def Let_def neg_def w_def ds_def)
  have "list_all is_digit ds"
    using digits_lt[of 10 _ "unat w"] by (auto simp: ds_def list_all_iff is_digit_def intro: dchar_digit)
  moreover have "word_of_nat (read_nat 10 ds) = w"
    using read_nat_digits[of 10 up "unat w"] by (simp add: ds_def read_nat_zeros)
  ultimately have "atoi (?t @ [0]) = Some v"
    using atoi_digits(1,3)[of ds "[]"] by (auto simp: t w_def)
  then show ?thesis using mini_itoa_text[OF _ assms, of 10 v up False] by auto
qed

theorem atoi_reads_printed_witness:
  "\<exists>n bf'. mini_itoa 0x80000000 10 False False (replicate 24 0) 0 = Some (n, bf') \<and> atoi (take n bf' @ [0]) = Some 0x80000000"
  by (rule atoi_reads_printed) simp_all

section \<open>The serial port\<close>

text \<open>A serial port with a queue of received characters: bit 0 of the status is set while the queue
  is not empty, and reading the data register takes the oldest character.\<close>

locale serial_in =
  fixes E :: "('d, 'u) shell_env" and pend :: "'u \<Rightarrow> u8 list"
  assumes stat: "stat_port E u = (st, u') \<Longrightarrow> (st AND 0x01 \<noteq> 0 \<longleftrightarrow> pend u \<noteq> []) \<and> pend u' = pend u"
    and read: "pend u = c # cs \<Longrightarrow> read_port E u = (d, u') \<Longrightarrow> d = c \<and> pend u' = cs"
begin

lemma uart_loop_last: "\<exists>u'. uart_loop E ch u = Some (last (ch # pend u), u') \<and> pend u' = []"
proof (induction "pend u" arbitrary: ch u)
  case Nil
  obtain st u1 where st: "stat_port E u = (st, u1)" by fastforce
  then show ?case using stat[OF st] Nil by (subst uart_loop.simps) simp
next
  case (Cons c cs)
  obtain st u1 where st: "stat_port E u = (st, u1)" by fastforce
  obtain d u2 where rd: "read_port E u1 = (d, u2)" by fastforce
  have s: "st AND 0x01 \<noteq> 0" "pend u1 = c # cs" using stat[OF st] Cons.hyps(2) by auto
  then have r: "d = c" "pend u2 = cs" using read[OF s(2) rd] by auto
  have "uart_loop E ch u = uart_loop E c u2" using st s(1) rd r(1) by (subst uart_loop.simps) simp
  then show ?case using Cons.hyps(1)[of u2 c] r(2) Cons.hyps(2) by auto
qed

lemma reads_last: "\<exists>u'. read_uart_ch E u = Some (last (0 # pend u), u') \<and> pend u' = []"
  using uart_loop_last by (simp add: read_uart_ch_def)

end

definition sample_env :: "(u32 \<Rightarrow> u8, u8 list) shell_env" where
  "sample_env = \<lparr>sdc = ram_card, stat_port = (\<lambda>u. (if u = [] then 0x60 else 0x61, u)), read_port = (\<lambda>u. (hd u, tl u)),
     junk = sample_locals, junk_cmd = replicate 128 0xaa, test_tasks = replicate 16 0, console_lock = 0x20c\<rparr>"

interpretation serial: serial_in sample_env "\<lambda>u. u"
  by unfold_locales (auto simp: sample_env_def split: if_splits)

text \<open>
  Reading a character always returns, empties the queue of the port and yields the last
  character that had arrived (or zero): the characters in front of it are lost.
\<close>

theorem read_uart_ch_last:
  assumes "serial_in E pend"
  shows "\<exists>u'. read_uart_ch E u = Some (last (0 # pend u), u') \<and> pend u' = []"
  by (rule serial_in.reads_last[OF assms])

theorem read_uart_ch_last_witness: "read_uart_ch sample_env [0x6c, 0x73] = Some (0x73, [])"
  using read_uart_ch_last[OF serial.serial_in_axioms, of "[0x6c, 0x73]"] by simp

section \<open>A round of the loop\<close>

lemma console_free:
  assumes "kmem k (l + lock_status) \<noteq> LOCKED"
  shows "\<exists>T. krun 2 \<lparr>ks = k, todo = (\<lambda>_. [])(current_running k := do_mutex_lock_acquire l)\<rparr> = Some T \<and> ks T = hold l k"
  using assms by (simp add: numeral_2_eq_2 kstep_def do_mutex_lock_acquire_def hold_def store_def Let_def)

text \<open>With the lock of the console free the round takes it and gives it back.\<close>

lemma shell_round_takes_key:
  assumes "serial_in E pend" and "sched_inv (kernel S) Q" and "locks_ok (kernel S) (dom Q) L" and "holds_ok (kernel S) L H"
    and "console_lock E \<in> L" and "kmem (kernel S) (console_lock E + lock_status) \<noteq> LOCKED"
  shows "\<exists>k u Q'. shell_round E S = shell_key E (last (0 # pend (uart S))) (S\<lparr>kernel := k, uart := u\<rparr>) \<and> pend u = [] \<and>
    sched_inv k Q' \<and> dom Q' = dom Q \<and> holds_ok k L H \<and> current_running k = current_running (kernel S)"
proof -
  let ?k = "kernel S" and ?l = "console_lock E" and ?c = "current_running (kernel S)"
  let ?h = "hold ?l ?k"
  have cb: "?c \<in> pcbs (pcb ?k)" using assms(2) by (simp add: leave_facts)
  have nobody: "?l \<notin> set (H p)" if "p \<in> pcbs (pcb ?k)" for p
    using assms(4-6) that by (auto simp: holds_ok_def split: if_splits)
  note hk = hold_keeps[OF assms(2-6) refl]
  have h: "current_running ?h = ?c" "pcb ?h = pcb ?k" "ready_queue ?h = ready_queue ?k" by (simp_all add: hold_def store_def)
  have L: "locks_ok ?h (dom Q) L" by (rule locks_cong[OF assms(3)]) (use h in simp_all)
  obtain k Q' where rl: "do_mutex_lock_release ?l ?h = Some k" "sched_inv k Q'" "dom Q' = dom Q"
    "holds_ok k L ((H(?c := H ?c @ [?l]))(?c := remove1 ?l ((H(?c := H ?c @ [?l])) ?c)))" "current_running k = ?c"
    by (rule release_keeps[OF hk(1) L hk(2), of ?l ?c]) (use h(1) in auto)
  have "(H(?c := H ?c @ [?l]))(?c := remove1 ?l ((H(?c := H ?c @ [?l])) ?c)) = H"
    using remove_last[OF nobody[OF cb]] by simp
  then have H: "holds_ok k L H" using rl(4) by simp
  obtain u where u: "read_uart_ch E (uart S) = Some (last (0 # pend (uart S)), u)" "pend u = []"
    using serial_in.reads_last[OF assms(1)] by blast
  obtain T where T: "krun 2 \<lparr>ks = ?k, todo = (\<lambda>_. [])(?c := do_mutex_lock_acquire ?l)\<rparr> = Some T" "ks T = ?h"
    using console_free[OF assms(6)] by blast
  have "shell_round E S = shell_key E (last (0 # pend (uart S))) (S\<lparr>kernel := k, uart := u\<rparr>)"
    using T u(1) rl(1) h(1) by (simp add: shell_round_def)
  then show ?thesis using u(2) rl(2,3,5) H by blast
qed

text \<open>Only \<open>exec\<close> and \<open>kill\<close> write to the kernel.\<close>

definition leaves_kernel :: "(('d, 'u) shell \<Rightarrow> ('d, 'u) shell option) \<Rightarrow> bool" where
  "leaves_kernel f \<longleftrightarrow> (\<forall>S S'. f S = Some S' \<longrightarrow> kernel S' = kernel S)"

lemma leaves_kernel_files: "leaves_kernel (\<lambda>S. on_files f (say_line a b S))" "leaves_kernel (on_files f)"
  by (auto simp: leaves_kernel_def on_files_def bind_eq_Some_conv)

lemma leaves_kernel_for_each:
  assumes "\<And>i. leaves_kernel (f i)"
  shows "leaves_kernel (for_each f is)"
  unfolding leaves_kernel_def
proof (intro allI impI)
  fix S S' assume "for_each f is S = Some S'"
  then show "kernel S' = kernel S"
  proof (induction "is" arbitrary: S)
    case (Cons i "is")
    then obtain S1 where "f i S = Some S1" "for_each f is S1 = Some S'" by (auto simp: bind_eq_Some_conv)
    then show ?case using Cons.IH[of S1] assms[of i] by (auto simp: leaves_kernel_def)
  qed simp
qed

lemma leaves_kernel_show: "leaves_kernel process_show"
  unfolding process_show_def
  by (rule leaves_kernel_for_each) (auto simp: leaves_kernel_def Let_def bind_eq_Some_conv split: if_splits)

lemma commands_leave_kernel:
  assumes "(n, f) \<in> set (commands E argv)" and "chars n \<notin> {chars ''exec'', chars ''kill''}"
  shows "leaves_kernel f"
  using assms by (auto simp: commands_def leaves_kernel_files leaves_kernel_show)
    (auto simp: leaves_kernel_def clear_def on_files_def bind_eq_Some_conv)

lemma command_leaves_kernel:
  assumes "command E argv S = Some S'" and "c_string (argv ! 0) \<notin> {chars ''exec'', chars ''kill''}"
  shows "kernel S' = kernel S"
proof (cases "map_of (map (\<lambda>(n, f). (chars n, f)) (commands E argv)) (c_string (argv ! 0))")
  case None
  then show ?thesis using assms by (auto simp: command_def)
next
  case (Some f)
  then obtain n where "(n, f) \<in> set (commands E argv)" "chars n = c_string (argv ! 0)" by (auto dest!: map_of_SomeD)
  then have "leaves_kernel f" using commands_leave_kernel assms(2) by metis
  then show ?thesis using assms(1) Some by (simp add: command_def leaves_kernel_def)
qed

text \<open>Enter on a line that is not a command of these two.\<close>

definition kernel_line :: "u8 list \<Rightarrow> bool" where
  "kernel_line line \<longleftrightarrow> words 0x20 line \<noteq> [] \<and> hd (words 0x20 line) \<in> {chars ''exec'', chars ''kill''}"

lemma end_line_kernel: "end_line S = Some S' \<Longrightarrow> kernel S' = kernel S"
  by (auto simp: end_line_def prompt_def bind_eq_Some_conv)

lemma enter_leaves_kernel:
  assumes "holds_line S line" and "length line \<le> 126" and "enter = 10 \<or> enter = 13" and "128 \<le> length (junk_cmd E)"
    and "\<not> kernel_line line" and "shell_key E enter S = Some S'"
  shows "kernel S' = kernel S"
proof -
  obtain cmd S1 where c: "is_string cmd" "c_string cmd = line" "kernel S1 = kernel S"
    "shell_key E enter S = do { S \<leftarrow> decode E cmd S1; end_line S }"
    by (rule enter_runs[OF assms(1-3), of E]) blast
  obtain S2 where S2: "decode E cmd S1 = Some S2" "end_line S2 = Some S'" using assms(6) c(4) by (auto simp: bind_eq_Some_conv)
  have len: "length (c_string cmd) < length (junk_cmd E)" using c(2) assms(2,4) by simp
  have w: "words 0x20 (c_string cmd) \<noteq> []" "length (words 0x20 (c_string cmd)) \<le> 16"
    using decode_fails[OF c(1) len, of S1] S2(1) by (metis option.distinct(1), metis not_le option.distinct(1))
  obtain argv where a: "map c_string argv = words 0x20 (c_string cmd)" "\<And>S. decode E cmd S = command E argv S"
    by (rule decode_words[OF c(1) len w]) blast
  have "argv \<noteq> []" using a(1) w(1) by auto
  then have "c_string (argv ! 0) = hd (words 0x20 line)" unfolding c(2)[symmetric] a(1)[symmetric] by (cases argv) simp_all
  then have "c_string (argv ! 0) \<notin> {chars ''exec'', chars ''kill''}" using assms(5) w(1) c(2) by (simp add: kernel_line_def)
  then show ?thesis using command_leaves_kernel[of E argv S1 S2] a(2) S2 end_line_kernel c(3) by metis
qed

text \<open>
  C36: A round of the shell, with the lock of the console free and no other process running between
  its statements, on a line of at most 126 characters: the lock is taken and given back, so that in
  the kernel \<open>k\<close> behind it the scheduler's invariant holds and the same locks are held by the same
  processes, and the last character that had arrived is handled (\<open>0\<close> when none had). If it is not
  Enter, the round returns with exactly this kernel, the line edited and echoed, and the files as they
  were, so the round keeps the invariants. If it is Enter, a round that returns leaves this kernel too,
  unless the first word of the line is \<open>exec\<close> or \<open>kill\<close>, which then run on it.
\<close>

theorem shell_round_handles:
  fixes S :: "('d, 'u) shell"
  assumes "serial_in E pend" and "sched_inv (kernel S) Q" and "locks_ok (kernel S) (dom Q) L" and "holds_ok (kernel S) L H"
    and "console_lock E \<in> L" and "kmem (kernel S) (console_lock E + lock_status) \<noteq> LOCKED"
    and "ch = last (0 # pend (uart S))" and "holds_line S line" and "length line \<le> 126" and "ch = 10 \<or> ch = 13 \<or> length (edit ch line) \<le> 126"
    and "128 \<le> length (junk_cmd E)"
  shows "\<exists>k u Q'. shell_round E S = shell_key E ch (S\<lparr>kernel := k, uart := u\<rparr>) \<and> pend u = [] \<and>
    sched_inv k Q' \<and> dom Q' = dom Q \<and> holds_ok k L H \<and> current_running k = current_running (kernel S) \<and>
    (ch \<noteq> 10 \<and> ch \<noteq> 13 \<longrightarrow> (\<exists>S'. shell_round E S = Some S' \<and> holds_line S' (edit ch line) \<and> kernel S' = k \<and> uart S' = u \<and>
      files S' = files S \<and> out S' = out S @ echo ch line)) \<and>
    (\<forall>S'. (ch = 10 \<or> ch = 13) \<and> \<not> kernel_line line \<and> shell_round E S = Some S' \<longrightarrow> kernel S' = k)"
proof -
  obtain k u Q' where r: "shell_round E S = shell_key E ch (S\<lparr>kernel := k, uart := u\<rparr>)" "pend u = []"
    "sched_inv k Q'" "dom Q' = dom Q" "holds_ok k L H" "current_running k = current_running (kernel S)"
    using shell_round_takes_key[OF assms(1-6)] unfolding assms(7)[symmetric] by blast
  have hl: "holds_line (S\<lparr>kernel := k, uart := u\<rparr>) line" using assms(8) by (simp add: holds_line_def)
  have key: "\<exists>S'. shell_round E S = Some S' \<and> holds_line S' (edit ch line) \<and> kernel S' = k \<and> uart S' = u \<and>
      files S' = files S \<and> out S' = out S @ echo ch line" if "ch \<noteq> 10" "ch \<noteq> 13"
    using key_edits[OF hl that, of E] assms(10) that r(1) by force
  have enter: "kernel S' = k" if "ch = 10 \<or> ch = 13" "\<not> kernel_line line" "shell_round E S = Some S'" for S'
    using enter_leaves_kernel[OF hl assms(9) that(1) assms(11) that(2), of S'] that(3) r(1) by simp
  show ?thesis using r key enter by (intro exI[of _ k] exI[of _ u] exI[of _ Q']) blast
qed


section \<open>Killing by number\<close>

lemma atoi_of_string:
  assumes "is_string a" and "c_string a = ds" and "list_all is_digit ds"
  shows "atoi a = Some (word_of_nat (read_nat 10 ds))"
proof -
  have "a = c_string a @ dropWhile (\<lambda>c. c \<noteq> 0) a" by (simp add: c_string_def)
  moreover obtain r where "dropWhile (\<lambda>c. c \<noteq> 0) a = 0 # r"
    using assms(1) by (cases "dropWhile (\<lambda>c. c \<noteq> 0) a") (auto simp: is_string_def dropWhile_eq_Cons_conv)
  ultimately have "a = ds @ 0 # r" using assms(2) by simp
  then show ?thesis using atoi_digits(1)[OF assms(3)] by simp
qed

text \<open>
  The command \<open>kill\<close> with the number of a process reaches \<open>kill\<close> only for numbers below 16: a
  process with a larger id, and ids are never reused, cannot be killed from the shell by number.
\<close>

theorem kill_by_number:
  assumes "is_string a" and "c_string a = ds" and "list_all is_digit ds" and "ds \<noteq> []" and "read_nat 10 ds < 2 ^ 31"
  shows "killer [cmd, a] S =
    Some (if read_nat 10 ds < 16 then on_kernel (kill (word_of_nat (read_nat 10 ds))) S else S)"
proof -
  let ?n = "read_nat 10 ds"
  have "sint (word_of_nat ?n :: u32) = int ?n"
    using assms(5) by (simp add: signed_of_nat signed_take_bit_int_eq_self)
  then have "(sint (word_of_nat ?n :: u32) < 16 \<and> 0 \<le> sint (word_of_nat ?n :: u32)) = (?n < 16)" by simp
  moreover have "hd ds \<noteq> 0x61" using assms(3,4) by (cases ds) (auto simp: is_digit_def)
  then have "ds \<noteq> chars ''all''" by (auto simp: chars_def)
  then obtain r where "strcmp a (literal (chars ''all'')) = Some r" "r \<noteq> 0"
    using strcmp_some[OF assms(1), of "literal (chars ''all'')"] strcmp_zero[OF assms(1), of "literal (chars ''all'')"] assms(2)
    by (auto simp: chars_def)
  ultimately show ?thesis
    using atoi_of_string[OF assms(1-3)] by (simp add: killer_def)
qed

theorem kill_by_number_witness: "killer [literal (chars ''kill''), literal (chars ''16'')] S = Some S"
  using kill_by_number[of "literal (chars ''16'')" "chars ''16''" "literal (chars ''kill'')" S]
  by (simp add: chars_def is_digit_def read_nat_def digit_val_def)

lemma for_each_total: "for_each (\<lambda>i S. Some (f i S)) is S = Some (fold f is S)"
  by (induction "is" arbitrary: S) auto

lemma fold_on_kernel: "fold (\<lambda>i. on_kernel (f i)) is S = on_kernel (\<lambda>k. fold f is k) S"
  by (induction "is" arbitrary: S) (simp_all add: on_kernel_def)

text \<open>
  \<open>exec all\<close> spawns the first 15 entries of \<open>test_tasks\<close>, of which only three are tasks: twelve
  processes are made from a null pointer, with the words at address 0 as name and entry point.
\<close>

theorem exec_all_spawns_null:
  assumes "test_tasks E = tasks @ replicate 13 NULL" and "length tasks = 3"
    and "is_string a" and "c_string a = chars ''all''"
  shows "exec E [cmd, a] S = Some (on_kernel (\<lambda>k. fold spawn (replicate 12 NULL) (fold spawn tasks k)) S)"
proof -
  have "strcmp a (literal (chars ''all'')) = Some 0"
    using strcmp_zero[OF assms(3), of "literal (chars ''all'')"] assms(4) by (simp add: chars_def)
  then have "exec E [cmd, a] S = Some (on_kernel (\<lambda>k. fold (\<lambda>i. spawn (test_tasks E ! i)) [0..<15] k) S)"
    by (simp add: exec_def for_each_total fold_on_kernel del: upt_Suc upt_rec_numeral)
  moreover have "map ((!) (test_tasks E)) [0..<15] = tasks @ replicate 12 NULL"
    using assms(1,2) by (auto intro!: nth_equalityI simp: nth_append)
  then have "fold (\<lambda>i. spawn (test_tasks E ! i)) [0..<15] = fold spawn (tasks @ replicate 12 NULL)"
    by (metis (no_types, lifting) comp_apply fold_map fold_cong ext)
  ultimately show ?thesis by simp
qed

theorem exec_all_spawns_null_witness:
  "exec (sample_env\<lparr>test_tasks := [1, 2, 3] @ replicate 13 NULL\<rparr>) [literal (chars ''exec''), literal (chars ''all'')] S =
    Some (on_kernel (\<lambda>k. fold spawn (replicate 12 NULL) (fold spawn [1, 2, 3] k)) S)"
  by (rule exec_all_spawns_null) (simp_all add: chars_def)

definition sample_shell :: "(u32 \<Rightarrow> u8, u8 list) shell" where
  "sample_shell = \<lparr>files = sample_fs, kernel = ks (sample_sys []), uart = [0x61], buf = replicate 128 0, pos = 0, out = []\<rparr>"

lemma sample_shell_line: "holds_line sample_shell []" "holds_line (sample_shell\<lparr>files := s\<rparr>) []"
  by (simp_all add: holds_line_def sample_shell_def)

theorem typed_line_runs_witness:
  "\<exists>S. for_each (shell_key sample_env) [0x61, 0x62, 8, 13] sample_shell = Some S \<and> holds_line S [] \<and>
     Printf (''error: invalid command: %s'' @ nl) [Str [0x61]] \<in> set (out S)"
proof -
  have e: "edited [0x61, 0x62, 8] [] = [0x61]" "line_keys [0x61, 0x62, 8] []" by (simp_all add: edit_def)
  have j: "length (junk_cmd sample_env) = 128" by (simp add: sample_env_def)
  have w: "words 0x20 (edited [0x61, 0x62, 8] []) = [[0x61]]" unfolding e(1) by simp
  then have wl: "words 0x20 (edited [0x61, 0x62, 8] []) \<noteq> []" "length (words 0x20 (edited [0x61, 0x62, 8] [])) \<le> 16"
    by simp_all
  from typed_line_runs[OF sample_shell_line(1) e(2) disjI2[OF refl] j wl, unfolded w] obtain argv S1 where
    a: "map c_string argv = [[0x61]]" "typed [0x61, 0x62, 8] sample_shell S1"
    "case command sample_env argv S1 of
       None \<Rightarrow> for_each (shell_key sample_env) ([0x61, 0x62, 8] @ [13]) sample_shell = None
     | Some S2 \<Rightarrow> is_string (shell_path_head (files S2)) \<longrightarrow>
         (\<exists>S3. for_each (shell_key sample_env) ([0x61, 0x62, 8] @ [13]) sample_shell = Some S3 \<and> holds_line S3 [] \<and> files S3 = files S2 \<and>
           kernel S3 = kernel S2 \<and> uart S3 = uart sample_shell \<and> out S3 = out S2 @ [prompt_of S2])"
    by (elim exE conjE) (rule that)
  have "c_string (argv ! 0) = [0x61]" using a(1) by (cases argv) auto
  then have "command sample_env argv S1 = Some (say_line ''error: invalid command: %s'' [Str [0x61]] S1)"
    by (simp add: command_def commands_def chars_def)
  moreover have "is_string (shell_path_head (files S1))" using a(2) by (simp add: typed_def sample_shell_def sample_fs_def is_string_def)
  ultimately show ?thesis using a(3) by auto
qed

theorem bad_line_fails_witness: "for_each (shell_key sample_env) [13] sample_shell = None"
  using bad_line_fails[OF sample_shell_line(1), of "[]" 13 sample_env] by (simp add: sample_env_def)

theorem long_line_overruns_witness:
  "shell_key sample_env 0x61 (sample_shell\<lparr>buf := replicate 128 0x61, pos := 126\<rparr>) = None"
  by (rule long_line_overruns[of _ "replicate 126 0x61"]) (simp_all add: holds_line_def)

theorem shell_round_handles_witness:
  "\<exists>S'. shell_round sample_env sample_shell = Some S' \<and> holds_line S' [0x61] \<and> out S' = out sample_shell @ [Printf ''%c'' [Num 0x61]]"
proof -
  obtain Q where "sched_inv (ks (sample_sys [])) Q" "dom Q = sampleD" using sample_sys_sched by blast
  moreover have "holds_ok (ks (sample_sys [])) {0x20c} (\<lambda>_. [])" using start_inv[OF sample_start] by (simp add: mutex_inv_def)
  ultimately have "\<exists>k u Q'. shell_round sample_env sample_shell = shell_key sample_env 0x61 (sample_shell\<lparr>kernel := k, uart := u\<rparr>) \<and>
      u = [] \<and> sched_inv k Q' \<and> dom Q' = dom Q \<and> holds_ok k {0x20c} (\<lambda>_. []) \<and>
      current_running k = current_running (kernel sample_shell) \<and>
      (0x61 \<noteq> (10 :: u8) \<and> 0x61 \<noteq> (13 :: u8) \<longrightarrow> (\<exists>S'. shell_round sample_env sample_shell = Some S' \<and>
        holds_line S' (edit 0x61 []) \<and> kernel S' = k \<and> uart S' = u \<and> files S' = files sample_shell \<and>
        out S' = out sample_shell @ echo 0x61 [])) \<and>
      (\<forall>S'. (0x61 = (10 :: u8) \<or> 0x61 = (13 :: u8)) \<and> \<not> kernel_line [] \<and> shell_round sample_env sample_shell = Some S' \<longrightarrow> kernel S' = k)"
    by (intro shell_round_handles[OF serial.serial_in_axioms])
      (use sample_locks sample_unlocked[of "[]"] sample_shell_line(1) in \<open>simp_all add: sample_shell_def sample_env_def edit_def\<close>)
  then obtain S' where "shell_round sample_env sample_shell = Some S'" "holds_line S' (edit 0x61 [])"
    "out S' = out sample_shell @ echo 0x61 []" by auto
  then show ?thesis by (intro exI[of _ S']) (simp add: edit_def echo_def)
qed

theorem typed_mkdir_creates_witness:
  "\<exists>S S' n. holds_line S [] \<and> for_each (shell_key sample_env) (chars ''mkdir a'' @ [13]) S = Some S' \<and>
     dir_at ram_card (files S') 0 ! 2 = Some ([0x61], mode_dir, word_of_nat n)"
proof -
  obtain s where s: "fs_wf s" "tree_ok ram_card s {0}" "ino_of (shell_path_inode s) = word_of_nat 0"
    "dir_at ram_card s 0 = empty_dir 0 0" "\<not> map_bit (inode_map s) 1"
    using sample_root by blast
  let ?S = "sample_shell\<lparr>files := s\<lparr>shell_path_head := replicate 128 0\<rparr>\<rparr>"
  have "\<exists>S' n. for_each (shell_key sample_env) (chars ''mkdir a'' @ [13]) ?S = Some S' \<and> holds_line S' [] \<and> n \<notin> {0} \<and>
    entry_created (sdc sample_env) mode_dir [0x61] 0 2 n ((files ?S)\<lparr>fs_log := []\<rparr>) (files S') \<and>
    tree_ok (sdc sample_env) (files S') (insert n {0}) \<and> kernel S' = kernel ?S \<and>
    out S' = out ?S @ echoes (chars ''mkdir a'') [] @ [Printf nl [], prompt_of ?S]"
    by (rule typed_mkdir_creates[OF sample_shell_line(2)])
      (use s ram.sd_card_axioms sample_locals_ok empty_dir_free in
        \<open>auto simp: sample_env_def chars_def edit_def is_string_def intro!: exI[of _ 1] fs_wf_head\<close>)
  then obtain S' n where "for_each (shell_key sample_env) (chars ''mkdir a'' @ [13]) ?S = Some S'"
    "dir_at ram_card (files S') 0 = (empty_dir 0 0)[2 := Some ([0x61], mode_dir, word_of_nat n)]"
    using s(4) by (auto simp: entry_created_def sample_env_def)
  moreover have "length (empty_dir 0 0) = 16" by (simp add: empty_dir_def)
  ultimately show ?thesis using sample_shell_line(2) by (intro exI[of _ ?S] exI[of _ S'] exI[of _ n]) simp
qed

end
