(* ===== verification/Programs.thy ===== *)
theory Programs
  imports Shell_Run
begin

text \<open>
  The user programs that the shell can start: \<^verbatim>\<open>test/test_fs.c\<close>, \<^verbatim>\<open>test/hello_world.c\<close> and
  \<^verbatim>\<open>test/edit.c\<close>. They see the same files, kernel and console as the shell; the last call of each,
  \<open>sys_exit\<close>, gives the processor to another process.
\<close>

section \<open>Programs\<close>

definition sys_exit :: "('d, 'u) shell \<Rightarrow> ('d, 'u) shell option" where
  "sys_exit S = do { k \<leftarrow> exit (kernel S); Some (S\<lparr>kernel := k\<rparr>) }"

definition with_files :: "('d fs \<Rightarrow> ('r \<times> 'd fs) option) \<Rightarrow> ('d, 'u) shell \<Rightarrow> ('r \<times> ('d, 'u) shell) option" where
  "with_files f S = do {
     (r, s) \<leftarrow> f ((files S)\<lparr>fs_log := []\<rparr>);
     Some (r, S\<lparr>files := s, out := out S @ map (\<lambda>(fmt, va). Printf fmt va) (fs_log s)\<rparr>)
   }"

definition hello :: "u8 list" where
  "hello = chars ''hello world!'' @ [0x0a]"

definition O_RDWR :: u32 where "O_RDWR = 0"

definition putc :: "u8 \<Rightarrow> ('d, 'u) shell \<Rightarrow> ('d, 'u) shell" where
  "putc c S = emit (Printf ''%c'' [Num (scast c)]) S"

text \<open>\<open>buff\<close> is the static array of 64 bytes.\<close>

definition test_fs :: "('d, 'u) shell_env \<Rightarrow> u8 list \<Rightarrow> ('d, 'u) shell \<Rightarrow> (u8 list \<times> ('d, 'u) shell) option" where
  "test_fs E buff S = do {
     (index, S) \<leftarrow> with_files (sys_fopen (sdc E) (junk E) (literal (chars ''1.txt'')) O_RDWR) S;
     S \<leftarrow> for_each (\<lambda>i S. do { (r, S) \<leftarrow> with_files (sys_fwrite (sdc E) index (hello @ [0]) 13) S; Some S }) [0..<10] S;
     (r, S) \<leftarrow> with_files (sys_fwrite (sdc E) index [0] 1) S;
     S \<leftarrow> on_files (sys_fseek index 0) S;
     (buff, S) \<leftarrow> for_each (\<lambda>i (buff, S). do {
         (buff, S) \<leftarrow> with_files (\<lambda>s. do { (r, b, s) \<leftarrow> sys_fread (sdc E) index buff 13 s; Some (b, s) }) S;
         Some (buff, fold (\<lambda>j. putc (buff ! j)) [0..<13] S)
       }) [0..<10] (buff, S);
     S \<leftarrow> on_files (sys_fclose (sdc E) index) S;
     S \<leftarrow> sys_exit S;
     Some (buff, S)
   }"

definition hello_world :: "('d, 'u) shell \<Rightarrow> ('d, 'u) shell option" where
  "hello_world S = sys_exit (say_line ''%d'' [Num (fd_index (files S))] S)"

definition edit_task :: "('d, 'u) shell \<Rightarrow> ('d, 'u) shell option" where
  "edit_task S = sys_exit S"

section \<open>The file test\<close>

definition hellos :: "nat \<Rightarrow> u8 list" where
  "hellos k = concat (replicate k hello)"

lemma length_hello [simp]: "length hello = 13"
  by (simp add: hello_def chars_def)

lemma length_hellos [simp]: "length (hellos k) = 13 * k"
  by (simp add: hellos_def length_concat sum_list_replicate)

lemma hellos_Suc: "hellos (Suc k) = hellos k @ hello"
  by (simp add: hellos_def replicate_append_same[symmetric])

lemma hellos_slice: "k < n \<Longrightarrow> take 13 (drop (13 * k) (hellos n)) = hello"
proof -
  assume "k < n"
  then obtain j where "n = k + Suc j" by (metis add_Suc_right less_imp_Suc_add)
  then have "hellos n = hellos k @ hello @ hellos j"
    by (simp only: hellos_def replicate_add concat_append replicate_Suc concat.simps)
  then show ?thesis by simp
qed

lemma putcs: "fold (\<lambda>j. putc (bs ! j)) [0..<length bs] S = S\<lparr>out := out S @ map (\<lambda>c. Printf ''%c'' [Num (scast c)]) bs\<rparr>"
proof -
  have "fold putc bs S = S\<lparr>out := out S @ map (\<lambda>c. Printf ''%c'' [Num (scast c)]) bs\<rparr>"
    by (induction bs arbitrary: S) (simp_all add: putc_def emit_def)
  moreover have "fold (\<lambda>j. putc (bs ! j)) [0..<length bs] S = fold putc (map ((!) bs) [0..<length bs]) S"
    by (simp add: fold_map comp_def)
  ultimately show ?thesis by (simp add: map_nth)
qed

text \<open>The state while the file is written: \<open>k\<close> lines are in the block of inode \<open>n\<close>.\<close>

definition writing :: "'d sd \<Rightarrow> ('d, 'u) shell \<Rightarrow> u32 \<Rightarrow> nat \<Rightarrow> nat \<Rightarrow> ('d, 'u) shell \<Rightarrow> bool" where
  "writing C S0 ix n k S \<longleftrightarrow> out S = out S0 \<and> kernel S = kernel S0 \<and> length (fd (files S)) = 16 \<and>
     fd (files S) ! unat ix = (word_of_nat n, word_of_nat (13 * k)) \<and> take (13 * k) (sector C (files S) n) = hellos k \<and>
     (\<forall>b < num_sectors. b \<noteq> n \<longrightarrow> sector C (files S) b = sector C (files S0) b)"

lemma small_pos: "k \<le> 10 \<Longrightarrow> unat (word_of_nat (13 * k) :: u32) = 13 * k"
  by (rule unat_word_small) simp

lemma write_hello:
  assumes "sd_card C byte" and "unat ix < 16" and "n < 0xfe000" and "writing C S0 ix n k S" and "k < 10"
  shows "\<exists>S'. with_files (sys_fwrite C ix (hello @ [0]) 13) S = Some (13, S') \<and> writing C S0 ix n (Suc k) S'"
proof -
  note w = assms(4)[unfolded writing_def]
  let ?s = "(files S)\<lparr>fs_log := []\<rparr>" and ?pos = "word_of_nat (13 * k) :: u32"
  have u: "unat ?pos = 13 * k" "unat (13 :: u32) = 13" using small_pos[of k] assms(5) by simp_all
  obtain s' where s': "sys_fwrite C ix (hello @ [0]) 13 ?s = Some (13, s')"
    "s' = ?s\<lparr>card := card s', fd := (fd ?s)[unat ix := (word_of_nat n, ?pos + 13)]\<rparr>"
    "sector C s' n = put_bytes (sector C ?s n) (unat ?pos) (take (unat (13 :: u32)) (hello @ [0]))"
    "\<And>b. b < num_sectors \<Longrightarrow> b \<noteq> n \<Longrightarrow> sector C s' b = sector C ?s b"
    by (rule sd_card.sys_fwrite_ok[OF assms(1), of ix ?s n ?pos 13 "hello @ [0]"]) (use w assms(2,3,5) u in simp_all)
  have fd: "fd s' = (fd (files S))[unat ix := (word_of_nat n, ?pos + 13)]" "fs_log s' = []" by (subst s'(2), simp)+
  have "sector C s' n = take (13 * k) (sector C (files S) n) @ hello @ drop (13 * k + 13) (sector C (files S) n)"
    using s'(3) u by (simp add: put_bytes_def)
  then have "take (13 * Suc k) (sector C s' n) = hellos (Suc k)"
    using w by (simp add: hellos_Suc)
  moreover have "?pos + 13 = word_of_nat (13 * Suc k)" by simp
  ultimately show ?thesis
    using s'(1,4) fd w assms(2) by (simp add: with_files_def writing_def)
qed

lemma write_hellos:
  assumes "sd_card C byte" and "unat ix < 16" and "n < 0xfe000" and "writing C S0 ix n 0 S"
  shows "\<exists>S'. for_each (\<lambda>i S. do { (r, S) \<leftarrow> with_files (sys_fwrite C ix (hello @ [0]) 13) S; Some S }) [0..<10] S = Some S' \<and>
    writing C S0 ix n 10 S'"
proof (rule for_each_upt)
  fix k :: nat and S1 assume "k < 10" and "writing C S0 ix n k S1"
  then show "\<exists>S'. (do { (r, S) \<leftarrow> with_files (sys_fwrite C ix (hello @ [0]) 13) S1; Some S }) = Some S' \<and> writing C S0 ix n (Suc k) S'"
    using write_hello[OF assms(1-3)] by fastforce
qed (use assms(4) in simp_all)

text \<open>A write of a zero behind the lines.\<close>

definition written :: "'d sd \<Rightarrow> ('d, 'u) shell \<Rightarrow> u32 \<Rightarrow> nat \<Rightarrow> u32 \<Rightarrow> ('d, 'u) shell \<Rightarrow> bool" where
  "written C S0 ix n p S \<longleftrightarrow> kernel S = kernel S0 \<and> length (fd (files S)) = 16 \<and>
     fd (files S) ! unat ix = (word_of_nat n, p) \<and> take 130 (sector C (files S) n) = hellos 10 \<and>
     (\<forall>b < num_sectors. b \<noteq> n \<longrightarrow> sector C (files S) b = sector C (files S0) b)"

lemma zero_behind:
  assumes "sd_card C byte" and "unat ix < 16" and "n < 0xfe000" and "written C S0 ix n 130 S"
  obtains S' where "sys_fwrite C ix [0] 1 ((files S)\<lparr>fs_log := []\<rparr>) = Some (1, files S')"
    "with_files (sys_fwrite C ix [0] 1) S = Some (1, S')"
    "written C S0 ix n 131 S'" "out S' = out S" "fs_log (files S') = []" "sector C (files S') n ! 130 = 0"
proof -
  note w = assms(4)[unfolded written_def]
  let ?s = "(files S)\<lparr>fs_log := []\<rparr>"
  have u: "unat (130 :: u32) = 130" "unat (1 :: u32) = 1" by simp_all
  obtain s' where s': "sys_fwrite C ix [0] 1 ?s = Some (1, s')"
    "s' = ?s\<lparr>card := card s', fd := (fd ?s)[unat ix := (word_of_nat n, 130 + 1)]\<rparr>"
    "sector C s' n = put_bytes (sector C ?s n) (unat (130 :: u32)) (take (unat (1 :: u32)) [0])"
    "\<And>b. b < num_sectors \<Longrightarrow> b \<noteq> n \<Longrightarrow> sector C s' b = sector C ?s b"
    by (rule sd_card.sys_fwrite_ok[OF assms(1), of ix ?s n 130 1 "[0]"]) (use w assms(2,3) in simp_all)
  have fd: "fd s' = (fd (files S))[unat ix := (word_of_nat n, 131)]" "fs_log s' = []" by (subst s'(2), simp)+
  have "sector C s' n = take 130 (sector C (files S) n) @ [0] @ drop 131 (sector C (files S) n)"
    using s'(3) by (simp add: put_bytes_def)
  moreover from this have "take 130 (sector C s' n) = hellos 10" "sector C s' n ! 130 = 0" using w by (simp_all add: nth_append)
  ultimately show thesis
    using s'(1,4) fd w assms(2) by (intro that[of "S\<lparr>files := s'\<rparr>"]) (simp_all add: with_files_def written_def)
qed

text \<open>While it is read: \<open>k\<close> lines have been printed.\<close>

definition reading :: "'d sd \<Rightarrow> ('d, 'u) shell \<Rightarrow> u32 \<Rightarrow> nat \<Rightarrow> nat \<Rightarrow> u8 list \<times> ('d, 'u) shell \<Rightarrow> bool" where
  "reading C S0 ix n k = (\<lambda>(buff, S). length buff = 64 \<and> written C S0 ix n (word_of_nat (13 * k)) S \<and>
     out S = out S0 @ map (\<lambda>c. Printf ''%c'' [Num (scast c)]) (hellos k))"

lemma read_hello:
  assumes "sd_card C byte" and "unat ix < 16" and "reading C S0 ix n k bS" and "k < 10"
  shows "\<exists>bS'. (case bS of (buff, S) \<Rightarrow> do {
         (buff, S) \<leftarrow> with_files (\<lambda>s. do { (r, b, s) \<leftarrow> sys_fread C ix buff 13 s; Some (b, s) }) S;
         Some (buff, fold (\<lambda>j. putc (buff ! j)) [0..<13] S)
       }) = Some bS' \<and> reading C S0 ix n (Suc k) bS'"
proof -
  obtain buff S where bS: "bS = (buff, S)" by (cases bS)
  note r = assms(3)[unfolded reading_def bS, simplified] and w = assms(3)[unfolded reading_def bS written_def, simplified]
  let ?s = "(files S)\<lparr>fs_log := []\<rparr>" and ?pos = "word_of_nat (13 * k) :: u32"
  have u: "unat ?pos = 13 * k" using small_pos[of k] assms(4) by simp
  have "get_bytes (sector C (files S) n) (13 * k) 13 = take 13 (drop (13 * k) (take 130 (sector C (files S) n)))"
    using assms(4) by (simp add: get_bytes_def drop_take)
  then have gb: "get_bytes (sector C (files S) n) (13 * k) 13 = hello" using w hellos_slice[OF assms(4)] by simp
  let ?b = "hello @ drop 13 buff" and ?S = "S\<lparr>files := ?s\<lparr>fd := (fd ?s)[unat ix := (word_of_nat n, ?pos + 13)]\<rparr>\<rparr>"
  have rd: "sys_fread C ix buff 13 ?s = Some (13, ?b, ?s\<lparr>fd := (fd ?s)[unat ix := (word_of_nat n, ?pos + 13)]\<rparr>)"
    using sd_card.sys_fread_ok[OF assms(1), of ix ?s n ?pos 13 buff] w assms(2,4) u gb by simp
  have "fold (\<lambda>j. putc (?b ! j)) [0..<13] ?S = fold (\<lambda>j. putc (hello ! j)) [0..<length hello] ?S"
    by (rule fold_cong) (simp_all add: nth_append)
  then have pr: "fold (\<lambda>j. putc (?b ! j)) [0..<13] ?S = ?S\<lparr>out := out S @ map (\<lambda>c. Printf ''%c'' [Num (scast c)]) hello\<rparr>"
    unfolding putcs by simp
  have "?pos + 13 = word_of_nat (13 * Suc k)" by simp
  then have "reading C S0 ix n (Suc k) (?b, ?S\<lparr>out := out S @ map (\<lambda>c. Printf ''%c'' [Num (scast c)]) hello\<rparr>)"
    using w assms(2) by (simp add: reading_def written_def hellos_Suc)
  then show ?thesis using rd pr by (simp add: bS with_files_def del: upt_Suc upt_rec_numeral)
qed

lemma read_hellos:
  assumes "sd_card C byte" and "unat ix < 16" and "reading C S0 ix n 0 bS"
  shows "\<exists>bS'. for_each (\<lambda>i (buff, S). do {
         (buff, S) \<leftarrow> with_files (\<lambda>s. do { (r, b, s) \<leftarrow> sys_fread C ix buff 13 s; Some (b, s) }) S;
         Some (buff, fold (\<lambda>j. putc (buff ! j)) [0..<13] S)
       }) [0..<10] bS = Some bS' \<and> reading C S0 ix n 10 bS'"
  by (rule for_each_upt) (use assms(3) read_hello[OF assms(1,2)] in simp_all)

lemma open_existing:
  assumes "sd_card C byte" and "length (fd (files S)) = 16" and "unat (fd_index (files S)) < 16"
    and "ino_of (shell_path_inode (files S)) = word_of_nat d" and "dir_ok (sector C (files S) d)"
    and "is_string name" and "dlookup (dir_at C (files S) d) (\<lambda>m. m = mode_file) (c_string name) = Some i"
    and "dir_at C (files S) d ! i = Some (nm, m, word_of_nat n)"
  shows "\<exists>S'. with_files (sys_fopen C J name access) S = Some (fd_index (files S), S') \<and> writing C S (fd_index (files S)) n 0 S'"
proof -
  let ?s = "(files S)\<lparr>fs_log := []\<rparr>" and ?ix = "fd_index (files S)"
  have i: "i < 16" using dlookup_Some[OF assms(7)] by simp
  have ino: "d_ino (sector C (files S) d) i = word_of_nat n" by (rule sd_card.entry_ino[OF assms(1,5) i assms(8)])
  have "sys_fopen C J name access ?s = Some (?ix, ?s\<lparr>fd := (fd ?s)[unat ?ix := (word_of_nat n, 0)], fd_index := ?ix + 1\<rparr>)"
    using sd_card.fopen_found_eq[OF assms(1), of ?s d name] assms(2-7) ino by (simp add: sys_fopen_def)
  then show ?thesis using assms(2,3) by (simp add: with_files_def writing_def hellos_def)
qed

lemma hellos_no_zero: "0 \<notin> set (hellos k)"
  by (auto simp: hellos_def hello_def chars_def)

lemma c_string_take: "take m b = cs \<Longrightarrow> 0 \<notin> set cs \<Longrightarrow> length cs = m \<Longrightarrow> m < length b \<Longrightarrow> b ! m = 0 \<Longrightarrow> c_string b = cs"
  by (metis c_string_append id_take_nth_drop)

text \<open>
  C40: The file test, with the file there and a free descriptor: it returns, prints its ten lines
  read back from the file character by character, leaves exactly these lines in the file and
  touches no other block.
\<close>

theorem test_fs_prints:
  assumes "sd_card (sdc E) byte" and "length (fd (files S)) = 16" and "unat (fd_index (files S)) < 16"
    and "ino_of (shell_path_inode (files S)) = word_of_nat d" and "dir_ok (sector (sdc E) (files S) d)"
    and "dlookup (dir_at (sdc E) (files S) d) (\<lambda>m. m = mode_file) (chars ''1.txt'') = Some i"
    and "dir_at (sdc E) (files S) d ! i = Some (nm, m, word_of_nat n)" and "n < 0xfe000"
    and "length buff = 64" and "exit (kernel S) = Some k"
  shows "\<exists>buff' S'. test_fs E buff S = Some (buff', S') \<and> kernel S' = k \<and>
    out S' = out S @ map (\<lambda>c. Printf ''%c'' [Num (scast c)]) (concat (replicate 10 hello)) \<and>
    c_string (sector (sdc E) (files S') n) = concat (replicate 10 hello) \<and>
    (\<forall>b < num_sectors. b \<noteq> n \<longrightarrow> sector (sdc E) (files S') b = sector (sdc E) (files S) b)"
proof -
  let ?C = "sdc E" and ?ix = "fd_index (files S)"
  have nm: "is_string (literal (chars ''1.txt''))" "c_string (literal (chars ''1.txt'')) = chars ''1.txt''"
    by (simp_all add: chars_def)
  obtain S1 where S1: "with_files (sys_fopen ?C (junk E) (literal (chars ''1.txt'')) O_RDWR) S = Some (?ix, S1)" "writing ?C S ?ix n 0 S1"
    using open_existing[OF assms(1-5) nm(1)] assms(6,7) nm(2) by metis
  obtain S2 where S2: "for_each (\<lambda>i S. do { (r, S) \<leftarrow> with_files (sys_fwrite ?C ?ix (hello @ [0]) 13) S; Some S }) [0..<10] S1 = Some S2"
    "writing ?C S ?ix n 10 S2"
    using write_hellos[OF assms(1,3,8) S1(2)] by blast
  have w2: "written ?C S ?ix n 130 S2" "out S2 = out S" using S2(2) by (simp_all add: writing_def written_def)
  obtain S3 where S3: "with_files (sys_fwrite ?C ?ix [0] 1) S2 = Some (1, S3)" "written ?C S ?ix n 131 S3" "out S3 = out S2"
    "fs_log (files S3) = []"
    by (rule zero_behind[OF assms(1,3,8) w2(1)])
  define S4 where "S4 = S3\<lparr>files := (files S3)\<lparr>fd := (fd (files S3))[unat ?ix := (word_of_nat n, 0)]\<rparr>\<rparr>"
  have S4: "on_files (sys_fseek ?ix 0) S3 = Some S4"
    using S3(2,4) assms(3) by (simp add: on_files_def sys_fseek_def S4_def written_def)
  have r4: "reading ?C S ?ix n 0 (buff, S4)"
    using S3(2,3) w2(2) assms(3,9) by (simp add: reading_def written_def S4_def hellos_def)
  obtain buff5 S5 where S5: "for_each (\<lambda>i (buff, S). do {
         (buff, S) \<leftarrow> with_files (\<lambda>s. do { (r, b, s) \<leftarrow> sys_fread ?C ?ix buff 13 s; Some (b, s) }) S;
         Some (buff, fold (\<lambda>j. putc (buff ! j)) [0..<13] S)
       }) [0..<10] (buff, S4) = Some (buff5, S5)" "reading ?C S ?ix n 10 (buff5, S5)"
    using read_hellos[OF assms(1,3) r4] by fast
  then have r5: "written ?C S ?ix n 130 S5" "out S5 = out S @ map (\<lambda>c. Printf ''%c'' [Num (scast c)]) (hellos 10)"
    by (simp_all add: reading_def)
  obtain S6 where S6: "sys_fwrite ?C ?ix [0] 1 ((files S5)\<lparr>fs_log := []\<rparr>) = Some (1, files S6)"
    "written ?C S ?ix n 131 S6" "out S6 = out S5" "fs_log (files S6) = []" "sector ?C (files S6) n ! 130 = 0"
    by (rule zero_behind[OF assms(1,3,8) r5(1)])
  define S7 where "S7 = S5\<lparr>files := (files S6)\<lparr>fd := (fd (files S6))[unat ?ix := (word_of_nat n, 0)]\<rparr>\<rparr>"
  have S7: "on_files (sys_fclose ?C ?ix) S5 = Some S7"
    using S6 by (simp add: on_files_def sys_fclose_def S7_def written_def)
  have ex: "sys_exit S7 = Some (S7\<lparr>kernel := k\<rparr>)"
    using r5(1) assms(10) by (simp add: sys_exit_def S7_def written_def)
  have "c_string (sector ?C (files S6) n) = hellos 10"
    by (rule c_string_take[of 130]) (use S6(2,5) hellos_no_zero in \<open>simp_all add: written_def sd_card.sector_length[OF assms(1)]\<close>)
  moreover have "test_fs E buff S = Some (buff5, S7\<lparr>kernel := k\<rparr>)"
    unfolding test_fs_def using S1(1) S2(1) S3(1) S4 S5(1) S7 ex by simp
  ultimately show ?thesis
    using r5(2) S6(2) by (intro exI[of _ buff5] exI[of _ "S7\<lparr>kernel := k\<rparr>"]) (simp add: S7_def written_def hellos_def[symmetric])
qed

theorem test_fs_prints_witness:
  "\<exists>S S' buff'. test_fs sample_env (replicate 64 0) S = Some (buff', S') \<and>
     out S' = map (\<lambda>c. Printf ''%c'' [Num (scast c)]) (concat (replicate 10 hello))"
proof -
  let ?nm = "literal (chars ''1.txt'')"
  have nm: "is_string ?nm" "c_string ?nm = chars ''1.txt''" "length (c_string ?nm) < 24"
    by (simp_all add: chars_def)
  obtain s0 where s0: "fs_wf s0" "tree_ok ram_card s0 {0}" "ino_of (shell_path_inode s0) = word_of_nat 0"
    "dir_at ram_card s0 0 = empty_dir 0 0" "\<not> map_bit (inode_map s0) 1"
    using sample_root by blast
  obtain s1 n where t: "entry_created ram_card mode_file (c_string ?nm) 0 2 n s0 s1" "n \<notin> {0}"
    by (rule ram.touch_file_ok[OF sample_locals_ok s0(1,2) _ s0(3) nm(1,3), of 2])
      (use s0(4,5) empty_dir_free in \<open>auto intro!: exI[of _ 1]\<close>)
  have rec: "s1 = s0\<lparr>card := card s1, inode_map := inode_map s1\<rparr>" using t(1) by (simp add: entry_created_def)
  have sp: "shell_path_inode s1 = shell_path_inode s0" by (subst rec) simp
  define s where "s = s1\<lparr>fd := replicate 16 (0, 0), fd_index := 0\<rparr>"
  have s: "dir_ok (sector ram_card s 0)" "dir_at ram_card s 0 = (empty_dir 0 0)[2 := Some (chars ''1.txt'', mode_file, word_of_nat n)]"
    "n < 0x8000" "ino_of (shell_path_inode s) = word_of_nat 0"
    using t(1) sp s0(3,4) nm(2) by (simp_all add: entry_created_def s_def dir_at_def)
  have "dlookup (empty_dir 0 0) (\<lambda>m. m = mode_file) (chars ''1.txt'') = None"
    unfolding dlookup_None_iff using empty_dir_entry(2)[of _ 0 0 "chars ''1.txt''"] by (fastforce simp: chars_def)
  then have lk: "dlookup (dir_at ram_card s 0) (\<lambda>m. m = mode_file) (chars ''1.txt'') = Some 2"
    unfolding s(2) by (rule dlookup_new) (simp_all add: empty_dir_def)
  obtain k where k: "exit sampleF = Some k" using sample_exits by blast
  let ?S = "sample_shell\<lparr>files := s, kernel := sampleF\<rparr>"
  have "\<exists>buff' S'. test_fs sample_env (replicate 64 0) ?S = Some (buff', S') \<and> kernel S' = k \<and>
    out S' = out ?S @ map (\<lambda>c. Printf ''%c'' [Num (scast c)]) (concat (replicate 10 hello)) \<and>
    c_string (sector (sdc sample_env) (files S') n) = concat (replicate 10 hello) \<and>
    (\<forall>b < num_sectors. b \<noteq> n \<longrightarrow> sector (sdc sample_env) (files S') b = sector (sdc sample_env) (files ?S) b)"
    by (rule test_fs_prints[where d = 0 and i = 2 and nm = "chars ''1.txt''" and m = mode_file])
      (use s lk k ram.sd_card_axioms in \<open>simp_all add: sample_env_def s_def empty_dir_def\<close>)
  then show ?thesis by (auto simp: sample_shell_def)
qed

end
