(* ===== verification/Exiting.thy ===== *)
theory Exiting
  imports Mutex
begin

text \<open>
  The end of a process (\<open>exit\<close> of \<^verbatim>\<open>kernel/sched/proc.c\<close>, the case \<open>TASK_EXITED\<close> of \<open>scheduler\<close>):
  the loop that gives back the locks that the process still holds, together with the invariant of
  the locks, and what the exit leaves behind.
\<close>

section \<open>Waking\<close>

text \<open>What the exit of the running process leaves alone while it wakes others.\<close>

definition roused :: "kstate \<Rightarrow> queues \<Rightarrow> kstate \<Rightarrow> bool" where
  "roused s Q s' \<longleftrightarrow>
     pcb s' = pcb s \<and> ready_queue s' = ready_queue s \<and> current_running s' = current_running s \<and>
     time_elapsed s' = time_elapsed s \<and>
     (\<forall>x \<in> pcbs (pcb s). (get s' x STATUS = get s x STATUS \<or> x \<in> queued Q \<and> get s' x STATUS = TASK_READY) \<and>
       get s' x SLEEP_END = get s x SLEEP_END)"

lemma roused_refl: "roused s Q s"
  by (simp add: roused_def)

lemma roused_trans: "roused s Q t \<Longrightarrow> roused t R u \<Longrightarrow> queued R \<subseteq> queued Q \<Longrightarrow> roused s Q u"
  unfolding roused_def by (smt (verit, best) subset_iff)

lemma roused_ready:
  assumes "roused s Q s'" and "x \<in> pcbs (pcb s)" and "get s x STATUS = TASK_READY"
  shows "get s' x STATUS = TASK_READY"
  using assms by (auto simp: roused_def)

lemma roused_runnable:
  assumes "roused s Q s'" and "x \<in> pcbs (pcb s)" and "runnable s x"
  shows "runnable s' x"
  using assms by (auto simp: roused_def runnable_def get_timer_def)

text \<open>Waking a whole queue, with the queues written out.\<close>

definition emptied :: "u32 \<Rightarrow> u32 \<Rightarrow> queues \<Rightarrow> queues" where
  "emptied r q Q = Q(q \<mapsto> [], r \<mapsto> the (Q r) @ the (Q q))"

lemma wake_all:
  assumes inv: "sched_inv s Q" and q: "q \<in> dom Q" "q \<noteq> ready_queue s"
  obtains m where "do_unblock_all q s = Some (s\<lparr>kmem := m\<rparr>)" and "sched_inv (s\<lparr>kmem := m\<rparr>) (emptied (ready_queue s) q Q)"
    and "unswitched s Q (s\<lparr>kmem := m\<rparr>)" and "roused s Q (s\<lparr>kmem := m\<rparr>)"
    and "\<forall>x \<in> set (the (Q q)). m (cell x STATUS) = TASK_READY"
    and "dom (emptied (ready_queue s) q Q) = dom Q" and "queued (emptied (ready_queue s) q Q) \<subseteq> queued Q"
proof -
  obtain xs rs where xs: "Q q = Some xs" and rs: "Q (ready_queue s) = Some rs"
    using q inv by (auto simp: leave_facts)
  have ok: "queues_ok (pcb s) (kmem s) Q" using inv by (simp add: leave_facts)
  from do_unblock_all_family[OF ok xs rs q(2)] obtain m Q1 where
    m: "do_unblock_all q s = Some (s\<lparr>kmem := m\<rparr>)" "queues_ok (pcb s) m Q1" "Q1 = Q(q \<mapsto> [], ready_queue s \<mapsto> rs @ xs)"
      "woke (pcb s) (dom Q) (set xs) (kmem s) m" by blast
  have "Q q = Some (xs @ [])" using xs by simp
  note w = woke_inv[OF inv this q(2) rs m(3,2,4)]
  have Q1: "Q1 = emptied (ready_queue s) q Q" using m(3) xs rs by (simp add: emptied_def)
  have sub: "queued Q1 \<subseteq> queued Q" using xs rs by (fastforce simp: queued_iff m(3) split: if_splits)
  have xp: "set xs \<subseteq> pcbs (pcb s)" using queues_okD(2)[OF ok xs] .
  have "roused s Q (s\<lparr>kmem := m\<rparr>)"
    unfolding roused_def
  proof (intro conjI ballI)
    fix x assume x: "x \<in> pcbs (pcb s)"
    show "get (s\<lparr>kmem := m\<rparr>) x STATUS = get s x STATUS \<or> x \<in> queued Q \<and> get (s\<lparr>kmem := m\<rparr>) x STATUS = TASK_READY"
    proof (cases "x \<in> set xs")
      case True
      then show ?thesis using m(4) queuedI[of Q q xs x] xs by (simp add: woke_def)
    next
      case False
      then show ?thesis using woke_get[OF m(4) ok x xp, of STATUS] by simp
    qed
    show "get (s\<lparr>kmem := m\<rparr>) x SLEEP_END = get s x SLEEP_END"
      using woke_get[OF m(4) ok x xp, of SLEEP_END] by simp
  qed simp_all
  then show thesis using m(1,4) w sub xs by (intro that[of m]) (simp_all add: Q1[symmetric] woke_def)
qed

section \<open>Giving back the locks\<close>

text \<open>The oldest lock of the list is given back.\<close>

lemma give_back_first:
  assumes inv: "sched_inv s Q" and L: "locks_ok s (dom Q) L" and H: "holds_ok s L H"
    and c: "c = current_running s" and Hc: "H c = l # ls"
  defines "t \<equiv> s\<lparr>kmem := (snd (queue_dequeue (kmem s) (holding c)))(l + lock_status := UNLOCKED)\<rparr>"
  shows "sched_inv t Q" and "holds_ok t L (H(c := ls))" and "roused s Q t" and "l \<in> L"
    and "release_holding s = do_unblock_all (l + lock_block_queue) t \<bind> release_holding"
proof -
  let ?b = "pcb s" and ?q = "holding c"
  let ?d = "snd (queue_dequeue (kmem s) ?q)"
  let ?m = "?d(l + lock_status := UNLOCKED)"
  have cb: "c \<in> pcbs ?b" using inv c by (simp add: leave_facts)
  have rep: "queue_rep (kmem s) ?q (l # ls)" and sub: "set (l # ls) \<subseteq> L" using holdsD[OF H cb] Hc by simp_all
  show lL: "l \<in> L" using sub by simp
  have nl: "l \<notin> set ls" "l \<noteq> NULL" using rep by (simp_all add: queue_rep_def)
  have deq: "fst (queue_dequeue (kmem s) ?q) = l" "queue_rep ?d ?q ls"
    using queue_dequeue_rep[OF rep holding_sep[OF L cb sub]] by simp_all
  have "l + lock_status \<notin> queue_cells ?q (set ls)" using status_not_holding[OF L lL cb] sub by simp
  then have r: "queue_rep ?m ?q ls" by (rule queue_rep_upd[OF deq(2)])
  have nobody: "l \<notin> set (H p)" if "p \<in> pcbs ?b" "p \<noteq> c" for p
    using H cb Hc that unfolding holds_ok_def by fastforce
  have fr: "?m a = kmem s a" if "a \<notin> queue_cells ?q (insert l (set (H c)))" "a \<noteq> l + lock_status" for a
    using that queue_dequeue_frame[OF rep, of a] by (simp add: Hc insert_absorb)
  have p: "set ls - {l} = set (H c) - {l}" "?m (l + lock_status) = (if l \<in> set ls then LOCKED else UNLOCKED)"
    using Hc nl by auto
  show "sched_inv t Q" "holds_ok t L (H(c := ls))"
    unfolding t_def by (rule lock_change[where m = ?m, OF inv L H lL c nobody r p fr]; simp)+
  have cells: "?m (cell x f) = get s x f" if "x \<in> pcbs ?b" "f \<in> {STATUS, SLEEP_END}" for x f
  proof (rule fr)
    have fo: "field_ok f" using that(2) by auto
    show "cell x f \<noteq> l + lock_status" using lock_word_cell[OF L lL _ that(1) fo] by (simp add: lock_words_def)
    have "cell x f \<noteq> k + pcb_prev \<and> cell x f \<noteq> k + pcb_next" if "k \<in> L" for k
      using lock_word_cell[OF L that _ \<open>x \<in> pcbs ?b\<close> fo] by (simp add: lock_words_def)
    moreover have "cell x f \<noteq> cell c HOLDING_HEAD" "cell x f \<noteq> cell c HOLDING_TAIL"
      using cell_inj[OF that(1) cb, of f HOLDING_HEAD] cell_inj[OF that(1) cb, of f HOLDING_TAIL] that(2) by auto
    ultimately show "cell x f \<notin> queue_cells ?q (insert l (set (H c)))"
      using sub by (auto simp: holding_cells Hc)
  qed
  show "roused s Q t" using cells unfolding roused_def t_def by simp
  have "queue_has ?d ?q l = Some False" using queue_has_fwd[OF queue_rep_fwd[OF deq(2)] nl(2)] nl(1) by simp
  then have "do_mutex_lock_release l (s\<lparr>kmem := ?d\<rparr>) = do_unblock_all (l + lock_block_queue) t"
    by (simp add: do_mutex_lock_release_def c t_def)
  moreover have "\<not> queue_is_empty (kmem s) ?q" using queue_is_empty_rep[OF rep] by simp
  ultimately show "release_holding s = do_unblock_all (l + lock_block_queue) t \<bind> release_holding"
    using deq(1) by (subst release_holding.simps) (simp add: c[symmetric])
qed

lemma release_all:
  assumes "sched_inv s Q" and "locks_ok s (dom Q) L" and "holds_ok s L H" and "c = current_running s"
  shows "\<exists>s' Q'. release_holding s = Some s' \<and> sched_inv s' Q' \<and> dom Q' = dom Q \<and> queued Q' \<subseteq> queued Q \<and>
    holds_ok s' L (H(c := [])) \<and> roused s Q s' \<and> set (the (Q (ready_queue s))) \<subseteq> set (the (Q' (ready_queue s))) \<and>
    (\<forall>l \<in> set (H c). \<forall>x \<in> set (the (Q (l + lock_block_queue))).
      get s' x STATUS = TASK_READY \<and> x \<in> set (the (Q' (ready_queue s)))) \<and>
    (\<forall>q. q \<noteq> ready_queue s \<longrightarrow> q \<notin> (\<lambda>l. l + lock_block_queue) ` set (H c) \<longrightarrow> Q' q = Q q)"
  using assms
proof (induction "H c" arbitrary: s Q H)
  case Nil
  have cb: "c \<in> pcbs (pcb s)" using Nil.prems by (simp add: leave_facts)
  have "queue_is_empty (kmem s) (holding c)"
    using queue_is_empty_rep[OF holdsD(1)[OF Nil.prems(3) cb]] Nil.hyps by simp
  then have "release_holding s = Some s" using Nil.prems(4) by (subst release_holding.simps) simp
  moreover have "H(c := []) = H" using Nil.hyps by (metis fun_upd_triv)
  ultimately show ?case using Nil.prems Nil.hyps roused_refl by (intro exI[of _ s] exI[of _ Q]) simp
next
  case (Cons l ls)
  let ?r = "ready_queue s" and ?w = "l + lock_block_queue"
  define t where "t = s\<lparr>kmem := (snd (queue_dequeue (kmem s) (holding c)))(l + lock_status := UNLOCKED)\<rparr>"
  note g = give_back_first[OF Cons.prems Cons.hyps(2)[symmetric], folded t_def]
  have tt: "ready_queue t = ?r" "pcb t = pcb s" "current_running t = c" using Cons.prems(4) by (simp_all add: t_def)
  have q: "?w \<in> dom Q" "?w \<noteq> ready_queue t" using Cons.prems(2) g(4) tt by (auto simp: locks_ok_def sync_queue_def)
  obtain m where m: "do_unblock_all ?w t = Some (t\<lparr>kmem := m\<rparr>)" "sched_inv (t\<lparr>kmem := m\<rparr>) (emptied ?r ?w Q)"
    "unswitched t Q (t\<lparr>kmem := m\<rparr>)" "roused t Q (t\<lparr>kmem := m\<rparr>)" "\<forall>x \<in> set (the (Q ?w)). m (cell x STATUS) = TASK_READY"
    "dom (emptied ?r ?w Q) = dom Q" "queued (emptied ?r ?w Q) \<subseteq> queued Q"
    by (rule wake_all[OF g(1) q, unfolded tt]) blast
  define u where "u = t\<lparr>kmem := m\<rparr>"
  define R where "R = emptied ?r ?w Q"
  have uu: "ready_queue u = ?r" "pcb u = pcb s" "c = current_running u" by (simp_all add: u_def tt)
  have Lt: "locks_ok t (dom Q) L" by (rule locks_cong[OF Cons.prems(2)]) (use tt in simp_all)
  have Lu: "locks_ok u (dom R) L" using locks_cong[OF Lt, of u] m(6) by (simp add: u_def R_def)
  have Hu: "holds_ok u L (H(c := ls))" using holds_unswitched[OF g(2) Lt _ m(3)] by (simp add: u_def)
  have su: "roused s Q u" using roused_trans[OF g(3) m(4)] by (simp add: u_def)
  obtain s' Q' where s': "release_holding u = Some s'" "sched_inv s' Q'" "dom Q' = dom R" "queued Q' \<subseteq> queued R"
    "holds_ok s' L ((H(c := ls))(c := []))" "roused u R s'" "set (the (R ?r)) \<subseteq> set (the (Q' ?r))"
    "\<forall>k \<in> set ls. \<forall>x \<in> set (the (R (k + lock_block_queue))). get s' x STATUS = TASK_READY \<and> x \<in> set (the (Q' ?r))"
    "\<forall>q. q \<noteq> ?r \<longrightarrow> q \<notin> (\<lambda>l. l + lock_block_queue) ` set ls \<longrightarrow> Q' q = R q"
    using Cons.hyps(1)[of "H(c := ls)" u R] m(2) Lu Hu uu by (auto simp: u_def R_def)
  have ok: "queues_ok (pcb s) (kmem s) Q" and cb: "c \<in> pcbs (pcb s)" using Cons.prems(1,4) by (simp_all add: leave_facts)
  have sub: "set (l # ls) \<subseteq> L" using holdsD(2)[OF Cons.prems(3) cb] Cons.hyps(2) by simp
  have Rr: "set (the (Q ?r)) \<subseteq> set (the (R ?r))" "set (the (Q ?w)) \<subseteq> set (the (R ?r))"
    using q tt by (simp_all add: R_def emptied_def)
  have first: "get s' x STATUS = TASK_READY \<and> x \<in> set (the (Q' ?r))" if x: "x \<in> set (the (Q ?w))" for x
  proof -
    have "x \<in> pcbs (pcb s)" using queues_okD(2)[OF ok, of ?w "the (Q ?w)"] q x by auto
    moreover have "get u x STATUS = TASK_READY" using m(5) x by (simp add: u_def)
    ultimately show ?thesis using roused_ready[OF s'(6)] uu Rr(2) s'(7) x by auto
  qed
  have later: "get s' x STATUS = TASK_READY \<and> x \<in> set (the (Q' ?r))"
    if k: "k \<in> set ls" "x \<in> set (the (Q (k + lock_block_queue)))" for k x
  proof (cases "k + lock_block_queue = ?w")
    case True
    then show ?thesis using first k(2) by simp
  next
    case False
    have "k \<in> L" using sub k(1) by auto
    then have "k + lock_block_queue \<noteq> ?r" using Cons.prems(2) by (auto simp: locks_ok_def sync_queue_def)
    then have "R (k + lock_block_queue) = Q (k + lock_block_queue)" using False by (simp add: R_def emptied_def)
    then show ?thesis using s'(8) k by auto
  qed
  have "release_holding s = Some s'" using g(5) m(1) s'(1) by (simp add: u_def)
  moreover have "roused s Q s'" using roused_trans[OF su s'(6)] m(7) by (simp add: R_def)
  moreover have "Q' q = Q q" if "q \<noteq> ?r" "q \<notin> (\<lambda>l. l + lock_block_queue) ` set (l # ls)" for q
    using s'(9) that by (simp add: R_def emptied_def)
  ultimately show ?case
    using s'(2-5,7) m(6,7) Rr(1) first later Cons.hyps(2)[symmetric]
    by (intro exI[of _ s'] exI[of _ Q']) (auto simp: R_def)
qed

section \<open>The exit\<close>

text \<open>Marking the running process exited.\<close>

lemma mark_exited:
  assumes inv: "sched_inv s Q" and L: "locks_ok s (dom Q) L" and H: "holds_ok s L H" and c: "c = current_running s"
  defines "t \<equiv> put c STATUS TASK_EXITED s"
  shows "sched_inv t Q" and "locks_ok t (dom Q) L" and "holds_ok t L H" and "get t c STATUS = TASK_EXITED"
    and "\<And>x. x \<in> pcbs (pcb s) \<Longrightarrow> x \<noteq> c \<Longrightarrow> runnable t x = runnable s x"
proof -
  have cb: "c \<in> pcbs (pcb s)" and cf: "c \<notin> queued Q" using inv c by (simp_all add: leave_facts)
  have ne: "cell x f \<noteq> cell c STATUS" if "x \<in> pcbs (pcb s)" "field_ok f" "x \<noteq> c \<or> f \<noteq> STATUS" for x f
    using that cell_inj[OF that(1) cb that(2), of STATUS] by auto
  show "sched_inv t Q" unfolding t_def by (rule put_status_inv[OF inv cb]) (use cf queuedI[of Q] in blast)+
  show "locks_ok t (dom Q) L" by (rule locks_cong[OF L]) (simp_all add: t_def)
  show "holds_ok t L H"
  proof (rule holds_frame[OF H L])
    show "kmem t a = kmem s a" if "l \<in> L" "a \<in> lock_words l" for l a
      using lock_word_cell[OF L that cb, of STATUS] by (auto simp: t_def put_def)
  qed (use ne in \<open>simp_all add: t_def\<close>)
  show "get t c STATUS = TASK_EXITED" by (simp add: t_def)
  show "runnable t x = runnable s x" if "x \<in> pcbs (pcb s)" "x \<noteq> c" for x
    using ne[OF that(1)] that(2) by (intro runnable_cong) (simp_all add: t_def)
qed

text \<open>The processes that the exit of \<open>c\<close> wakes: those that wait for its end and those that wait for
  a lock that it holds.\<close>

definition woken_by_exit :: "queues \<Rightarrow> (u32 \<Rightarrow> u32 list) \<Rightarrow> u32 \<Rightarrow> u32 set" where
  "woken_by_exit Q H c = set (waiters Q c) \<union> (\<Union>l \<in> set (H c). set (the (Q (l + lock_block_queue))))"

text \<open>The first half of the scheduler for a process that exits.\<close>

lemma exit_leaves:
  assumes inv: "sched_inv s Q" and L: "locks_ok s (dom Q) L" and H: "holds_ok s L H" and c: "c = current_running s"
  obtains s1 Q1 where "sched_leave arg1 TASK_EXITED s = Some s1" and "sched_inv s1 Q1" and "dom Q1 = dom Q"
    and "queued Q1 \<subseteq> queued Q" and "holds_ok s1 L (H(c := []))" and "current_running s1 = c" and "pcb s1 = pcb s"
    and "ready_queue s1 = ready_queue s" and "get s1 c STATUS = TASK_EXITED" and "waiters Q1 c = []"
    and "\<And>x. x \<in> set (the (Q (ready_queue s))) \<Longrightarrow> runnable s x \<Longrightarrow> x \<in> set (the (Q1 (ready_queue s))) \<and> runnable s1 x"
    and "\<And>x. x \<in> woken_by_exit Q H c \<Longrightarrow>
      x \<in> pcbs (pcb s) \<and> x \<in> set (the (Q1 (ready_queue s))) \<and> get s1 x STATUS = TASK_READY"
proof -
  let ?r = "ready_queue s" and ?w = "waiting c"
  define t where "t = put c STATUS TASK_EXITED s"
  note t = mark_exited[OF assms, folded t_def]
  have tt: "pcb t = pcb s" "ready_queue t = ?r" "current_running t = c" by (simp_all add: t_def c)
  have k: "kernel_ok s Q" and cb: "c \<in> pcbs (pcb s)" and cf: "c \<notin> queued Q" and ok: "queues_ok (pcb s) (kmem s) Q"
    using inv c by (simp_all add: leave_facts)
  note w = waiters_ready(2,3)[OF k cb]
  have q: "?w \<in> dom Q" "?w \<noteq> ready_queue t" using w tt by auto
  obtain m where m: "do_unblock_all ?w t = Some (t\<lparr>kmem := m\<rparr>)" "sched_inv (t\<lparr>kmem := m\<rparr>) (emptied ?r ?w Q)"
    "unswitched t Q (t\<lparr>kmem := m\<rparr>)" "roused t Q (t\<lparr>kmem := m\<rparr>)" "\<forall>x \<in> set (the (Q ?w)). m (cell x STATUS) = TASK_READY"
    "dom (emptied ?r ?w Q) = dom Q" "queued (emptied ?r ?w Q) \<subseteq> queued Q"
    by (rule wake_all[OF t(1) q, unfolded tt]) blast
  define u where "u = t\<lparr>kmem := m\<rparr>"
  define R where "R = emptied ?r ?w Q"
  have uu: "ready_queue u = ?r" "pcb u = pcb s" "c = current_running u" by (simp_all add: u_def tt)
  have Lu: "locks_ok u (dom R) L" using locks_cong[OF t(2), of u] m(6) by (simp add: u_def R_def)
  have Hu: "holds_ok u L H" using holds_unswitched[OF t(3,2) _ m(3)] by (simp add: u_def)
  have iu: "sched_inv u R" using m(2) by (simp add: u_def R_def)
  obtain s1 Q1 where s1: "release_holding u = Some s1" "sched_inv s1 Q1" "dom Q1 = dom R" "queued Q1 \<subseteq> queued R"
    "holds_ok s1 L (H(c := []))" "roused u R s1" "set (the (R ?r)) \<subseteq> set (the (Q1 ?r))"
    "\<forall>l \<in> set (H c). \<forall>x \<in> set (the (R (l + lock_block_queue))). get s1 x STATUS = TASK_READY \<and> x \<in> set (the (Q1 ?r))"
    "\<forall>q. q \<noteq> ?r \<longrightarrow> q \<notin> (\<lambda>l. l + lock_block_queue) ` set (H c) \<longrightarrow> Q1 q = R q"
    using release_all[OF iu Lu Hu uu(3)] uu(1) by auto
  have ts: "roused t Q s1" using roused_trans[OF m(4)[folded u_def] s1(6)] m(7) by (simp add: R_def)
  then have same: "current_running s1 = c" "pcb s1 = pcb s" "ready_queue s1 = ?r" by (simp_all add: roused_def tt)
  have lq: "l + lock_block_queue \<noteq> ?w \<and> l + lock_block_queue \<noteq> ?r \<and> l + lock_block_queue \<in> dom Q" if "l \<in> set (H c)" for l
    using L holdsD(2)[OF H cb] that cb unfolding locks_ok_def sync_queue_def by blast
  have rR: "set (the (Q ?r)) \<union> set (waiters Q c) \<subseteq> set (the (R ?r))" using w by (auto simp: R_def emptied_def)
  show thesis
  proof (rule that[of s1 Q1])
    show "sched_leave arg1 TASK_EXITED s = Some s1"
      using m(1) s1(1) tt(3)
      by (simp add: sched_leave_def task_status_defs sched_exited_def t_def[unfolded task_status_defs, symmetric] c[symmetric] u_def)
    show "dom Q1 = dom Q" "queued Q1 \<subseteq> queued Q" using s1(3,4) m(6,7) by (auto simp: R_def)
    show "get s1 c STATUS = TASK_EXITED" using ts t(4) cb cf by (auto simp: roused_def tt)
    have "?w \<notin> (\<lambda>l. l + lock_block_queue) ` set (H c)" using lq by fastforce
    then show "waiters Q1 c = []" using s1(9) w(2) by (simp add: waiters_def R_def emptied_def)
    show "x \<in> set (the (Q1 ?r)) \<and> runnable s1 x" if x: "x \<in> set (the (Q ?r))" "runnable s x" for x
    proof -
      have qr: "Q ?r = Some (the (Q ?r))" using inv by (auto simp: leave_facts)
      have "x \<in> pcbs (pcb s)" using queues_okD(2)[OF ok qr] x(1) by auto
      moreover have "x \<noteq> c" using cf queuedI[of Q ?r "the (Q ?r)" x] qr x(1) by auto
      ultimately show ?thesis using roused_runnable[OF ts] t(5) x rR s1(7) by (auto simp: tt)
    qed
    show "x \<in> pcbs (pcb s) \<and> x \<in> set (the (Q1 ?r)) \<and> get s1 x STATUS = TASK_READY"
      if x: "x \<in> woken_by_exit Q H c" for x
    proof (cases "x \<in> set (waiters Q c)")
      case True
      have xp: "x \<in> pcbs (pcb s)" using queues_okD(2)[OF ok w(1)] True by auto
      moreover have "get u x STATUS = TASK_READY" using m(5) True w(1) by (simp add: u_def)
      ultimately show ?thesis using roused_ready[OF s1(6)] uu(2) rR s1(7) True by auto
    next
      case False
      then obtain l where l: "l \<in> set (H c)" "x \<in> set (the (Q (l + lock_block_queue)))" using x by (auto simp: woken_by_exit_def)
      have "Q (l + lock_block_queue) = Some (the (Q (l + lock_block_queue)))" using lq[OF l(1)] by auto
      then have "x \<in> pcbs (pcb s)" using queues_okD(2)[OF ok] l(2) by blast
      moreover have "R (l + lock_block_queue) = Q (l + lock_block_queue)" using lq[OF l(1)] by (simp add: R_def emptied_def)
      ultimately show ?thesis using s1(8) l by auto
    qed
  qed (use s1(2,5) same in simp_all)
qed

text \<open>The second half.\<close>

lemma exit_enters:
  assumes leave: "sched_leave arg1 TASK_EXITED s = Some s1" and inv: "sched_inv s1 Q1" and H: "holds_ok s1 L H"
    and L: "locks_ok s1 (dom Q1) L" and c: "c \<in> pcbs (pcb s1)" "c \<notin> queued Q1" "get s1 c STATUS = TASK_EXITED" "waiters Q1 c = []"
    and x: "x \<in> set (the (Q1 (ready_queue s1)))" "runnable s1 x"
  shows "\<exists>s' Q'. scheduler arg1 TASK_EXITED s = Some s' \<and> sched_inv s' Q' \<and> dom Q' = dom Q1 \<and> pcb s' = pcb s1 \<and>
    current_running s' \<noteq> c \<and> get s' c STATUS = TASK_EXITED \<and> c \<notin> queued Q' \<and> waiters Q' c = [] \<and> holds_ok s' L H \<and>
    (\<forall>y \<in> pcbs (pcb s1). get s1 y STATUS = TASK_READY \<longrightarrow> y = current_running s' \<or> get s' y STATUS = TASK_READY)"
proof -
  let ?rs = "the (Q1 (ready_queue s1))"
  have lv: "leaving_ok s1 Q1" and q: "Q1 (ready_queue s1) = Some ?rs" and k: "kernel_ok s1 Q1"
    and ok: "queues_ok (pcb s1) (kmem s1) Q1" using inv by (auto simp: leave_facts)
  have ex: "\<exists>x \<in> set ?rs. runnable s1 x" using x by blast
  obtain s' Q' where s': "scheduler arg1 TASK_EXITED s = Some s'" "sched_inv s' Q'" "dom Q' = dom Q1" "pcb s' = pcb s1"
    "get s' (current_running s') STATUS = TASK_RUNNING"
    and rdy: "\<And>x. x \<in> pcbs (pcb s1) \<Longrightarrow> x \<noteq> current_running s' \<Longrightarrow> get s1 x STATUS = TASK_READY \<Longrightarrow> get s' x STATUS = TASK_READY"
    and kept: "\<And>x f. x \<in> pcbs (pcb s1) \<Longrightarrow> kept_field f \<Longrightarrow> get s' x f = get s1 x f"
    and qs: "\<And>r. r \<noteq> ready_queue s1 \<Longrightarrow> r \<notin> waiting ` {x \<in> set ?rs. gone s1 x} \<Longrightarrow> Q' r = Q1 r"
    and sub: "queued Q' \<subseteq> queued Q1" and st: "\<And>x. x \<in> pcbs (pcb s1) \<Longrightarrow> x \<notin> queued Q1 \<Longrightarrow> get s' x STATUS = get s1 x STATUS"
    and fr: "\<And>a. outside (pcb s1) a \<Longrightarrow> a \<notin> family_cells (pcb s1) (dom Q1) \<Longrightarrow> kmem s' a = kmem s1 a"
    by (rule scheduler_inv[OF leave lv q ex]) (rule that; assumption)
  have ce: "get s' c STATUS = TASK_EXITED" using st[OF c(1,2)] c(3) by simp
  have ne: "current_running s' \<noteq> c" using ce s'(5) by (auto simp: task_status_defs)
  have "c \<notin> set ?rs" using c(2) queuedI[of Q1 "ready_queue s1" ?rs c] q by blast
  then have "waiting c \<notin> waiting ` {x \<in> set ?rs. gone s1 x}"
    using queues_okD(2)[OF ok q] waiting_inj[OF c(1)] by auto
  then have "Q' (waiting c) = Q1 (waiting c)" using qs waiters_ready(3)[OF k c(1)] by simp
  then have w: "waiters Q' c = []" using c(4) by (simp add: waiters_def)
  have hold: "holds_ok s' L H"
  proof (rule holds_frame[OF H L])
    show "kmem s' a = kmem s1 a" if "l \<in> L" "a \<in> lock_words l" for l a
      using fr L that by (simp add: locks_ok_def free_word_def)
  qed (use s'(4) kept in \<open>simp_all add: kept_field_def\<close>)
  have cq: "c \<notin> queued Q'" using sub c(2) by blast
  show ?thesis
    by (intro exI[of _ s'] exI[of _ Q'] conjI s'(1-4) ce ne w hold cq) (use rdy in blast)
qed

text \<open>
  C13: A process exits that holds any number of locks. If some process of the ready queue can run, or
  the exit wakes one, then the scheduler returns and has left the process for good: it is marked
  exited, in no queue, nobody waits for it any more (so \<open>spawn\<close> can use its block again), and its
  list of locks is empty; every lock it held is \<open>UNLOCKED\<close>, the lists of all other processes are as
  they were; every process that waited for its end or for one of its locks has been entered or is
  ready; and the invariants of the scheduler and of the locks hold again.
\<close>

theorem exit_releases_locks:
  assumes "sched_inv s Q" and "locks_ok s (dom Q) L" and "holds_ok s L H" and "c = current_running s"
    and "woken_by_exit Q H c \<noteq> {} \<or> (\<exists>x \<in> set (the (Q (ready_queue s))). runnable s x)"
  shows "\<exists>s' Q'. scheduler arg1 TASK_EXITED s = Some s' \<and> sched_inv s' Q' \<and> dom Q' = dom Q \<and>
    current_running s' \<noteq> c \<and> get s' c STATUS = TASK_EXITED \<and> c \<notin> queued Q' \<and> waiters Q' c = [] \<and>
    holds_ok s' L (H(c := [])) \<and> (\<forall>l \<in> set (H c). kmem s' (l + lock_status) = UNLOCKED) \<and>
    (\<forall>x \<in> woken_by_exit Q H c. x = current_running s' \<or> get s' x STATUS = TASK_READY)"
proof -
  let ?r = "ready_queue s"
  have cb: "c \<in> pcbs (pcb s)" and cf: "c \<notin> queued Q" using assms(1,4) by (simp_all add: leave_facts)
  obtain s1 Q1 where s1: "sched_leave arg1 TASK_EXITED s = Some s1" "sched_inv s1 Q1" "dom Q1 = dom Q"
    "queued Q1 \<subseteq> queued Q" "holds_ok s1 L (H(c := []))" "current_running s1 = c" "pcb s1 = pcb s"
    "ready_queue s1 = ?r" "get s1 c STATUS = TASK_EXITED" "waiters Q1 c = []"
    and run: "\<And>x. x \<in> set (the (Q ?r)) \<Longrightarrow> runnable s x \<Longrightarrow> x \<in> set (the (Q1 ?r)) \<and> runnable s1 x"
    and wk: "\<And>x. x \<in> woken_by_exit Q H c \<Longrightarrow> x \<in> pcbs (pcb s) \<and> x \<in> set (the (Q1 ?r)) \<and> get s1 x STATUS = TASK_READY"
    by (rule exit_leaves[OF assms(1-4), of arg1]) (rule that; assumption)
  have L: "locks_ok s1 (dom Q1) L" using locks_cong[OF assms(2) s1(7,8)] s1(3) by simp
  have cb1: "c \<in> pcbs (pcb s1)" using cb s1(7) by simp
  have cf1: "c \<notin> queued Q1" using cf s1(4) by blast
  obtain x where x: "x \<in> set (the (Q1 (ready_queue s1)))" "runnable s1 x"
  proof -
    from assms(5) consider y where "y \<in> woken_by_exit Q H c" | y where "y \<in> set (the (Q ?r))" "runnable s y" by blast
    then show thesis
    proof cases
      case 1
      then show ?thesis using wk[OF 1] s1(8) by (intro that[of y]) (simp_all add: runnable_def)
    next
      case 2
      then show ?thesis using run[OF 2] s1(8) by (intro that[of y]) simp_all
    qed
  qed
  obtain s' Q' where s': "scheduler arg1 TASK_EXITED s = Some s'" "sched_inv s' Q'" "dom Q' = dom Q1" "pcb s' = pcb s1"
    "current_running s' \<noteq> c" "get s' c STATUS = TASK_EXITED" "c \<notin> queued Q'" "waiters Q' c = []"
    "holds_ok s' L (H(c := []))"
    "\<forall>y \<in> pcbs (pcb s1). get s1 y STATUS = TASK_READY \<longrightarrow> y = current_running s' \<or> get s' y STATUS = TASK_READY"
    using exit_enters[OF s1(1,2,5) L cb1 cf1 s1(9,10) x] by metis
  have free: "kmem s' (l + lock_status) = UNLOCKED" if l: "l \<in> set (H c)" for l
  proof -
    have "set (H p) \<inter> set (H c) = {}" if "p \<in> pcbs (pcb s)" "p \<noteq> c" for p using assms(3) cb that by (simp add: holds_ok_def)
    then have "\<not> (\<exists>p \<in> pcbs (pcb s'). l \<in> set ((H(c := [])) p))" using l s'(4) s1(7) by auto
    moreover have "l \<in> L" using holdsD(2)[OF assms(3) cb] l by blast
    ultimately show ?thesis using s'(9) by (simp add: holds_ok_def)
  qed
  have dm: "dom Q' = dom Q" using s'(3) s1(3) by simp
  have wk': "x = current_running s' \<or> get s' x STATUS = TASK_READY" if "x \<in> woken_by_exit Q H c" for x
    using wk[OF that] s'(10) s1(7) by auto
  show ?thesis
    by (intro exI[of _ s'] exI[of _ Q'] conjI ballI s'(1,2,5-9) dm free wk')
qed

text \<open>The sample system in which process 0 has taken the lock: it exits.\<close>

lemma sample_holder:
  defines "s \<equiv> hold 0x20c (ks (sample_sys []))"
  shows "sched_inv s (sampleQ(0x210 \<mapsto> []))" and "locks_ok s (dom (sampleQ(0x210 \<mapsto> []))) {0x20c}"
    and "holds_ok s {0x20c} ((\<lambda>_. [])(pcb_at 0x1000 0 := [0x20c]))" and "runnable s (pcb_at 0x1000 2)"
    and "current_running s = pcb_at 0x1000 0" and "ready_queue s = 0x100"
proof -
  let ?k = "ks (sample_sys [])" and ?c = "pcb_at 0x1000 0" and ?p = "pcb_at 0x1000 2" and ?Q = "sampleQ(0x210 \<mapsto> [])"
  have D: "dom ?Q = sampleD" by (simp add: sampleD_def)
  have H: "holds_ok ?k {0x20c} (\<lambda>_. [])" using start_inv[OF sample_start] by (simp add: mutex_inv_def)
  have L: "locks_ok ?k (dom ?Q) {0x20c}" unfolding D by (rule sample_locks)
  note h = hold_keeps[OF sample_sys_inv L H _ sample_unlocked[of "[]"], of ?c]
  show "sched_inv s ?Q" "holds_ok s {0x20c} ((\<lambda>_. [])(?c := [0x20c]))" using h(1,2) by (simp_all add: s_def)
  show "current_running s = ?c" "ready_queue s = 0x100" by (simp_all add: s_def hold_def store_def)
  show "locks_ok s (dom ?Q) {0x20c}" by (rule locks_cong[OF L]) (simp_all add: s_def hold_def store_def)
  have rep: "queue_rep (kmem ?k) (holding ?c) []" using holdsD(1)[OF H, of ?c] by (simp add: sample_pcbs)
  have ne: "cell ?p STATUS \<noteq> 0x20c" "cell ?p STATUS \<noteq> 0x34c" "cell ?p STATUS \<noteq> 0x350"
    using outside_cell[of "0x1000" _ ?p STATUS] sample_far sample_pcbs[of 2] by auto
  have "cell ?p STATUS \<noteq> cell ?c HOLDING_HEAD" "cell ?p STATUS \<noteq> cell ?c HOLDING_TAIL"
    by (simp_all add: cell_inj_idx NUM_MAX_TASK_def)
  then have "cell ?p STATUS \<notin> queue_cells (holding ?c) (insert 0x20c (set []))"
    using ne by (simp add: holding_cells layout)
  then have "get s ?p STATUS = get ?k ?p STATUS"
    using queue_push_frame[OF rep] ne(1) by (simp add: s_def hold_def store_def layout)
  moreover have "get ?k ?p STATUS = TASK_READY"
    using sample_get[of 2 STATUS] outside_cell[OF sample_far(1) sample_pcbs, of 2 STATUS]
    by (auto simp: sample_sys_def sample_two_def cell_inj_idx NUM_MAX_TASK_def)
  ultimately show "runnable s ?p" by (simp add: runnable_def)
qed

theorem exit_releases_locks_witness:
  "\<exists>s'. scheduler 0 TASK_EXITED (hold 0x20c (ks (sample_sys []))) = Some s' \<and>
     get s' (pcb_at 0x1000 0) STATUS = TASK_EXITED \<and> kmem s' 0x20c = UNLOCKED"
proof -
  note h = sample_holder
  have "\<exists>x \<in> set (the ((sampleQ(0x210 \<mapsto> [])) (ready_queue (hold 0x20c (ks (sample_sys [])))))).
      runnable (hold 0x20c (ks (sample_sys []))) x"
    unfolding h(6) using h(4) by simp
  then show ?thesis
    using exit_releases_locks[OF h(1-3) h(5)[symmetric], of 0] by (force simp: layout)
qed

end
