(* ===== verification/Spec2Isabelle.thy ===== *)
theory Spec2Isabelle
  imports Trap_Run Createimage Mailbox Programs Exiting
begin

text \<open>
  Verification of Tina 0.4, a small operating system for a 32-bit MIPS (Loongson 1C) with
  processes, locks, a file system, paging, a text screen and a network driver, and of the tool
  that builds its disk image. The theories model the C and assembler sources under
  \<^verbatim>\<open>src/\<close> as functions on explicit states and prove what makes each component correct.

  \<^bold>\<open>Parts and how they interact.\<close> The tool puts the boot block and the kernel on the disk; the
  boot block loads the kernel; \<open>_start\<close> initialises every component and becomes the first
  process. A process enters the kernel through an exception (system call, timer, network
  interrupt, TLB miss); \<open>exception_handler\<close> dispatches to the components; the scheduler may
  enter another process; the exit code loads the registers of whatever process is running then.

  \<^bold>\<open>Theories.\<close>
  \<^item> \<open>Prelude\<close>, \<open>Bytes\<close>, \<open>Cstring\<close>: words and memory, byte encodings, loops with early exit
    (\<open>for_each\<close>), and \<^verbatim>\<open>libs/string.c\<close>. An access outside an object is \<open>None\<close>.
  \<^item> \<open>Queue\<close> (\<^verbatim>\<open>kernel/sched/queue.c\<close>): intrusive queues in a word memory. They refine lists
    (locale of FIFO queues, interpreted on the operations); \<open>queue_has\<close> ends and decides
    membership; removal from the middle leaves a stale link.
  \<^item> \<open>Kernel\<close> (\<^verbatim>\<open>include/os/sched.h\<close>): the layout of \<open>pcb_t\<close>, the state \<open>kstate\<close> of the kernel
    and of the processor, and the family of all queues that hold processes.
  \<^item> \<open>Sched\<close>, \<open>Sched_Inv\<close>, \<open>Switch\<close> (\<^verbatim>\<open>kernel/sched/sched.c\<close>, \<^verbatim>\<open>time.c\<close>, the context switch of
    \<^verbatim>\<open>arch/mips/kernel/entry.S\<close>): the scheduler as the two switches and the search loop of the
    source. The invariant \<open>sched_inv\<close> (well-formed, disjoint queues and matching states) is kept
    by ticks and blocking; which process is entered; that a ready process is served after as
    many ticks as its position; contexts are saved and loaded; the loop never ends when every
    process sleeps.
  \<^item> \<open>Proc\<close> (\<^verbatim>\<open>kernel/sched/proc.c\<close>, \<open>init_pcb\<close> of \<^verbatim>\<open>init/main.c\<close>): spawn, kill, wait, exit, and the
    first process.
  \<^item> \<open>Sync\<close>, \<open>Sync_Inv\<close>, \<open>Mutex\<close> (\<^verbatim>\<open>kernel/locking/\<close>): spin locks, mutexes, conditions,
    semaphores, barriers. Operations that block are programs of kernel statements; a step
    relation interleaves disciplined processes, which take no lock that they hold and release only
    locks that they hold, each as the oldest or newest of their list (the code does not check this,
    and without it a lock stays on a list while it is free, \<open>release_in_the_middle\<close>). In every state
    that such processes reach: mutual exclusion, and the kernel is not stuck. Semaphores.
  \<^item> \<open>Exiting\<close> (the case \<open>TASK_EXITED\<close> of \<open>scheduler\<close>): an exit gives back every lock of the process
    and wakes whoever waited for one of them or for its end.
  \<^item> \<open>Mailbox\<close> (\<^verbatim>\<open>libs/mailbox.c\<close>): the table of mailboxes and the ring buffers, as a step relation
    of senders and receivers over semaphores seen as counts (that \<open>do_semaphore_up\<close> and
    \<open>do_semaphore_down\<close> implement such counts is not proved as a refinement). One sender and one receiver exchange bytes in
    order and never leave the buffer; two senders do leave it.
  \<^item> \<open>Bitmap\<close>, \<open>Disk\<close>, \<open>Dentry\<close>, \<open>Fs\<close>, \<open>Splitting\<close>, \<open>Path\<close>, \<open>Text\<close> (\<^verbatim>\<open>kernel/fs/\<close>): the inode map, sectors,
    inodes and blocks over a card driver, directory blocks, making and mounting a file system,
    path names and directory commands, files. Round trips through the card, path lookup equals
    following the tree, allocation is fresh, what is written is what \<open>cat\<close> passes to \<open>printf\<close>, which
    prints the first 255 bytes.
  \<^item> \<open>Mm\<close> (\<^verbatim>\<open>kernel/mm/memory.c\<close>): page table, frames, TLB refill; frames are never shared.
  \<^item> \<open>Printk\<close>, \<open>Screen\<close> (\<^verbatim>\<open>libs/printk.c\<close>, \<^verbatim>\<open>drivers/screen.c\<close>, \<^verbatim>\<open>arch/mips/pmon/common.c\<close>): formatted
    output against a reference, and the screen driver against a model of a VT100: after a
    refresh the terminal shows the wanted image.
  \<^item> \<open>Mac\<close>, \<open>Mac_Send\<close> (\<^verbatim>\<open>drivers/mac.c\<close>, \<^verbatim>\<open>mac_support.c\<close>, \<^verbatim>\<open>mac.h\<close>): the network driver with its
    three tasks. Descriptor rings (linked by physical addresses, with buffers named by virtual ones), the send task delivers its packets, the hardware address,
    the receive interrupt.
  \<^item> \<open>Createimage\<close> (\<^verbatim>\<open>tools/createimage.c\<close>, \<^verbatim>\<open>arch/mips/boot/bootblock.S\<close>): the layout of the image,
    and that the boot block loads every segment of the kernel to its address.
  \<^item> \<open>Trap\<close>, \<open>Trap_Run\<close> (\<^verbatim>\<open>kernel/irq/irq.c\<close>, \<^verbatim>\<open>kernel/syscall/syscall.c\<close>, \<^verbatim>\<open>include/sys/syscall.h\<close>,
    the exception entries of \<^verbatim>\<open>entry.S\<close>, \<open>_start\<close> of \<^verbatim>\<open>init/main.c\<close>): the whole system. System calls
    and TLB misses from the user program and back; every function that user programs call reaches
    the kernel function of its name, over the table that \<open>init_syscall\<close> fills.
  \<^item> \<open>Shell\<close>, \<open>Shell_Run\<close>, \<open>Programs\<close> (\<^verbatim>\<open>test/\<close>): the shell and the programs that it starts. The
    line editor implements lists of characters, a line runs the command that its first word
    names (\<open>Splitting\<close> has the loops that cut lines and paths into words), a typed \<open>mkdir\<close> ends
    as a directory on the card, and the file test prints back what it wrote.
  \<^item> This theory holds the properties that span all of it: the timer interrupt, preemption and
    resumption, and that start-up establishes the invariant of every component.

  \<^bold>\<open>State.\<close> Kernel data that the sources reach through pointers (process blocks, queues, locks,
  descriptors) is in one memory of words, with the offsets of the structs; link-time addresses
  are fields of the state. Data that only one component touches (page table, images of the
  screen, inode map) is a record of lists. Machine integers are 32-bit words; signed
  comparisons are written out.

  \<^bold>\<open>Loops.\<close> Bounded loops are folds or structural recursion. Loops that may run forever
  (\<open>queue_has\<close>, \<open>do_unblock_all\<close>, \<open>release_holding\<close>, the search of the scheduler, spin locks, waits
  for the card, path decoding, the programs of the processes) are partial functions into
  \<open>option\<close>: \<open>None\<close> is a loop that does not end or an access that C leaves undefined. The theorems
  prove that they return.

  \<^bold>\<open>Parameters.\<close> Code and hardware that is not in the sources is a parameter: the card driver of
  the firmware, the serial port, for output through the firmware (locale
  \<open>serial_port\<close>) and for input (locale \<open>serial_in\<close>), the network card (locales
  \<open>transmitter\<close>, \<open>address_registers\<close>), the disk of the boot block (locale \<open>firmware_card\<close>), and what
  compiled C code leaves in the registers. Each has a concrete instance.

  \<^bold>\<open>Not modelled.\<close> \<open>latency\<close>, a busy wait on a clock that only interrupts advance; the single-register
  accessors of \<^verbatim>\<open>entry.S\<close>, which the models use as fields of the state; \<open>write_to_buf\<close> of
  \<^verbatim>\<open>test/edit.c\<close>, which nothing calls; prototypes, and the register names of \<^verbatim>\<open>drivers/mac.h\<close> and
  \<^verbatim>\<open>arch/mips/include/regs.h\<close> that no code uses; caches, and the timing of interrupts inside the few
  instructions of \<open>embryo_start\<close>. Between the shell and the system calls it makes, the shell's own
  stack and the exception are left out: \<open>sys_spawn\<close> is \<open>spawn\<close>, output is a sequence of calls, and a
  round of its loop is one step with no other process in between.
\<close>

text \<open>
  C1: An interrupt of the timer, from the entry of the exception to the return to user mode: it
  always returns, refreshes the terminal, saves the registers of the interrupted process in its
  user context and goes on in the first process of the ready queue that can run, with the
  registers of that process (or in the same process with its own). The one register that is
  lost is \<open>t0\<close>, which the entry code overwrites with the status before it is saved.
\<close>

theorem timer_interrupt_switches:
  assumes "serial_port (firmware H) sent" and "screen_ready sent t S"
    and "sched_inv (ker S) Q" and "Q (ready_queue (ker S)) = Some rs"
    and "timer_cause (cp0_cause (ker S))" and "prog S (next_process (ker S) rs) = []"
  shows "\<exists>S' Q'. exception_handler_entry H S = Some S' \<and> sched_inv (ker S') Q' \<and>
    current_running (ker S') = next_process (ker S) rs \<and>
    context_is (ker S') (current_running (ker S)) (ker S) \<and>
    context_is (if current_running (ker S') = current_running (ker S) then ker S' else ker S) (current_running (ker S')) (ker S') \<and>
    gpr (ker S') 8 = get (ker S') (current_running (ker S')) (USER_CONTEXT CTX_STATUS) OR 1 \<and>
    shown (new_screen (scr S)) (vt_run (sent (port (scr S'))) t)"
  by (rule timer_runs[OF assms(1) _ _ assms(3-5) refl assms(6)])
    (use assms(2) in \<open>auto simp: screen_ready_def\<close>)

text \<open>
  C5: A process that is interrupted by the timer while another one can run, and that gets its
  turn at a later interrupt, goes on at the instruction where it was with all its registers
  except \<open>t0\<close>, whatever the other processes did with the registers in between, as long as
  nobody wrote its saved context.
\<close>

theorem preempted_process_resumes:
  assumes "serial_port (firmware H) sent" and "screen_ready sent t S"
    and "sched_inv (ker S) Q" and "Q (ready_queue (ker S)) = Some rs"
    and "timer_cause (cp0_cause (ker S))" and "prog S (next_process (ker S) rs) = []"
  shows "\<exists>S'. exception_handler_entry H S = Some S' \<and>
    (\<forall>U Q1 rs1. screen_ready sent t U \<and> sched_inv (ker U) Q1 \<and> Q1 (ready_queue (ker U)) = Some rs1 \<and>
      timer_cause (cp0_cause (ker U)) \<and> next_process (ker U) rs1 = current_running (ker S) \<and>
      current_running (ker U) \<noteq> current_running (ker S) \<and> prog U (current_running (ker S)) = [] \<and>
      (\<forall>i < 39. get (ker U) (current_running (ker S)) (USER_CONTEXT i) = get (ker S') (current_running (ker S)) (USER_CONTEXT i)) \<longrightarrow>
      (\<exists>U'. exception_handler_entry H U = Some U' \<and> current_running (ker U') = current_running (ker S) \<and>
        (\<forall>i \<in> set saved_regs - {8}. gpr (ker U') i = gpr (ker S) i) \<and>
        reg_hi (ker U') = reg_hi (ker S) \<and> reg_lo (ker U') = reg_lo (ker S) \<and> cp0_epc (ker U') = cp0_epc (ker S) \<and>
        gpr (ker U') 8 = (cp0_status (ker S) AND 0xfffe) OR 1))"
proof -
  let ?c = "current_running (ker S)"
  have scr: "screen_ok (screen_of S)" "shown (old_screen (scr S)) (vt_run (sent (port (scr S))) t)"
    using assms(2) by (simp_all add: screen_ready_def)
  obtain S' where S': "exception_handler_entry H S = Some S'" "context_is (ker S') ?c (ker S)"
    "get (ker S') ?c (USER_CONTEXT CTX_STATUS) = cp0_status (ker S) AND 0xfffe"
    by (rule timer_runs[OF assms(1) scr assms(3-5) refl assms(6)])
  have "\<exists>U'. exception_handler_entry H U = Some U' \<and> current_running (ker U') = ?c \<and>
        (\<forall>i \<in> set saved_regs - {8}. gpr (ker U') i = gpr (ker S) i) \<and>
        reg_hi (ker U') = reg_hi (ker S) \<and> reg_lo (ker U') = reg_lo (ker S) \<and> cp0_epc (ker U') = cp0_epc (ker S) \<and>
        gpr (ker U') 8 = (cp0_status (ker S) AND 0xfffe) OR 1"
    if "screen_ready sent t U" "sched_inv (ker U) Q1" "Q1 (ready_queue (ker U)) = Some rs1"
      "timer_cause (cp0_cause (ker U))" "next_process (ker U) rs1 = ?c" "current_running (ker U) \<noteq> ?c" "prog U ?c = []"
      and same: "\<forall>i < 39. get (ker U) ?c (USER_CONTEXT i) = get (ker S') ?c (USER_CONTEXT i)" for U Q1 rs1
  proof -
    have scr: "screen_ok (screen_of U)" "shown (old_screen (scr U)) (vt_run (sent (port (scr U))) t)"
      using that(1) by (simp_all add: screen_ready_def)
    note ne = that(6)[symmetric]
    note tr = timer_runs[OF assms(1) scr that(2-4) that(5)[symmetric] that(7)]
    obtain U' where U': "exception_handler_entry H U = Some U'" "current_running (ker U') = ?c" "context_is (ker U) ?c (ker U')"
      "gpr (ker U') 8 = get (ker U') ?c (USER_CONTEXT CTX_STATUS) OR 1"
      "get (ker U') ?c (USER_CONTEXT CTX_STATUS) = get (ker U) ?c (USER_CONTEXT CTX_STATUS)"
      by (rule tr) (use ne in blast)
    have "context_is (ker S') ?c (ker U')" using U'(3) context_is_cong[of "ker U" ?c "ker S'"] same by simp
    from context_is_unique[OF S'(2) this] show ?thesis
      using U' S'(3) same by (auto simp: CTX_STATUS_def)
  qed
  then show ?thesis using S'(1) by blast
qed

section \<open>Start-up\<close>

lemma copy_words_kern:
  "\<exists>m. kern (copy_words dst src n s) = (kern s)\<lparr>kmem := m\<rparr> \<and>
    (\<forall>x. x \<notin> (\<lambda>j. dst + 4 * word_of_nat j) ` {..<n} \<longrightarrow> m x = kmem (kern s) x)"
proof (induction n)
  case 0
  show ?case by (intro exI[of _ "kmem (kern s)"]) (simp add: copy_words_def)
next
  case (Suc n)
  then obtain m where m: "kern (copy_words dst src n s) = (kern s)\<lparr>kmem := m\<rparr>"
    "\<forall>x. x \<notin> (\<lambda>j. dst + 4 * word_of_nat j) ` {..<n} \<longrightarrow> m x = kmem (kern s) x" by blast
  let ?m = "m(dst + 4 * word_of_nat n := load (src + 4 * word_of_nat n) (copy_words dst src n s))"
  have "kern (copy_words dst src (Suc n) s) = (kern s)\<lparr>kmem := ?m\<rparr>"
    using m(1) by (simp add: copy_words_def save_def)
  then show ?case using m(2) by (intro exI[of _ ?m]) (simp add: lessThan_Suc, simp add: fun_upd_def)
qed

text \<open>The words that the two copies write.\<close>

definition vector_area :: "vectors \<Rightarrow> u32 set" where
  "vector_area V =
     (\<lambda>j. 0x80000180 + 4 * word_of_nat j) ` {..<unat (exception_handler_end V - exception_handler_begin V) div 4} \<union>
     (\<lambda>j. 0x80000000 + 4 * word_of_nat j) ` {..<unat (TLBexception_handler_end V - TLBexception_handler_begin V) div 4}"

lemma init_exception_kern:
  obtains m where "ker (init_exception V S) = (ker S)\<lparr>kmem := m\<rparr>"
    and "\<And>x. x \<notin> vector_area V \<Longrightarrow> m x = kmem (ker S) x"
proof -
  define n where "n = copy_words 0x80000180 (exception_handler_begin V)
    (unat (exception_handler_end V - exception_handler_begin V) div 4) (net S)"
  obtain m1 where m1: "kern n = (ker S)\<lparr>kmem := m1\<rparr>" "\<And>x. x \<notin> vector_area V \<Longrightarrow> m1 x = kmem (ker S) x"
    using copy_words_kern[of "0x80000180" "exception_handler_begin V"
      "unat (exception_handler_end V - exception_handler_begin V) div 4" "net S"] unfolding n_def vector_area_def by blast
  obtain m2 where "kern (copy_words 0x80000000 (TLBexception_handler_begin V)
      (unat (TLBexception_handler_end V - TLBexception_handler_begin V) div 4) n) = (kern n)\<lparr>kmem := m2\<rparr>"
    "\<And>x. x \<notin> vector_area V \<Longrightarrow> m2 x = kmem (kern n) x"
    using copy_words_kern[of "0x80000000" "TLBexception_handler_begin V"
      "unat (TLBexception_handler_end V - TLBexception_handler_begin V) div 4" n] unfolding vector_area_def by blast
  then show thesis using m1 by (intro that[of m2]) (simp_all add: init_exception_def init_exception_handler_def n_def[symmetric])
qed

lemma init_exception_rest [simp]:
  "scr (init_exception V S) = scr S" "vm (init_exception V S) = vm S" "syscall (init_exception V S) = syscall S"
  "prog (init_exception V S) = prog S"
  by (simp_all add: init_exception_def init_exception_handler_def Let_def)

text \<open>Plain text leaves the terminal in its ground state.\<close>

lemma vt_run_ground: "vmode t = Ground \<Longrightarrow> 0x1b \<notin> set bs \<Longrightarrow> vmode (vt_run bs t) = Ground"
  by (induction bs arbitrary: t) (auto simp: vt_byte_def)

lemma greeting:
  assumes "serial_port (firmware H) sent" and "vmode (vt_run (sent (port (scr S))) t) = Ground"
  obtains p where "say H (''Hello, Tina 0.2'' @ newline) [] S = Some (S\<lparr>scr := (scr S)\<lparr>port := p\<rparr>\<rparr>)"
    and "vmode (vt_run (sent p) t) = Ground"
proof -
  let ?t = "[0x48, 0x65, 0x6c, 0x6c, 0x6f, 0x2c, 0x20, 0x54, 0x69, 0x6e, 0x61, 0x20, 0x30, 0x2e, 0x32, 0x0a] :: u8 list"
  have b: "map of_char (''Hello, Tina 0.2'' @ newline) = ?t" by (simp add: of_char_def)
  have "format_text (literal (map of_char (''Hello, Tina 0.2'' @ newline))) [] = Some ?t"
    unfolding b by (simp add: literal_def)
  from serial_port.printk_sends[OF assms(1) this, of "port (scr S)"] obtain p where
    p: "Screen.printk (firmware H) (literal (map of_char (''Hello, Tina 0.2'' @ newline))) [] (port (scr S)) = Some (length ?t, p)"
      "sent p = sent (port (scr S)) @ ?t" by auto
  have "vmode (vt_run (sent p) t) = Ground" unfolding p(2) using vt_run_ground[OF assms(2), of ?t] by simp
  then show thesis using p(1) by (intro that[of p]) (simp_all only: say_def list.map, simp_all)
qed

text \<open>
  What the linker and the zeroed memory provide: the queues do not overlap, the \<open>waiting\<close>
  queues are empty, and neither the exception vectors nor the descriptor of the shell lie in
  the blocks.
\<close>

definition boot_layout :: "vectors \<Rightarrow> u32 set \<Rightarrow> u32 \<Rightarrow> kstate \<Rightarrow> bool" where
  "boot_layout V D shell s \<longleftrightarrow>
     queue_addrs_ok (pcb s) D \<and> D = insert (ready_queue s) (waiting ` pcbs (pcb s)) \<and>
     ready_queue s \<notin> waiting ` pcbs (pcb s) \<and> task_ok s (empty_queues D) shell \<and>
     (\<forall>p \<in> pcbs (pcb s). kmem s (cell p WAITING_HEAD) = NULL \<and> kmem s (cell p WAITING_TAIL) = NULL \<and>
        cell p WAITING_HEAD \<notin> vector_area V \<and> cell p WAITING_TAIL \<notin> vector_area V)"

text \<open>The first half of \<open>_start\<close>: up to the first process, only the vectors and variables change.\<close>

lemma start_prefix:
  assumes port: "serial_port (firmware H) sent" and ground: "vmode (vt_run (sent (port (scr S))) t) = Ground"
    and table: "syscall S = replicate NUM_SYSCALLS None"
  obtains S3 p where "kernel_start H V shell S = do {
      S \<leftarrow> on_screen (init_screen (firmware H)) (set_ker (init_pcb shell (ker S3)) S3);
      Some (set_ker (fire (ker S)) S) }"
    and "vmode (vt_run (sent p) t) = Ground" and "scr S3 = (scr S)\<lparr>port := p\<rparr>" and "vm S3 = init_page_table (vm S)"
    and "table_ready S3" and "pcb (ker S3) = pcb (ker S)" and "ready_queue (ker S3) = ready_queue (ker S)"
    and "process_id (ker S3) = 1" and "\<And>x. x \<notin> vector_area V \<Longrightarrow> kmem (ker S3) x = kmem (ker S) x"
proof -
  define S1 where "S1 = asm_start S"
  have S1: "scr S1 = scr S" "vm S1 = vm S" "syscall S1 = syscall S" "kmem (ker S1) = kmem (ker S)" "pcb (ker S1) = pcb (ker S)"
    "ready_queue (ker S1) = ready_queue (ker S)"
    by (simp_all add: S1_def asm_start_def Let_def rst_clk_def set_ker_def)
  obtain p where p: "say H (''Hello, Tina 0.2'' @ newline) [] S1 = Some (S1\<lparr>scr := (scr S1)\<lparr>port := p\<rparr>\<rparr>)"
    "vmode (vt_run (sent p) t) = Ground"
    using greeting[OF port, of S1 t] ground S1(1) by auto
  define S2 where "S2 = set_ker (init_variables (ker S1)) (S1\<lparr>scr := (scr S1)\<lparr>port := p\<rparr>\<rparr>)"
  obtain m where m: "ker (init_exception V S2) = (ker S2)\<lparr>kmem := m\<rparr>" "\<And>x. x \<notin> vector_area V \<Longrightarrow> m x = kmem (ker S2) x"
    by (rule init_exception_kern) blast
  define S3 where "S3 = init_syscall (init_memory (init_exception V S2))"
  have k3: "ker S3 = (ker S2)\<lparr>kmem := m\<rparr>" by (simp add: S3_def init_syscall_def set_handlers init_memory_def m(1))
  have s3: "scr S3 = (scr S)\<lparr>port := p\<rparr>" "vm S3 = init_page_table (vm S)"
    by (simp_all add: S3_def init_syscall_def set_handlers init_memory_def S2_def S1 set_ker_def)
  have t3: "table_ready S3"
    unfolding S3_def by (rule init_syscall_table) (simp add: init_memory_def S2_def S1 table set_ker_def)
  have k2: "pcb (ker S3) = pcb (ker S)" "ready_queue (ker S3) = ready_queue (ker S)" "process_id (ker S3) = 1" "kmem (ker S2) = kmem (ker S)"
    unfolding k3 by (simp_all add: S2_def init_variables_def S1 set_ker_def)
  have "kernel_start H V shell S = do {
      S \<leftarrow> on_screen (init_screen (firmware H)) (set_ker (init_pcb shell (ker S3)) S3);
      Some (set_ker (fire (ker S)) S) }"
    using p(1) by (simp add: kernel_start_def S1_def[symmetric] S2_def[symmetric] S3_def[symmetric])
  then show thesis using p(2) s3 t3 k2 m(2) by (intro that[of S3 p]) (simp_all add: k3)
qed

text \<open>The first process, on memory that the linker has laid out.\<close>

lemma first_process:
  assumes lay: "boot_layout V D shell k" and k3: "pcb k3 = pcb k" "ready_queue k3 = ready_queue k" "process_id k3 = 1"
    and m: "\<And>x. x \<notin> vector_area V \<Longrightarrow> kmem k3 x = kmem k x"
  shows "sched_inv (init_pcb shell k3) (empty_queues D) \<and> current_running (init_pcb shell k3) = pcb_at (pcb k) 0 \<and>
    get (init_pcb shell k3) (pcb_at (pcb k) 0) PID = 1 \<and>
    (\<forall>i. 0 < i \<longrightarrow> i < NUM_MAX_TASK \<longrightarrow> get (init_pcb shell k3) (pcb_at (pcb k) i) STATUS = TASK_EXITED)"
proof -
  have "queue_addrs_ok (pcb k3) D" "D = insert (ready_queue k3) (waiting ` pcbs (pcb k3))"
    "ready_queue k3 \<notin> waiting ` pcbs (pcb k3)"
    using lay unfolding boot_layout_def k3(1,2) by blast+
  moreover have "\<forall>p \<in> pcbs (pcb k3). kmem k3 (cell p WAITING_HEAD) = NULL \<and> kmem k3 (cell p WAITING_TAIL) = NULL"
    using lay m unfolding boot_layout_def k3(1) by simp
  moreover have "task_ok k3 (empty_queues D) shell"
    using lay unfolding boot_layout_def task_ok_def k3(1) by blast
  ultimately have "sched_inv (init_pcb shell k3) (empty_queues D) \<and> current_running (init_pcb shell k3) = pcb_at (pcb k3) 0 \<and>
      get (init_pcb shell k3) (pcb_at (pcb k3) 0) STATUS = TASK_EMBRYO \<and>
      get (init_pcb shell k3) (pcb_at (pcb k3) 0) PID = process_id k3 \<and>
      (\<forall>i. 0 < i \<longrightarrow> i < NUM_MAX_TASK \<longrightarrow> get (init_pcb shell k3) (pcb_at (pcb k3) i) STATUS = TASK_EXITED)"
    by (rule init_pcb_inv)
  then show ?thesis using k3 by simp
qed

text \<open>
  C4: \<open>_start\<close> returns and leaves every component in a state that satisfies its invariant: the
  shell is the running process with id 1, every other block is free and all queues are empty;
  the page table is empty; every system call is in the table; the terminal is blank and the
  images agree with it; interrupts are on and the clock is set.
\<close>

theorem kernel_start_establishes:
  assumes port: "serial_port (firmware H) sent" and ground: "vmode (vt_run (sent (port (scr S))) t) = Ground"
    and size: "length (new_screen (scr S)) = 2400" "length (old_screen (scr S)) = 2400"
    and table: "syscall S = replicate NUM_SYSCALLS None"
    and pages: "length (page_entrys (vm S)) = 0x2000" "pf_count (vm S) = 0"
    and lay: "boot_layout V D shell (ker S)"
  shows "\<exists>S'. kernel_start H V shell S = Some S' \<and> sched_inv (ker S') (empty_queues D) \<and>
    current_running (ker S') = pcb_at (pcb (ker S)) 0 \<and> get (ker S') (pcb_at (pcb (ker S)) 0) PID = 1 \<and>
    (\<forall>i. 0 < i \<longrightarrow> i < NUM_MAX_TASK \<longrightarrow> get (ker S') (pcb_at (pcb (ker S)) i) STATUS = TASK_EXITED) \<and>
    mm_inv (vm S') \<and> table_ready S' \<and> screen_ready sent t S' \<and>
    displays (vt_run (sent (port (scr S'))) t) (replicate 2400 0x20) \<and>
    cp0_status (ker S') = 0xff01 \<and> cp0_compare (ker S') = 0x10000 \<and> cp0_count (ker S') = 0"
proof -
  obtain S3 p where pre: "kernel_start H V shell S = do {
      S \<leftarrow> on_screen (init_screen (firmware H)) (set_ker (init_pcb shell (ker S3)) S3);
      Some (set_ker (fire (ker S)) S) }"
    and p: "vmode (vt_run (sent p) t) = Ground" and s3: "scr S3 = (scr S)\<lparr>port := p\<rparr>" "vm S3 = init_page_table (vm S)"
    and t3: "table_ready S3" and k3: "pcb (ker S3) = pcb (ker S)" "ready_queue (ker S3) = ready_queue (ker S)"
      "process_id (ker S3) = 1" "\<And>x. x \<notin> vector_area V \<Longrightarrow> kmem (ker S3) x = kmem (ker S) x"
    using start_prefix[OF port ground table] by blast
  define k4 where "k4 = init_pcb shell (ker S3)"
  note i4 = first_process[OF lay k3, folded k4_def]
  define s4 where "s4 = screen_of (set_ker k4 S3)"
  have s4: "length (new_screen s4) = 2400" "length (old_screen s4) = 2400" "port s4 = p"
    using size s3 by (simp_all add: s4_def screen_of_def)
  obtain q where q: "init_screen (firmware H) s4 = Some (s4\<lparr>new_screen := replicate 2400 0x20, screen_cursor_x := 0,
      screen_cursor_y := 0, old_screen := replicate 2400 0x20, port := q\<rparr>)" "shown (replicate 2400 0x20) (vt_run (sent q) t)"
    using serial_port.init_screen_shows[OF port s4(1,2), of t] p s4(3) by auto
  define s5 where "s5 = s4\<lparr>new_screen := replicate 2400 0x20, screen_cursor_x := 0, screen_cursor_y := 0,
      old_screen := replicate 2400 0x20, port := q\<rparr>"
  define k5 where "k5 = fire (k4\<lparr>kstate.screen_cursor_x := 0, kstate.screen_cursor_y := 0\<rparr>)"
  define S' where "S' = set_ker k5 (S3\<lparr>scr := s5\<rparr>)"
  have k5: "kmem k5 = kmem k4" "pcb k5 = pcb k4" "ready_queue k5 = ready_queue k4" "current_running k5 = current_running k4"
    "cp0_status k5 = 0xff01" "cp0_compare k5 = 0x10000" "cp0_count k5 = 0"
    "kstate.screen_cursor_x k5 = 0" "kstate.screen_cursor_y k5 = 0"
    by (simp_all add: k5_def fire_def rst_clk_def Let_def)
  have run: "kernel_start H V shell S = Some S'"
    using q(1) by (simp add: pre k4_def[symmetric] on_screen_def s4_def[symmetric] s5_def[symmetric] k5_def S'_def)
      (simp add: set_ker_def s5_def)
  have "sched_inv k5 (empty_queues D)" by (rule sched_inv_regs[OF conjunct1[OF i4]]) (simp_all add: k5)
  moreover have "mm_inv (vm S')" using init_page_table_inv[OF pages] s3(2) by (simp add: S'_def set_ker_def)
  moreover have "table_ready S'" using t3 by (simp add: S'_def table_ready_def)
  moreover have "screen_ready sent t S'"
    using q(2) by (simp add: screen_ready_def screen_of_def S'_def s5_def screen_ok_def screen_wf_def k5 list_all_iff)
  moreover have "displays (vt_run (sent q) t) (replicate 2400 0x20)" by (rule displays_all[OF q(2)]) (simp_all add: list_all_iff)
  ultimately show ?thesis using run i4 k5 by (intro exI[of _ S']) (simp add: S'_def s5_def)
qed

abbreviation interrupted :: kstate where
  "interrupted \<equiv> sample\<lparr>cp0_cause := 0x8000\<rparr>"

lemma interrupted_facts:
  "sched_inv interrupted sampleQ" "next_process interrupted [pcb_at 0x1000 1, pcb_at 0x1000 2] = pcb_at 0x1000 2"
  "screen_ready (\<lambda>p. p) blank_vt (sample_system interrupted)" "timer_cause 0x8000"
  "left_over interrupted [pcb_at 0x1000 1, pcb_at 0x1000 2] = [pcb_at 0x1000 2]"
proof -
  show "sched_inv interrupted sampleQ" by (rule sched_inv_regs[OF sample_two_inv]) simp_all
  have r: "runnable interrupted = runnable sample" by (auto simp: fun_eq_iff runnable_def get_timer_def)
  show "next_process interrupted [pcb_at 0x1000 1, pcb_at 0x1000 2] = pcb_at 0x1000 2"
    unfolding next_process_def r sample_two_search by simp
  have "\<not> runnable sample (pcb_at 0x1000 1)" "runnable sample (pcb_at 0x1000 2)"
    using sample_two_search by (auto simp: pcb_at_inj NUM_MAX_TASK_def split: if_splits)
  then show "left_over interrupted [pcb_at 0x1000 1, pcb_at 0x1000 2] = [pcb_at 0x1000 2]" by (simp add: left_over_def r)
  show "screen_ready (\<lambda>p. p) blank_vt (sample_system interrupted)"
    using blank_screen_ok by (simp add: screen_ready_def screen_of_def screen_ok_def screen_wf_def sample_def sample_kernel_def)
  show "timer_cause 0x8000" by (simp add: timer_cause_def exccode_of_def ExcCode_def INT_code_def)
qed

theorem timer_interrupt_switches_witness:
  "\<exists>S'. exception_handler_entry sample_platform (sample_system interrupted) = Some S' \<and>
     current_running (ker S') = pcb_at 0x1000 2 \<and> get (ker S') (pcb_at 0x1000 0) (USER_CONTEXT 29) = 29 \<and>
     context_is interrupted (pcb_at 0x1000 2) (ker S')"
  using timer_interrupt_switches[OF sample_port, of blank_vt "sample_system interrupted" sampleQ "[pcb_at 0x1000 1, pcb_at 0x1000 2]"]
    interrupted_facts by (auto simp: context_is_def saved_regs_def pcb_at_inj NUM_MAX_TASK_def)

text \<open>Two interrupts: the second brings the first process back.\<close>

abbreviation again :: "(test_card, u8 list) system \<Rightarrow> (test_card, u8 list) system" where
  "again S \<equiv> set_ker ((ker S)\<lparr>cp0_cause := 0x8000, gpr := (\<lambda>_. 0), cp0_epc := 0x4444\<rparr>) S"

theorem preempted_process_resumes_witness:
  "\<exists>S' U'. exception_handler_entry sample_platform (sample_system interrupted) = Some S' \<and>
     exception_handler_entry sample_platform (again S') = Some U' \<and>
     current_running (ker U') = pcb_at 0x1000 0 \<and> gpr (ker U') 29 = 29 \<and> cp0_epc (ker U') = 0 \<and> gpr (ker U') 8 = 0xff01"
proof -
  let ?S = "sample_system interrupted" and ?p = "pcb_at 0x1000 2" and ?c = "pcb_at 0x1000 0" and ?rs = "[pcb_at 0x1000 1, pcb_at 0x1000 2]"
  have sr: "screen_ok (screen_of ?S)" "shown (old_screen (scr ?S)) (vt_run (port (scr ?S)) blank_vt)"
    using interrupted_facts(3) by (simp_all add: screen_ready_def)
  have pc: "?p \<noteq> ?c" by (simp add: pcb_at_inj NUM_MAX_TASK_def)
  have rn: "\<exists>x \<in> set ?rs. runnable interrupted x"
    using interrupted_facts(5) by (auto simp: left_over_def split: if_splits)
  have inv: "sched_inv (ker ?S) sampleQ" "sampleQ (ready_queue (ker ?S)) = Some ?rs" "timer_cause (cp0_cause (ker ?S))"
    "?p = next_process (ker ?S) ?rs" "prog ?S ?p = []" using interrupted_facts by simp_all
  obtain S' Q' ys where S': "exception_handler_entry sample_platform ?S = Some S'" "sched_inv (ker S') Q'"
    "ready_queue (ker S') = 0x100" "current_running (ker S') = ?p" "shown (new_screen blank_screen) (vt_run (port (scr S')) blank_vt)"
    "prog S' = (\<lambda>_. [])" "new_screen (scr S') = new_screen blank_screen" "old_screen (scr S') = new_screen blank_screen"
    "kstate.screen_cursor_x (ker S') = get interrupted ?p CURSOR_X" "kstate.screen_cursor_y (ker S') = get interrupted ?p CURSOR_Y"
    "get (ker S') ?c STATUS = TASK_READY" "Q' 0x100 = Some (?c # ys)"
    by (rule timer_runs[OF sample_port sr inv]) (use pc rn interrupted_facts(5) in auto)
  have z: "get interrupted ?p f = 0" if "f \<in> {CURSOR_X, CURSOR_Y}" for f
    using that sample_get[of 2 f] by (auto simp: sample_two_def cell_inj_idx NUM_MAX_TASK_def)
  have nx: "next_process (ker (again S')) (?c # ys) = ?c"
    using S'(11) by (simp add: next_process_def runnable_def)
  have "screen_ready (\<lambda>p. p) blank_vt (again S')"
    using S'(5,7-10) z blank_screen_ok(1) by (simp add: screen_ready_def screen_of_def screen_ok_def screen_wf_def)
  moreover have "sched_inv (ker (again S')) Q'" by (rule sched_inv_regs[OF S'(2)]) simp_all
  ultimately show ?thesis
    using preempted_process_resumes[OF sample_port interrupted_facts(3), of sampleQ ?rs] inv S' nx pc interrupted_facts(4)
    by (fastforce simp: saved_regs_def sample_def sample_kernel_def)
qed

definition sample_vectors :: vectors where
  "sample_vectors = \<lparr>exception_handler_begin = 0xa0800400, exception_handler_end = 0xa0800500,
     TLBexception_handler_begin = 0xa0800500, TLBexception_handler_end = 0xa0800580\<rparr>"

theorem kernel_start_establishes_witness:
  "\<exists>S'. kernel_start sample_platform sample_vectors 0x700 (sample_system (sample_kernel [] (\<lambda>_. 0) 0)) = Some S' \<and>
     current_running (ker S') = pcb_at 0x1000 0 \<and> get (ker S') (pcb_at 0x1000 0) PID = 1 \<and> cp0_status (ker S') = 0xff01"
proof -
  let ?D = "insert 0x100 (waiting ` pcbs 0x1000)"
  have v: "cell p f \<notin> vector_area sample_vectors" if "p \<in> pcbs 0x1000" "field_ok f" for p f
  proof -
    have o: "outside 0x1000 (0x80000180 + 4 * word_of_nat j)" "outside 0x1000 (0x80000000 + 4 * word_of_nat j)" if "j < 64" for j
      using that unat_word_small[of "0x7ffff180 + 4 * j"] unat_word_small[of "0x7ffff000 + 4 * j"]
      by (simp_all add: outside_def sizeof_pcb_def NUM_MAX_TASK_def)
    have c: "cell p f \<noteq> 0x80000180 + 4 * word_of_nat j" "cell p f \<noteq> 0x80000000 + 4 * word_of_nat j" if "j < 64" for j
      using outside_cell[OF o(1)[OF that] \<open>p \<in> pcbs 0x1000\<close> \<open>field_ok f\<close>] outside_cell[OF o(2)[OF that] \<open>p \<in> pcbs 0x1000\<close> \<open>field_ok f\<close>]
      by simp_all
    show ?thesis using c(1) c(2)[OF less_trans[of _ 32]] by (auto simp: vector_area_def sample_vectors_def image_iff)
  qed
  have "boot_layout sample_vectors ?D 0x700 (sample_kernel [] (\<lambda>_. 0) 0)"
    using sample_boot v by (simp add: boot_layout_def sample_mem_def)
  then show ?thesis
    using kernel_start_establishes[OF sample_port, of "sample_system (sample_kernel [] (\<lambda>_. 0) 0)" blank_vt sample_vectors ?D "0x700"]
    by (auto simp: blank_screen_def blank_vt_def sample_mm_def)
qed

end
